(* ===== verification/Conc_Prelude.thy ===== *)
theory Conc_Prelude
  imports Main "HOL-Library.Word"
begin

text \<open>
  Shared vocabulary of the development. The programs of the repository are small
  multi-threaded C++ programs. A thread is modelled by its local state (a program counter
  with the values of its local variables) and by a function that lists the possible
  outcomes of its next atomic action on the shared state; the empty list means that the
  thread is blocked or has returned. Threads are interleaved in any order.
  The theory holds the interleaving relation, reachability, executable schedules, the
  counting of threads that are at a given place, and the two locales (an inductive
  invariant, a simulation of an abstract step relation) that every component interprets.
\<close>

section \<open>Threads and their interleavings\<close>

type_synonym ('g, 'l) thread = "nat \<Rightarrow> 'g \<Rightarrow> 'l \<Rightarrow> ('g \<times> 'l) list"
type_synonym ('g, 'l) conf = "'g \<times> 'l list"

text \<open>One atomic action of one thread.\<close>

inductive istep :: "('g, 'l) thread \<Rightarrow> ('g, 'l) conf \<Rightarrow> ('g, 'l) conf \<Rightarrow> bool" for T where
  istepI: "i < length ls \<Longrightarrow> (g', l') \<in> set (T i g (ls ! i)) \<Longrightarrow>
     istep T (g, ls) (g', ls[i := l'])"

inductive_cases istepE: "istep T c c'"
inductive_simps istep_iff: "istep T (g, ls) c'"

inductive reach :: "('g, 'l) thread \<Rightarrow> ('g, 'l) conf \<Rightarrow> ('g, 'l) conf \<Rightarrow> bool" for T c0 where
  reach_init: "reach T c0 c0"
| reach_step: "reach T c0 c \<Longrightarrow> istep T c c' \<Longrightarrow> reach T c0 c'"

text \<open>
  An executable scheduler: an entry \<open>(i, k)\<close> lets thread \<open>i\<close> take the \<open>k\<close>-th of its
  possible outcomes; \<open>None\<close> when there is no such outcome.
\<close>

fun sched :: "('g, 'l) thread \<Rightarrow> (nat \<times> nat) list \<Rightarrow> ('g, 'l) conf \<Rightarrow> ('g, 'l) conf option" where
  "sched T [] c = Some c"
| "sched T ((i, k) # ss) (g, ls) =
     (if i < length ls
      then let outs = T i g (ls ! i) in
           if k < length outs
           then sched T ss (fst (outs ! k), ls[i := snd (outs ! k)])
           else None
      else None)"

lemma reach_trans:
  assumes "reach T c1 c2" and "reach T c0 c1"
  shows "reach T c0 c2"
  using assms by (induction rule: reach.induct) (auto intro: reach.intros)

lemma istep_reach: "istep T c c' \<Longrightarrow> reach T c c'"
  by (blast intro: reach.intros)

lemma sched_reach: "sched T ss c = Some c' \<Longrightarrow> reach T c c'"
proof (induction T ss c rule: sched.induct)
  case (1 T c)
  then show ?case by (simp add: reach_init)
next
  case (2 T i k ss g ls)
  let ?o = "T i g (ls ! i) ! k"
  from "2.prems" have i: "i < length ls" and k: "k < length (T i g (ls ! i))"
    and r: "sched T ss (fst ?o, ls[i := snd ?o]) = Some c'"
    by (auto simp: Let_def split: if_splits)
  from k have "(fst ?o, snd ?o) \<in> set (T i g (ls ! i))" by simp
  with i have "istep T (g, ls) (fst ?o, ls[i := snd ?o])" by (rule istepI)
  moreover from "2.IH" [OF i refl k r] have "reach T (fst ?o, ls[i := snd ?o]) c'" .
  ultimately show ?case by (blast intro: reach_trans istep_reach)
qed

lemma reach_preserves:
  assumes "reach T c c'" and "I (fst c) (snd c)"
    and "\<And>g ls i g' l'. I g ls \<Longrightarrow> i < length ls \<Longrightarrow> (g', l') \<in> set (T i g (ls ! i)) \<Longrightarrow>
      I g' (ls[i := l'])"
  shows "I (fst c') (snd c')"
  using assms(1,2)
proof (induction rule: reach.induct)
  case reach_init
  then show ?case .
next
  case (reach_step c c')
  then show ?case by (auto elim!: istep.cases intro: assms(3))
qed

text \<open>What can be seen at the end of a schedule can be reached.\<close>

lemma sched_exI: "\<exists>g ls. sched T ss c = Some (g, ls) \<and> P g ls \<Longrightarrow> \<exists>g ls. reach T c (g, ls) \<and> P g ls"
  using sched_reach by blast

lemma sched_observe:
  assumes "map_option (\<lambda>(g, ls). f g ls) (sched T ss c) = Some v"
  shows "\<exists>g ls. reach T c (g, ls) \<and> f g ls = v"
  using assms sched_reach by fastforce

text \<open>A configuration in which no thread can take a step.\<close>

definition stuck :: "('g, 'l) thread \<Rightarrow> ('g, 'l) conf \<Rightarrow> bool" where
  "stuck T c \<longleftrightarrow> list_all (\<lambda>i. T i (fst c) (snd c ! i) = []) [0..<length (snd c)]"

lemma stuck_iff: "stuck T (g, ls) \<longleftrightarrow> (\<forall>i < length ls. T i g (ls ! i) = [])"
  by (auto simp: stuck_def list_all_iff)

lemma stuck_no_step: "stuck T c \<Longrightarrow> \<not> istep T c c'"
  by (auto simp: stuck_iff elim!: istep.cases)

section \<open>Counting threads\<close>

text \<open>
  \<open>cnt P ls\<close> is the number of threads whose local state satisfies \<open>P\<close>. As an integer,
  its change under a step is an unconditional equation, which linear arithmetic uses.
\<close>

definition cnt :: "('l \<Rightarrow> bool) \<Rightarrow> 'l list \<Rightarrow> int" where
  "cnt P ls = int (length (filter P ls))"

named_theorems counting

lemma cnt_Nil [simp, counting]: "cnt P [] = 0"
  by (simp add: cnt_def)

lemma cnt_Cons [simp, counting]: "cnt P (x # xs) = of_bool (P x) + cnt P xs"
  by (simp add: cnt_def)

lemma cnt_upd [counting]:
  "i < length ls \<Longrightarrow> cnt P (ls[i := l]) = cnt P ls - of_bool (P (ls ! i)) + of_bool (P l)"
proof (induction ls arbitrary: i)
  case Nil
  then show ?case by simp
next
  case (Cons x xs)
  then show ?case by (cases i) auto
qed

lemma cnt_nonneg [counting]: "0 \<le> cnt P ls"
  by (simp add: cnt_def)

lemma cnt_replicate [simp, counting]: "cnt P (replicate n x) = (if P x then int n else 0)"
  by (induction n) auto

lemma cnt_pos: "i < length ls \<Longrightarrow> P (ls ! i) \<Longrightarrow> 1 \<le> cnt P ls"
proof (induction ls arbitrary: i)
  case Nil
  then show ?case by simp
next
  case (Cons x xs)
  show ?case
  proof (cases i)
    case 0
    with Cons.prems show ?thesis using cnt_nonneg [of P xs] by simp
  next
    case (Suc j)
    with Cons have "1 \<le> cnt P xs" by simp
    then show ?thesis by simp
  qed
qed

lemma cnt_zero_iff: "cnt P ls = 0 \<longleftrightarrow> (\<forall>i < length ls. \<not> P (ls ! i))"
  by (auto simp: cnt_def filter_empty_conv all_set_conv_all_nth)

lemma cnt_two:
  assumes "i < length ls" "j < length ls" "i \<noteq> j" "P (ls ! i)" "P (ls ! j)"
  shows "2 \<le> cnt P ls"
proof -
  let ?ls = "ls[i := undefined]"
  define Q where "Q = (\<lambda>k. k \<noteq> i \<and> P (ls ! k))"
  have "{i, j} \<subseteq> {k. k < length ls \<and> P (ls ! k)}"
    using assms by auto
  moreover have "finite {k. k < length ls \<and> P (ls ! k)}" by simp
  ultimately have "card {i, j} \<le> card {k. k < length ls \<and> P (ls ! k)}"
    by (rule card_mono [rotated])
  with assms(3) show ?thesis
    by (simp add: cnt_def length_filter_conv_card)
qed

lemma cnt_le_one_unique:
  "cnt P ls \<le> 1 \<Longrightarrow> i < length ls \<Longrightarrow> j < length ls \<Longrightarrow> P (ls ! i) \<Longrightarrow> P (ls ! j) \<Longrightarrow> i = j"
  using cnt_two [of i ls j P] by fastforce

text \<open>The same for a quantity that is summed over the threads.\<close>

definition total :: "('l \<Rightarrow> int) \<Rightarrow> 'l list \<Rightarrow> int" where
  "total f ls = sum_list (map f ls)"

lemma total_Nil [simp, counting]: "total f [] = 0"
  by (simp add: total_def)

lemma total_Cons [simp, counting]: "total f (x # xs) = f x + total f xs"
  by (simp add: total_def)

lemma total_upd [counting]:
  "i < length ls \<Longrightarrow> total f (ls[i := l]) = total f ls - f (ls ! i) + f l"
proof (induction ls arbitrary: i)
  case Nil
  then show ?case by simp
next
  case (Cons x xs)
  then show ?case by (cases i) auto
qed

lemma total_replicate [simp, counting]: "total f (replicate n x) = int n * f x"
  by (induction n) (auto simp: algebra_simps)

lemma total_const: "(\<And>l. l \<in> set ls \<Longrightarrow> f l = k) \<Longrightarrow> total f ls = int (length ls) * k"
  by (induction ls) (auto simp: algebra_simps)

lemma total_bounds:
  "(\<And>l. l \<in> set ls \<Longrightarrow> 0 \<le> f l \<and> f l \<le> k) \<Longrightarrow>
     0 \<le> total f ls \<and> total f ls \<le> int (length ls) * k"
proof (induction ls)
  case Nil
  then show ?case by simp
next
  case (Cons x xs)
  then have "0 \<le> f x \<and> f x \<le> k" and "0 \<le> total f xs \<and> total f xs \<le> int (length xs) * k"
    by auto
  then show ?case by (simp add: algebra_simps)
qed

lemma total_mono: "(\<And>l. f l \<le> g l) \<Longrightarrow> total f ls \<le> total g ls"
  by (induction ls) (auto intro: add_mono)

lemma cnt_mono: "(\<And>l. P l \<Longrightarrow> Q l) \<Longrightarrow> cnt P ls \<le> cnt Q ls"
  by (induction ls) (auto simp: of_bool_def intro: add_mono)

lemma cnt_disjoint:
  "(\<And>l. P l \<Longrightarrow> R l) \<Longrightarrow> (\<And>l. Q l \<Longrightarrow> R l \<and> \<not> P l) \<Longrightarrow> cnt P ls + cnt Q ls \<le> cnt R ls"
proof (induction ls)
  case Nil
  then show ?case by simp
next
  case (Cons x xs)
  then have "cnt P xs + cnt Q xs \<le> cnt R xs" by simp
  moreover have "of_bool (P x) + of_bool (Q x) \<le> (of_bool (R x) :: int)" using Cons.prems [of x] by auto
  ultimately show ?case by simp
qed

lemma list_all_upd: "list_all P xs \<Longrightarrow> P x \<Longrightarrow> list_all P (xs[i := x])"
  using set_update_subset_insert [of xs i x] by (auto simp: list_all_iff)

lemma list_all_replicate [simp]: "list_all P (replicate n x) \<longleftrightarrow> n = 0 \<or> P x"
  by (induction n) auto

text \<open>Natural-number work, summed over the threads.\<close>

definition workload :: "('l \<Rightarrow> nat) \<Rightarrow> 'l list \<Rightarrow> nat" where
  "workload w ls = sum_list (map w ls)"

lemma workload_upd: "i < length ls \<Longrightarrow> workload w (ls[i := l]) + w (ls ! i) = workload w ls + w l"
proof (induction ls arbitrary: i)
  case Nil
  then show ?case by simp
next
  case (Cons x xs)
  then show ?case by (cases i) (auto simp: workload_def)
qed

lemma workload_less:
  "i < length ls \<Longrightarrow> w l + b' < w (ls ! i) + b \<Longrightarrow> workload w (ls[i := l]) + b' < workload w ls + b"
  using workload_upd [of i ls w l] by linarith

text \<open>The same for any quantity with an addition, such as the multiset of what the threads hold.\<close>

lemma sum_upd: "i < length ls \<Longrightarrow> sum_list (map f (ls[i := l])) + f (ls ! i) = sum_list (map f ls) + f l"
  for f :: "'l \<Rightarrow> 'a :: comm_monoid_add"
proof (induction ls arbitrary: i)
  case Nil
  then show ?case by simp
next
  case (Cons x xs)
  then show ?case by (cases i) (simp_all add: ac_simps)
qed

text \<open>A step moves a quantity between a thread and the shared state: the sum is unchanged.\<close>

lemma sum_conserved:
  fixes f :: "'l \<Rightarrow> 'a :: cancel_comm_monoid_add"
  assumes i: "i < length ls" and st: "f l + q' = f (ls ! i) + q"
  shows "sum_list (map f (ls[i := l])) + q' = sum_list (map f ls) + q"
proof -
  let ?a = "sum_list (map f (ls[i := l]))" and ?b = "sum_list (map f ls)"
  have "(?a + q') + f (ls ! i) = (?a + f (ls ! i)) + q'" by (simp add: ac_simps)
  also have "\<dots> = ?b + (f l + q')" unfolding sum_upd [OF i] by (simp add: ac_simps)
  also have "\<dots> = (?b + q) + f (ls ! i)" unfolding st by (simp add: ac_simps)
  finally show ?thesis by simp
qed

section \<open>Invariants and simulations of thread systems\<close>

text \<open>
  \<open>I\<close> holds of the initial configuration and every step of every thread keeps it.
\<close>

locale thread_inv =
  fixes T :: "('g, 'l) thread"
    and init :: "('g, 'l) conf"
    and I :: "'g \<Rightarrow> 'l list \<Rightarrow> bool"
  assumes I_init: "I (fst init) (snd init)"
    and I_step: "I g ls \<Longrightarrow> i < length ls \<Longrightarrow> (g', l') \<in> set (T i g (ls ! i)) \<Longrightarrow>
      I g' (ls[i := l'])"
begin

lemma reach_inv_conf: "reach T init c \<Longrightarrow> I (fst c) (snd c)"
  using reach_preserves [of T init c I] I_init I_step by blast

lemma reach_inv: "reach T init (g, ls) \<Longrightarrow> I g ls"
  using reach_inv_conf [of "(g, ls)"] by simp

lemma reach_length: "reach T init c \<Longrightarrow> length (snd c) = length (snd init)"
proof (induction rule: reach.induct)
  case reach_init
  show ?case by simp
next
  case (reach_step c c')
  then show ?case by (auto elim!: istep.cases)
qed

end

text \<open>
  A forward simulation: seen through \<open>abs\<close>, every step either changes nothing or is a
  step of the abstract relation.
\<close>

locale thread_sim = thread_inv +
  fixes abs :: "'g \<Rightarrow> 'l list \<Rightarrow> 'a"
    and astep :: "'a \<Rightarrow> 'a \<Rightarrow> bool"
  assumes abs_step: "I g ls \<Longrightarrow> i < length ls \<Longrightarrow> (g', l') \<in> set (T i g (ls ! i)) \<Longrightarrow>
      abs g' (ls[i := l']) = abs g ls \<or> astep (abs g ls) (abs g' (ls[i := l']))"
begin

lemma reach_sim: "reach T init c \<Longrightarrow> astep\<^sup>*\<^sup>* (abs (fst init) (snd init)) (abs (fst c) (snd c))"
proof (induction rule: reach.induct)
  case reach_init
  show ?case by simp
next
  case (reach_step c c')
  from reach_step.hyps(1) have "I (fst c) (snd c)" by (rule reach_inv_conf)
  with reach_step.hyps(2)
  have "abs (fst c') (snd c') = abs (fst c) (snd c) \<or>
    astep (abs (fst c) (snd c)) (abs (fst c') (snd c'))"
    by (auto elim!: istep.cases dest: abs_step)
  with reach_step.IH show ?case by (auto intro: rtranclp.rtrancl_into_rtrancl)
qed

end

text \<open>
  Termination: every step of every thread consumes some of a finite amount of work. Then no
  run is infinite, and every run can only end in a configuration where all threads are
  blocked or have returned.
\<close>

locale thread_term = thread_inv +
  fixes work_left :: "'g \<Rightarrow> 'l list \<Rightarrow> nat"
  assumes work_step: "I g ls \<Longrightarrow> i < length ls \<Longrightarrow> (g', l') \<in> set (T i g (ls ! i)) \<Longrightarrow>
      work_left g' (ls[i := l']) < work_left g ls"
begin

lemma istep_work: "reach T init c \<Longrightarrow> istep T c c' \<Longrightarrow>
    work_left (fst c') (snd c') < work_left (fst c) (snd c)"
  by (drule reach_inv_conf) (auto elim!: istep.cases dest: work_step)

lemma reach_stuck: "reach T init c \<Longrightarrow> \<exists>c'. reach T c c' \<and> stuck T c'"
proof (induction "work_left (fst c) (snd c)" arbitrary: c rule: less_induct)
  case less
  show ?case
  proof (cases "stuck T c")
    case True
    then show ?thesis by (blast intro: reach_init)
  next
    case False
    obtain g ls where c: "c = (g, ls)" by (cases c)
    with False obtain i where "i < length ls" "T i g (ls ! i) \<noteq> []" by (auto simp: stuck_iff)
    then obtain g' l' where "i < length ls" "(g', l') \<in> set (T i g (ls ! i))"
      by (cases "T i g (ls ! i)") auto
    then have st: "istep T c (g', ls[i := l'])" unfolding c by (rule istepI)
    then obtain c' where "reach T (g', ls[i := l']) c'" "stuck T c'"
      using less.hyps [OF istep_work [OF less.prems st]] less.prems by (blast intro: reach_step)
    then show ?thesis using reach_trans istep_reach [OF st] by blast
  qed
qed

lemma no_infinite_run:
  assumes r0: "reach T init (f 0)"
  shows "\<not> (\<forall>n. istep T (f n) (f (Suc n)))"
proof
  assume st: "\<forall>n. istep T (f n) (f (Suc n))"
  have r: "reach T init (f n)" for n
    by (induction n) (use r0 st in \<open>auto intro: reach.intros\<close>)
  have "work_left (fst (f n)) (snd (f n)) + n \<le> work_left (fst (f 0)) (snd (f 0))" for n
  proof (induction n)
    case 0
    show ?case by simp
  next
    case (Suc n)
    have "work_left (fst (f (Suc n))) (snd (f (Suc n))) < work_left (fst (f n)) (snd (f n))"
      using istep_work [OF r] st by blast
    with Suc show ?case by linarith
  qed
  from this [of "Suc (work_left (fst (f 0)) (snd (f 0)))"] show False by simp
qed

end

text \<open>Every run ends, and when no thread can take a step, the result is there.\<close>

definition always_ends :: "('g, 'l) thread \<Rightarrow> ('g, 'l) conf \<Rightarrow> ('g \<Rightarrow> 'l list \<Rightarrow> bool) \<Rightarrow> bool" where
  "always_ends T c P \<longleftrightarrow> (\<forall>f. f 0 = c \<longrightarrow> \<not> (\<forall>k. istep T (f k) (f (Suc k)))) \<and>
     (\<forall>g ls. reach T c (g, ls) \<longrightarrow> stuck T (g, ls) \<longrightarrow> P g ls)"

context thread_term
begin

lemma always_endsI:
  assumes "\<And>g ls. reach T init (g, ls) \<Longrightarrow> I g ls \<Longrightarrow> stuck T (g, ls) \<Longrightarrow> P g ls"
  shows "always_ends T init P"
  unfolding always_ends_def using no_infinite_run assms reach_inv by (metis reach_init)

end

text \<open>
  A quantity is handed over from the threads to a shared variable, in pieces: when no thread has any of it left, all of
  it is in the variable.
\<close>

locale team_sum = thread_inv T init I
  for T :: "('g, 'l) thread" and init :: "('g, 'l) conf" and I :: "'g \<Rightarrow> 'l list \<Rightarrow> bool" +
  fixes part :: "'l \<Rightarrow> 'a :: cancel_comm_monoid_add"
    and acc :: "'g \<Rightarrow> 'a"
  assumes moves: "I g ls \<Longrightarrow> i < length ls \<Longrightarrow> (g', l') \<in> set (T i g (ls ! i)) \<Longrightarrow>
      part l' + acc g' = part (ls ! i) + acc g"
begin

lemma conserved: "reach T init c \<Longrightarrow>
    sum_list (map part (snd c)) + acc (fst c) = sum_list (map part (snd init)) + acc (fst init)"
proof (induction rule: reach.induct)
  case reach_init
  show ?case by simp
next
  case (reach_step c c')
  from reach_inv_conf [OF reach_step.hyps(1)] have I: "I (fst c) (snd c)" .
  from reach_step.hyps(2) show ?case
  proof cases
    case (istepI i ls g' l' g)
    from I istepI have "sum_list (map part (ls[i := l'])) + acc g' = sum_list (map part ls) + acc g"
      by (intro sum_conserved moves) auto
    with reach_step.IH istepI show ?thesis by simp
  qed
qed

lemma collected:
  assumes "reach T init (g, ls)" and "\<forall>l \<in> set ls. part l = 0"
  shows "acc g = sum_list (map part (snd init)) + acc (fst init)"
proof -
  have "sum_list (map part ls) = 0" using assms(2) by (induction ls) auto
  with conserved [OF assms(1)] show ?thesis by simp
qed

end

lemma upd_Cons_numeral: "(x # xs)[numeral k := v] = x # xs[pred_numeral k := v]"
  by (simp add: numeral_eq_Suc)

lemma replicate_unroll: "replicate (numeral k) x = x # replicate (pred_numeral k) x"
  by (simp add: numeral_eq_Suc)

section \<open>Lists used as rings\<close>

text \<open>
  \<open>ring_slice buf r n\<close>: the \<open>n\<close> cells of a circular buffer starting at index \<open>r\<close>.
\<close>

definition ring_slice :: "'a list \<Rightarrow> nat \<Rightarrow> nat \<Rightarrow> 'a list" where
  "ring_slice buf r n = map (\<lambda>k. buf ! ((r + k) mod length buf)) [0..<n]"

lemma length_ring_slice [simp]: "length (ring_slice buf r n) = n"
  by (simp add: ring_slice_def)

lemma ring_slice_0 [simp]: "ring_slice buf r 0 = []"
  by (simp add: ring_slice_def)

lemma ring_slice_Suc:
  "ring_slice buf r (Suc n) = ring_slice buf r n @ [buf ! ((r + n) mod length buf)]"
  by (simp add: ring_slice_def)

lemma ring_slice_Cons:
  "ring_slice buf r (Suc n) = buf ! (r mod length buf) # ring_slice buf (Suc r) n"
  by (simp add: ring_slice_def map_upt_Suc del: upt_Suc)

lemma ring_slice_mod: "ring_slice buf (r mod length buf) n = ring_slice buf r n"
  by (simp add: ring_slice_def mod_add_left_eq)

lemma ring_slice_upd_outside:
  assumes "n < length buf"
  shows "ring_slice (buf[(r + n) mod length buf := x]) r n = ring_slice buf r n"
proof -
  have "(r + n) mod length buf \<noteq> (r + k) mod length buf" if "k < n" for k
  proof
    assume "(r + n) mod length buf = (r + k) mod length buf"
    then have "(r + n) mod length buf = (r + k) mod length buf" .
    then have "length buf dvd (r + n) - (r + k)"
      using that mod_eq_dvd_iff_nat [of "r + k" "r + n" "length buf"] by simp
    then have "length buf dvd n - k" by simp
    with that assms show False by (auto dest: dvd_imp_le)
  qed
  then show ?thesis by (auto simp: ring_slice_def)
qed

end
