(* ===== verification/Spinlocks.thy ===== *)
theory Spinlocks
  imports Conc_Prelude
begin

text \<open>
  The spin locks of the directory Spinlock: \<open>audio_spin_mutex\<close> with
  its three phases of back-off, the test-and-test-and-set lock on \<open>std::atomic<bool>\<close>,
  the waiting lock on \<open>std::atomic_flag\<close> and the plain test-and-set lock. Each \<open>lock()\<close>
  is a small machine over the shared flag; an outcome \<open>(f, None)\<close> is a return with the
  lock held, \<open>(f, Some p)\<close> goes on spinning at \<open>p\<close>. The contract that the clients rely
  on is the locale \<open>spin_lock\<close>; the client, the loop that increments a shared counter,
  is proved once for every lock that keeps the contract.
\<close>

type_synonym i64 = "64 word"

section \<open>The locks\<close>

subsection \<open>audio_spin_mutex\<close>

text \<open>The loop counter of each of the three phases of \<open>lock()\<close>.\<close>

datatype audio_pc = Fast nat | Paused nat | Long nat

text \<open>\<open>try_lock\<close>: \<open>test_and_set\<close> stores true; the lock was taken when it returned false.\<close>

definition audio_try_lock :: "bool \<Rightarrow> bool \<times> bool" where
  "audio_try_lock f = (True, \<not> f)"

definition audio_unlock :: "bool \<Rightarrow> bool" where
  "audio_unlock f = False"

definition audio_iterations :: "nat list" where
  "audio_iterations = [5, 10, 3000]"

fun audio_lock :: "bool \<Rightarrow> audio_pc \<Rightarrow> (bool \<times> audio_pc option) list" where
  "audio_lock f (Fast i) =
     (if i < audio_iterations ! 0
      then let (f', got) = audio_try_lock f in
           [(f', if got then None else Some (Fast (i + 1)))]
      else [(f, Some (Paused 0))])"
| "audio_lock f (Paused i) =
     (if i < audio_iterations ! 1
      then let (f', got) = audio_try_lock f in
           [(f', if got then None else Some (Paused (i + 1)))]
      else [(f, Some (Long 0))])"
| "audio_lock f (Long i) =
     (if i < audio_iterations ! 2
      then let (f', got) = audio_try_lock f in
           [(f', if got then None else Some (Long (i + 1)))]
      else [(f, Some (Long 0))])"

subsection \<open>SpinLock on std::atomic<bool>\<close>

datatype abool_pc = Exchange | SpinLoad

fun abool_lock :: "bool \<Rightarrow> abool_pc \<Rightarrow> (bool \<times> abool_pc option) list" where
  "abool_lock f Exchange = [(True, if \<not> f then None else Some SpinLoad)]"
| "abool_lock f SpinLoad = [(f, Some (if f then SpinLoad else Exchange))]"

definition abool_unlock :: "bool \<Rightarrow> bool" where
  "abool_unlock f = False"

text \<open>
  \<open>try_lock\<close> reads the flag first and exchanges only if it was free; between the two
  accesses another thread may take the lock. \<open>Inr r\<close> is the return of \<open>r\<close>.
\<close>

datatype abool_try_pc = TryLoad | TryExchange

fun abool_try_lock :: "bool \<Rightarrow> abool_try_pc \<Rightarrow> bool \<times> (abool_try_pc + bool)" where
  "abool_try_lock f TryLoad = (f, if f then Inr False else Inl TryExchange)"
| "abool_try_lock f TryExchange = (True, Inr (\<not> f))"

subsection \<open>SpinLock on std::atomic_flag, with wait and notify\<close>

text \<open>
  \<open>mFlag.wait(true)\<close> returns only when the flag is seen to be false; until then the
  thread is blocked.
\<close>

datatype aflag_pc = TestAndSet | FlagWait

fun aflag_lock :: "bool \<Rightarrow> aflag_pc \<Rightarrow> (bool \<times> aflag_pc option) list" where
  "aflag_lock f TestAndSet = [(True, if f then Some FlagWait else None)]"
| "aflag_lock f FlagWait = (if f then [] else [(f, Some TestAndSet)])"

definition aflag_unlock :: "bool \<Rightarrow> bool" where
  "aflag_unlock f = False"

subsection \<open>acquire and release on a C atomic_flag\<close>

fun cflag_acquire :: "bool \<Rightarrow> unit \<Rightarrow> (bool \<times> unit option) list" where
  "cflag_acquire f _ = [(True, if f then Some () else None)]"

definition cflag_release :: "bool \<Rightarrow> bool" where
  "cflag_release f = False"

section \<open>The contract of a lock and its client\<close>

text \<open>
  \<open>solo a n p\<close>: a thread at \<open>p\<close> that runs alone, with the behaviour \<open>a\<close>, returns with
  the lock after at most \<open>n\<close> more actions, whatever outcomes it meets, and is never
  blocked on the way.
\<close>

fun solo :: "('p \<Rightarrow> (bool \<times> 'p option) list) \<Rightarrow> nat \<Rightarrow> 'p \<Rightarrow> bool" where
  "solo a 0 p = False"
| "solo a (Suc n) p =
     (a p \<noteq> [] \<and> list_all (\<lambda>(f, r). case r of None \<Rightarrow> True | Some q \<Rightarrow> solo a n q) (a p))"

locale spin_lock =
  fixes lock_start :: 'p
    and lock :: "bool \<Rightarrow> 'p \<Rightarrow> (bool \<times> 'p option) list"
    and unlock :: "bool \<Rightarrow> bool"
  assumes lock_takes: "(f', None) \<in> set (lock f p) \<Longrightarrow> \<not> f \<and> f'"
    and lock_spins: "(f', Some p') \<in> set (lock f p) \<Longrightarrow> f' = f"
    and unlock_frees: "\<not> unlock f"
    and free_lock_is_taken: "solo (lock False) 2 p"

text \<open>
  \<open>increment_counter\<close>: \<open>N\<close> rounds of lock, increment, unlock. The increment of the plain
  variable is a load and a store, so that unprotected threads would lose updates.
\<close>

datatype ('p, 'c) inc_pc = Lock 'p nat | Load nat | Store nat 'c | Unlock nat | Ret

fun inc_thread :: "'p \<Rightarrow> (bool \<Rightarrow> 'p \<Rightarrow> (bool \<times> 'p option) list) \<Rightarrow> (bool \<Rightarrow> bool) \<Rightarrow> nat
    \<Rightarrow> (bool \<times> 'c::ring_1, ('p, 'c) inc_pc) thread" where
  "inc_thread start lock unlock N _ (f, counter) pc =
     (case pc of
        Lock p i \<Rightarrow> map (\<lambda>(f', r). ((f', counter),
                     (case r of None \<Rightarrow> Load i | Some p' \<Rightarrow> Lock p' i))) (lock f p)
      | Load i \<Rightarrow> [((f, counter), Store i counter)]
      | Store i v \<Rightarrow> [((f, v + 1), Unlock i)]
      | Unlock i \<Rightarrow> [((unlock f, counter), if i + 1 < N then Lock start (i + 1) else Ret)]
      | Ret \<Rightarrow> [])"

text \<open>\<open>n\<close> threads are started on a counter that holds \<open>c0\<close>, with the lock free.\<close>

definition inc_init :: "'p \<Rightarrow> nat \<Rightarrow> nat \<Rightarrow> 'c::ring_1 \<Rightarrow> (bool \<times> 'c::ring_1, ('p, 'c) inc_pc) conf" where
  "inc_init start N n c0 = ((False, c0), replicate n (if 0 < N then Lock start 0 else Ret))"

fun in_section :: "('p, 'c) inc_pc \<Rightarrow> bool" where
  "in_section (Load i) = True"
| "in_section (Store i v) = True"
| "in_section (Unlock i) = True"
| "in_section _ = False"

text \<open>How many increments a thread has stored.\<close>

fun stored :: "nat \<Rightarrow> ('p, 'c) inc_pc \<Rightarrow> int" where
  "stored N (Lock p i) = int i"
| "stored N (Load i) = int i"
| "stored N (Store i v) = int i"
| "stored N (Unlock i) = int i + 1"
| "stored N Ret = int N"

fun in_bounds :: "nat \<Rightarrow> ('p, 'c) inc_pc \<Rightarrow> bool" where
  "in_bounds N Ret = True"
| "in_bounds N (Lock p i) = (i < N)"
| "in_bounds N (Load i) = (i < N)"
| "in_bounds N (Store i v) = (i < N)"
| "in_bounds N (Unlock i) = (i < N)"

text \<open>A bound on the work that a thread has left, in actions outside of spinning.\<close>

fun work :: "nat \<Rightarrow> ('p, 'c) inc_pc \<Rightarrow> int" where
  "work N (Lock p i) = 4 * (int N - int i)"
| "work N (Load i) = 4 * (int N - int i) - 1"
| "work N (Store i v) = 4 * (int N - int i) - 2"
| "work N (Unlock i) = 4 * (int N - int i) - 3"
| "work N Ret = 0"

lemma work_nonneg: "in_bounds N l \<Longrightarrow> 0 \<le> work N l"
  by (cases l) auto

lemma total_work_nonneg: "list_all (in_bounds N) ls \<Longrightarrow> 0 \<le> total (work N) ls"
  by (induction ls) (auto dest: work_nonneg)

text \<open>
  The invariant: the flag is set exactly while one thread is in the section, the counter
  is the number of stored increments, and a loaded value is still the current one.
\<close>

definition inc_inv :: "nat \<Rightarrow> 'c::ring_1 \<Rightarrow> bool \<times> 'c \<Rightarrow> ('p, 'c) inc_pc list \<Rightarrow> bool" where
  "inc_inv N c0 g ls \<longleftrightarrow>
     cnt in_section ls = of_bool (fst g) \<and>
     snd g = c0 + of_int (total (stored N) ls) \<and>
     (\<forall>j i v. j < length ls \<longrightarrow> ls ! j = Store i v \<longrightarrow> v = snd g) \<and>
     list_all (in_bounds N) ls"

lemma inc_inv_init: "inc_inv N c0 (fst (inc_init s N n c0)) (snd (inc_init s N n c0))"
  by (auto simp: inc_inv_def inc_init_def list_all_iff)

lemma inc_inv_loaded:
  "inc_inv N c0 g ls \<Longrightarrow> j < length ls \<Longrightarrow> ls ! j = Store k v \<Longrightarrow> v = snd g"
  unfolding inc_inv_def by blast

lemma inc_inv_section: "inc_inv N c0 (f, c) ls \<Longrightarrow> cnt in_section ls = of_bool f"
  by (simp add: inc_inv_def)

lemma inc_inv_exclusive:
  assumes "inc_inv N c0 g ls" "i < length ls" "j < length ls"
    "in_section (ls ! i)" "in_section (ls ! j)"
  shows "i = j"
proof -
  from assms(1) have "cnt in_section ls \<le> 1" by (simp add: inc_inv_def)
  then show ?thesis using assms(2-5) by (rule cnt_le_one_unique)
qed


text \<open>A step of a thread outside the section, and one inside, as two cases.\<close>

lemma inc_inv_upd:
  assumes inv: "inc_inv N c0 (f, c) ls" and i: "i < length ls"
    and sec: "of_bool f' = of_bool f - of_bool (in_section (ls ! i)) + of_bool (in_section l' :: bool) + (0::int)"
    and tot: "c' = c + of_int (stored N l' - stored N (ls ! i))"
    and cur: "\<And>k v. l' = Store k v \<Longrightarrow> v = c'"
    and own: "c' = c \<or> in_section (ls ! i)"
    and bnd: "in_bounds N l'"
  shows "inc_inv N c0 (f', c') (ls[i := l'])"
proof -
  have "v = c'" if j: "j < length ls" "ls[i := l'] ! j = Store k v" for j k v
  proof (cases "j = i")
    case True
    with j i have "l' = Store k v" by simp
    then show ?thesis by (rule cur)
  next
    case False
    with j have lj: "ls ! j = Store k v" by simp
    with inc_inv_loaded [OF inv j(1)] have "v = c" by simp
    moreover have "\<not> in_section (ls ! i)"
      using inc_inv_exclusive [OF inv i \<open>j < length ls\<close>] lj False by auto
    ultimately show ?thesis using own by simp
  qed
  moreover have "list_all (in_bounds N) (ls[i := l'])"
    using inv bnd set_update_subset_insert [of ls i l']
    by (auto simp: inc_inv_def list_all_iff)
  ultimately show ?thesis
    using inv i sec tot by (auto simp: inc_inv_def cnt_upd total_upd)
qed

context spin_lock begin

lemma inc_inv_step:
  assumes inv: "inc_inv N c0 g ls" and i: "i < length ls"
    and out: "(g', l') \<in> set (inc_thread lock_start lock unlock N i g (ls ! i))"
  shows "inc_inv N c0 g' (ls[i := l'])"
proof -
  obtain f c where g: "g = (f, c)" by (cases g)
  obtain f' c' where g': "g' = (f', c')" by (cases g')
  have inv': "inc_inv N c0 (f, c) ls" using inv g by simp
  have b: "in_bounds N (ls ! i)"
    using inv i by (auto simp: inc_inv_def list_all_iff)
  have one: "in_section (ls ! i) \<Longrightarrow> f"
    using inc_inv_section [OF inv'] i cnt_pos [of i ls in_section] by (cases f) auto
  have st: "ls ! i = Store k v \<Longrightarrow> v = c" for k v
    using inc_inv_loaded [OF inv' i] by simp
  note upd = inc_inv_upd [OF inv' i]
  show ?thesis
  proof (cases "ls ! i")
    case (Lock p k)
    with out g g' obtain r where r: "(f', r) \<in> set (lock f p)" and c': "c' = c"
      and l': "l' = (case r of None \<Rightarrow> Load k | Some p' \<Rightarrow> Lock p' k)" by auto
    show ?thesis
    proof (cases r)
      case None
      with r have "\<not> f \<and> f'" by (auto dest: lock_takes)
      then show ?thesis unfolding g' c' l' None using b Lock by (intro upd) auto
    next
      case (Some q)
      with r have "f' = f" by (auto dest: lock_spins)
      then show ?thesis unfolding g' c' l' Some using b Lock by (intro upd) auto
    qed
  next
    case (Load k)
    with out g g' have "g' = (f, c)" "l' = Store k c" by auto
    then show ?thesis using b Load by (auto intro!: upd)
  next
    case (Store k v)
    with out g g' st have "g' = (f, c + 1)" "l' = Unlock k" by auto
    then show ?thesis using b Store by (auto intro!: upd)
  next
    case (Unlock k)
    with out g g' unlock_frees one
    have f: f and eq: "g' = (False, c)" "l' = (if k + 1 < N then Lock lock_start (k + 1) else Ret)"
      by auto
    show ?thesis
    proof (cases "k + 1 < N")
      case True
      then show ?thesis using b f Unlock unfolding eq by (intro upd) auto
    next
      case False
      with b Unlock have "N = k + 1" by simp
      then show ?thesis using b f Unlock unfolding eq by (intro upd) auto
    qed
  next
    case Ret
    with out g show ?thesis by simp
  qed
qed

lemma inc_thread_inv:
  "thread_inv (inc_thread lock_start lock unlock N) (inc_init lock_start N n c0) (inc_inv N c0)"
  by unfold_locales (auto intro: inc_inv_init inc_inv_step)

lemma inc_reach_inv:
  "reach (inc_thread lock_start lock unlock N) (inc_init lock_start N n c0) (g, ls) \<Longrightarrow> inc_inv N c0 g ls"
  by (rule thread_inv.reach_inv [OF inc_thread_inv])

lemma inc_reach_length:
  "reach (inc_thread lock_start lock unlock N) (inc_init lock_start N n c0) (g, ls) \<Longrightarrow> length ls = n"
  using thread_inv.reach_length [OF inc_thread_inv, of N n c0 "(g, ls)"] by (simp add: inc_init_def)

text \<open>At most one thread is between \<open>lock()\<close> and \<open>unlock()\<close>.\<close>

lemma inc_mutual_exclusion:
  assumes "reach (inc_thread lock_start lock unlock N) (inc_init lock_start N n c0) (g, ls)"
    and "i < length ls" "j < length ls" "in_section (ls ! i)" "in_section (ls ! j)"
  shows "i = j"
  using inc_inv_exclusive [OF inc_reach_inv [OF assms(1)]] assms(2-5) by blast

text \<open>When every thread has returned no increment is lost.\<close>

lemma inc_counts:
  assumes "reach (inc_thread lock_start lock unlock N) (inc_init lock_start N n c0) ((f, c), ls)"
    and "list_all (\<lambda>l. l = Ret) ls"
  shows "c = c0 + of_nat (n * N) \<and> \<not> f"
proof -
  from assms(1) have inv: "inc_inv N c0 (f, c) ls" and len: "length ls = n"
    by (rule inc_reach_inv, rule inc_reach_length)
  have ret: "\<forall>l \<in> set ls. l = Ret" using assms(2) by (simp add: list_all_iff)
  then have "total (stored N) ls = int (length ls) * int N"
    by (intro total_const) auto
  moreover have "cnt in_section ls = 0"
    using ret by (auto simp: cnt_zero_iff dest!: nth_mem)
  ultimately show ?thesis
    using inv len by (auto simp: inc_inv_def)
qed

text \<open>
  No deadlock: while a thread has not returned, some thread can move.
\<close>

lemma lock_free_enabled: "lock False p \<noteq> []"
  using free_lock_is_taken [of p] by (simp add: numeral_2_eq_2)

lemma inc_no_deadlock:
  assumes "reach (inc_thread lock_start lock unlock N) (inc_init lock_start N n c0) (g, ls)"
    and stk: "stuck (inc_thread lock_start lock unlock N) (g, ls)"
  shows "list_all (\<lambda>l. l = Ret) ls"
proof -
  obtain f c where g: "g = (f, c)" by (cases g)
  have inv: "inc_inv N c0 (f, c) ls" using inc_reach_inv [OF assms(1)] g by simp
  have none: "inc_thread lock_start lock unlock N j (f, c) (ls ! j) = []" if "j < length ls" for j
    using stk that g by (simp add: stuck_iff)
  have nsec: "\<not> in_section (ls ! j)" if "j < length ls" for j
    using none [OF that] by (cases "ls ! j") auto
  then have "cnt in_section ls = 0" by (simp add: cnt_zero_iff)
  with inv have nf: "\<not> f" by (auto simp: inc_inv_def split: if_splits)
  have "ls ! j = Ret" if "j < length ls" for j
    using none [OF that] nsec [OF that] nf lock_free_enabled by (cases "ls ! j") auto
  then show ?thesis by (simp add: list_all_length)
qed

end


context spin_lock begin

text \<open>
  From every reachable configuration all threads can be run to their return: no interleaving
  leads into a dead end. Each critical section brings the threads closer to the end.
\<close>

lemma lock_run_alone:
  assumes "solo (lock False) k p" "i < length ls" "ls ! i = Lock p r"
  shows "\<exists>f'. reach (inc_thread lock_start lock unlock N) ((False, c), ls) ((f', c), ls[i := Load r])"
  using assms
proof (induction k arbitrary: p ls)
  case 0
  then show ?case by simp
next
  case (Suc k)
  from Suc.prems(1) obtain f' q where q: "(f', q) \<in> set (lock False p)"
    by (cases "lock False p") auto
  have step: "istep (inc_thread lock_start lock unlock N) ((False, c), ls)
      ((f', c), ls[i := (case q of None \<Rightarrow> Load r | Some p' \<Rightarrow> Lock p' r)])"
    using Suc.prems q by (intro istepI) force+
  show ?case
  proof (cases q)
    case None
    with step show ?thesis by (auto intro: istep_reach)
  next
    case (Some p')
    with q have "f' = False" by (auto dest: lock_spins)
    moreover from Suc.prems(1) q Some have "solo (lock False) k p'"
      by (force simp: list_all_iff)
    then obtain f'' where "reach (inc_thread lock_start lock unlock N)
        ((False, c), ls[i := Lock p' r]) ((f'', c), ls[i := Lock p' r, i := Load r])"
      using Suc.IH [of p' "ls[i := Lock p' r]"] Suc.prems(2) by auto
    ultimately have "reach (inc_thread lock_start lock unlock N)
        ((f', c), ls[i := Lock p' r]) ((f'', c), ls[i := Load r])" by simp
    moreover from step Some have "reach (inc_thread lock_start lock unlock N)
        ((False, c), ls) ((f', c), ls[i := Lock p' r])" by (simp add: istep_reach)
    ultimately show ?thesis by (blast intro: reach_trans)
  qed
qed

lemma inc_advance:
  assumes inv: "inc_inv N c0 (f, c) ls" and nret: "\<not> list_all (\<lambda>l. l = Ret) ls"
  shows "\<exists>g' ls'. reach (inc_thread lock_start lock unlock N) ((f, c), ls) (g', ls') \<and>
    total (work N) ls' < total (work N) ls"
proof (cases "\<exists>i < length ls. in_section (ls ! i)")
  case True
  then obtain i where i: "i < length ls" "in_section (ls ! i)" by blast
  then have b: "in_bounds N (ls ! i)" using inv by (auto simp: inc_inv_def list_all_length)
  obtain g' l' where out: "(g', l') \<in> set (inc_thread lock_start lock unlock N i (f, c) (ls ! i))"
    and less: "work N l' < work N (ls ! i)"
    using i b by (cases "ls ! i") (auto split: if_splits)
  from i(1) out have "istep (inc_thread lock_start lock unlock N) ((f, c), ls) (g', ls[i := l'])"
    by (rule istepI)
  then have "reach (inc_thread lock_start lock unlock N) ((f, c), ls) (g', ls[i := l'])"
    by (rule istep_reach)
  with less i(1) show ?thesis
    by (intro exI [of _ g'] exI [of _ "ls[i := l']"]) (simp add: total_upd)
next
  case False
  then have "cnt in_section ls = 0" by (simp add: cnt_zero_iff)
  with inc_inv_section [OF inv] have f: "f = False" by (cases f) auto
  from nret obtain i where i: "i < length ls" "ls ! i \<noteq> Ret" by (auto simp: list_all_length)
  then obtain p r where li: "ls ! i = Lock p r" using False by (cases "ls ! i") auto
  moreover from li have "r < N" using inv i by (auto simp: inc_inv_def list_all_length)
  moreover obtain f' where "reach (inc_thread lock_start lock unlock N) ((False, c), ls)
      ((f', c), ls[i := Load r])"
    using lock_run_alone [OF free_lock_is_taken i(1) li] by blast
  ultimately show ?thesis using f i(1)
    by (intro exI [of _ "(f', c)"] exI [of _ "ls[i := Load r]"]) (simp add: total_upd)
qed

lemma inc_inv_reach:
  assumes "reach (inc_thread lock_start lock unlock N) c c'" "inc_inv N c0 (fst c) (snd c)"
  shows "inc_inv N c0 (fst c') (snd c')"
  using assms by (rule reach_preserves [where I = "inc_inv N c0"]) (rule inc_inv_step)

lemma inc_completes:
  assumes "inc_inv N c0 g ls"
  shows "\<exists>g' ls'. reach (inc_thread lock_start lock unlock N) (g, ls) (g', ls') \<and>
    list_all (\<lambda>l. l = Ret) ls'"
  using assms
proof (induction "nat (total (work N) ls)" arbitrary: g ls rule: less_induct)
  case less
  show ?case
  proof (cases "list_all (\<lambda>l. l = Ret) ls")
    case True
    then show ?thesis by (blast intro: reach_init)
  next
    case False
    obtain f c where g: "g = (f, c)" by (cases g)
    obtain g1 ls1 where r: "reach (inc_thread lock_start lock unlock N) (g, ls) (g1, ls1)"
      and lt: "total (work N) ls1 < total (work N) ls"
      using inc_advance [OF less.prems [unfolded g] False] g by blast
    have inv1: "inc_inv N c0 g1 ls1" using inc_inv_reach [OF r] less.prems by simp
    have "nat (total (work N) ls1) < nat (total (work N) ls)"
      using lt total_work_nonneg [of N ls1] inv1 by (simp add: inc_inv_def)
    from less.hyps [OF this inv1] r show ?thesis by (blast intro: reach_trans)
  qed
qed

end

section \<open>The locks keep the contract\<close>

interpretation audio: spin_lock "Fast 0" audio_lock audio_unlock
proof unfold_locales
  show "(f', None) \<in> set (audio_lock f p) \<Longrightarrow> \<not> f \<and> f'" for f f' p
    by (cases p) (auto simp: audio_try_lock_def split: if_splits)
  show "(f', Some p') \<in> set (audio_lock f p) \<Longrightarrow> f' = f" for f f' p p'
    by (cases p) (auto simp: audio_try_lock_def split: if_splits)
  show "\<not> audio_unlock f" for f by (simp add: audio_unlock_def)
  show "solo (audio_lock False) 2 p" for p
    by (cases p) (simp_all add: numeral_2_eq_2 audio_try_lock_def audio_iterations_def)
qed

interpretation abool: spin_lock Exchange abool_lock abool_unlock
proof unfold_locales
  show "(f', None) \<in> set (abool_lock f p) \<Longrightarrow> \<not> f \<and> f'" for f f' p
    by (cases p) (auto split: if_splits)
  show "(f', Some p') \<in> set (abool_lock f p) \<Longrightarrow> f' = f" for f f' p p'
    by (cases p) (auto split: if_splits)
  show "\<not> abool_unlock f" for f by (simp add: abool_unlock_def)
  show "solo (abool_lock False) 2 p" for p
    by (cases p) (simp_all add: numeral_2_eq_2)
qed

interpretation aflag: spin_lock TestAndSet aflag_lock aflag_unlock
proof unfold_locales
  show "(f', None) \<in> set (aflag_lock f p) \<Longrightarrow> \<not> f \<and> f'" for f f' p
    by (cases p) (auto split: if_splits)
  show "(f', Some p') \<in> set (aflag_lock f p) \<Longrightarrow> f' = f" for f f' p p'
    by (cases p) (auto split: if_splits)
  show "\<not> aflag_unlock f" for f by (simp add: aflag_unlock_def)
  show "solo (aflag_lock False) 2 p" for p
    by (cases p) (simp_all add: numeral_2_eq_2)
qed

interpretation cflag: spin_lock "()" cflag_acquire cflag_release
proof unfold_locales
  show "(f', None) \<in> set (cflag_acquire f p) \<Longrightarrow> \<not> f \<and> f'" for f f' p
    by (auto split: if_splits)
  show "(f', Some p') \<in> set (cflag_acquire f p) \<Longrightarrow> f' = f" for f f' p p'
    by (auto split: if_splits)
  show "\<not> cflag_release f" for f by (simp add: cflag_release_def)
  show "solo (cflag_acquire False) 2 p" for p
    by (simp add: numeral_2_eq_2)
qed

text \<open>\<open>try_lock\<close> of the atomic-bool lock returns true only from the access that took the lock.\<close>

lemma abool_try_lock_takes:
  "abool_try_lock f p = (f', Inr True) \<Longrightarrow> \<not> f \<and> f'"
  "abool_try_lock f p = (f', Inr False) \<Longrightarrow> f \<and> f'"
  by (cases p; auto split: if_splits)+

section \<open>The programs\<close>

text \<open>The \<open>main\<close> of each example: two threads, 10000 (in C 100000) rounds each.\<close>

definition audio_increment_counter :: "(bool \<times> i64, (audio_pc, i64) inc_pc) thread" where
  "audio_increment_counter = inc_thread (Fast 0) audio_lock audio_unlock 10000"

definition audio_main :: "(bool \<times> i64, (audio_pc, i64) inc_pc) conf" where
  "audio_main = inc_init (Fast 0) 10000 2 0"

definition abool_increment_counter :: "(bool \<times> i64, (abool_pc, i64) inc_pc) thread" where
  "abool_increment_counter = inc_thread Exchange abool_lock abool_unlock 10000"

definition abool_main :: "(bool \<times> i64, (abool_pc, i64) inc_pc) conf" where
  "abool_main = inc_init Exchange 10000 2 0"

definition aflag_increment_counter :: "(bool \<times> i64, (aflag_pc, i64) inc_pc) thread" where
  "aflag_increment_counter = inc_thread TestAndSet aflag_lock aflag_unlock 10000"

definition aflag_main :: "(bool \<times> i64, (aflag_pc, i64) inc_pc) conf" where
  "aflag_main = inc_init TestAndSet 10000 2 0"

definition cflag_inc :: "(bool \<times> i64, (unit, i64) inc_pc) thread" where
  "cflag_inc = inc_thread () cflag_acquire cflag_release 100000"

definition cflag_main :: "(bool \<times> i64, (unit, i64) inc_pc) conf" where
  "cflag_main = inc_init () 100000 2 0"

text \<open>
  In C with POSIX threads the lock is \<open>pthread_spinlock_t\<close>, whose code is not in the
  repository: its \<open>lock\<close> and \<open>unlock\<close> are parameters, and the result below holds for all
  that keep the contract \<open>spin_lock\<close>.
\<close>

definition posix_inc :: "'p \<Rightarrow> (bool \<Rightarrow> 'p \<Rightarrow> (bool \<times> 'p option) list) \<Rightarrow> (bool \<Rightarrow> bool)
    \<Rightarrow> (bool \<times> i64, ('p, i64) inc_pc) thread" where
  "posix_inc start pthread_spin_lock pthread_spin_unlock =
     inc_thread start pthread_spin_lock pthread_spin_unlock 100000"

definition posix_main :: "'p \<Rightarrow> (bool \<times> i64, ('p, i64) inc_pc) conf" where
  "posix_main start = inc_init start 100000 2 0"

lemma posix_counter_exact:
  assumes "spin_lock lk ul" "reach (posix_inc start lk ul) (posix_main start) ((f, c), ls)"
    "list_all (\<lambda>l. l = Ret) ls"
  shows "sint c = 200000"
proof -
  have "c = 0 + of_nat (2 * 100000) \<and> \<not> f"
    using assms(2,3) unfolding posix_inc_def posix_main_def by (rule spin_lock.inc_counts [OF assms(1)])
  then show ?thesis by simp
qed

section \<open>What the programs promise\<close>

text \<open>
  Claim C40. Mutual exclusion of \<open>audio_spin_mutex\<close>: in the program of audio_spin_mutex/main.cpp,
  under every interleaving, no two threads are between \<open>lock.lock()\<close> and \<open>lock.unlock()\<close>.
\<close>

theorem audio_mutual_exclusion:
  assumes "reach audio_increment_counter audio_main (g, ls)"
    and "i < length ls" "j < length ls" "in_section (ls ! i)" "in_section (ls ! j)"
  shows "i = j"
  using assms unfolding audio_increment_counter_def audio_main_def
  by (rule audio.inc_mutual_exclusion)

theorem audio_mutual_exclusion_witness:
  "\<exists>g ls. reach audio_increment_counter audio_main (g, ls) \<and>
     in_section (ls ! 0) \<and> ls ! 1 = Lock (Fast 1) 0 \<and> \<not> in_section (ls ! 1)"
proof -
  let ?g = "(True, 0)" and ?ls = "[Load 0, Lock (Fast 1) 0]"
  have "sched audio_increment_counter [(0, 0), (1, 0)] audio_main = Some (?g, ?ls)"
    by (simp add: audio_increment_counter_def audio_main_def inc_init_def numeral_2_eq_2
        audio_try_lock_def audio_iterations_def)
  then have r: "reach audio_increment_counter audio_main (?g, ?ls)" by (rule sched_reach)
  have "\<not> in_section (?ls ! 1)"
    using audio_mutual_exclusion [OF r, of 0 1] by auto
  with r show ?thesis by (intro exI [of _ ?g] exI [of _ ?ls]) auto
qed

text \<open>
  No lost update: when both threads of spinlock_atomic_bool/main.cpp have returned, the
  sum that is printed is exactly 20000, and the lock is free.
\<close>

theorem abool_counter_exact:
  assumes "reach abool_increment_counter abool_main ((f, c), ls)" and "list_all (\<lambda>l. l = Ret) ls"
  shows "sint c = 20000 \<and> \<not> f"
proof -
  have "c = 0 + of_nat (2 * 10000) \<and> \<not> f"
    using assms unfolding abool_increment_counter_def abool_main_def by (rule abool.inc_counts)
  then show ?thesis by simp
qed

theorem abool_counter_exact_witness:
  "\<exists>f c ls. reach abool_increment_counter abool_main ((f, c), ls) \<and>
     list_all (\<lambda>l. l = Ret) ls \<and> sint c = 20000"
proof -
  have "inc_inv 10000 0 (fst abool_main) (snd abool_main)"
    unfolding abool_main_def by (rule inc_inv_init)
  from abool.inc_completes [OF this] obtain g ls
    where "reach abool_increment_counter abool_main (g, ls)" and ret: "list_all (\<lambda>l. l = Ret) ls"
    by (auto simp: abool_increment_counter_def)
  then have r: "reach abool_increment_counter abool_main ((fst g, snd g), ls)" by simp
  from abool_counter_exact [OF r ret] r ret show ?thesis by blast
qed

end
