(* ===== verification/Fifo_Interface.thy ===== *)
theory Fifo_Interface
  imports Conc_Prelude
begin

text \<open>
  The interface of the bounded queues of the repository, as their single-threaded clients
  see it: \<open>push\<close> reports whether the value was accepted, \<open>pop\<close> returns a value or nothing.
  Every queue that keeps the laws of the locale \<open>bounded_fifo\<close> hands out what it accepted, in
  order, loses nothing and never holds more than its capacity.
\<close>

datatype 'a fifo_call = Push 'a | Pop

text \<open>A client that makes a list of calls: what was accepted, what was returned.\<close>

fun fifo_run :: "('a \<Rightarrow> 's \<Rightarrow> bool \<times> 's) \<Rightarrow> ('s \<Rightarrow> 'a option \<times> 's) \<Rightarrow> 'a fifo_call list \<Rightarrow> 's
    \<Rightarrow> 'a list \<times> 'a list \<times> 's" where
  "fifo_run push pop [] s = ([], [], s)"
| "fifo_run push pop (Push x # cs) s =
     (let (acc, s') = push x s; (a, r, t) = fifo_run push pop cs s'
      in (if acc then x # a else a, r, t))"
| "fifo_run push pop (Pop # cs) s =
     (let (v, s') = pop s; (a, r, t) = fifo_run push pop cs s'
      in (a, case v of None \<Rightarrow> r | Some x \<Rightarrow> x # r, t))"

text \<open>
  \<open>while (queue.pop(value)) ...\<close>: pops until the queue is empty. \<open>fuel\<close> bounds the number of
  calls; \<open>None\<close> when it runs out.
\<close>

fun drain :: "('s \<Rightarrow> 'a option \<times> 's) \<Rightarrow> nat \<Rightarrow> 's \<Rightarrow> ('a list \<times> 's) option" where
  "drain pop 0 s = None"
| "drain pop (Suc fuel) s =
     (case pop s of
        (None, s') \<Rightarrow> Some ([], s')
      | (Some x, s') \<Rightarrow> map_option (\<lambda>(xs, t). (x # xs, t)) (drain pop fuel s'))"

text \<open>Pushes a list of values; \<open>None\<close> when one of them is refused.\<close>

fun fill :: "('a \<Rightarrow> 's \<Rightarrow> bool \<times> 's) \<Rightarrow> 'a list \<Rightarrow> 's \<Rightarrow> 's option" where
  "fill push [] s = Some s"
| "fill push (x # xs) s = (let (acc, s') = push x s in if acc then fill push xs s' else None)"

locale bounded_fifo =
  fixes push :: "'a \<Rightarrow> 's \<Rightarrow> bool \<times> 's"
    and pop :: "'s \<Rightarrow> 'a option \<times> 's"
    and contents :: "'s \<Rightarrow> 'a list"
    and capacity :: "'s \<Rightarrow> nat"
    and ok :: "'s \<Rightarrow> bool"
  assumes push_accepts: "ok s \<Longrightarrow> length (contents s) < capacity s \<Longrightarrow> push x s = (b, s') \<Longrightarrow>
      b \<and> ok s' \<and> contents s' = contents s @ [x] \<and> capacity s' = capacity s"
    and push_refuses: "ok s \<Longrightarrow> \<not> length (contents s) < capacity s \<Longrightarrow> push x s = (False, s)"
    and pop_nothing: "ok s \<Longrightarrow> contents s = [] \<Longrightarrow> pop s = (None, s)"
    and pop_front: "ok s \<Longrightarrow> contents s = x # xs \<Longrightarrow> pop s = (v, s') \<Longrightarrow>
      v = Some x \<and> ok s' \<and> contents s' = xs \<and> capacity s' = capacity s"
    and within_capacity: "ok s \<Longrightarrow> length (contents s) \<le> capacity s"
begin

lemma push_any:
  assumes "ok s" "push x s = (b, s')"
  shows "ok s' \<and> capacity s' = capacity s \<and>
    contents s' = contents s @ (if b then [x] else []) \<and>
    (b \<longleftrightarrow> length (contents s) < capacity s)"
proof (cases "length (contents s) < capacity s")
  case True
  from push_accepts [OF assms(1) True assms(2)] True show ?thesis by simp
next
  case False
  from push_refuses [OF assms(1) False] assms(2) have "b = False" "s' = s" by auto
  with assms(1) False show ?thesis by simp
qed

lemma pop_any:
  assumes "ok s" "pop s = (v, s')"
  shows "ok s' \<and> capacity s' = capacity s \<and>
    contents s = (case v of None \<Rightarrow> [] | Some x \<Rightarrow> [x]) @ contents s' \<and>
    (v = None \<longleftrightarrow> contents s = [])"
proof (cases "contents s")
  case Nil
  from pop_nothing [OF assms(1) Nil] assms(2) have "v = None" "s' = s" by auto
  with assms(1) Nil show ?thesis by simp
next
  case (Cons x xs)
  from pop_front [OF assms(1) Cons assms(2)] Cons show ?thesis by simp
qed

text \<open>First in, first out, nothing lost, nothing invented, whatever calls a client makes.\<close>

lemma fifo_run_order:
  assumes "ok s" "fifo_run push pop cs s = (a, r, t)"
  shows "ok t \<and> capacity t = capacity s \<and> contents s @ a = r @ contents t"
  using assms
proof (induction cs arbitrary: s a r)
  case Nil
  then show ?case by simp
next
  case (Cons c cs)
  show ?case
  proof (cases c)
    case (Push x)
    obtain b s' where p: "push x s = (b, s')" by (cases "push x s")
    obtain a' r' where run: "fifo_run push pop cs s' = (a', r', t)"
      and ar: "a = (if b then x # a' else a')" "r = r'"
      using Cons.prems(2) Push p by (auto split: prod.splits if_splits)
    from push_any [OF Cons.prems(1) p] have after: "ok s'" "capacity s' = capacity s"
      "contents s' = contents s @ (if b then [x] else [])" by blast+
    from Cons.IH [OF after(1) run] after(2,3) ar show ?thesis by (cases b) simp_all
  next
    case Pop
    obtain v s' where p: "pop s = (v, s')" by (cases "pop s")
    obtain a' r' where run: "fifo_run push pop cs s' = (a', r', t)"
      and ar: "a = a'" "r = (case v of None \<Rightarrow> r' | Some x \<Rightarrow> x # r')"
      using Cons.prems(2) Pop p by (auto split: prod.splits)
    from pop_any [OF Cons.prems(1) p] have after: "ok s'" "capacity s' = capacity s"
      "contents s = (case v of None \<Rightarrow> [] | Some x \<Rightarrow> [x]) @ contents s'" by blast+
    from Cons.IH [OF after(1) run] after(2,3) ar show ?thesis by (cases v) simp_all
  qed
qed

text \<open>The draining loop ends and returns the contents; one call more than elements is enough.\<close>

lemma drain_contents:
  assumes "ok s" "length (contents s) < fuel"
  shows "\<exists>t. drain pop fuel s = Some (contents s, t) \<and> ok t \<and> contents t = []"
  using assms
proof (induction fuel arbitrary: s)
  case 0
  then show ?case by simp
next
  case (Suc fuel)
  obtain v s' where p: "pop s = (v, s')" by (cases "pop s")
  note after = pop_any [OF Suc.prems(1) p]
  show ?case
  proof (cases v)
    case None
    with p after show ?thesis by auto
  next
    case (Some x)
    with after have "contents s = x # contents s'" by simp
    with Suc.prems(2) after have "ok s'" "length (contents s') < fuel" by auto
    then obtain t where "drain pop fuel s' = Some (contents s', t) \<and> ok t \<and> contents t = []"
      using Suc.IH by blast
    with p Some \<open>contents s = x # contents s'\<close> show ?thesis by auto
  qed
qed

text \<open>As many values as there is room for are accepted.\<close>

lemma fill_contents:
  assumes "ok s" "length (contents s) + length xs \<le> capacity s"
  shows "\<exists>t. fill push xs s = Some t \<and> ok t \<and> contents t = contents s @ xs \<and> capacity t = capacity s"
  using assms
proof (induction xs arbitrary: s)
  case Nil
  then show ?case by simp
next
  case (Cons x xs)
  obtain b s' where p: "push x s = (b, s')" by (cases "push x s")
  have "length (contents s) < capacity s" using Cons.prems(2) by simp
  from push_accepts [OF Cons.prems(1) this p] have s': "b" "ok s'" "contents s' = contents s @ [x]"
    "capacity s' = capacity s" by blast+
  with Cons.prems(2) have "length (contents s') + length xs \<le> capacity s'" by simp
  from Cons.IH [OF s'(2) this] s' p show ?case by simp
qed

end

section \<open>Queues shared by threads\<close>

text \<open>
  The interface of the queues that any threads use at the same time. A history records what is put in and
  what is taken out; \<open>limit\<close> is the capacity, with \<open>0\<close> for none.
\<close>

datatype 'a fifo_event = Accepted 'a | Taken 'a

fun accepted :: "'a fifo_event list \<Rightarrow> 'a list" where
  "accepted [] = []"
| "accepted (Accepted v # es) = v # accepted es"
| "accepted (Taken v # es) = accepted es"

fun taken_out :: "'a fifo_event list \<Rightarrow> 'a list" where
  "taken_out [] = []"
| "taken_out (Accepted v # es) = taken_out es"
| "taken_out (Taken v # es) = v # taken_out es"

lemma accepted_snoc [simp]: "accepted (es @ [e]) = accepted es @ (case e of Accepted v \<Rightarrow> [v] | Taken v \<Rightarrow> [])"
  by (induction es rule: accepted.induct) (auto split: fifo_event.splits)

lemma taken_out_snoc [simp]: "taken_out (es @ [e]) = taken_out es @ (case e of Accepted v \<Rightarrow> [] | Taken v \<Rightarrow> [v])"
  by (induction es rule: taken_out.induct) (auto split: fifo_event.splits)

definition fifo_change :: "nat \<Rightarrow> 'a list \<Rightarrow> 'a fifo_event list \<Rightarrow> 'a list \<Rightarrow> 'a fifo_event list \<Rightarrow> bool" where
  "fifo_change limit q h q' h' \<longleftrightarrow> q' = q \<and> h' = h \<or>
     (\<exists>v. (limit = 0 \<or> length q < limit) \<and> q' = q @ [v] \<and> h' = h @ [Accepted v]) \<or>
     (\<exists>v. q = v # q' \<and> h' = h @ [Taken v])"

locale fifo_threads =
  fixes T :: "('g, 'l) thread"
    and init :: "('g, 'l) conf"
    and contents :: "'g \<Rightarrow> 'a list"
    and history :: "'g \<Rightarrow> 'a fifo_event list"
    and limit :: "'g \<Rightarrow> nat"
  assumes starts_empty: "contents (fst init) = [] \<and> history (fst init) = []"
    and changes: "(s', l') \<in> set (T i s l) \<Longrightarrow> limit s = 0 \<or> length (contents s) \<le> limit s \<Longrightarrow> limit s' = limit s \<and>
      fifo_change (limit s) (contents s) (history s) (contents s') (history s')"

sublocale fifo_threads \<subseteq> orders: thread_inv T init
  "\<lambda>s ls. accepted (history s) = taken_out (history s) @ contents s \<and> limit s = limit (fst init) \<and>
     (limit s = 0 \<or> length (contents s) \<le> limit s)"
proof
  fix s ls i s' l'
  assume I: "accepted (history s) = taken_out (history s) @ contents s \<and> limit s = limit (fst init) \<and>
      (limit s = 0 \<or> length (contents s) \<le> limit s)" and out: "(s', l') \<in> set (T i s (ls ! i))"
  from I have "limit s = 0 \<or> length (contents s) \<le> limit s" by blast
  note C = changes [OF out this]
  show "accepted (history s') = taken_out (history s') @ contents s' \<and> limit s' = limit (fst init) \<and>
      (limit s' = 0 \<or> length (contents s') \<le> limit s')"
    using C I by (auto simp: fifo_change_def)
qed (simp add: starts_empty)

context fifo_threads
begin

text \<open>What is taken out is what was put in, in order; the rest is still there, and there is room for it.\<close>

lemma fifo_order: "reach T init (s, ls) \<Longrightarrow> accepted (history s) = taken_out (history s) @ contents s \<and>
    (limit (fst init) = 0 \<or> length (contents s) \<le> limit (fst init))"
  using orders.reach_inv by metis

end

end
