(* ===== verification/Fifo_Clients.thy ===== *)
theory Fifo_Clients
  imports Fifo_Interface
begin

text \<open>
  The interface of the queues that one producer and one consumer use at the same time, access by access: LockFree/SPSCQueue
  and the MPSC queue with a single producer. The clients are any programs, and the queue is linearizable: the calls that
  have returned, with their results, are calls of an atomic bounded queue.
\<close>

section \<open>The clients\<close>

text \<open>
  The producer is any program that calls \<open>push\<close>: from the calls it has made and their results it chooses the next value, or
  ends. The consumer decides so whether it pops again. The second argument is the place in the call, if one is running.
\<close>

datatype ('a, 'p, 'c) fifo_client =
    Producer "('a \<times> bool) list" "('a \<times> 'p) option"
  | Consumer "'a option list" "'c option"

fun client_thread :: "('a \<Rightarrow> 'p) \<Rightarrow> ('a \<Rightarrow> 'q \<Rightarrow> 'p \<Rightarrow> ('q \<times> ('p + bool)) list) \<Rightarrow> 'c \<Rightarrow> ('q \<Rightarrow> 'c \<Rightarrow> 'q \<times> ('c + 'a option))
    \<Rightarrow> (('a \<times> bool) list \<Rightarrow> 'a option) \<Rightarrow> ('a option list \<Rightarrow> bool) \<Rightarrow> ('q, ('a, 'p, 'c) fifo_client) thread" where
  "client_thread push0 push pop0 pop pushes pops t q (Producer log None) =
     (case pushes log of None \<Rightarrow> [] | Some v \<Rightarrow> [(q, Producer log (Some (v, push0 v)))])"
| "client_thread push0 push pop0 pop pushes pops t q (Producer log (Some (v, pc))) =
     map (\<lambda>(q', r). (q', case r of Inl pc' \<Rightarrow> Producer log (Some (v, pc')) | Inr b \<Rightarrow> Producer (log @ [(v, b)]) None))
       (push v q pc)"
| "client_thread push0 push pop0 pop pushes pops t q (Consumer log None) =
     (if pops log then [(q, Consumer log (Some pop0))] else [])"
| "client_thread push0 push pop0 pop pushes pops t q (Consumer log (Some pc)) =
     (let (q', r) = pop q pc
      in [(q', case r of Inl pc' \<Rightarrow> Consumer log (Some pc') | Inr v \<Rightarrow> Consumer (log @ [v]) None)])"

definition client_init :: "'q \<Rightarrow> ('q, ('a, 'p, 'c) fifo_client) conf" where
  "client_init q = (q, [Producer [] None, Consumer [] None])"

section \<open>The specification\<close>

text \<open>
  Calls with their results on an atomic bounded queue: the pushes, the contents, the pops. A push is refused only when
  the queue is full, a pop returns nothing only when it is empty.
\<close>

inductive queue_spec :: "nat \<Rightarrow> ('a \<times> bool) list \<times> 'a list \<times> 'a option list \<Rightarrow>
    ('a \<times> bool) list \<times> 'a list \<times> 'a option list \<Rightarrow> bool" for cap where
  push_accepted: "length c < cap \<Longrightarrow> queue_spec cap (ps, c, cs) (ps @ [(v, True)], c @ [v], cs)"
| push_refused: "length c = cap \<Longrightarrow> queue_spec cap (ps, c, cs) (ps @ [(v, False)], c, cs)"
| pop_front: "queue_spec cap (ps, v # c, cs) (ps, c, cs @ [Some v])"
| pop_empty: "queue_spec cap (ps, [], cs) (ps, [], cs @ [None])"

definition spec_popped :: "'a option list \<Rightarrow> 'a list" where
  "spec_popped cs = concat (map (case_option [] (\<lambda>v. [v])) cs)"

lemma queue_spec_conserves:
  assumes "(queue_spec cap)\<^sup>*\<^sup>* ([], [], []) (ps, c, cs)"
  shows "map fst (filter snd ps) = spec_popped cs @ c"
proof -
  have "map fst (filter snd (fst x)) = spec_popped (snd (snd x)) @ fst (snd x)"
    if "(queue_spec cap)\<^sup>*\<^sup>* ([], [], []) x" for x
    using that by induction (auto simp: spec_popped_def elim!: queue_spec.cases)
  from this [OF assms] show ?thesis by simp
qed

fun calls_made :: "('a, 'p, 'c) fifo_client list \<Rightarrow> ('a \<times> bool) list \<times> 'a option list" where
  "calls_made [Producer ps pp, Consumer cs cp] = (ps, cs)"
| "calls_made ls = ([], [])"

section \<open>The interface\<close>

text \<open>
  \<open>pushing\<close> and \<open>popping\<close> say what each side knows at its place in a call (\<open>None\<close> between two calls). Every access keeps
  them; the contents change, or a call is refused, only at the access that returns.
\<close>

locale one_producer_queue =
  fixes push0 :: "'a \<Rightarrow> 'p"
    and push :: "'a \<Rightarrow> 'q \<Rightarrow> 'p \<Rightarrow> ('q \<times> ('p + bool)) list"
    and pop0 :: 'c
    and pop :: "'q \<Rightarrow> 'c \<Rightarrow> 'q \<times> ('c + 'a option)"
    and new :: 'q
    and contents :: "'q \<Rightarrow> 'a list"
    and cap :: nat
    and ok :: "'q \<Rightarrow> bool"
    and pushing :: "'q \<Rightarrow> ('a \<times> 'p) option \<Rightarrow> bool"
    and popping :: "'q \<Rightarrow> 'c option \<Rightarrow> bool"
  assumes new_queue: "ok new \<and> contents new = [] \<and> pushing new None \<and> popping new None"
    and push_begins: "pushing q None \<Longrightarrow> pushing q (Some (v, push0 v))"
    and pop_begins: "popping q None \<Longrightarrow> popping q (Some pop0)"
    and push_access: "ok q \<Longrightarrow> pushing q (Some (v, pc)) \<Longrightarrow> popping q cp \<Longrightarrow> (q', r) \<in> set (push v q pc) \<Longrightarrow>
      ok q' \<and> popping q' cp \<and>
      (case r of Inl pc' \<Rightarrow> pushing q' (Some (v, pc')) \<and> contents q' = contents q
       | Inr b \<Rightarrow> pushing q' None \<and>
           (if b then length (contents q) < cap \<and> contents q' = contents q @ [v]
            else length (contents q) = cap \<and> contents q' = contents q))"
    and pop_access: "ok q \<Longrightarrow> pushing q pp \<Longrightarrow> popping q (Some cc) \<Longrightarrow> pop q cc = (q', s) \<Longrightarrow>
      ok q' \<and> pushing q' pp \<and>
      (case s of Inl cc' \<Rightarrow> popping q' (Some cc') \<and> contents q' = contents q
       | Inr v \<Rightarrow> popping q' None \<and>
           (case v of None \<Rightarrow> contents q = [] \<and> contents q' = [] | Some x \<Rightarrow> contents q = x # contents q'))"
begin

abbreviation runs :: "(('a \<times> bool) list \<Rightarrow> 'a option) \<Rightarrow> ('a option list \<Rightarrow> bool) \<Rightarrow> ('q, ('a, 'p, 'c) fifo_client) thread" where
  "runs \<equiv> client_thread push0 push pop0 pop"

definition client_inv :: "'q \<Rightarrow> ('a, 'p, 'c) fifo_client list \<Rightarrow> bool" where
  "client_inv q ls \<longleftrightarrow> ok q \<and> (\<exists>ps pp cs cp. ls = [Producer ps pp, Consumer cs cp] \<and> pushing q pp \<and> popping q cp)"

definition client_abs :: "'q \<Rightarrow> ('a, 'p, 'c) fifo_client list \<Rightarrow> ('a \<times> bool) list \<times> 'a list \<times> 'a option list" where
  "client_abs q ls = (fst (calls_made ls), contents q, snd (calls_made ls))"

definition effect :: "('a \<times> bool) list \<Rightarrow> 'q \<Rightarrow> 'a option list \<Rightarrow> ('a \<times> bool) list \<Rightarrow> 'q \<Rightarrow> 'a option list \<Rightarrow> bool" where
  "effect ps q cs ps' q' cs' \<longleftrightarrow> ps' = ps \<and> cs' = cs \<and> contents q' = contents q \<or>
     queue_spec cap (ps, contents q, cs) (ps', contents q', cs')"

lemma producer_moves:
  assumes "ok q" "pushing q pp" "popping q cp" and st: "(q', l) \<in> set (runs pushes pops t q (Producer ps pp))"
  shows "\<exists>ps' pp'. l = Producer ps' pp' \<and> ok q' \<and> pushing q' pp' \<and> popping q' cp \<and> effect ps q cs ps' q' cs"
proof (cases pp)
  case None
  with assms push_begins show ?thesis by (auto simp: effect_def split: option.splits)
next
  case (Some vp)
  obtain v pc where vp: "pp = Some (v, pc)" using Some by (cases vp) auto
  with st obtain r where a: "(q', r) \<in> set (push v q pc)"
    and l: "l = (case r of Inl pc' \<Rightarrow> Producer ps (Some (v, pc')) | Inr b \<Rightarrow> Producer (ps @ [(v, b)]) None)" by auto
  from push_access [OF assms(1) assms(2) [unfolded vp] assms(3) a] l show ?thesis
    by (auto simp: effect_def push_accepted push_refused split: sum.splits if_splits)
qed

lemma consumer_moves:
  assumes "ok q" "pushing q pp" "popping q cp" and st: "(q', l) \<in> set (runs pushes pops t q (Consumer cs cp))"
  shows "\<exists>cs' cp'. l = Consumer cs' cp' \<and> ok q' \<and> pushing q' pp \<and> popping q' cp' \<and> effect ps q cs ps q' cs'"
proof (cases cp)
  case None
  with assms pop_begins show ?thesis by (auto simp: effect_def split: if_splits)
next
  case (Some pc)
  obtain s where a: "pop q pc = (q', s)"
    and l: "l = (case s of Inl pc' \<Rightarrow> Consumer cs (Some pc') | Inr v \<Rightarrow> Consumer (cs @ [v]) None)"
    using st Some by (cases "pop q pc") auto
  from pop_access [OF assms(1,2) assms(3) [unfolded Some] a] l show ?thesis
    by (auto simp: effect_def pop_front pop_empty split: sum.splits option.splits)
qed

lemma client_simulates:
  assumes I: "client_inv q ls" and t: "t < length ls" and st: "(q', l) \<in> set (runs pushes pops t q (ls ! t))"
  shows "client_inv q' (ls[t := l]) \<and>
    (client_abs q' (ls[t := l]) = client_abs q ls \<or> queue_spec cap (client_abs q ls) (client_abs q' (ls[t := l])))"
proof -
  from I obtain ps pp cs cp where ls: "ls = [Producer ps pp, Consumer cs cp]" and c: "ok q" "pushing q pp" "popping q cp"
    unfolding client_inv_def by blast
  consider "t = 0" | "t = 1" using t ls by fastforce
  then show ?thesis
  proof cases
    case 1
    with st ls have "(q', l) \<in> set (runs pushes pops t q (Producer ps pp))" by simp
    from producer_moves [OF c this, of cs] 1 ls show ?thesis
      by (auto simp: client_inv_def client_abs_def effect_def)
  next
    case 2
    with st ls have "(q', l) \<in> set (runs pushes pops t q (Consumer cs cp))" by simp
    from consumer_moves [OF c this, of ps] 2 ls show ?thesis
      by (auto simp: client_inv_def client_abs_def effect_def)
  qed
qed

lemma sim: "thread_sim (runs pushes pops) (client_init new) client_inv client_abs (queue_spec cap)"
proof
  show "client_inv (fst (client_init new)) (snd (client_init new))"
    using new_queue by (auto simp: client_inv_def client_init_def)
qed (use client_simulates in blast)+

text \<open>The calls that have returned are calls of the atomic queue, and what is popped is what was accepted, in order.\<close>

lemma linearizable:
  assumes "reach (runs pushes pops) (client_init new) (q, [Producer ps pp, Consumer cs cp])"
  shows "(queue_spec cap)\<^sup>*\<^sup>* ([], [], []) (ps, contents q, cs) \<and> map fst (filter snd ps) = spec_popped cs @ contents q"
proof -
  have "client_abs new [Producer [] None, Consumer [] None] = ([], [], [])"
    using new_queue by (simp add: client_abs_def)
  with thread_sim.reach_sim [OF sim assms] have "(queue_spec cap)\<^sup>*\<^sup>* ([], [], []) (ps, contents q, cs)"
    by (simp add: client_init_def client_abs_def)
  with queue_spec_conserves [OF this] show ?thesis by blast
qed

end

end
