(* ===== verification/Spsc_Queue.thy ===== *)
theory Spsc_Queue
  imports Fifo_Clients "HOL-Library.Sublist"
begin

text \<open>
  The ring buffer of LockFree/SPSCQueue/main.cpp for one producer and one consumer, and the
  demonstrations of that file. \<open>push\<close> and \<open>pop\<close> are modelled twice: as whole calls, for the
  single-threaded demos, and as sequences of atomic accesses (load of the own index, load of
  the other index, access to the cell, store of the own index), for the threaded ones.
  The indices stay below \<open>Size\<close>, so \<open>size_t\<close> never wraps here and they are \<open>nat\<close>.
\<close>

section \<open>The queue\<close>

record 'a spsc =
  buffer :: "'a list"
  writePos :: nat
  readPos :: nat

definition spsc_new :: "nat \<Rightarrow> 'a \<Rightarrow> 'a spsc" where
  "spsc_new Size d = \<lparr>buffer = replicate Size d, writePos = 0, readPos = 0\<rparr>"

abbreviation Size :: "'a spsc \<Rightarrow> nat" where
  "Size q \<equiv> length (buffer q)"

definition spsc_push :: "'a \<Rightarrow> 'a spsc \<Rightarrow> bool \<times> 'a spsc" where
  "spsc_push value q =
     (let currentWrite = writePos q;
          nextWrite = (currentWrite + 1) mod Size q
      in if nextWrite = readPos q then (False, q)
         else (True, q\<lparr>buffer := (buffer q)[currentWrite := value], writePos := nextWrite\<rparr>))"

definition spsc_pop :: "'a spsc \<Rightarrow> 'a option \<times> 'a spsc" where
  "spsc_pop q =
     (let currentRead = readPos q
      in if currentRead = writePos q then (None, q)
         else (Some (buffer q ! currentRead), q\<lparr>readPos := (currentRead + 1) mod Size q\<rparr>))"

text \<open>The same calls, one access to shared memory at a time; \<open>Inr\<close> is the return.\<close>

datatype push_pc = PushStart | PushCheck nat | PushCell nat | PushPublish nat

fun push_step :: "'a \<Rightarrow> 'a spsc \<Rightarrow> push_pc \<Rightarrow> 'a spsc \<times> (push_pc + bool)" where
  "push_step value q PushStart = (q, Inl (PushCheck (writePos q)))"
| "push_step value q (PushCheck w) =
     (if (w + 1) mod Size q = readPos q then (q, Inr False) else (q, Inl (PushCell w)))"
| "push_step value q (PushCell w) =
     (q\<lparr>buffer := (buffer q)[w := value]\<rparr>, Inl (PushPublish w))"
| "push_step value q (PushPublish w) =
     (q\<lparr>writePos := (w + 1) mod Size q\<rparr>, Inr True)"

datatype 'a pop_pc = PopStart | PopCheck nat | PopCell nat | PopPublish nat 'a

fun pop_step :: "'a spsc \<Rightarrow> 'a pop_pc \<Rightarrow> 'a spsc \<times> ('a pop_pc + 'a option)" where
  "pop_step q PopStart = (q, Inl (PopCheck (readPos q)))"
| "pop_step q (PopCheck r) =
     (if r = writePos q then (q, Inr None) else (q, Inl (PopCell r)))"
| "pop_step q (PopCell r) = (q, Inl (PopPublish r (buffer q ! r)))"
| "pop_step q (PopPublish r v) = (q\<lparr>readPos := (r + 1) mod Size q\<rparr>, Inr (Some v))"

section \<open>Contents\<close>

definition spsc_ok :: "'a spsc \<Rightarrow> bool" where
  "spsc_ok q \<longleftrightarrow> writePos q < Size q \<and> readPos q < Size q"

definition used :: "'a spsc \<Rightarrow> nat" where
  "used q = (if readPos q \<le> writePos q then writePos q - readPos q
             else writePos q + Size q - readPos q)"

definition spsc_contents :: "'a spsc \<Rightarrow> 'a list" where
  "spsc_contents q = ring_slice (buffer q) (readPos q) (used q)"

lemma length_spsc_contents [simp]: "length (spsc_contents q) = used q"
  by (simp add: spsc_contents_def)

lemma Suc_mod_eq: "i < n \<Longrightarrow> Suc i mod n = (if Suc i = n then 0 else Suc i)"
  by simp

lemma Suc_mod_less [simp]: "i < n \<Longrightarrow> Suc i mod n < n"
  by simp

lemma used_zero_iff: "spsc_ok q \<Longrightarrow> used q = 0 \<longleftrightarrow> readPos q = writePos q"
  by (auto simp: spsc_ok_def used_def)

lemma used_bound: "spsc_ok q \<Longrightarrow> used q < Size q"
  by (auto simp: spsc_ok_def used_def)

lemma full_iff: "spsc_ok q \<Longrightarrow> (writePos q + 1) mod Size q = readPos q \<longleftrightarrow> used q + 1 = Size q"
  by (auto simp: spsc_ok_def used_def Suc_mod_eq)

lemma write_index: "spsc_ok q \<Longrightarrow> (readPos q + used q) mod Size q = writePos q"
  by (auto simp: spsc_ok_def used_def)

text \<open>Filling the cell at the write index does not touch the contents; publishing it adds it.\<close>

lemma contents_cell:
  assumes "spsc_ok q"
  shows "spsc_contents (q\<lparr>buffer := (buffer q)[writePos q := v]\<rparr>) = spsc_contents q"
  using ring_slice_upd_outside [of "used q" "buffer q" "readPos q" v] used_bound [OF assms]
  by (simp add: spsc_contents_def used_def write_index [OF assms, unfolded used_def] split: if_splits)

lemma contents_publish:
  assumes "spsc_ok q" "(writePos q + 1) mod Size q \<noteq> readPos q"
  shows "spsc_contents (q\<lparr>writePos := (writePos q + 1) mod Size q\<rparr>) =
    spsc_contents q @ [buffer q ! writePos q]"
proof -
  have "used (q\<lparr>writePos := (writePos q + 1) mod Size q\<rparr>) = Suc (used q)"
    using assms by (auto simp: used_def spsc_ok_def Suc_mod_eq)
  then show ?thesis
    using write_index [OF assms(1)] by (simp add: spsc_contents_def ring_slice_Suc)
qed

lemma contents_consume:
  assumes "spsc_ok q" "readPos q \<noteq> writePos q"
  shows "spsc_contents q =
    buffer q ! readPos q # spsc_contents (q\<lparr>readPos := (readPos q + 1) mod Size q\<rparr>)"
proof -
  let ?q = "q\<lparr>readPos := (readPos q + 1) mod Size q\<rparr>"
  have "used q = Suc (used ?q)"
    using assms by (auto simp: used_def spsc_ok_def Suc_mod_eq)
  then show ?thesis
    using assms by (simp add: spsc_contents_def ring_slice_Cons ring_slice_mod spsc_ok_def
        ring_slice_mod [where r = "Suc _"])
qed

lemma contents_new [simp]: "spsc_contents (spsc_new n d) = []"
  by (simp add: spsc_contents_def spsc_new_def used_def)

lemma ok_new [simp]: "spsc_ok (spsc_new n d) \<longleftrightarrow> 0 < n"
  by (simp add: spsc_ok_def spsc_new_def)

section \<open>Whole calls keep the contract of a bounded queue\<close>

interpretation spsc: bounded_fifo spsc_push spsc_pop spsc_contents "\<lambda>q. Size q - 1" spsc_ok
proof unfold_locales
  fix q s' :: "'a spsc" and x b
  assume ok: "spsc_ok q"
  then have pos: "0 < Size q" by (auto simp: spsc_ok_def)
  {
    assume "length (spsc_contents q) < Size q - 1" and p: "spsc_push x q = (b, s')"
    then have nf: "(writePos q + 1) mod Size q \<noteq> readPos q"
      using full_iff [OF ok] by auto
    let ?q = "q\<lparr>buffer := (buffer q)[writePos q := x]\<rparr>"
    have ok1: "spsc_ok ?q" using ok by (simp add: spsc_ok_def)
    have eq: "b" "s' = ?q\<lparr>writePos := (writePos ?q + 1) mod Size ?q\<rparr>"
      using p nf by (auto simp: spsc_push_def Let_def)
    have "spsc_contents s' = spsc_contents ?q @ [x]"
      using contents_publish [OF ok1] nf ok by (simp add: eq spsc_ok_def)
    then show "b \<and> spsc_ok s' \<and> spsc_contents s' = spsc_contents q @ [x] \<and>
        Size s' - 1 = Size q - 1"
      using ok1 pos by (auto simp: contents_cell [OF ok] eq spsc_ok_def)
  next
    assume "\<not> length (spsc_contents q) < Size q - 1"
    then show "spsc_push x q = (False, q)"
      using full_iff [OF ok] used_bound [OF ok] by (simp add: spsc_push_def Let_def)
  next
    assume "spsc_contents q = []"
    then have "used q = 0" by (metis length_spsc_contents list.size(3))
    then show "spsc_pop q = (None, q)"
      using used_zero_iff [OF ok] by (simp add: spsc_pop_def Let_def)
  next
    show "length (spsc_contents q) \<le> Size q - 1"
      using used_bound [OF ok] by simp
  }
next
  fix q s' :: "'a spsc" and x xs v
  assume ok: "spsc_ok q" and c: "spsc_contents q = x # xs" and p: "spsc_pop q = (v, s')"
  then have ne: "readPos q \<noteq> writePos q"
    using used_zero_iff [OF ok] length_spsc_contents [of q] by (metis length_0_conv list.distinct(1))
  from contents_consume [OF ok ne] c p ne ok
  show "v = Some x \<and> spsc_ok s' \<and> spsc_contents s' = xs \<and> Size s' - 1 = Size q - 1"
    by (auto simp: spsc_pop_def spsc_ok_def Let_def)
qed

section \<open>One producer and one consumer, access by access\<close>

text \<open>
  What each side knows between its accesses. The producer's copy of the write index is
  current, and the cell it fills stays outside the contents, because the consumer only moves
  the read index towards it. The consumer's cell stays inside.
\<close>

fun prod_sync :: "'a spsc \<Rightarrow> 'a \<Rightarrow> push_pc \<Rightarrow> bool" where
  "prod_sync q x PushStart = True"
| "prod_sync q x (PushCheck w) = (w = writePos q)"
| "prod_sync q x (PushCell w) = (w = writePos q \<and> (w + 1) mod Size q \<noteq> readPos q)"
| "prod_sync q x (PushPublish w) =
     (w = writePos q \<and> (w + 1) mod Size q \<noteq> readPos q \<and> buffer q ! w = x)"

fun cons_sync :: "'a spsc \<Rightarrow> 'a pop_pc \<Rightarrow> bool" where
  "cons_sync q PopStart = True"
| "cons_sync q (PopCheck r) = (r = readPos q)"
| "cons_sync q (PopCell r) = (r = readPos q \<and> r \<noteq> writePos q)"
| "cons_sync q (PopPublish r v) = (r = readPos q \<and> r \<noteq> writePos q \<and> buffer q ! r = v)"

lemma push_step_sync:
  assumes ok: "spsc_ok q" and p: "prod_sync q x pc" and c: "cons_sync q cc"
    and st: "push_step x q pc = (q', r)"
  shows "spsc_ok q' \<and> Size q' = Size q \<and> cons_sync q' cc \<and>
    (case r of Inl pc' \<Rightarrow> prod_sync q' x pc' \<and> spsc_contents q' = spsc_contents q
     | Inr b \<Rightarrow> spsc_contents q' = spsc_contents q @ (if b then [x] else []))"
proof (cases pc)
  case PushStart
  with assms show ?thesis by auto
next
  case (PushCheck w)
  with assms show ?thesis by (auto split: if_splits)
next
  case (PushCell w)
  with st p have eq: "q' = q\<lparr>buffer := (buffer q)[writePos q := x]\<rparr>" "r = Inl (PushPublish (writePos q))"
    by auto
  have "cons_sync q' cc" using c eq by (cases cc) auto
  then show ?thesis
    using p PushCell ok contents_cell [OF ok, of x] by (auto simp: eq spsc_ok_def)
next
  case (PushPublish w)
  with st p have eq: "q' = q\<lparr>writePos := (writePos q + 1) mod Size q\<rparr>" "r = Inr True"
    and nf: "(writePos q + 1) mod Size q \<noteq> readPos q" and x: "buffer q ! writePos q = x" by auto
  have "cons_sync q' cc" using c nf eq by (cases cc) auto
  then show ?thesis
    using ok contents_publish [OF ok nf] x by (auto simp: eq spsc_ok_def)
qed

lemma push_step_result:
  assumes ok: "spsc_ok q" and p: "prod_sync q x pc" and st: "push_step x q pc = (q', Inr b)"
  shows "b \<longleftrightarrow> length (spsc_contents q) < Size q - 1"
  using assms full_iff [OF ok] used_bound [OF ok] by (cases pc) (auto split: if_splits)

lemma pop_step_sync:
  assumes ok: "spsc_ok q" and p: "prod_sync q x pc" and c: "cons_sync q cc"
    and st: "pop_step q cc = (q', r)"
  shows "spsc_ok q' \<and> Size q' = Size q \<and> prod_sync q' x pc \<and>
    (case r of Inl cc' \<Rightarrow> cons_sync q' cc' \<and> spsc_contents q' = spsc_contents q
     | Inr None \<Rightarrow> spsc_contents q' = spsc_contents q \<and> spsc_contents q = []
     | Inr (Some v) \<Rightarrow> spsc_contents q = v # spsc_contents q')"
proof (cases cc)
  case PopStart
  with assms show ?thesis by auto
next
  case (PopCheck r')
  have "readPos q = writePos q \<Longrightarrow> spsc_contents q = []"
    using used_zero_iff [OF ok] length_spsc_contents [of q] by (metis length_0_conv)
  with assms PopCheck show ?thesis by (auto split: if_splits)
next
  case (PopCell r')
  with assms show ?thesis by auto
next
  case (PopPublish r' v)
  with st c have eq: "q' = q\<lparr>readPos := (readPos q + 1) mod Size q\<rparr>" "r = Inr (Some v)"
    and ne: "readPos q \<noteq> writePos q" and v: "buffer q ! readPos q = v" by auto
  have "prod_sync q' x pc"
    using p ok ne eq by (cases pc) (auto simp: spsc_ok_def Suc_mod_eq split: if_splits)
  then show ?thesis
    using ok contents_consume [OF ok ne] v by (auto simp: eq spsc_ok_def)
qed

text \<open>Any producer and any consumer.\<close>

definition spsc_clients :: "(('a \<times> bool) list \<Rightarrow> 'a option) \<Rightarrow> ('a option list \<Rightarrow> bool)
    \<Rightarrow> ('a spsc, ('a, push_pc, 'a pop_pc) fifo_client) thread" where
  "spsc_clients = client_thread (\<lambda>v. PushStart) (\<lambda>v q pc. [push_step v q pc]) PopStart pop_step"

definition spsc_clients_init :: "nat \<Rightarrow> 'a \<Rightarrow> ('a spsc, ('a, push_pc, 'a pop_pc) fifo_client) conf" where
  "spsc_clients_init n d = client_init (spsc_new n d)"

fun producer_knows :: "'a spsc \<Rightarrow> ('a \<times> push_pc) option \<Rightarrow> bool" where
  "producer_knows q None = True"
| "producer_knows q (Some (v, pc)) = prod_sync q v pc"

fun consumer_knows :: "'a spsc \<Rightarrow> 'a pop_pc option \<Rightarrow> bool" where
  "consumer_knows q None = True"
| "consumer_knows q (Some pc) = cons_sync q pc"

lemma push_access_ok:
  assumes "spsc_ok q \<and> Size q = Suc k" "producer_knows q (Some (v, pc))" "consumer_knows q cp" "(q', r) \<in> set [push_step v q pc]"
  shows "(spsc_ok q' \<and> Size q' = Suc k) \<and> consumer_knows q' cp \<and>
      (case r of Inl pc' \<Rightarrow> producer_knows q' (Some (v, pc')) \<and> spsc_contents q' = spsc_contents q
       | Inr b \<Rightarrow> producer_knows q' None \<and>
           (if b then length (spsc_contents q) < k \<and> spsc_contents q' = spsc_contents q @ [v]
            else length (spsc_contents q) = k \<and> spsc_contents q' = spsc_contents q))"
proof -
  have q: "spsc_ok q" "prod_sync q v pc" "push_step v q pc = (q', r)" and n: "Size q = Suc k" using assms by auto
  have le: "length (spsc_contents q) \<le> k" using used_bound [OF q(1)] n by simp
  have S: "spsc_ok q' \<and> Size q' = Size q \<and> consumer_knows q' cp \<and>
    (case r of Inl pc' \<Rightarrow> prod_sync q' v pc' \<and> spsc_contents q' = spsc_contents q
     | Inr b \<Rightarrow> spsc_contents q' = spsc_contents q @ (if b then [v] else []))"
  proof (cases cp)
    case None
    with push_step_sync [OF q(1,2) _ q(3), of PopStart] show ?thesis by simp
  next
    case (Some cc)
    with assms(3) push_step_sync [OF q(1,2) _ q(3), of cc] show ?thesis by simp
  qed
  show ?thesis
  proof (cases r)
    case (Inl pc')
    with S n show ?thesis by simp
  next
    case (Inr b)
    with q(3) push_step_result [OF q(1,2)] n have "b \<longleftrightarrow> length (spsc_contents q) < k" by fastforce
    with S n Inr le show ?thesis by (cases b) simp_all
  qed
qed

lemma pop_access_ok:
  assumes "spsc_ok q \<and> Size q = Suc k" "producer_knows q pp" "consumer_knows q (Some cc)" "pop_step q cc = (q', s)"
  shows "(spsc_ok q' \<and> Size q' = Suc k) \<and> producer_knows q' pp \<and>
      (case s of Inl cc' \<Rightarrow> consumer_knows q' (Some cc') \<and> spsc_contents q' = spsc_contents q
       | Inr v \<Rightarrow> consumer_knows q' None \<and>
           (case v of None \<Rightarrow> spsc_contents q = [] \<and> spsc_contents q' = [] | Some x \<Rightarrow> spsc_contents q = x # spsc_contents q'))"
proof -
  have q: "spsc_ok q" "cons_sync q cc" and n: "Size q = Suc k" using assms by auto
  show ?thesis
  proof (cases pp)
    case None
    then show ?thesis
      using pop_step_sync [OF q(1) _ q(2) assms(4), of undefined PushStart] n by (auto split: sum.splits option.splits)
  next
    case (Some vp)
    obtain v pc where vp: "vp = (v, pc)" by (cases vp)
    then have "prod_sync q v pc" using assms(2) Some by simp
    from pop_step_sync [OF q(1) this q(2) assms(4)] n Some vp show ?thesis by (auto split: sum.splits option.splits)
  qed
qed

interpretation spsc_pair: one_producer_queue "\<lambda>v. PushStart" "\<lambda>v q pc. [push_step v q pc]" PopStart pop_step "spsc_new (Suc k) d"
    spsc_contents k "\<lambda>q. spsc_ok q \<and> Size q = Suc k" producer_knows consumer_knows for k d
proof
  show "(spsc_ok (spsc_new (Suc k) d) \<and> Size (spsc_new (Suc k) d) = Suc k) \<and> spsc_contents (spsc_new (Suc k) d) = [] \<and>
      producer_knows (spsc_new (Suc k) d) None \<and> consumer_knows (spsc_new (Suc k) d) None"
    by (simp add: spsc_new_def [THEN arg_cong [where f = Size]])
next
  show "producer_knows q (Some (v, PushStart))" for q :: "'a spsc" and v by simp
next
  show "consumer_knows q (Some PopStart)" for q :: "'a spsc" by simp
qed (rule push_access_ok pop_access_ok; assumption)+

section \<open>The threaded demonstrations\<close>

text \<open>
  The clients of \<open>demo_producer_consumer\<close> and \<open>demo_performance\<close>: the producer retries
  \<open>push(i)\<close> for each \<open>i < items\<close> and then sets \<open>done\<close>; the consumer loops while
  \<open>!done.load() || queue.pop(value)\<close> and calls \<open>pop\<close> again in the body. The consumer's
  local state carries the values it took out of the queue and the values it kept.
\<close>

datatype spsc_local =
    Producing nat push_pc
  | ProducerEnd
  | CondDone "int list" "int list"
  | CondPop "int list" "int list" "int pop_pc"
  | BodyPop "int list" "int list" "int pop_pc"
  | ConsumerEnd "int list" "int list"

fun demo_thread :: "nat \<Rightarrow> (int spsc \<times> bool, spsc_local) thread" where
  "demo_thread items _ (q, done) l =
     (case l of
        Producing i pc \<Rightarrow>
          if i < items
          then let (q', r) = push_step (int i) q pc in
               [((q', done), case r of Inl pc' \<Rightarrow> Producing i pc'
                   | Inr b \<Rightarrow> if b then Producing (i + 1) PushStart else Producing i PushStart)]
          else [((q, True), ProducerEnd)]
      | ProducerEnd \<Rightarrow> []
      | CondDone p g \<Rightarrow>
          [((q, done), if \<not> done then BodyPop p g PopStart else CondPop p g PopStart)]
      | CondPop p g pc \<Rightarrow>
          (let (q', r) = pop_step q pc in
           [((q', done), case r of Inl pc' \<Rightarrow> CondPop p g pc'
               | Inr None \<Rightarrow> ConsumerEnd p g
               | Inr (Some v) \<Rightarrow> BodyPop (p @ [v]) g PopStart)])
      | BodyPop p g pc \<Rightarrow>
          (let (q', r) = pop_step q pc in
           [((q', done), case r of Inl pc' \<Rightarrow> BodyPop p g pc'
               | Inr None \<Rightarrow> CondDone p g
               | Inr (Some v) \<Rightarrow> CondDone (p @ [v]) (g @ [v]))])
      | ConsumerEnd p g \<Rightarrow> [])"

definition demo_init :: "nat \<Rightarrow> (int spsc \<times> bool, spsc_local) conf" where
  "demo_init n = ((spsc_new n 0, False), [Producing 0 PushStart, CondDone [] []])"

definition demo_producer_consumer :: "(int spsc \<times> bool, spsc_local) thread" where
  "demo_producer_consumer = demo_thread 50"

definition demo_performance :: "(int spsc \<times> bool, spsc_local) thread" where
  "demo_performance = demo_thread 1000000"

text \<open>The number of values pushed, the values popped, the values kept.\<close>

fun sent :: "nat \<Rightarrow> spsc_local \<Rightarrow> nat" where
  "sent items (Producing i pc) = i"
| "sent items _ = items"

fun popped :: "spsc_local \<Rightarrow> int list" where
  "popped (CondDone p g) = p"
| "popped (CondPop p g pc) = p"
| "popped (BodyPop p g pc) = p"
| "popped (ConsumerEnd p g) = p"
| "popped _ = []"

fun received :: "spsc_local \<Rightarrow> int list" where
  "received (CondDone p g) = g"
| "received (CondPop p g pc) = g"
| "received (BodyPop p g pc) = g"
| "received (ConsumerEnd p g) = g"
| "received _ = []"

fun prod_inv :: "nat \<Rightarrow> int spsc \<Rightarrow> bool \<Rightarrow> spsc_local \<Rightarrow> bool" where
  "prod_inv items q done (Producing i pc) =
     (\<not> done \<and> i \<le> items \<and> prod_sync q (int i) pc \<and> (i = items \<longrightarrow> pc = PushStart))"
| "prod_inv items q done ProducerEnd = done"
| "prod_inv items q done _ = False"

fun cons_inv :: "int spsc \<Rightarrow> bool \<Rightarrow> spsc_local \<Rightarrow> bool" where
  "cons_inv q done (CondDone p g) = True"
| "cons_inv q done (CondPop p g pc) = (done \<and> cons_sync q pc)"
| "cons_inv q done (BodyPop p g pc) = cons_sync q pc"
| "cons_inv q done (ConsumerEnd p g) = (done \<and> spsc_contents q = [])"
| "cons_inv q done _ = False"

definition demo_inv :: "nat \<Rightarrow> nat \<Rightarrow> int spsc \<times> bool \<Rightarrow> spsc_local list \<Rightarrow> bool" where
  "demo_inv n items g ls \<longleftrightarrow> (\<exists>P C. ls = [P, C] \<and> spsc_ok (fst g) \<and> Size (fst g) = n \<and>
     prod_inv items (fst g) (snd g) P \<and> cons_inv (fst g) (snd g) C \<and>
     popped C @ spsc_contents (fst g) = map int [0..<sent items P] \<and>
     subseq (received C) (popped C))"

lemma demo_inv_init: "0 < n \<Longrightarrow> demo_inv n items (fst (demo_init n)) (snd (demo_init n))"
  by (auto simp: demo_inv_def demo_init_def spsc_new_def [THEN arg_cong [where f = Size]])

text \<open>A step of the producer, and one of the consumer.\<close>

lemma demo_inv_producer:
  assumes ok: "spsc_ok q" and P: "prod_inv items q done P" and C: "cons_inv q done C"
    and fifo: "popped C @ spsc_contents q = map int [0..<sent items P]"
    and out: "((q', done'), P') \<in> set (demo_thread items i (q, done) P)"
  shows "spsc_ok q' \<and> Size q' = Size q \<and> prod_inv items q' done' P' \<and> cons_inv q' done' C \<and>
     popped C @ spsc_contents q' = map int [0..<sent items P']"
proof (cases P)
  case (Producing k pc)
  show ?thesis
  proof (cases "k < items")
    case True
    obtain q1 r where st: "push_step (int k) q pc = (q1, r)" by (cases "push_step (int k) q pc")
    have eq: "q' = q1" "done' = done" "P' = (case r of Inl pc' \<Rightarrow> Producing k pc'
                   | Inr b \<Rightarrow> if b then Producing (k + 1) PushStart else Producing k PushStart)"
      using out Producing True st by auto
    have nd: "\<not> done" and ps: "prod_sync q (int k) pc" using P Producing by auto
    have cs: "cons_inv q1 done C" and res: "spsc_ok q1 \<and> Size q1 = Size q \<and>
      (case r of Inl pc' \<Rightarrow> prod_sync q1 (int k) pc' \<and> spsc_contents q1 = spsc_contents q
       | Inr b \<Rightarrow> spsc_contents q1 = spsc_contents q @ (if b then [int k] else []))"
      using push_step_sync [OF ok ps _ st] push_step_sync [OF ok ps, of PopStart, OF _ st] C nd
      by (cases C; simp)+
    from res cs fifo Producing True nd show ?thesis
      by (auto simp: eq split: sum.splits)
  next
    case False
    with out Producing P C fifo ok show ?thesis
      by (cases C) auto
  qed
next
  case ProducerEnd
  with out show ?thesis by simp
qed (use P in auto)

lemma demo_inv_consumer:
  assumes ok: "spsc_ok q" and P: "prod_inv items q done P" and C: "cons_inv q done C"
    and fifo: "popped C @ spsc_contents q = map int [0..<sent items P]"
    and sub: "subseq (received C) (popped C)"
    and out: "((q', done'), C') \<in> set (demo_thread items i (q, done) C)"
  shows "spsc_ok q' \<and> Size q' = Size q \<and> prod_inv items q' done' P \<and> cons_inv q' done' C' \<and>
     popped C' @ spsc_contents q' = map int [0..<sent items P] \<and>
     subseq (received C') (popped C')"
proof -
  have pop: "spsc_ok q1 \<and> Size q1 = Size q \<and> prod_inv items q1 done P \<and>
    (case r of Inl cc' \<Rightarrow> cons_sync q1 cc' \<and> spsc_contents q1 = spsc_contents q
     | Inr None \<Rightarrow> spsc_contents q1 = spsc_contents q \<and> spsc_contents q = []
     | Inr (Some v) \<Rightarrow> spsc_contents q = v # spsc_contents q1)"
    if "pop_step q cc = (q1, r)" "cons_sync q cc" for q1 r cc
    using pop_step_sync [OF ok _ that(2,1)] pop_step_sync [OF ok, of 0 PushStart, OF _ that(2,1)] P
    by (cases P) auto
  show ?thesis
  proof (cases C)
    case (CondDone p g)
    with out P fifo ok sub show ?thesis by auto
  next
    case (CondPop p g pc)
    obtain q1 r where st: "pop_step q pc = (q1, r)" by (cases "pop_step q pc")
    from pop [OF st] C CondPop have res: "spsc_ok q1 \<and> Size q1 = Size q \<and> prod_inv items q1 done P \<and>
      (case r of Inl cc' \<Rightarrow> cons_sync q1 cc' \<and> spsc_contents q1 = spsc_contents q
       | Inr None \<Rightarrow> spsc_contents q1 = spsc_contents q \<and> spsc_contents q = []
       | Inr (Some v) \<Rightarrow> spsc_contents q = v # spsc_contents q1)" by simp
    from out CondPop st res fifo sub C show ?thesis
      by (auto split: sum.splits option.splits)
  next
    case (BodyPop p g pc)
    obtain q1 r where st: "pop_step q pc = (q1, r)" by (cases "pop_step q pc")
    from pop [OF st] C BodyPop have res: "spsc_ok q1 \<and> Size q1 = Size q \<and> prod_inv items q1 done P \<and>
      (case r of Inl cc' \<Rightarrow> cons_sync q1 cc' \<and> spsc_contents q1 = spsc_contents q
       | Inr None \<Rightarrow> spsc_contents q1 = spsc_contents q \<and> spsc_contents q = []
       | Inr (Some v) \<Rightarrow> spsc_contents q = v # spsc_contents q1)" by simp
    from out BodyPop st res fifo sub C show ?thesis
      by (auto split: sum.splits option.splits intro: list_emb_append_mono)
  next
    case (ConsumerEnd p g)
    with out show ?thesis by simp
  qed (use C in auto)
qed

lemma demo_inv_step:
  assumes inv: "demo_inv n items g ls" and i: "i < length ls"
    and out: "(g', l') \<in> set (demo_thread items i g (ls ! i))"
  shows "demo_inv n items g' (ls[i := l'])"
proof -
  obtain q d where g: "g = (q, d)" by (cases g)
  obtain q' d' where g': "g' = (q', d')" by (cases g')
  from inv g obtain P C where ls: "ls = [P, C]" and I: "spsc_ok q" "Size q = n"
    "prod_inv items q d P" "cons_inv q d C"
    "popped C @ spsc_contents q = map int [0..<sent items P]" "subseq (received C) (popped C)"
    by (auto simp: demo_inv_def)
  from i ls consider "i = 0" | "i = 1" by fastforce
  then show ?thesis
  proof cases
    case 1
    with out ls g g' have "((q', d'), l') \<in> set (demo_thread items i (q, d) P)" by simp
    from demo_inv_producer [OF I(1,3,4,5) this] I 1 ls show ?thesis
      by (simp add: demo_inv_def g')
  next
    case 2
    with out ls g g' have "((q', d'), l') \<in> set (demo_thread items i (q, d) C)" by simp
    from demo_inv_consumer [OF I(1,3,4,5,6) this] I 2 ls show ?thesis
      by (simp add: demo_inv_def g')
  qed
qed

interpretation demo4: thread_inv "demo_thread 1000000" "demo_init 1024" "demo_inv 1024 1000000"
  by unfold_locales (use demo_inv_init demo_inv_step in auto)

section \<open>The single-threaded demonstrations\<close>

definition demo_basic_usage :: "int list \<times> int list option" where
  "demo_basic_usage =
     (let (pushed, _, q) = fifo_run spsc_push spsc_pop
            (map (\<lambda>i. Push (i * 10)) [1, 2, 3, 4, 5]) (spsc_new 10 0)
      in (pushed, map_option fst (drain spsc_pop 10 q)))"

definition demo_queue_full :: "int list" where
  "demo_queue_full =
     fst (fifo_run spsc_push spsc_pop (map (\<lambda>i. Push (int i)) [0..<10]) (spsc_new 5 0))"

text \<open>\<open>Message\<close> keeps at most 31 characters of its text, padded with zeros to 32.\<close>

record 'd message =
  msg_id :: int
  msg_value :: 'd
  msg_text :: string

definition make_message :: "int \<Rightarrow> 'd \<Rightarrow> string \<Rightarrow> 'd message" where
  "make_message i v t = \<lparr>msg_id = i, msg_value = v,
     msg_text = (let cs = take 31 (takeWhile (\<lambda>c. c \<noteq> CHR 0x00) t)
                 in cs @ replicate (32 - length cs) CHR 0x00)\<rparr>"

text \<open>The three \<open>double\<close> values are only carried along; they are parameters here.\<close>

definition demo_custom_types :: "'d \<Rightarrow> 'd \<Rightarrow> 'd \<Rightarrow> 'd \<Rightarrow> 'd message list option" where
  "demo_custom_types zero v1 v2 v3 =
     (let d = \<lparr>msg_id = 0, msg_value = zero, msg_text = replicate 32 CHR 0x00\<rparr>;
          (_, _, q) = fifo_run spsc_push spsc_pop
            [Push (make_message 1 v1 ''Hello''),
             Push (make_message 2 v2 ''World''),
             Push (make_message 3 v3 ''SPSC Queue'')] (spsc_new 10 d)
      in map_option fst (drain spsc_pop 10 q))"

lemma length_msg_text: "length (msg_text (make_message i v t)) = 32"
  by (simp add: make_message_def Let_def)

section \<open>What the queue promises\<close>

text \<open>
  Claim C1. Linearizability: for any programs of one producer and one consumer, any \<open>Size\<close> and every interleaving of
  the accesses, the calls of \<open>push\<close> and \<open>pop\<close> that have returned, with their results, are those of an
  atomic first-in-first-out queue with room for \<open>Size - 1\<close> values: a push is refused exactly when it is full, a pop
  exactly when it is empty, and what is popped is what was accepted, in order.
\<close>

theorem spsc_linearizable:
  assumes "0 < n" and "reach (spsc_clients pushes pops) (spsc_clients_init n d) (q, [Producer ps pp, Consumer cs cp])"
  shows "(queue_spec (n - 1))\<^sup>*\<^sup>* ([], [], []) (ps, spsc_contents q, cs) \<and>
    map fst (filter snd ps) = spec_popped cs @ spsc_contents q"
proof -
  obtain k where "n = Suc k" using assms(1) gr0_conv_Suc by auto
  with assms(2) spsc_pair.linearizable [of pushes pops k d q ps pp cs cp] show ?thesis
    unfolding spsc_clients_def spsc_clients_init_def by simp
qed

text \<open>In a buffer of three the third push is refused; after a pop the next one wraps around.\<close>

theorem spsc_linearizable_witness:
  "\<exists>q. reach (spsc_clients (\<lambda>log. if length log < 4 then Some (int (length log)) else None) (\<lambda>log. True)) (spsc_clients_init 3 0)
     (q, [Producer [(0, True), (1, True), (2, False), (3, True)] None, Consumer [Some 0, Some 1] None]) \<and>
     writePos q = 0 \<and> spsc_contents q = [3] \<and>
     (queue_spec 2)\<^sup>*\<^sup>* ([], [], []) ([(0, True), (1, True), (2, False), (3, True)], spsc_contents q, [Some 0, Some 1])"
proof -
  let ?T = "spsc_clients (\<lambda>log. if length log < 4 then Some (int (length log)) else None) (\<lambda>log. True)"
  let ?ls = "[Producer [(0, True), (1, True), (2, False), (3, True)] None, Consumer [Some 0, Some 1] None]"
  have "map_option (\<lambda>(q, ls). (ls, writePos q, spsc_contents q)) (sched ?T
      (map (\<lambda>i. (i, 0)) (replicate 13 0 @ replicate 5 1 @ replicate 5 0 @ replicate 5 1)) (spsc_clients_init 3 0)) = Some (?ls, 0, [3])"
    by code_simp
  from sched_observe [OF this] obtain q where r: "reach ?T (spsc_clients_init 3 0) (q, ?ls)"
    and q: "writePos q = 0" "spsc_contents q = [3]" by auto
  from spsc_linearizable [OF _ r] r q show ?thesis by auto
qed

text \<open>
  Runs of the demos: a push that nothing interrupts, the producer running to its end while
  the buffer has room, a pop that nothing interrupts.
\<close>

lemma uninterrupted_push:
  assumes "(writePos q + 1) mod Size q \<noteq> readPos q" "k < items"
  shows "reach (demo_thread items) ((q, False), [Producing k PushStart, C])
     ((snd (spsc_push (int k) q), False), [Producing (k + 1) PushStart, C])"
  by (rule sched_reach [where ss = "[(0, 0), (0, 0), (0, 0), (0, 0)]"])
    (use assms in \<open>simp add: spsc_push_def Let_def\<close>)

lemma producer_runs:
  assumes "spsc_ok q" "used q + (items - k) < Size q" "k \<le> items"
  shows "\<exists>q'. reach (demo_thread items) ((q, False), [Producing k PushStart, C])
     ((q', True), [ProducerEnd, C]) \<and> spsc_ok q' \<and> Size q' = Size q \<and>
     spsc_contents q' = spsc_contents q @ map int [k..<items]"
  using assms
proof (induction "items - k" arbitrary: q k)
  case 0
  then have k: "items = k" by simp
  have "sched (demo_thread items) [(0, 0)] ((q, False), [Producing k PushStart, C]) =
    Some ((q, True), [ProducerEnd, C])" using k by simp
  from sched_reach [OF this] 0 k show ?case by (intro exI [of _ q]) auto
next
  case (Suc n)
  then have k: "k < items" by simp
  let ?q = "snd (spsc_push (int k) q)"
  have nf: "(writePos q + 1) mod Size q \<noteq> readPos q" using full_iff [OF Suc.prems(1)] Suc.prems k by simp
  obtain b where p: "spsc_push (int k) q = (b, ?q)" by (metis surj_pair snd_conv)
  have "length (spsc_contents q) < Size q - 1" using Suc.prems k by simp
  from spsc.push_accepts [OF Suc.prems(1) this p]
  have q: "spsc_ok ?q" "spsc_contents ?q = spsc_contents q @ [int k]" by auto
  have s: "Size ?q = Size q" by (simp add: spsc_push_def Let_def)
  have "used ?q = used q + 1" using arg_cong [OF q(2), of length] by simp
  then obtain q' where "reach (demo_thread items) ((?q, False), [Producing (k + 1) PushStart, C])
      ((q', True), [ProducerEnd, C])" "spsc_ok q'" "Size q' = Size q"
      "spsc_contents q' = spsc_contents ?q @ map int [k + 1..<items]"
    using Suc.hyps(1) [of "k + 1" ?q] Suc.hyps(2) Suc.prems q(1) s k by fastforce
  with uninterrupted_push [OF nf k, of C] q(2) k show ?case
    by (auto simp: upt_conv_Cons intro: reach_trans)
qed

lemma uninterrupted_pop:
  assumes "spsc_ok q" "spsc_contents q = v # xs"
  shows "\<exists>q'. spsc_ok q' \<and> spsc_contents q' = xs \<and>
     reach (demo_thread items) ((q, True), [P, CondDone p r]) ((q', True), [P, BodyPop (p @ [v]) r PopStart]) \<and>
     reach (demo_thread items) ((q, True), [P, BodyPop p r PopStart]) ((q', True), [P, CondDone (p @ [v]) (r @ [v])])"
proof -
  let ?q = "snd (spsc_pop q)"
  obtain w where p: "spsc_pop q = (w, ?q)" by (metis surj_pair snd_conv)
  from spsc.pop_front [OF assms p] have q: "w = Some v" "spsc_ok ?q" "spsc_contents ?q = xs" by auto
  from p q(1) have ne: "readPos q \<noteq> writePos q" "buffer q ! readPos q = v"
    by (auto simp: spsc_pop_def Let_def split: if_splits)
  have "sched (demo_thread items) [(1, 0), (1, 0), (1, 0), (1, 0), (1, 0)] ((q, True), [P, CondDone p r]) =
      Some ((?q, True), [P, BodyPop (p @ [v]) r PopStart])"
    "sched (demo_thread items) [(1, 0), (1, 0), (1, 0), (1, 0)] ((q, True), [P, BodyPop p r PopStart]) =
      Some ((?q, True), [P, CondDone (p @ [v]) (r @ [v])])"
    using ne by (simp_all add: spsc_pop_def Let_def)
  with q show ?thesis by (blast dest: sched_reach)
qed

text \<open>A run in which every value is popped right after it was pushed.\<close>

lemma alternating_round:
  assumes ok: "spsc_ok q" and e: "spsc_contents q = []" and k: "k < items" and s: "1 < Size q"
  shows "\<exists>q'. reach (demo_thread items) ((q, False), [Producing k PushStart, CondDone p r])
     ((q', False), [Producing (k + 1) PushStart, CondDone (p @ [int k]) (r @ [int k])]) \<and>
     spsc_ok q' \<and> spsc_contents q' = [] \<and> Size q' = Size q"
proof -
  let ?q = "snd (spsc_push (int k) q)" and ?q' = "snd (spsc_pop (snd (spsc_push (int k) q)))"
  obtain b where p: "spsc_push (int k) q = (b, ?q)" by (metis surj_pair snd_conv)
  have u: "used q = 0" using arg_cong [OF e, of length] by simp
  from spsc.push_accepts [OF ok _ p] s e u
  have q: "spsc_ok ?q" "spsc_contents ?q = [int k]" by auto
  have nf: "(writePos q + 1) mod Size q \<noteq> readPos q" using full_iff [OF ok] u s by simp
  obtain w where pp: "spsc_pop ?q = (w, ?q')" by (metis surj_pair snd_conv)
  from spsc.pop_front [OF q pp] have q': "spsc_ok ?q'" "spsc_contents ?q' = []" "w = Some (int k)" by auto
  from pp q'(3) have ne: "readPos ?q \<noteq> writePos ?q" "buffer ?q ! readPos ?q = int k"
    by (auto simp: spsc_pop_def Let_def split: if_splits)
  have r1: "reach (demo_thread items) ((q, False), [Producing k PushStart, CondDone p r])
      ((?q, False), [Producing (k + 1) PushStart, CondDone p r])"
    by (rule uninterrupted_push [OF nf k])
  have "sched (demo_thread items) [(1, 0), (1, 0), (1, 0), (1, 0), (1, 0)]
      ((?q, False), [Producing (k + 1) PushStart, CondDone p r]) =
      Some ((?q', False), [Producing (k + 1) PushStart, CondDone (p @ [int k]) (r @ [int k])])"
    using ne by (simp add: spsc_pop_def Let_def)
  from reach_trans [OF sched_reach [OF this] r1] q' s show ?thesis
    by (intro exI [of _ ?q']) (simp add: spsc_pop_def spsc_push_def Let_def)
qed

lemma alternating_run:
  assumes "1 < n" "k \<le> items"
  shows "\<exists>q. reach (demo_thread items) (demo_init n)
     ((q, False), [Producing k PushStart, CondDone (map int [0..<k]) (map int [0..<k])]) \<and>
     spsc_ok q \<and> spsc_contents q = [] \<and> Size q = n"
  using assms
proof (induction k)
  case 0
  then show ?case
    by (intro exI [of _ "spsc_new n 0"]) (simp add: demo_init_def reach_init, simp add: spsc_new_def)
next
  case (Suc k)
  then obtain q where r: "reach (demo_thread items) (demo_init n)
      ((q, False), [Producing k PushStart, CondDone (map int [0..<k]) (map int [0..<k])])"
    and q: "spsc_ok q" "spsc_contents q = []" "Size q = n" by auto
  have k: "k < items" "1 < Size q" using Suc.prems q(3) by simp_all
  obtain q' where r': "reach (demo_thread items)
      ((q, False), [Producing k PushStart, CondDone (map int [0..<k]) (map int [0..<k])])
      ((q', False), [Producing (k + 1) PushStart,
         CondDone (map int [0..<k] @ [int k]) (map int [0..<k] @ [int k])])"
    and q': "spsc_ok q'" "spsc_contents q' = []" "Size q' = Size q"
    using alternating_round [OF q(1,2) k, of "map int [0..<k]" "map int [0..<k]"] by blast
  have snoc: "map int [0..<k] @ [int k] = map int [0..<Suc k]" by simp
  from reach_trans [OF r' r] q' q(3) show ?case
    unfolding snoc Suc_eq_plus1 [symmetric] by blast
qed

lemma alternating_end:
  assumes "1 < n"
  shows "\<exists>g. reach (demo_thread items) (demo_init n)
     (g, [ProducerEnd, ConsumerEnd (map int [0..<items]) (map int [0..<items])])"
proof -
  let ?v = "map int [0..<items]"
  obtain q where r: "reach (demo_thread items) (demo_init n)
      ((q, False), [Producing items PushStart, CondDone ?v ?v])"
    and q: "spsc_ok q" "spsc_contents q = []" using alternating_run [OF assms order_refl] by blast
  have "used q = 0" using arg_cong [OF q(2), of length] by simp
  then have "readPos q = writePos q" using used_zero_iff [OF q(1)] by simp
  then have "sched (demo_thread items) [(0, 0), (1, 0), (1, 0), (1, 0)]
      ((q, False), [Producing items PushStart, CondDone ?v ?v]) =
      Some ((q, True), [ProducerEnd, ConsumerEnd ?v ?v])"
    by (simp add: numeral_2_eq_2)
  from reach_trans [OF sched_reach [OF this] r] show ?thesis by blast
qed

lemma consumer_end:
  assumes "demo_inv n items g [P, ConsumerEnd p r]"
  shows "p = map int [0..<items] \<and> subseq r p \<and> P = ProducerEnd"
proof -
  from assms have "snd g" "prod_inv items (fst g) (snd g) P" by (auto simp: demo_inv_def)
  then have "P = ProducerEnd" by (cases P) auto
  with assms show ?thesis by (auto simp: demo_inv_def)
qed

text \<open>
  When the consumer of \<open>demo_performance\<close> has left its loop, every one of the
  1000000 pushed values has been popped exactly once and in order, and what the consumer kept
  is a subsequence of them.
\<close>

theorem spsc_all_popped:
  assumes "reach demo_performance (demo_init 1024) (g, [P, ConsumerEnd p r])"
  shows "p = map int [0..<1000000] \<and> subseq r p \<and> P = ProducerEnd"
  using assms unfolding demo_performance_def
  by (intro consumer_end [of 1024]) (rule demo4.reach_inv)

theorem spsc_all_popped_witness:
  "\<exists>g P r. reach demo_performance (demo_init 1024)
     (g, [P, ConsumerEnd (map int [0..<1000000]) r]) \<and> subseq r (map int [0..<1000000]) \<and> P = ProducerEnd"
proof -
  obtain g where "reach demo_performance (demo_init 1024)
      (g, [ProducerEnd, ConsumerEnd (map int [0..<1000000]) (map int [0..<1000000])])"
    using alternating_end [of 1024 1000000, simplified one_less_numeral_iff semiring_norm]
    unfolding demo_performance_def by blast
  with spsc_all_popped [OF this] show ?thesis by blast
qed

text \<open>
  The consumer loop loses values: \<open>while (!done.load() || queue.pop(value))\<close> pops in
  its condition and pops again in its body, so a value popped by the condition is overwritten.
  In \<open>demo_producer_consumer\<close> itself the consumer can drop the very first value, 0, and keep
  the second one.
\<close>

theorem demo_consumer_drops_a_value:
  "\<exists>g. reach demo_producer_consumer (demo_init 100) (g, [ProducerEnd, CondDone [0, 1] [1]])"
proof -
  let ?C = "CondDone [] []"
  have new: "spsc_ok (spsc_new 100 (0::int))" "used (spsc_new 100 (0::int)) = 0"
    "Size (spsc_new 100 (0::int)) = 100" by (simp_all add: spsc_new_def used_def spsc_ok_def)
  obtain q where r0: "reach (demo_thread 50) (demo_init 100) ((q, True), [ProducerEnd, ?C])"
    and q: "spsc_ok q" "spsc_contents q = map int [0..<50]"
    using producer_runs [OF new(1), of 50 0 ?C] new(2,3) by (auto simp: demo_init_def)
  have two: "map int [0..<50] = 0 # 1 # map int [2..<50]"
    by (simp add: upt_conv_Cons)
  obtain q1 where q1: "spsc_ok q1" "spsc_contents q1 = 1 # map int [2..<50]"
    and r1: "reach (demo_thread 50) ((q, True), [ProducerEnd, ?C]) ((q1, True), [ProducerEnd, BodyPop [0] [] PopStart])"
    using uninterrupted_pop [OF q(1) q(2) [unfolded two], of 50 ProducerEnd "[]" "[]"] by auto
  obtain q2 where r2: "reach (demo_thread 50) ((q1, True), [ProducerEnd, BodyPop [0] [] PopStart])
      ((q2, True), [ProducerEnd, CondDone [0, 1] [1]])"
    using uninterrupted_pop [OF q1, of 50 ProducerEnd "[0]" "[]"] by auto
  from reach_trans [OF r2 reach_trans [OF r1 r0]] show ?thesis
    by (auto simp: demo_producer_consumer_def)
qed

end
