(* ===== verification/Counters.thy ===== *)
theory Counters
  imports Spinlocks
begin

text \<open>
  The two counters of LockFree/Benchmark/main.cpp, one behind a mutex and one on an atomic
  integer, and the benchmark that runs four threads with a million increments each. The
  counter is a C++ \<open>int\<close>, a 32-bit word here. The mutex version is the client loop of the
  spin locks, on \<open>std::mutex\<close>: the interpretation of \<open>spin_lock\<close> at the mutex gives its
  results.
\<close>

type_synonym i32 = "32 word"

text \<open>\<open>std::mutex::lock\<close> blocks while the mutex is taken.\<close>

fun mutex_lock :: "bool \<Rightarrow> unit \<Rightarrow> (bool \<times> unit option) list" where
  "mutex_lock f _ = (if f then [] else [(True, None)])"

definition mutex_unlock :: "bool \<Rightarrow> bool" where
  "mutex_unlock f = False"

interpretation mutex: spin_lock "()" mutex_lock mutex_unlock
  by unfold_locales (auto simp: mutex_unlock_def numeral_2_eq_2 split: if_splits)

text \<open>\<open>CounterWithMutex::increment\<close> is the loop body lock, increment, unlock.\<close>

definition mutex_counter_thread :: "nat \<Rightarrow> (bool \<times> i32, (unit, i32) inc_pc) thread" where
  "mutex_counter_thread N = inc_thread () mutex_lock mutex_unlock N"

definition benchmark_mutex :: "(bool \<times> i32, (unit, i32) inc_pc) conf" where
  "benchmark_mutex = inc_init () 1000000 4 0"

text \<open>\<open>CounterLockFree::increment\<close> is one atomic \<open>fetch_add\<close>; the local state counts the rounds.\<close>

fun lockfree_increment :: "i32 \<Rightarrow> i32" where
  "lockfree_increment value = value + 1"

datatype lockfree_pc = Round nat

fun round_no :: "lockfree_pc \<Rightarrow> int" where
  "round_no (Round j) = int j"

fun lockfree_counter_thread :: "nat \<Rightarrow> (i32, lockfree_pc) thread" where
  "lockfree_counter_thread N _ value (Round j) =
     (if j < N then [(lockfree_increment value, Round (j + 1))] else [])"

definition benchmark_lockfree :: "(i32, lockfree_pc) conf" where
  "benchmark_lockfree = (0, replicate 4 (Round 0))"

definition counted :: "nat \<Rightarrow> i32 \<Rightarrow> lockfree_pc list \<Rightarrow> bool" where
  "counted N value js \<longleftrightarrow>
     value = of_int (total round_no js) \<and> list_all (\<lambda>j. round_no j \<le> int N) js"

interpretation lockfree: thread_inv "lockfree_counter_thread N" benchmark_lockfree "counted N"
proof
  show "counted N (fst benchmark_lockfree) (snd benchmark_lockfree)"
    by (simp add: counted_def benchmark_lockfree_def)
next
  fix w js i w' j'
  assume "counted N w js" "i < length js"
    and "(w', j') \<in> set (lockfree_counter_thread N i w (js ! i))"
  then show "counted N w' (js[i := j'])"
    by (cases "js ! i") (auto simp: counted_def total_upd list_all_upd split: if_splits)
qed

text \<open>
  The two counters agree: when the four threads of \<open>benchmark\<close> have ended, the
  mutex counter and the lock-free counter both hold four million, under all interleavings.
\<close>

theorem benchmark_counters_agree:
  assumes "reach (mutex_counter_thread 1000000) benchmark_mutex ((f, v), ls)"
    and "list_all (\<lambda>l. l = Ret) ls"
    and "reach (lockfree_counter_thread 1000000) benchmark_lockfree (w, js)"
    and "stuck (lockfree_counter_thread 1000000) (w, js)"
  shows "sint v = 4000000 \<and> sint w = 4000000"
proof -
  have "v = 0 + of_nat (4 * 1000000)"
    using mutex.inc_counts assms(1,2) unfolding mutex_counter_thread_def benchmark_mutex_def by blast
  moreover have "w = of_int (int (length js) * 1000000)"
  proof -
    have inv: "counted 1000000 w js" by (rule lockfree.reach_inv [OF assms(3)])
    have "round_no j = 1000000" if j: "j \<in> set js" for j
    proof -
      obtain i where "i < length js" "j = js ! i" using j by (auto simp: in_set_conv_nth)
      with assms(4) have "lockfree_counter_thread 1000000 i w j = []" by (simp add: stuck_iff)
      moreover have "round_no j \<le> 1000000" using inv j by (simp add: counted_def list_all_iff)
      ultimately show ?thesis by (cases j) (simp split: if_splits)
    qed
    then have "total round_no js = int (length js) * 1000000" by (rule total_const)
    with inv show ?thesis by (simp add: counted_def)
  qed
  moreover have "length js = 4"
    using lockfree.reach_length [OF assms(3)] by (simp add: benchmark_lockfree_def)
  ultimately show ?thesis by simp
qed

lemma lockfree_runs:
  "i < length js \<Longrightarrow> js ! i = Round 0 \<Longrightarrow> k \<le> N \<Longrightarrow>
     \<exists>w'. reach (lockfree_counter_thread N) (w, js) (w', js[i := Round k])"
proof (induction k)
  case 0
  then show ?case by (metis list_update_id reach_init)
next
  case (Suc k)
  then obtain w' where r: "reach (lockfree_counter_thread N) (w, js) (w', js[i := Round k])"
    by (meson Suc_leD)
  have "istep (lockfree_counter_thread N) (w', js[i := Round k])
      (w' + 1, (js[i := Round k])[i := Round (Suc k)])"
    using Suc.prems by (intro istepI) auto
  then have "istep (lockfree_counter_thread N) (w', js[i := Round k]) (w' + 1, js[i := Round (Suc k)])"
    by simp
  with r show ?case by (blast intro: reach_step)
qed

lemma lockfree_completes:
  "\<exists>w. reach (lockfree_counter_thread N) (0, replicate 4 (Round 0)) (w, replicate 4 (Round N))"
proof -
  let ?z = "Round 0" and ?n = "Round N"
  note run = lockfree_runs [where N = N and k = N, OF _ _ order_refl]
  have four: "replicate 4 x = [x, x, x, x]" for x :: lockfree_pc by (simp add: numeral_eq_Suc)
  obtain w1 where 1: "reach (lockfree_counter_thread N) (0, [?z, ?z, ?z, ?z]) (w1, [?n, ?z, ?z, ?z])"
    using run [of 0 "[?z, ?z, ?z, ?z]" 0] by auto
  obtain w2 where 2: "reach (lockfree_counter_thread N) (w1, [?n, ?z, ?z, ?z]) (w2, [?n, ?n, ?z, ?z])"
    using run [of 1 "[?n, ?z, ?z, ?z]" w1] by auto
  obtain w3 where 3: "reach (lockfree_counter_thread N) (w2, [?n, ?n, ?z, ?z]) (w3, [?n, ?n, ?n, ?z])"
    using run [of 2 "[?n, ?n, ?z, ?z]" w2] by (auto simp: numeral_eq_Suc)
  obtain w4 where 4: "reach (lockfree_counter_thread N) (w3, [?n, ?n, ?n, ?z]) (w4, [?n, ?n, ?n, ?n])"
    using run [of 3 "[?n, ?n, ?n, ?z]" w3] by (auto simp: numeral_eq_Suc)
  from reach_trans [OF 4 reach_trans [OF 3 reach_trans [OF 2 1]]] show ?thesis unfolding four ..
qed

theorem benchmark_counters_agree_witness:
  "\<exists>f v w ls. reach (mutex_counter_thread 1000000) benchmark_mutex ((f, v), ls) \<and> sint v = 4000000 \<and>
     reach (lockfree_counter_thread 1000000) benchmark_lockfree (w, (replicate 4 (Round 1000000))) \<and>
     sint w = 4000000"
proof -
  have "inc_inv 1000000 0 (fst benchmark_mutex) (snd benchmark_mutex)"
    unfolding benchmark_mutex_def by (rule inc_inv_init)
  from mutex.inc_completes [OF this] obtain g ls where r: "reach (mutex_counter_thread 1000000)
      benchmark_mutex ((fst g, snd g), ls)" and ret: "list_all (\<lambda>l. l = Ret) ls"
    by (auto simp: mutex_counter_thread_def)
  obtain w where w: "reach (lockfree_counter_thread 1000000) benchmark_lockfree
      (w, (replicate 4 (Round 1000000)))"
    using lockfree_completes [of 1000000] unfolding benchmark_lockfree_def by blast
  have st: "stuck (lockfree_counter_thread 1000000) (w, (replicate 4 (Round 1000000)))"
    by (simp add: stuck_iff)
  from benchmark_counters_agree [OF r ret w st] r w show ?thesis by blast
qed

end
