(* ===== verification/Lockfree_Stack.thy ===== *)
theory Lockfree_Stack
  imports Conc_Prelude
begin

text \<open>
  The lock-free stacks of LockFree/SimpleStack, LockFree/CompleteStack,
  LockFree/AtomicSharedPointerStack and LockFree/AtomicSmartPointerStack. Nodes live in a
  heap that only grows: the first two never delete a node, and in the other two a node that
  a thread still refers to is kept alive by its \<open>shared_ptr\<close>, so that no address is reused
  while it could be compared. An address is an index into the heap and a null pointer is
  \<open>None\<close>. Every access to the shared head or to a node is one step.
\<close>

section \<open>Nodes, stacks and the two operations\<close>

record 'a node =
  data :: 'a
  nxt :: "nat option"

record 'a lfs =
  heap :: "'a node list"
  head :: "nat option"

definition empty_stack :: "'a lfs" where
  "empty_stack = \<lparr>heap = [], head = None\<rparr>"

definition new_node :: "'a \<Rightarrow> nat option \<Rightarrow> 'a lfs \<Rightarrow> 'a lfs" where
  "new_node v h s = s\<lparr>heap := heap s @ [\<lparr>data = v, nxt = h\<rparr>]\<rparr>"

definition set_next :: "nat \<Rightarrow> nat option \<Rightarrow> 'a lfs \<Rightarrow> 'a lfs" where
  "set_next n h s = s\<lparr>heap := (heap s)[n := (heap s ! n)\<lparr>nxt := h\<rparr>]\<rparr>"

text \<open>
  Results: a push returns, a pop returns a value, throws \<open>std::out_of_range\<close>, dereferences
  a null pointer (undefined behaviour), or returns \<open>std::nullopt\<close>.
\<close>

datatype 'a stack_ret = Pushed | Popped 'a | Thrown | NullDeref | Nullopt

datatype stack_pc =
    Start
  | PushMake "nat option"
  | PushLoad nat
  | PushCas nat
  | PopTest "nat option"
  | PopCas nat "nat option"
  | PopData nat

type_synonym 'a stack_out = "('a lfs \<times> (stack_pc + 'a stack_ret)) list"

text \<open>
  \<open>compare_exchange_strong(newNode->next, newNode)\<close>: on failure the current head is stored
  into \<open>newNode->next\<close>.
\<close>

fun simple_push :: "'a \<Rightarrow> 'a lfs \<Rightarrow> stack_pc \<Rightarrow> 'a stack_out" where
  "simple_push v s Start = [(new_node v None s, Inl (PushLoad (length (heap s))))]"
| "simple_push v s (PushLoad n) = [(set_next n (head s) s, Inl (PushCas n))]"
| "simple_push v s (PushCas n) =
     (if head s = nxt (heap s ! n)
      then [(s\<lparr>head := Some n\<rparr>, Inr Pushed)]
      else [(set_next n (head s) s, Inl (PushCas n))])"
| "simple_push v s _ = []"

definition complete_push :: "'a \<Rightarrow> 'a lfs \<Rightarrow> stack_pc \<Rightarrow> 'a stack_out" where
  "complete_push = simple_push"

definition smart_push :: "'a \<Rightarrow> 'a lfs \<Rightarrow> stack_pc \<Rightarrow> 'a stack_out" where
  "smart_push = simple_push"

text \<open>
  \<open>topAndPop\<close> of the complete stack. The test for null that throws is in the body of the
  loop, so it is met only after a compare-exchange has failed; a head that was null at
  first leaves the loop and is dereferenced.
\<close>

fun complete_topAndPop :: "'a lfs \<Rightarrow> stack_pc \<Rightarrow> 'a stack_out" where
  "complete_topAndPop s Start = [(s, Inl (PopTest (head s)))]"
| "complete_topAndPop s (PopTest None) = [(s, Inr NullDeref)]"
| "complete_topAndPop s (PopTest (Some h)) = [(s, Inl (PopCas h (nxt (heap s ! h))))]"
| "complete_topAndPop s (PopCas h n) =
     (if head s = Some h then [(s\<lparr>head := n\<rparr>, Inl (PopData h))]
      else if head s = None then [(s, Inr Thrown)]
      else [(s, Inl (PopTest (head s)))])"
| "complete_topAndPop s (PopData h) = [(s, Inr (Popped (data (heap s ! h))))]"
| "complete_topAndPop s _ = []"

definition smart_topAndPop :: "'a lfs \<Rightarrow> stack_pc \<Rightarrow> 'a stack_out" where
  "smart_topAndPop = complete_topAndPop"

text \<open>
  The stack on \<open>std::atomic<std::shared_ptr>\<close> uses the weak compare-exchange, which may
  fail although the values agree, and returns \<open>std::nullopt\<close> when it is empty.
\<close>

fun shared_push :: "'a \<Rightarrow> 'a lfs \<Rightarrow> stack_pc \<Rightarrow> 'a stack_out" where
  "shared_push v s Start = [(s, Inl (PushMake (head s)))]"
| "shared_push v s (PushMake h) = [(new_node v h s, Inl (PushCas (length (heap s))))]"
| "shared_push v s (PushCas n) =
     (if head s = nxt (heap s ! n)
      then [(s\<lparr>head := Some n\<rparr>, Inr Pushed), (s, Inl (PushCas n))]
      else [(set_next n (head s) s, Inl (PushCas n))])"
| "shared_push v s _ = []"

fun shared_pop :: "'a lfs \<Rightarrow> stack_pc \<Rightarrow> 'a stack_out" where
  "shared_pop s Start = [(s, Inl (PopTest (head s)))]"
| "shared_pop s (PopTest None) = [(s, Inr Nullopt)]"
| "shared_pop s (PopTest (Some h)) = [(s, Inl (PopCas h (nxt (heap s ! h))))]"
| "shared_pop s (PopCas h n) =
     (if head s = Some h
      then [(s\<lparr>head := n\<rparr>, Inl (PopData h)), (s, Inl (PopTest (Some h)))]
      else [(s, Inl (PopTest (head s)))])"
| "shared_pop s (PopData h) = [(s, Inr (Popped (data (heap s ! h))))]"
| "shared_pop s _ = []"

section \<open>Clients\<close>

text \<open>
  A client thread calls a list of operations; \<open>PopLoop\<close> calls \<open>pop\<close> until it returns a
  value. Its state is the calls still to be made, the place in the first of them, and the
  results so far.
\<close>

datatype 'a stack_op = PushOp 'a | PopOp | PopLoop

type_synonym 'a stack_local = "'a stack_op list \<times> stack_pc \<times> 'a stack_ret list"

fun stack_return :: "'a stack_op list \<Rightarrow> 'a stack_ret list \<Rightarrow> stack_pc + 'a stack_ret \<Rightarrow> 'a stack_local" where
  "stack_return ops log (Inl pc) = (ops, pc, log)"
| "stack_return ops log (Inr r) =
     (if hd ops = PopLoop \<and> r = Nullopt then (ops, Start, log) else (tl ops, Start, log @ [r]))"

fun stack_thread :: "('a \<Rightarrow> 'a lfs \<Rightarrow> stack_pc \<Rightarrow> 'a stack_out) \<Rightarrow> ('a lfs \<Rightarrow> stack_pc \<Rightarrow> 'a stack_out)
    \<Rightarrow> ('a lfs, 'a stack_local) thread" where
  "stack_thread push pop _ s (ops, pc, log) =
     (case ops of
        [] \<Rightarrow> []
      | op # _ \<Rightarrow> map (\<lambda>(s', r). (s', stack_return ops log r))
           (case op of PushOp v \<Rightarrow> push v s pc | _ \<Rightarrow> pop s pc))"

definition stack_init :: "'a stack_op list list \<Rightarrow> ('a lfs, 'a stack_local) conf" where
  "stack_init progs = (empty_stack, map (\<lambda>ops. (ops, Start, [])) progs)"

text \<open>The programs of the four \<open>main\<close> functions (of the simple one, the stack of integers).\<close>

definition simple_main :: "(int lfs, int stack_local) conf" where
  "simple_main = stack_init [[PushOp 5]]"

definition complete_main :: "(int lfs, int stack_local) conf" where
  "complete_main = stack_init [[PushOp 2011], [PushOp 2014], [PushOp 2017], [PopOp], [PopOp], [PopOp]]"

definition smart_main :: "(int lfs, int stack_local) conf" where
  "smart_main = stack_init [[PushOp 2011], [PushOp 2014], [PushOp 2017], [PopOp], [PopOp], [PopOp]]"

definition shared_main :: "(int lfs, int stack_local) conf" where
  "shared_main = stack_init (replicate 4 (replicate 100 (PushOp 42)) @ replicate 4 (replicate 100 PopLoop))"

section \<open>Contents of a stack\<close>

fun chain :: "'a node list \<Rightarrow> nat option \<Rightarrow> nat list \<Rightarrow> bool" where
  "chain hp h [] = (h = None)"
| "chain hp h (a # as) = (h = Some a \<and> a < length hp \<and> chain hp (nxt (hp ! a)) as)"

fun walk :: "nat \<Rightarrow> 'a node list \<Rightarrow> nat option \<Rightarrow> nat list" where
  "walk (Suc k) hp (Some a) = a # walk k hp (nxt (hp ! a))"
| "walk _ hp _ = []"

definition stack_contents :: "'a lfs \<Rightarrow> 'a list" where
  "stack_contents s = map (\<lambda>a. data (heap s ! a)) (walk (length (heap s)) (heap s) (head s))"

lemma walk_chain: "chain hp h as \<Longrightarrow> length as \<le> k \<Longrightarrow> walk k hp h = as"
proof (induction k arbitrary: h as)
  case 0
  then show ?case by simp
next
  case (Suc k)
  then show ?case by (cases as) auto
qed

lemma chain_bound: "chain hp h as \<Longrightarrow> set as \<subseteq> {..<length hp}"
  by (induction hp h as rule: chain.induct) auto

lemma stack_contents_chain:
  assumes "chain (heap s) (head s) as" "distinct as"
  shows "stack_contents s = map (\<lambda>a. data (heap s ! a)) as"
proof -
  have "length as \<le> length (heap s)"
    using card_mono [OF _ chain_bound [OF assms(1)]] distinct_card [OF assms(2)] by simp
  with walk_chain [OF assms(1)] show ?thesis by (simp add: stack_contents_def)
qed

lemma chain_append: "chain hp h as \<Longrightarrow> chain (hp @ xs) h as"
  by (induction hp h as rule: chain.induct) (auto simp: nth_append)

lemma chain_upd: "chain hp h as \<Longrightarrow> n \<notin> set as \<Longrightarrow> chain (hp[n := x]) h as"
  by (induction hp h as rule: chain.induct) auto

section \<open>The most general stack on compare-exchange\<close>

text \<open>
  Every step of the variants above is a step of the following relation, whose parameter is
  the result of a pop that found the head null. The invariant and the simulation are proved
  for the relation.
\<close>

inductive cas_step :: "'a stack_ret \<Rightarrow> 'a stack_op \<Rightarrow> 'a lfs \<Rightarrow> stack_pc \<Rightarrow> 'a lfs \<Rightarrow> stack_pc + 'a stack_ret \<Rightarrow> bool"
  for e where
  make: "cas_step e (PushOp v) s Start s (Inl (PushMake h))"
| alloc: "pc = Start \<or> (\<exists>h. pc = PushMake h) \<Longrightarrow> r = Inl (PushLoad n) \<or> r = Inl (PushCas n) \<Longrightarrow>
    n = length (heap s) \<Longrightarrow> cas_step e (PushOp v) s pc (new_node v h s) r"
| link: "pc = PushLoad n \<or> pc = PushCas n \<Longrightarrow>
    cas_step e (PushOp v) s pc (set_next n h s) (Inl (PushCas n))"
| retry: "cas_step e (PushOp v) s (PushCas n) s (Inl (PushCas n))"
| publish: "head s = nxt (heap s ! n) \<Longrightarrow>
    cas_step e (PushOp v) s (PushCas n) (s\<lparr>head := Some n\<rparr>) (Inr Pushed)"
| top: "pc = Start \<or> (\<exists>a n. pc = PopCas a n) \<Longrightarrow> op = PopOp \<or> op = PopLoop \<Longrightarrow>
    cas_step e op s pc s (Inl (PopTest (head s)))"
| again: "op = PopOp \<or> op = PopLoop \<Longrightarrow> cas_step e op s (PopCas a n) s (Inl (PopTest (Some a)))"
| empty_top: "op = PopOp \<or> op = PopLoop \<Longrightarrow> cas_step e op s (PopTest None) s (Inr e)"
| read_next: "op = PopOp \<or> op = PopLoop \<Longrightarrow>
    cas_step e op s (PopTest (Some a)) s (Inl (PopCas a (nxt (heap s ! a))))"
| take: "op = PopOp \<or> op = PopLoop \<Longrightarrow> head s = Some a \<Longrightarrow>
    cas_step e op s (PopCas a n) (s\<lparr>head := n\<rparr>) (Inl (PopData a))"
| throw: "op = PopOp \<or> op = PopLoop \<Longrightarrow> head s = None \<Longrightarrow> e \<noteq> Nullopt \<Longrightarrow> cas_step e op s (PopCas a n) s (Inr Thrown)"
| read_data: "op = PopOp \<or> op = PopLoop \<Longrightarrow>
    cas_step e op s (PopData a) s (Inr (Popped (data (heap s ! a))))"

text \<open>
  The node that a pushing thread still owns, and the node that a popping thread refers to.
\<close>

fun owned :: "'a stack_local \<Rightarrow> nat set" where
  "owned (ops, PushLoad n, log) = {n}"
| "owned (ops, PushCas n, log) = {n}"
| "owned _ = {}"

fun refers :: "'a stack_local \<Rightarrow> nat set" where
  "refers (ops, PopTest h, log) = set_option h"
| "refers (ops, PopCas a n, log) = {a}"
| "refers (ops, PopData a, log) = {a}"
| "refers _ = {}"

fun local_ok :: "'a lfs \<Rightarrow> 'a stack_local \<Rightarrow> bool" where
  "local_ok s (op # ops, PushLoad n, log) = (op = PushOp (data (heap s ! n)))"
| "local_ok s (op # ops, PushCas n, log) = (op = PushOp (data (heap s ! n)))"
| "local_ok s (op # ops, PopCas a n, log) = (n = nxt (heap s ! a) \<and> (op = PopOp \<or> op = PopLoop))"
| "local_ok s (op # ops, PopTest h, log) = (op = PopOp \<or> op = PopLoop)"
| "local_ok s (op # ops, PopData a, log) = (op = PopOp \<or> op = PopLoop)"
| "local_ok s (op # ops, PushMake h, log) = (\<exists>v. op = PushOp v)"
| "local_ok s (op # ops, Start, log) = True"
| "local_ok s ([], pc, log) = (pc = Start)"

definition stack_at :: "nat list \<Rightarrow> 'a lfs \<Rightarrow> 'a stack_local list \<Rightarrow> bool" where
  "stack_at as s ls \<longleftrightarrow> (chain (heap s) (head s) as \<and> distinct as \<and>
     (\<forall>i < length ls. local_ok s (ls ! i) \<and>
        owned (ls ! i) \<inter> set as = {} \<and> owned (ls ! i) \<subseteq> {..<length (heap s)} \<and>
        refers (ls ! i) \<subseteq> {..<length (heap s)}) \<and>
     (\<forall>i < length ls. \<forall>j < length ls. refers (ls ! i) \<inter> owned (ls ! j) = {} \<and>
        (i \<noteq> j \<longrightarrow> owned (ls ! i) \<inter> owned (ls ! j) = {})))"

definition stack_inv :: "'a lfs \<Rightarrow> 'a stack_local list \<Rightarrow> bool" where
  "stack_inv s ls \<longleftrightarrow> (\<exists>as. stack_at as s ls)"

lemma stack_inv_init: "stack_inv (fst (stack_init progs)) (snd (stack_init progs))"
proof -
  have "local_ok empty_stack (ops, Start, [])" for ops :: "'a stack_op list"
    by (cases ops) auto
  then show ?thesis
    by (auto simp: stack_inv_def stack_at_def stack_init_def empty_stack_def intro!: exI [of _ "[]"])
qed

text \<open>What the state may change under a step, from the point of view of the other threads.\<close>

lemma local_ok_new:
  "local_ok s l \<Longrightarrow> owned l \<subseteq> {..<length (heap s)} \<Longrightarrow> refers l \<subseteq> {..<length (heap s)} \<Longrightarrow>
     local_ok (new_node v h s) l"
  by (cases "(s, l)" rule: local_ok.cases) (auto simp: new_node_def nth_append)

lemma local_ok_link:
  "local_ok s l \<Longrightarrow> n < length (heap s) \<Longrightarrow> n \<notin> refers l \<Longrightarrow> local_ok (set_next n h s) l"
  by (cases "(s, l)" rule: local_ok.cases) (auto simp: set_next_def nth_list_update)

lemma local_ok_head [simp]: "local_ok (s\<lparr>head := h\<rparr>) l = local_ok s l"
  by (cases "(s, l)" rule: local_ok.cases) auto

lemma stack_atD:
  assumes "stack_at as s ls"
  shows "chain (heap s) (head s) as" "distinct as"
    "i < length ls \<Longrightarrow> local_ok s (ls ! i)"
    "i < length ls \<Longrightarrow> owned (ls ! i) \<inter> set as = {}"
    "i < length ls \<Longrightarrow> owned (ls ! i) \<subseteq> {..<length (heap s)}"
    "i < length ls \<Longrightarrow> refers (ls ! i) \<subseteq> {..<length (heap s)}"
    "i < length ls \<Longrightarrow> j < length ls \<Longrightarrow> refers (ls ! i) \<inter> owned (ls ! j) = {}"
    "i < length ls \<Longrightarrow> j < length ls \<Longrightarrow> i \<noteq> j \<Longrightarrow> owned (ls ! i) \<inter> owned (ls ! j) = {}"
  using assms by (simp_all add: stack_at_def)

text \<open>
  The state after a step of thread \<open>i\<close>: it is enough to check the stepping thread and that
  the others keep their \<open>local_ok\<close>.
\<close>

lemma stack_at_upd:
  assumes c: "chain (heap s') (head s') as'" "distinct as'" and i: "i < length ls"
    and l: "local_ok s' l" "owned l \<inter> set as' = {}" "owned l \<subseteq> {..<length (heap s')}"
      "refers l \<subseteq> {..<length (heap s')}" "refers l \<inter> owned l = {}"
    and o: "\<And>j. j < length ls \<Longrightarrow> j \<noteq> i \<Longrightarrow> local_ok s' (ls ! j) \<and> owned (ls ! j) \<inter> set as' = {} \<and>
      owned (ls ! j) \<subseteq> {..<length (heap s')} \<and> refers (ls ! j) \<subseteq> {..<length (heap s')} \<and>
      refers (ls ! j) \<inter> owned l = {} \<and> refers l \<inter> owned (ls ! j) = {} \<and> owned l \<inter> owned (ls ! j) = {}"
    and p: "\<And>j k. j < length ls \<Longrightarrow> k < length ls \<Longrightarrow> j \<noteq> i \<Longrightarrow> k \<noteq> i \<Longrightarrow>
      refers (ls ! j) \<inter> owned (ls ! k) = {} \<and> (j \<noteq> k \<longrightarrow> owned (ls ! j) \<inter> owned (ls ! k) = {})"
  shows "stack_at as' s' (ls[i := l])"
  unfolding stack_at_def
proof (intro conjI allI impI)
  fix j assume "j < length (ls[i := l])"
  then show "local_ok s' (ls[i := l] ! j)" "owned (ls[i := l] ! j) \<inter> set as' = {}"
    "owned (ls[i := l] ! j) \<subseteq> {..<length (heap s')}" "refers (ls[i := l] ! j) \<subseteq> {..<length (heap s')}"
    using l o by (cases "j = i"; simp)+
next
  fix j k assume jk: "j < length (ls[i := l])" "k < length (ls[i := l])"
  then show "refers (ls[i := l] ! j) \<inter> owned (ls[i := l] ! k) = {}"
    using l o p i by (cases "j = i"; cases "k = i"; simp)
  assume "j \<noteq> k"
  with jk show "owned (ls[i := l] ! j) \<inter> owned (ls[i := l] ! k) = {}"
    using l o p i by (cases "j = i"; cases "k = i"; simp add: Int_commute)
qed (use c in auto)

text \<open>The five kinds of steps: the state is kept, a node is made, linked, published, taken.\<close>

lemma stack_at_same:
  assumes at: "stack_at as s ls" and i: "i < length ls" and l: "local_ok s l"
    "owned l \<subseteq> owned (ls ! i)" "refers l \<subseteq> refers (ls ! i) \<union> set as" "refers l \<inter> owned l = {}"
  shows "stack_at as s (ls[i := l])"
proof (rule stack_at_upd [OF stack_atD(1,2) [OF at] i l(1)])
  note D = stack_atD [OF at]
  have "set as \<subseteq> {..<length (heap s)}" using chain_bound [OF D(1)] .
  then show "owned l \<inter> set as = {}" "owned l \<subseteq> {..<length (heap s)}"
    "refers l \<subseteq> {..<length (heap s)}" "refers l \<inter> owned l = {}"
    using l D(4,5,6) [OF i] by blast+
  show "local_ok s (ls ! j) \<and> owned (ls ! j) \<inter> set as = {} \<and>
      owned (ls ! j) \<subseteq> {..<length (heap s)} \<and> refers (ls ! j) \<subseteq> {..<length (heap s)} \<and>
      refers (ls ! j) \<inter> owned l = {} \<and> refers l \<inter> owned (ls ! j) = {} \<and> owned l \<inter> owned (ls ! j) = {}"
    if j: "j < length ls" "j \<noteq> i" for j
    using D(3-6) [OF j(1)] D(7) [OF j(1) i] D(7) [OF i j(1)] D(8) [OF i j(1)] l j(2) by blast
  show "refers (ls ! j) \<inter> owned (ls ! k) = {} \<and> (j \<noteq> k \<longrightarrow> owned (ls ! j) \<inter> owned (ls ! k) = {})"
    if "j < length ls" "k < length ls" for j k using D(7,8) that by blast
qed

lemma stack_at_new:
  assumes at: "stack_at as s ls" and i: "i < length ls" and n: "n = length (heap s)"
    and l: "local_ok (new_node v h s) l" "owned l = {n}" "refers l = {}"
  shows "stack_at as (new_node v h s) (ls[i := l])"
proof (rule stack_at_upd [OF _ stack_atD(2) [OF at] i l(1)])
  note D = stack_atD [OF at]
  have len: "length (heap (new_node v h s)) = Suc n" by (simp add: new_node_def n)
  have as: "set as \<subseteq> {..<n}" using chain_bound [OF D(1)] n by simp
  show "chain (heap (new_node v h s)) (head (new_node v h s)) as"
    using chain_append [OF D(1)] by (simp add: new_node_def)
  show "owned l \<inter> set as = {}" "owned l \<subseteq> {..<length (heap (new_node v h s))}"
    "refers l \<subseteq> {..<length (heap (new_node v h s))}" "refers l \<inter> owned l = {}"
    using as l(2,3) len by auto
  show "local_ok (new_node v h s) (ls ! j) \<and> owned (ls ! j) \<inter> set as = {} \<and>
      owned (ls ! j) \<subseteq> {..<length (heap (new_node v h s))} \<and>
      refers (ls ! j) \<subseteq> {..<length (heap (new_node v h s))} \<and>
      refers (ls ! j) \<inter> owned l = {} \<and> refers l \<inter> owned (ls ! j) = {} \<and> owned l \<inter> owned (ls ! j) = {}"
    if j: "j < length ls" "j \<noteq> i" for j
  proof -
    have b: "owned (ls ! j) \<subseteq> {..<n}" "refers (ls ! j) \<subseteq> {..<n}" using D(5,6) [OF j(1)] n by auto
    then show ?thesis
      using local_ok_new [OF D(3,5,6) [OF j(1)]] D(4) [OF j(1)] unfolding len l(2,3) by force
  qed
  show "refers (ls ! j) \<inter> owned (ls ! k) = {} \<and> (j \<noteq> k \<longrightarrow> owned (ls ! j) \<inter> owned (ls ! k) = {})"
    if "j < length ls" "k < length ls" for j k using D(7,8) that by blast
qed

lemma stack_at_link:
  assumes at: "stack_at as s ls" and i: "i < length ls" and n: "owned (ls ! i) = {n}"
    and l: "local_ok (set_next n h s) l" "owned l = {n}" "refers l = {}"
  shows "stack_at as (set_next n h s) (ls[i := l])"
proof (rule stack_at_upd [OF _ stack_atD(2) [OF at] i l(1)])
  note D = stack_atD [OF at]
  have len: "length (heap (set_next n h s)) = length (heap s)" by (simp add: set_next_def)
  show "chain (heap (set_next n h s)) (head (set_next n h s)) as"
    using chain_upd [OF D(1)] D(4) [OF i] n by (simp add: set_next_def)
  show "owned l \<inter> set as = {}" "owned l \<subseteq> {..<length (heap (set_next n h s))}"
    "refers l \<subseteq> {..<length (heap (set_next n h s))}" "refers l \<inter> owned l = {}"
    using D(4,5) [OF i] l(2,3) n len by auto
  show "local_ok (set_next n h s) (ls ! j) \<and> owned (ls ! j) \<inter> set as = {} \<and>
      owned (ls ! j) \<subseteq> {..<length (heap (set_next n h s))} \<and>
      refers (ls ! j) \<subseteq> {..<length (heap (set_next n h s))} \<and>
      refers (ls ! j) \<inter> owned l = {} \<and> refers l \<inter> owned (ls ! j) = {} \<and> owned l \<inter> owned (ls ! j) = {}"
    if j: "j < length ls" "j \<noteq> i" for j
    using local_ok_link [OF D(3) [OF j(1)], of n h] D(4-6) [OF j(1)] D(5) [OF i] D(7) [OF j(1) i]
      D(8) [OF i j(1)] j(2) unfolding len l(2,3) n by auto
  show "refers (ls ! j) \<inter> owned (ls ! k) = {} \<and> (j \<noteq> k \<longrightarrow> owned (ls ! j) \<inter> owned (ls ! k) = {})"
    if "j < length ls" "k < length ls" for j k using D(7,8) that by blast
qed

lemma stack_at_publish:
  assumes at: "stack_at as s ls" and i: "i < length ls" and n: "owned (ls ! i) = {n}"
    and h: "head s = nxt (heap s ! n)"
    and l: "local_ok s l" "owned l = {}" "refers l = {}"
  shows "stack_at (n # as) (s\<lparr>head := Some n\<rparr>) (ls[i := l])"
proof (rule stack_at_upd [OF _ _ i])
  note D = stack_atD [OF at]
  show "chain (heap (s\<lparr>head := Some n\<rparr>)) (head (s\<lparr>head := Some n\<rparr>)) (n # as)" "distinct (n # as)"
    using D(1,2) D(4,5) [OF i] n h by auto
  show "local_ok (s\<lparr>head := Some n\<rparr>) l" using l(1) by simp
  show "owned l \<inter> set (n # as) = {}" "owned l \<subseteq> {..<length (heap (s\<lparr>head := Some n\<rparr>))}"
    "refers l \<subseteq> {..<length (heap (s\<lparr>head := Some n\<rparr>))}" "refers l \<inter> owned l = {}"
    using l(2,3) by auto
  show "local_ok (s\<lparr>head := Some n\<rparr>) (ls ! j) \<and> owned (ls ! j) \<inter> set (n # as) = {} \<and>
      owned (ls ! j) \<subseteq> {..<length (heap (s\<lparr>head := Some n\<rparr>))} \<and>
      refers (ls ! j) \<subseteq> {..<length (heap (s\<lparr>head := Some n\<rparr>))} \<and>
      refers (ls ! j) \<inter> owned l = {} \<and> refers l \<inter> owned (ls ! j) = {} \<and> owned l \<inter> owned (ls ! j) = {}"
    if j: "j < length ls" "j \<noteq> i" for j
    using D(3-6) [OF j(1)] D(8) [OF i j(1)] j(2) unfolding l(2,3) n by auto
  show "refers (ls ! j) \<inter> owned (ls ! k) = {} \<and> (j \<noteq> k \<longrightarrow> owned (ls ! j) \<inter> owned (ls ! k) = {})"
    if "j < length ls" "k < length ls" for j k using D(7,8) that by blast
qed

lemma stack_at_take:
  assumes at: "stack_at as s ls" and h: "head s = Some a"
  shows "stack_at (tl as) (s\<lparr>head := nxt (heap s ! a)\<rparr>) ls \<and> as = a # tl as"
proof -
  note D = stack_atD [OF at]
  obtain as' where as: "as = a # as'" using D(1) h by (cases as) auto
  then have "chain (heap s) (nxt (heap s ! a)) as'" using D(1) by simp
  with at as show ?thesis by (auto simp: stack_at_def)
qed

section \<open>The atomic stack\<close>

text \<open>
  The specification: one step is a whole push, a whole pop, or a pop that finds the stack
  empty. A pop takes effect when its compare-exchange succeeds, an empty one when it loads
  the null head; from then on its result is fixed.
\<close>

inductive stack_spec :: "'a stack_ret \<Rightarrow> 'a list \<times> ('a stack_op list \<times> 'a stack_ret list) list
    \<Rightarrow> 'a list \<times> ('a stack_op list \<times> 'a stack_ret list) list \<Rightarrow> bool" for e where
  spec_push: "i < length ts \<Longrightarrow> ts ! i = (PushOp v # ops, log) \<Longrightarrow>
     stack_spec e (xs, ts) (v # xs, ts[i := (ops, log @ [Pushed])])"
| spec_pop: "i < length ts \<Longrightarrow> ts ! i = (op # ops, log) \<Longrightarrow> op = PopOp \<or> op = PopLoop \<Longrightarrow>
     stack_spec e (x # xs, ts) (xs, ts[i := (ops, log @ [Popped x])])"
| spec_empty: "i < length ts \<Longrightarrow> ts ! i = (op # ops, log) \<Longrightarrow> op = PopOp \<or> op = PopLoop \<Longrightarrow>
     r = e \<or> r = Thrown \<and> e \<noteq> Nullopt \<Longrightarrow> \<not> (op = PopLoop \<and> r = Nullopt) \<Longrightarrow>
     stack_spec e ([], ts) ([], ts[i := (ops, log @ [r])])"

fun pending :: "'a stack_ret \<Rightarrow> 'a lfs \<Rightarrow> 'a stack_local \<Rightarrow> 'a stack_op list \<times> 'a stack_ret list" where
  "pending e s (op # ops, PopTest None, log) =
     (if op = PopLoop \<and> e = Nullopt then (op # ops, log) else (ops, log @ [e]))"
| "pending e s (op # ops, PopData a, log) = (ops, log @ [Popped (data (heap s ! a))])"
| "pending e s (ops, pc, log) = (ops, log)"

definition stack_abs :: "'a stack_ret \<Rightarrow> 'a lfs \<Rightarrow> 'a stack_local list
    \<Rightarrow> 'a list \<times> ('a stack_op list \<times> 'a stack_ret list) list" where
  "stack_abs e s ls = (stack_contents s, map (pending e s) ls)"

definition keeps_data :: "'a lfs \<Rightarrow> 'a lfs \<Rightarrow> bool" where
  "keeps_data s s' \<longleftrightarrow> (\<forall>a < length (heap s). data (heap s' ! a) = data (heap s ! a))"

lemma keeps_data [simp]:
  "keeps_data s s" "keeps_data s (s\<lparr>head := h\<rparr>)" "keeps_data s (new_node v h s)"
  "keeps_data s (set_next n h s)"
proof -
  have "data ((heap s)[n := (heap s ! n)\<lparr>nxt := h\<rparr>] ! a) = data (heap s ! a)"
    if "a < length (heap s)" for a
    using that by (cases "a = n") simp_all
  then show "keeps_data s (set_next n h s)" by (simp add: keeps_data_def set_next_def)
qed (auto simp: keeps_data_def new_node_def nth_append)

lemma pending_cong:
  "refers l \<subseteq> {..<length (heap s)} \<Longrightarrow> keeps_data s s' \<Longrightarrow> pending e s' l = pending e s l"
  by (cases "(e, s, l)" rule: pending.cases) (auto simp: keeps_data_def)

lemma pending_head [simp]: "pending e (s\<lparr>head := h\<rparr>) l = pending e s l"
  by (cases "(e, s, l)" rule: pending.cases) auto

lemma pending_Start [simp]: "pending e s (ops, Start, log) = (ops, log)"
  by (cases ops) auto

lemma local_ok_Start [simp]: "local_ok s (ops, Start, log)"
  by (cases ops) auto

lemma stack_abs_upd:
  assumes at: "stack_at as s ls" and i: "i < length ls" and k: "keeps_data s s'"
  shows "stack_abs e s' (ls[i := l]) = (stack_contents s', (map (pending e s) ls)[i := pending e s' l])"
proof -
  have eq: "map (pending e s') ls = map (pending e s) ls"
    using pending_cong [OF stack_atD(6) [OF at] k] by (metis (mono_tags, lifting) in_set_conv_nth map_cong)
  show ?thesis by (simp only: stack_abs_def map_update eq)
qed

lemma stack_contents_same:
  assumes "stack_at as s ls" "stack_at as s' ls'" "keeps_data s s'"
  shows "stack_contents s' = stack_contents s"
proof -
  have "set as \<subseteq> {..<length (heap s)}" using chain_bound stack_atD(1) [OF assms(1)] .
  then show ?thesis
    using stack_contents_chain [OF stack_atD(1,2) [OF assms(1)]]
      stack_contents_chain [OF stack_atD(1,2) [OF assms(2)]] assms(3)
    by (auto simp: keeps_data_def)
qed

lemma stack_stutter:
  assumes at: "stack_at as s ls" and i: "i < length ls" and k: "keeps_data s s'"
    and at': "stack_at as s' (ls[i := l])" and p: "pending e s' l = pending e s (ls ! i)"
  shows "stack_inv s' (ls[i := l]) \<and> stack_abs e s' (ls[i := l]) = stack_abs e s ls"
proof -
  have "(map (pending e s) ls)[i := pending e s' l] = map (pending e s) ls"
    using i p by (metis list_update_id map_update)
  then show ?thesis
    using stack_contents_same [OF at at' k] stack_abs_upd [OF at i k] at'
    by (auto simp: stack_inv_def stack_abs_def)
qed

lemma stack_empty: "stack_at as s ls \<Longrightarrow> head s = None \<Longrightarrow> stack_contents s = []"
  using stack_contents_chain [of s as] by (cases as) (auto simp: stack_at_def)

text \<open>Every step keeps the invariant, and is a step of the atomic stack or none. First the steps that change what is seen.\<close>

definition simulated :: "'a stack_ret \<Rightarrow> 'a lfs \<Rightarrow> 'a stack_local list \<Rightarrow> 'a lfs \<Rightarrow> 'a stack_local list \<Rightarrow> bool" where
  "simulated e s ls s' ls' \<longleftrightarrow> stack_inv s' ls' \<and>
     (stack_abs e s' ls' = stack_abs e s ls \<or> stack_spec e (stack_abs e s ls) (stack_abs e s' ls'))"

lemma simulated_stutter:
  assumes "stack_at as s ls" "i < length ls" "keeps_data s s'" "stack_at as s' (ls[i := l])"
    "pending e s' l = pending e s (ls ! i)"
  shows "simulated e s ls s' (ls[i := l])"
  using stack_stutter [OF assms] by (simp add: simulated_def)

lemma simulated_spec:
  assumes "stack_at as s ls" "i < length ls" "keeps_data s s'" "stack_at as' s' (ls[i := l])"
    and "stack_spec e (stack_contents s, map (pending e s) ls) (stack_contents s', (map (pending e s) ls)[i := pending e s' l])"
  shows "simulated e s ls s' (ls[i := l])"
  using assms(4,5) stack_abs_upd [OF assms(1-3), of e l] by (auto simp: simulated_def stack_inv_def stack_abs_def)

lemma publish_simulated:
  assumes at: "stack_at as s ls" and i: "i < length ls" and li: "ls ! i = (PushOp v # ops, PushCas n, log)"
    and h: "head s = nxt (heap s ! n)"
  shows "simulated e s ls (s\<lparr>head := Some n\<rparr>) (ls[i := (ops, Start, log @ [Pushed])])"
proof -
  let ?s = "s\<lparr>head := Some n\<rparr>" and ?l = "(ops, Start, log @ [Pushed])"
  have n: "owned (ls ! i) = {n}" and v: "v = data (heap s ! n)" using li stack_atD(3) [OF at i] by auto
  have at': "stack_at (n # as) ?s (ls[i := ?l])"
    using h by (intro stack_at_publish [OF at i n]) auto
  then have "stack_contents ?s = v # stack_contents s"
    using stack_contents_chain [OF stack_atD(1,2) [OF at]] stack_contents_chain [OF stack_atD(1,2) [OF at']] v by simp
  moreover have "map (pending e s) ls ! i = (PushOp v # ops, log)" using i li by simp
  ultimately show ?thesis
    using spec_push [of i "map (pending e s) ls" v ops log e "stack_contents s"] i
    by (intro simulated_spec [OF at i _ at']) simp_all
qed

lemma top_simulated:
  assumes at: "stack_at as s ls" and i: "i < length ls" and li: "ls ! i = (op # ops, pc, log)"
    and pc: "pc = Start \<or> (\<exists>a n. pc = PopCas a n)" and op: "op = PopOp \<or> op = PopLoop"
  shows "simulated e s ls s (ls[i := (op # ops, PopTest (head s), log)])"
proof -
  let ?l = "(op # ops, PopTest (head s), log)"
  have at': "stack_at as s (ls[i := ?l])"
    using li pc op chain_bound [OF stack_atD(1) [OF at]] stack_atD(1) [OF at]
    by (intro stack_at_same [OF at i]) (cases as; auto)+
  have p: "pending e s (ls ! i) = (op # ops, log)" using li pc by auto
  show ?thesis
  proof (cases "head s = None \<and> \<not> (op = PopLoop \<and> e = Nullopt)")
    case False
    then have "pending e s ?l = pending e s (ls ! i)" using p by (cases "head s") auto
    with at' show ?thesis by (intro simulated_stutter [OF at i]) simp_all
  next
    case True
    have "map (pending e s) ls ! i = (op # ops, log)" using p i by simp
    moreover have "pending e s ?l = (ops, log @ [e])" using True by auto
    ultimately show ?thesis
      using spec_empty [of i "map (pending e s) ls" op ops log e e] True op i stack_empty [OF at]
      by (intro simulated_spec [OF at i _ at']) (auto simp del: pending.simps)
  qed
qed

lemma take_simulated:
  assumes at: "stack_at as s ls" and i: "i < length ls" and li: "ls ! i = (op # ops, PopCas a n, log)"
    and op: "op = PopOp \<or> op = PopLoop" and h: "head s = Some a"
  shows "simulated e s ls (s\<lparr>head := n\<rparr>) (ls[i := (op # ops, PopData a, log)])"
proof -
  let ?s = "s\<lparr>head := n\<rparr>"
  have n: "n = nxt (heap s ! a)" using li stack_atD(3) [OF at i] by simp
  from stack_at_take [OF at h] have at1: "stack_at (tl as) ?s ls" and as: "as = a # tl as" using n by auto
  have at': "stack_at (tl as) ?s (ls[i := (op # ops, PopData a, log)])"
    using li op by (intro stack_at_same [OF at1 i]) auto
  have "stack_contents s = data (heap s ! a) # stack_contents ?s"
    using stack_contents_chain [OF stack_atD(1,2) [OF at]] stack_contents_chain [OF stack_atD(1,2) [OF at']] as
    by (metis lfs.select_convs(1) lfs.simps list.simps(9) lfs.surjective lfs.update_convs(2))
  moreover have "map (pending e s) ls ! i = (op # ops, log)" using li i by simp
  ultimately show ?thesis
    using spec_pop [of i "map (pending e s) ls" op ops log e "data (heap s ! a)" "stack_contents ?s"] op i
    by (intro simulated_spec [OF at i _ at']) simp_all
qed

lemma throw_simulated:
  assumes at: "stack_at as s ls" and i: "i < length ls" and li: "ls ! i = (op # ops, PopCas a n, log)"
    and op: "op = PopOp \<or> op = PopLoop" and h: "head s = None" and e: "e \<noteq> Nullopt"
  shows "simulated e s ls s (ls[i := (ops, Start, log @ [Thrown])])"
proof -
  have at': "stack_at as s (ls[i := (ops, Start, log @ [Thrown])])"
    using li by (intro stack_at_same [OF at i]) auto
  have "map (pending e s) ls ! i = (op # ops, log)" using li i by simp
  then show ?thesis
    using spec_empty [of i "map (pending e s) ls" op ops log Thrown e] op e i stack_empty [OF at h]
    by (intro simulated_spec [OF at i _ at']) simp_all
qed

lemma cas_step_sim:
  assumes st: "cas_step e op s pc s' r" and at: "stack_at as s ls" and i: "i < length ls"
    and li: "ls ! i = (op # ops, pc, log)" and l: "l = stack_return (op # ops) log r"
  shows "stack_inv s' (ls[i := l]) \<and> (stack_abs e s' (ls[i := l]) = stack_abs e s ls \<or>
    stack_spec e (stack_abs e s ls) (stack_abs e s' (ls[i := l])))"
proof -
  have ok: "local_ok s (op # ops, pc, log)" using stack_atD(3) [OF at i] li by simp
  note stutter = simulated_stutter [OF at i, of s' l e]
  have same: "stack_at as s (ls[i := l])" if "local_ok s l" "owned l \<subseteq> owned (ls ! i)" "refers l \<subseteq> refers (ls ! i)"
    using that stack_atD(7) [OF at i i] by (intro stack_at_same [OF at i]) auto
  from st have "simulated e s ls s' (ls[i := l])"
  proof cases
    case (alloc n v h)
    then have "stack_at as s' (ls[i := l])" using l stack_at_new [OF at i alloc(5)] by (auto simp: new_node_def)
    then show ?thesis using stutter alloc l li by auto
  next
    case (link n v h)
    then have n: "owned (ls ! i) = {n}" using li by auto
    then have "n < length (heap s)" using stack_atD(5) [OF at i] by simp
    then have "stack_at as s' (ls[i := l])" using link ok l stack_at_link [OF at i n] by (auto simp: set_next_def)
    then show ?thesis using stutter link l li by auto
  next
    case (publish n v)
    then show ?thesis using publish_simulated [OF at i, of v ops n log e] li l by simp
  next
    case top
    then show ?thesis using top_simulated [OF at i li, of e] l by simp
  next
    case (take a n)
    then show ?thesis using take_simulated [OF at i, of op ops a n log e] li l by simp
  next
    case (throw a n)
    then show ?thesis using throw_simulated [OF at i, of op ops a n log e] li l by simp
  qed (use l li ok same stutter in auto)
  then show ?thesis by (simp add: simulated_def)
qed

section \<open>The contract of a stack and what it gives its clients\<close>

locale cas_stack =
  fixes push :: "'a \<Rightarrow> 'a lfs \<Rightarrow> stack_pc \<Rightarrow> 'a stack_out"
    and pop :: "'a lfs \<Rightarrow> stack_pc \<Rightarrow> 'a stack_out"
    and e :: "'a stack_ret"
  assumes push_cas: "(s', r) \<in> set (push v s pc) \<Longrightarrow> cas_step e (PushOp v) s pc s' r"
    and pop_cas: "(s', r) \<in> set (pop s pc) \<Longrightarrow> op = PopOp \<or> op = PopLoop \<Longrightarrow> cas_step e op s pc s' r"
begin

lemma thread_step:
  assumes inv: "stack_inv s ls" and i: "i < length ls"
    and out: "(s', l) \<in> set (stack_thread push pop k s (ls ! i))"
  shows "stack_inv s' (ls[i := l]) \<and> (stack_abs e s' (ls[i := l]) = stack_abs e s ls \<or>
    stack_spec e (stack_abs e s ls) (stack_abs e s' (ls[i := l])))"
proof -
  obtain as where at: "stack_at as s ls" using inv by (auto simp: stack_inv_def)
  obtain ops pc log where li: "ls ! i = (ops, pc, log)" by (cases "ls ! i")
  obtain op ops' where ops: "ops = op # ops'" using out li by (cases ops) auto
  obtain r where st: "cas_step e op s pc s' r" and l: "l = stack_return (op # ops') log r"
    using out li ops by (cases op) (auto dest: push_cas pop_cas)
  show ?thesis using cas_step_sim [OF st at i _ l] li ops by simp
qed

lemma stack_thread_sim:
  "thread_sim (stack_thread push pop) (stack_init progs) stack_inv (stack_abs e) (stack_spec e)"
  by unfold_locales (use stack_inv_init thread_step in blast)+

lemma linearizable:
  assumes "reach (stack_thread push pop) (stack_init progs) c"
  shows "(stack_spec e)\<^sup>*\<^sup>* ([], map (\<lambda>ops. (ops, [])) progs) (stack_abs e (fst c) (snd c))"
proof -
  have "stack_abs e (fst (stack_init progs)) (snd (stack_init progs)) = ([], map (\<lambda>ops. (ops, [])) progs)"
    by (simp add: stack_abs_def stack_init_def stack_contents_def empty_stack_def comp_def)
  with thread_sim.reach_sim [OF stack_thread_sim assms] show ?thesis by simp
qed

end

lemma simple_push_cas: "(s', r) \<in> set (simple_push v s pc) \<Longrightarrow> cas_step e (PushOp v) s pc s' r"
  by (cases "(v, s, pc)" rule: simple_push.cases)
    (auto split: if_splits intro!: cas_step.intros)

lemma complete_pop_cas:
  "(s', r) \<in> set (complete_topAndPop s pc) \<Longrightarrow> op = PopOp \<or> op = PopLoop \<Longrightarrow> cas_step NullDeref op s pc s' r"
  by (cases "(s, pc)" rule: complete_topAndPop.cases)
    (auto split: if_splits intro: cas_step.intros)

interpretation complete: cas_stack complete_push complete_topAndPop NullDeref
  by unfold_locales (simp_all add: complete_push_def simple_push_cas complete_pop_cas)

interpretation smart: cas_stack smart_push smart_topAndPop NullDeref
  by unfold_locales (simp_all add: smart_push_def smart_topAndPop_def simple_push_cas complete_pop_cas)

interpretation shared: cas_stack shared_push shared_pop Nullopt
proof
  show "(s', r) \<in> set (shared_push v s pc) \<Longrightarrow> cas_step Nullopt (PushOp v) s pc s' r" for v :: 'a and s pc s' r
    by (cases "(v, s, pc)" rule: shared_push.cases) (auto split: if_splits intro: cas_step.intros)
  show "(s', r) \<in> set (shared_pop s pc) \<Longrightarrow> op = PopOp \<or> op = PopLoop \<Longrightarrow> cas_step Nullopt op s pc s' r"
    for op :: "'a stack_op" and s pc s' r
    by (cases "(s, pc)" rule: shared_pop.cases) (auto split: if_splits intro: cas_step.intros)
qed

section \<open>What the stacks promise\<close>

text \<open>
  Claim C5. Linearizability of the complete stack: under every interleaving of the six tasks of
  CompleteStack/main.cpp the pushes and pops take effect one at a time, in an order in which
  a pop returns the value on top, and only a pop that met an empty stack throws or
  dereferences a null pointer.
\<close>

theorem complete_stack_linearizable:
  assumes "reach (stack_thread complete_push complete_topAndPop) complete_main (s, ls)"
  shows "(stack_spec NullDeref)\<^sup>*\<^sup>*
     ([], [([PushOp 2011], []), ([PushOp 2014], []), ([PushOp 2017], []), ([PopOp], []), ([PopOp], []), ([PopOp], [])])
     (stack_contents s, map (pending NullDeref s) ls)"
  using complete.linearizable [OF assms [unfolded complete_main_def]] by (simp add: stack_abs_def)

theorem complete_stack_linearizable_witness:
  "\<exists>s ls. reach (stack_thread complete_push complete_topAndPop) complete_main (s, ls) \<and>
     stack_contents s = [2014] \<and> ls ! 3 = ([], Start, [Popped 2011]) \<and>
     (stack_spec NullDeref)\<^sup>*\<^sup>*
       ([], [([PushOp 2011], []), ([PushOp 2014], []), ([PushOp 2017], []), ([PopOp], []), ([PopOp], []), ([PopOp], [])])
       (stack_contents s, map (pending NullDeref s) ls)"
proof -
  let ?s = "\<lparr>heap = [\<lparr>data = 2011, nxt = Some 1\<rparr>, \<lparr>data = 2014, nxt = None\<rparr>], head = Some 1\<rparr>"
  let ?ls = "[([], Start, [Pushed]), ([], Start, [Pushed]), ([PushOp 2017], Start, []),
    ([], Start, [Popped 2011]), ([PopOp], Start, []), ([PopOp], Start, [])]"
  let ?sc = "[(0, 0), (1, 0), (0, 0), (1, 0), (1, 0), (0, 0), (0, 0), (3, 0), (3, 0), (3, 0), (3, 0)]"
  have "sched (stack_thread complete_push complete_topAndPop) ?sc complete_main = Some (?s, ?ls)"
    by (simp add: complete_main_def stack_init_def empty_stack_def complete_push_def new_node_def
        set_next_def numeral_eq_Suc)
  then have r: "reach (stack_thread complete_push complete_topAndPop) complete_main (?s, ?ls)"
    by (rule sched_reach)
  have "stack_contents ?s = [2014]" by (simp add: stack_contents_def numeral_eq_Suc)
  then show ?thesis using complete_stack_linearizable [OF r] r
    by (intro exI [of _ ?s] exI [of _ ?ls]) (simp add: numeral_eq_Suc)
qed

text \<open>
  \<open>topAndPop\<close> of the complete stack does not throw on a stack that is empty from the
  start: if \<open>fut3\<close> runs first it reads \<open>oldHead->data\<close> of a null pointer.
\<close>

theorem complete_pop_on_empty:
  "\<exists>s ls. reach (stack_thread complete_push complete_topAndPop) complete_main (s, ls) \<and>
     ls ! 3 = ([], Start, [NullDeref])"
proof -
  have "sched (stack_thread complete_push complete_topAndPop) [(3, 0), (3, 0)] complete_main =
    Some (empty_stack, (snd complete_main)[3 := ([], Start, [NullDeref])])"
    by (simp add: complete_main_def stack_init_def empty_stack_def numeral_eq_Suc)
  from sched_reach [OF this] show ?thesis
    by (auto simp: complete_main_def stack_init_def intro!: exI)
qed

text \<open>
  What the atomic stack preserves of the writers and readers of
  AtomicSharedPointerStack/main.cpp: the number of values on the stack is the number of
  pushes minus the number of pops, and every thread is on its way through 100 calls.
\<close>

fun gain :: "'a stack_op list \<times> 'a stack_ret list \<Rightarrow> int" where
  "gain (ops, log) = cnt (\<lambda>r. r = Pushed) log - cnt (\<lambda>r. r \<noteq> Pushed) log"

fun due :: "'a stack_op list \<times> 'a stack_ret list \<Rightarrow> int" where
  "due (ops, log) = cnt (\<lambda>op. op \<noteq> PopLoop) ops - cnt (\<lambda>op. op = PopLoop) ops"

definition pair_shape :: "nat \<Rightarrow> int stack_op list \<times> int stack_ret list \<Rightarrow> bool" where
  "pair_shape i t \<longleftrightarrow> length (fst t) + length (snd t) = 100 \<and>
     (if i < 4 then set (fst t) \<subseteq> {PushOp 42} \<and> set (snd t) \<subseteq> {Pushed}
      else set (fst t) \<subseteq> {PopLoop} \<and> set (snd t) \<subseteq> {Popped 42})"

definition pairs_inv :: "int list \<times> (int stack_op list \<times> int stack_ret list) list \<Rightarrow> bool" where
  "pairs_inv x \<longleftrightarrow> set (fst x) \<subseteq> {42} \<and> length (snd x) = 8 \<and>
     (\<forall>i < length (snd x). pair_shape i (snd x ! i)) \<and>
     int (length (fst x)) = total gain (snd x) \<and>
     total gain (snd x) + total due (snd x) = 0"

lemma cnt_append [simp]: "cnt P (xs @ ys) = cnt P xs + cnt P ys"
  by (simp add: cnt_def)

lemma pairs_inv_upd:
  assumes inv: "pairs_inv (xs, ts)" and i: "i < length ts" and "pair_shape i t" "set ys \<subseteq> {42}"
    and "int (length ys) - int (length xs) = gain t - gain (ts ! i)"
    and "gain t + due t = gain (ts ! i) + due (ts ! i)"
  shows "pairs_inv (ys, ts[i := t])"
  using assms by (auto simp: pairs_inv_def total_upd nth_list_update)

lemma pairs_inv_step: "stack_spec Nullopt x y \<Longrightarrow> pairs_inv x \<Longrightarrow> pairs_inv y"
proof (induction rule: stack_spec.induct)
  case (spec_push i ts v ops log xs)
  then have "pair_shape i (PushOp v # ops, log)" by (auto simp: pairs_inv_def)
  with spec_push show ?case
    by (intro pairs_inv_upd [of xs]) (auto simp: pair_shape_def pairs_inv_def split: if_splits)
next
  case (spec_pop i ts op ops log x xs)
  then have "pair_shape i (op # ops, log)" "x = 42" by (auto simp: pairs_inv_def)
  with spec_pop show ?case
    by (intro pairs_inv_upd [of "x # xs"]) (auto simp: pair_shape_def pairs_inv_def split: if_splits)
next
  case (spec_empty i ts op ops log r)
  then have "pair_shape i (op # ops, log)" by (auto simp: pairs_inv_def)
  with spec_empty show ?case by (auto simp: pair_shape_def split: if_splits)
qed

lemma pairs_inv_run: "(stack_spec Nullopt)\<^sup>*\<^sup>* x y \<Longrightarrow> pairs_inv x \<Longrightarrow> pairs_inv y"
  by (induction rule: rtranclp.induct) (auto intro: pairs_inv_step)

lemma pairs_inv_start:
  "pairs_inv ([], map (\<lambda>ops. (ops, [])) (replicate 4 (replicate 100 (PushOp 42)) @ replicate 4 (replicate 100 PopLoop)))"
proof -
  let ?ps = "replicate 4 (replicate 100 (PushOp (42::int)))" and ?qs = "replicate 4 (replicate 100 PopLoop)"
  have tot: "total f (xs @ ys) = total f xs + total f ys" for f and xs ys :: "(int stack_op list \<times> int stack_ret list) list"
    by (simp add: total_def)
  have "pair_shape i (map (\<lambda>ops. (ops, [])) (?ps @ ?qs) ! i)" if "i < 8" for i
    using that by (cases "i < 4") (auto simp: nth_append pair_shape_def)
  then show ?thesis
    by (auto simp: pairs_inv_def tot)
qed

text \<open>
  Claim C6. In the program of AtomicSharedPointerStack/main.cpp, with the weak compare-exchange
  failing at will, no value is lost or popped twice: when all eight threads have returned,
  every reader has popped 100 times 42 and the stack is empty.
\<close>

theorem shared_stack_all_popped:
  assumes "reach (stack_thread shared_push shared_pop) shared_main (s, ls)"
    and "list_all (\<lambda>l. fst l = []) ls"
  shows "head s = None \<and> map (snd \<circ> snd) ls =
    replicate 4 (replicate 100 Pushed) @ replicate 4 (replicate 100 (Popped 42))"
proof -
  let ?T = "stack_thread shared_push shared_pop :: (int lfs, int stack_local) thread"
  note r = assms(1) [unfolded shared_main_def]
  have "pairs_inv (stack_abs Nullopt s ls)"
    using pairs_inv_run [OF shared.linearizable [OF r] pairs_inv_start] by simp
  then have inv: "pairs_inv (stack_contents s, map (pending Nullopt s) ls)" by (simp add: stack_abs_def)
  have l8: "length ls = 8" using inv by (simp add: pairs_inv_def)
  obtain as where at: "stack_at as s ls"
    using thread_inv.reach_inv [OF thread_sim.axioms(1) [OF shared.stack_thread_sim] r]
    by (auto simp: stack_inv_def)
  have fin: "pending Nullopt s (ls ! i) = ([], snd (snd (ls ! i)))" if "i < 8" for i
    using assms(2) that l8 by (cases "ls ! i") (auto simp: list_all_length)
  have "total due (map (pending Nullopt s) ls) = int (length (map (pending Nullopt s) ls)) * 0"
  proof (rule total_const)
    fix t assume "t \<in> set (map (pending Nullopt s) ls)"
    then obtain i where "i < length ls" "t = pending Nullopt s (ls ! i)" by (auto simp: in_set_conv_nth)
    then show "due t = 0" using fin [of i] l8 by simp
  qed
  with inv have "stack_contents s = []" by (auto simp: pairs_inv_def)
  then have "as = []"
    using stack_contents_chain [OF stack_atD(1,2) [OF at]] by simp
  then have h: "head s = None" using stack_atD(1) [OF at] by simp
  have "snd (snd (ls ! i)) = (if i < 4 then replicate 100 Pushed else replicate 100 (Popped 42))"
    if i: "i < 8" for i
  proof -
    have "pair_shape i ([], snd (snd (ls ! i)))" using inv i fin [OF i] l8 by (auto simp: pairs_inv_def)
    then show ?thesis
      by (cases "i < 4") (auto simp: pair_shape_def subset_iff intro!: replicate_eqI)
  qed
  then have "map (snd \<circ> snd) ls = replicate 4 (replicate 100 Pushed) @ replicate 4 (replicate 100 (Popped 42))"
    using l8 by (intro nth_equalityI) (auto simp: nth_append)
  with h show ?thesis by simp
qed

text \<open>A complete run: writer \<open>i\<close> and reader \<open>j\<close> take turns, so the stack is empty after each turn.\<close>

lemma shared_turn:
  fixes ls :: "'a stack_local list"
  assumes "head s = None" "i < length ls" "j < length ls" "i \<noteq> j"
    "ls ! i = (PushOp v # ops, Start, log)" "ls ! j = (PopLoop # ops', Start, log')"
  shows "\<exists>s'. head s' = None \<and> reach (stack_thread shared_push shared_pop) (s, ls)
     (s', ls[i := (ops, Start, log @ [Pushed]), j := (ops', Start, log' @ [Popped v])])"
proof -
  let ?s' = "(new_node v None s)\<lparr>head := None\<rparr>"
  have "sched (stack_thread shared_push shared_pop)
      [(i, 0), (i, 0), (i, 0), (j, 0), (j, 0), (j, 0), (j, 0)] (s, ls) =
    Some (?s', ls[i := (ops, Start, log @ [Pushed]), j := (ops', Start, log' @ [Popped v])])"
    using assms by (simp add: new_node_def nth_append)
  from sched_reach [OF this] show ?thesis by (intro exI [of _ ?s']) simp
qed

lemma shared_turns:
  fixes ls :: "'a stack_local list"
  assumes "head s = None" "i < length ls" "j < length ls" "i \<noteq> j"
    "ls ! i = (replicate k (PushOp v), Start, log)" "ls ! j = (replicate k PopLoop, Start, log')"
  shows "\<exists>s'. head s' = None \<and> reach (stack_thread shared_push shared_pop) (s, ls)
     (s', ls[i := ([], Start, log @ replicate k Pushed), j := ([], Start, log' @ replicate k (Popped v))])"
  using assms
proof (induction k arbitrary: s ls log log')
  case 0
  then have "ls[i := ([], Start, log), j := ([], Start, log')] = ls"
    by (metis list_update_id replicate_0)
  with 0 show ?case by (auto intro: reach_init)
next
  case (Suc k)
  let ?ls = "ls[i := (replicate k (PushOp v), Start, log @ [Pushed]),
    j := (replicate k PopLoop, Start, log' @ [Popped v])]"
  obtain s1 where s1: "head s1 = None"
    "reach (stack_thread shared_push shared_pop) (s, ls) (s1, ?ls)"
    using shared_turn [OF Suc.prems(1-4), of v "replicate k (PushOp v)" log "replicate k PopLoop" log']
      Suc.prems by auto
  have p: "i < length ?ls" "j < length ?ls"
    "?ls ! i = (replicate k (PushOp v), Start, log @ [Pushed])"
    "?ls ! j = (replicate k PopLoop, Start, log' @ [Popped v])"
    using Suc.prems by auto
  obtain s2 where s2: "head s2 = None" "reach (stack_thread shared_push shared_pop) (s1, ?ls)
     (s2, ?ls[i := ([], Start, (log @ [Pushed]) @ replicate k Pushed),
       j := ([], Start, (log' @ [Popped v]) @ replicate k (Popped v))])"
    using Suc.IH [OF s1(1) p(1,2) Suc.prems(4) p(3,4)] by blast
  have "?ls[i := ([], Start, (log @ [Pushed]) @ replicate k Pushed),
       j := ([], Start, (log' @ [Popped v]) @ replicate k (Popped v))] =
    ls[i := ([], Start, log @ replicate (Suc k) Pushed), j := ([], Start, log' @ replicate (Suc k) (Popped v))]"
    using Suc.prems(4) by (simp add: list_update_swap [of j i])
  then show ?case using reach_trans [OF s2(2) s1(2)] s2(1) by (intro exI [of _ s2]) simp
qed

lemma shared_completes:
  "\<exists>s ls. reach (stack_thread shared_push shared_pop) shared_main (s, ls) \<and> list_all (\<lambda>l. fst l = []) ls"
proof -
  define p :: "int stack_local" where "p = (replicate 100 (PushOp 42), Start, [])"
  define q :: "int stack_local" where "q = (replicate 100 PopLoop, Start, [])"
  define w :: "int stack_local" where "w = ([], Start, [] @ replicate 100 Pushed)"
  define r :: "int stack_local" where "r = ([], Start, [] @ replicate 100 (Popped 42))"
  let ?T = "stack_thread shared_push shared_pop :: (int lfs, int stack_local) thread"
  have turn: "\<exists>s'. head s' = None \<and> reach ?T (s, ls) (s', ls[i := w, j := r])"
    if "head s = None" "i < length ls" "j < length ls" "i \<noteq> j" "ls ! i = p" "ls ! j = q" for s ls i j
    using shared_turns [OF that(1-4) that(5) [unfolded p_def] that(6) [unfolded q_def]]
    unfolding w_def r_def .
  have init: "shared_main = (empty_stack, [p, p, p, p, q, q, q, q])"
  proof -
    have four: "replicate 4 x = [x, x, x, x]" for x :: "int stack_op list" by (simp add: numeral_eq_Suc)
    show ?thesis unfolding shared_main_def stack_init_def p_def q_def four by simp
  qed
  obtain s1 where 1: "head s1 = None" "reach ?T (empty_stack, [p, p, p, p, q, q, q, q]) (s1, [w, p, p, p, r, q, q, q])"
    using turn [of empty_stack 0 "[p, p, p, p, q, q, q, q]" 4] by (auto simp: empty_stack_def)
  obtain s2 where 2: "head s2 = None" "reach ?T (s1, [w, p, p, p, r, q, q, q]) (s2, [w, w, p, p, r, r, q, q])"
    using turn [OF 1(1), of 1 "[w, p, p, p, r, q, q, q]" 5] by auto
  obtain s3 where 3: "head s3 = None" "reach ?T (s2, [w, w, p, p, r, r, q, q]) (s3, [w, w, w, p, r, r, r, q])"
    using turn [OF 2(1), of 2 "[w, w, p, p, r, r, q, q]" 6] by auto
  obtain s4 where 4: "reach ?T (s3, [w, w, w, p, r, r, r, q]) (s4, [w, w, w, w, r, r, r, r])"
    using turn [OF 3(1), of 3 "[w, w, w, p, r, r, r, q]" 7] by auto
  have "list_all (\<lambda>l. fst l = []) [w, w, w, w, r, r, r, r]" by (simp add: w_def r_def)
  with reach_trans [OF 4 reach_trans [OF 3(2) reach_trans [OF 2(2) 1(2)]]] show ?thesis
    unfolding init by blast
qed

theorem shared_stack_all_popped_witness:
  "\<exists>s ls. reach (stack_thread shared_push shared_pop) shared_main (s, ls) \<and> head s = None \<and>
     map (snd \<circ> snd) ls = replicate 4 (replicate 100 Pushed) @ replicate 4 (replicate 100 (Popped 42))"
proof -
  obtain s ls where "reach (stack_thread shared_push shared_pop) shared_main (s, ls)"
    "list_all (\<lambda>l. fst l = []) ls" using shared_completes by blast
  with shared_stack_all_popped [OF this] show ?thesis by blast
qed

end
