(* ===== verification/Light_Switch.thy ===== *)
theory Light_Switch
  imports Conc_Prelude
begin

text \<open>
  What the solutions of the readers-writers problem share: the counted entry and exit, where
  the first to come in acquires a semaphore and the last to leave releases it, and the
  section in which the queue of messages is changed under its mutex. The counts are
  unsigned 32-bit variables in the code; the invariant shows that they stay between 0 and
  the number of threads, so they are integers here and never wrap.
\<close>

section \<open>The counted group\<close>

text \<open>
  The actions of the block \<open>lock; count++; if (count == 1) sem.acquire(); unlock\<close> and of its
  counterpart on the way out. The triple is the mutex (true when locked), the count and the
  semaphore (true when available).
\<close>

datatype gpc = GLock | GCount | GTest | GSem | GUnlock

fun enter_step :: "gpc \<Rightarrow> bool \<times> int \<times> bool \<Rightarrow> ((bool \<times> int \<times> bool) \<times> gpc option) list" where
  "enter_step GLock (g, c, s) = (if g then [] else [((True, c, s), Some GCount)])"
| "enter_step GCount (g, c, s) = [((g, c + 1, s), Some GTest)]"
| "enter_step GTest (g, c, s) = [((g, c, s), Some (if c = 1 then GSem else GUnlock))]"
| "enter_step GSem (g, c, s) = (if s then [((g, c, False), Some GUnlock)] else [])"
| "enter_step GUnlock (g, c, s) = [((False, c, s), None)]"

fun leave_step :: "gpc \<Rightarrow> bool \<times> int \<times> bool \<Rightarrow> ((bool \<times> int \<times> bool) \<times> gpc option) list" where
  "leave_step GLock (g, c, s) = (if g then [] else [((True, c, s), Some GCount)])"
| "leave_step GCount (g, c, s) = [((g, c - 1, s), Some GTest)]"
| "leave_step GTest (g, c, s) = [((g, c, s), Some (if c = 0 then GSem else GUnlock))]"
| "leave_step GSem (g, c, s) = [((g, c, True), Some GUnlock)]"
| "leave_step GUnlock (g, c, s) = [((False, c, s), None)]"

text \<open>Where a thread is with respect to the group.\<close>

datatype position = Outside | Entering gpc | Inside | Leaving gpc

fun guards :: "position \<Rightarrow> bool" where
  "guards (Entering p) = (p \<noteq> GLock)"
| "guards (Leaving p) = (p \<noteq> GLock)"
| "guards _ = False"

fun counts :: "position \<Rightarrow> bool" where
  "counts (Entering p) = (p \<noteq> GLock \<and> p \<noteq> GCount)"
| "counts Inside = True"
| "counts (Leaving p) = (p = GLock \<or> p = GCount)"
| "counts Outside = False"

fun arrives :: "position \<Rightarrow> bool" where
  "arrives (Entering p) = (p = GTest \<or> p = GSem)"
| "arrives _ = False"

fun departs :: "position \<Rightarrow> bool" where
  "departs (Leaving p) = (p = GTest \<or> p = GSem)"
| "departs _ = False"

text \<open>
  The invariant of a group whose members are at the positions \<open>ps\<close>: \<open>held\<close> is the number of
  units of the semaphore that the group holds.
\<close>

definition group_inv :: "position list \<Rightarrow> bool \<Rightarrow> int \<Rightarrow> int \<Rightarrow> bool" where
  "group_inv ps guard count held \<longleftrightarrow>
     cnt guards ps = of_bool guard \<and> count = cnt counts ps \<and>
     (1 \<le> cnt (\<lambda>p. p = Entering GSem) ps \<longrightarrow> count = 1) \<and>
     (1 \<le> cnt (\<lambda>p. p = Leaving GSem) ps \<longrightarrow> count = 0) \<and>
     held = (if count = 0 then cnt departs ps
             else if count = 1 \<and> cnt arrives ps = 1 then 0 else 1)"

lemma group_bounds:
  "cnt arrives ps + cnt departs ps \<le> cnt guards ps"
  "cnt (\<lambda>p. p = Entering GSem) ps \<le> cnt arrives ps"
  "cnt (\<lambda>p. p = Leaving GSem) ps \<le> cnt departs ps"
  "cnt arrives ps + cnt (\<lambda>p. p = Inside) ps \<le> cnt counts ps"
proof -
  show "cnt arrives ps + cnt departs ps \<le> cnt guards ps"
  proof (rule cnt_disjoint)
    show "arrives p \<Longrightarrow> guards p" for p by (cases p) auto
    show "departs p \<Longrightarrow> guards p \<and> \<not> arrives p" for p by (cases p) auto
  qed
  show "cnt (\<lambda>p. p = Entering GSem) ps \<le> cnt arrives ps" by (rule cnt_mono) auto
  show "cnt (\<lambda>p. p = Leaving GSem) ps \<le> cnt departs ps" by (rule cnt_mono) auto
  show "cnt arrives ps + cnt (\<lambda>p. p = Inside) ps \<le> cnt counts ps"
  proof (rule cnt_disjoint)
    show "arrives p \<Longrightarrow> counts p" for p by (cases p) auto
  qed auto
qed

text \<open>
  A thread that acts on the mutex is alone in it, so that of the other threads only the
  number of members matters.
\<close>

lemma cnt_others:
  assumes "i < length ps" "\<not> P Outside"
  shows "cnt P (ps[i := q]) = cnt P (ps[i := Outside]) + of_bool (P q)"
    and "cnt P ps = cnt P (ps[i := Outside]) + of_bool (P (ps ! i))"
  using assms by (simp_all add: cnt_upd)

lemma group_alone:
  assumes "group_inv ps g c h" "i < length ps" "guards (ps ! i) \<or> \<not> g"
  shows "cnt guards (ps[i := Outside]) = 0" "cnt arrives (ps[i := Outside]) = 0"
    "cnt departs (ps[i := Outside]) = 0" "cnt (\<lambda>p. p = Entering GSem) (ps[i := Outside]) = 0"
    "cnt (\<lambda>p. p = Leaving GSem) (ps[i := Outside]) = 0"
proof -
  have "cnt guards ps = of_bool g" using assms(1) by (simp add: group_inv_def)
  moreover have "cnt guards ps = cnt guards (ps[i := Outside]) + of_bool (guards (ps ! i))"
    by (rule cnt_others(2) [OF assms(2)]) simp
  ultimately show g: "cnt guards (ps[i := Outside]) = 0"
    using assms(3) cnt_nonneg [of guards "ps[i := Outside]"]
    by (cases g; cases "guards (ps ! i)") auto
  note b = group_bounds [of "ps[i := Outside]"] cnt_nonneg [of arrives "ps[i := Outside]"]
    cnt_nonneg [of departs "ps[i := Outside]"] cnt_nonneg [of "\<lambda>p. p = Entering GSem" "ps[i := Outside]"]
    cnt_nonneg [of "\<lambda>p. p = Leaving GSem" "ps[i := Outside]"]
  show ar: "cnt arrives (ps[i := Outside]) = 0" using b g by linarith
  show de: "cnt departs (ps[i := Outside]) = 0" using b g by linarith
  show "cnt (\<lambda>p. p = Entering GSem) (ps[i := Outside]) = 0" using b ar by linarith
  show "cnt (\<lambda>p. p = Leaving GSem) (ps[i := Outside]) = 0" using b de by linarith
qed

text \<open>The invariant of a group in which only thread \<open>i\<close>, at position \<open>q\<close>, may hold the mutex.\<close>

lemma group_inv_alone:
  assumes i: "i < length ps" and z: "cnt guards (ps[i := Outside]) = 0" "cnt arrives (ps[i := Outside]) = 0"
    "cnt departs (ps[i := Outside]) = 0" "cnt (\<lambda>p. p = Entering GSem) (ps[i := Outside]) = 0"
    "cnt (\<lambda>p. p = Leaving GSem) (ps[i := Outside]) = 0"
  shows "group_inv (ps[i := q]) g c h \<longleftrightarrow>
    g = guards q \<and> c = cnt counts (ps[i := Outside]) + of_bool (counts q) \<and>
    (q = Entering GSem \<longrightarrow> c = 1) \<and> (q = Leaving GSem \<longrightarrow> c = 0) \<and>
    h = (if c = 0 then of_bool (departs q) else if c = 1 \<and> arrives q then 0 else 1)"
proof -
  note o = cnt_others(1) [OF i, where q = q]
  have eqs: "cnt guards (ps[i := q]) = of_bool (guards q)" "cnt arrives (ps[i := q]) = of_bool (arrives q)"
    "cnt departs (ps[i := q]) = of_bool (departs q)"
    "cnt (\<lambda>p. p = Entering GSem) (ps[i := q]) = of_bool (q = Entering GSem)"
    "cnt (\<lambda>p. p = Leaving GSem) (ps[i := q]) = of_bool (q = Leaving GSem)"
    "cnt counts (ps[i := q]) = cnt counts (ps[i := Outside]) + of_bool (counts q)"
    using o [of guards] o [of arrives] o [of departs] o [of "\<lambda>p. p = Entering GSem"]
      o [of "\<lambda>p. p = Leaving GSem"] o [of counts] z by simp_all
  show ?thesis unfolding group_inv_def eqs by (cases g; cases "guards q") auto
qed

lemma group_enter:
  assumes inv: "group_inv ps g c h" and i: "i < length ps" and pi: "ps ! i = Entering p"
    and st: "((g', c', s'), r) \<in> set (enter_step p (g, c, s))"
  shows "group_inv (ps[i := (case r of None \<Rightarrow> Inside | Some p' \<Rightarrow> Entering p')]) g' c' (h + of_bool s - of_bool s')"
proof -
  have "guards (ps ! i) \<or> \<not> g" using st pi by (cases p) (auto split: if_splits)
  note z = group_alone [OF inv i this]
  have "group_inv (ps[i := Entering p]) g c h" using inv pi by (metis list_update_id)
  with st show ?thesis
    unfolding group_inv_alone [OF i z] using cnt_nonneg [of counts "ps[i := Outside]"]
    by (cases p) (auto split: if_splits)
qed

lemma group_leave:
  assumes inv: "group_inv ps g c h" and i: "i < length ps" and pi: "ps ! i = Leaving p"
    and st: "((g', c', s'), r) \<in> set (leave_step p (g, c, s))"
  shows "group_inv (ps[i := (case r of None \<Rightarrow> Outside | Some p' \<Rightarrow> Leaving p')]) g' c' (h - of_bool (p = GSem))"
proof -
  have "guards (ps ! i) \<or> \<not> g" using st pi by (cases p) (auto split: if_splits)
  note z = group_alone [OF inv i this]
  have "group_inv (ps[i := Leaving p]) g c h" using inv pi by (metis list_update_id)
  with st show ?thesis
    unfolding group_inv_alone [OF i z] using cnt_nonneg [of counts "ps[i := Outside]"]
    by (cases p) (auto split: if_splits)
qed

text \<open>Moving between positions that look the same to the group.\<close>

lemma group_same:
  assumes inv: "group_inv ps g c h" and i: "i < length ps"
    and q: "q = ps ! i \<or> {q, ps ! i} \<subseteq> {Outside, Entering GLock} \<or> {q, ps ! i} \<subseteq> {Inside, Leaving GLock}"
  shows "group_inv (ps[i := q]) g c h"
proof -
  have same: "P q = P (ps ! i) \<Longrightarrow> cnt P (ps[i := q]) = cnt P ps" for P
    using i by (simp add: cnt_upd)
  have "guards q = guards (ps ! i)" "counts q = counts (ps ! i)" "arrives q = arrives (ps ! i)"
    "departs q = departs (ps ! i)" "(q = Entering GSem) = (ps ! i = Entering GSem)"
    "(q = Leaving GSem) = (ps ! i = Leaving GSem)"
    using q by auto
  note eqs = this [THEN same]
  show ?thesis using inv unfolding group_inv_def eqs .
qed

text \<open>A thread inside the group: the group holds the semaphore.\<close>

lemma group_inside:
  assumes "group_inv ps g c h" "i < length ps" "ps ! i = Inside"
  shows "h = 1"
proof -
  have "1 \<le> cnt (\<lambda>p. p = Inside) ps" using cnt_pos [OF assms(2), of "\<lambda>p. p = Inside"] assms(3) by simp
  with group_bounds(4) [of ps] cnt_nonneg [of arrives ps] have "1 \<le> cnt counts ps"
    "cnt counts ps = 1 \<Longrightarrow> cnt arrives ps = 0" by linarith+
  with assms(1) show ?thesis by (auto simp: group_inv_def)
qed

text \<open>A member that waits for the semaphore is the first one, and the group does not hold it yet.\<close>

lemma group_waits:
  assumes "group_inv ps g c h" "i < length ps" "ps ! i = Entering GSem"
  shows "h = 0 \<and> g"
proof -
  have "1 \<le> cnt (\<lambda>p. p = Entering GSem) ps"
    using cnt_pos [OF assms(2), of "\<lambda>p. p = Entering GSem"] assms(3) by simp
  moreover have "cnt guards ps \<le> 1" "cnt guards ps = of_bool g" using assms(1) by (auto simp: group_inv_def)
  ultimately have "cnt arrives ps = 1" "g"
    using group_bounds(1,2) [of ps] cnt_nonneg [of departs ps] by (linarith, cases g, auto)
  with assms(1) \<open>1 \<le> cnt (\<lambda>p. p = Entering GSem) ps\<close> show ?thesis by (auto simp: group_inv_def)
qed

lemma group_empty:
  assumes "group_inv ps g c h" "cnt counts ps = 0" "\<not> g"
  shows "h = 0"
proof -
  have "cnt departs ps = 0"
    using group_bounds(1) [of ps] cnt_nonneg [of arrives ps] cnt_nonneg [of departs ps] assms
    by (simp add: group_inv_def)
  then show ?thesis using assms by (simp add: group_inv_def)
qed

text \<open>The last member that is about to release the semaphore holds it.\<close>

lemma group_departs:
  assumes "group_inv ps g c h" "i < length ps" "ps ! i = Leaving GSem"
  shows "1 \<le> h"
proof -
  have "1 \<le> cnt (\<lambda>p. p = Leaving GSem) ps"
    using cnt_pos [OF assms(2), of "\<lambda>p. p = Leaving GSem"] assms(3) by simp
  with group_bounds(3) [of ps] assms(1) show ?thesis by (auto simp: group_inv_def)
qed

lemma group_held: "group_inv ps g c h \<Longrightarrow> 0 \<le> h"
  using cnt_nonneg [of departs ps] by (auto simp: group_inv_def)

lemma group_init: "list_all (\<lambda>p. p = Outside) ps \<Longrightarrow> group_inv ps False 0 0"
proof -
  assume "list_all (\<lambda>p. p = Outside) ps"
  then have "cnt P ps = 0" if "\<not> P Outside" for P
    using that by (auto simp: cnt_zero_iff list_all_length)
  then show ?thesis by (simp add: group_inv_def)
qed

section \<open>The contract of a solution\<close>

text \<open>
  A program in which a counted group shares a semaphore with threads that hold it alone, and
  which has some plain locks besides. A step is a step of the group, or it leaves the mutex
  and the count alone and moves the semaphore only with the thread that holds it.
\<close>

definition group_move :: "('s \<Rightarrow> bool) \<Rightarrow> ('s \<Rightarrow> bool) \<Rightarrow> ('s \<Rightarrow> int) \<Rightarrow> ('l \<Rightarrow> position)
    \<Rightarrow> 's \<Rightarrow> 'l \<Rightarrow> 's \<Rightarrow> 'l \<Rightarrow> bool" where
  "group_move sem guard count pos s l s' l' \<longleftrightarrow>
     (\<exists>p q. pos l = Entering p \<and>
        ((guard s', count s', sem s'), q) \<in> set (enter_step p (guard s, count s, sem s)) \<and>
        pos l' = (case q of None \<Rightarrow> Inside | Some p' \<Rightarrow> Entering p')) \<or>
     (\<exists>p q. pos l = Leaving p \<and>
        ((guard s', count s', sem s'), q) \<in> set (leave_step p (guard s, count s, sem s)) \<and>
        pos l' = (case q of None \<Rightarrow> Outside | Some p' \<Rightarrow> Leaving p'))"

definition plain_move :: "('s \<Rightarrow> bool) \<Rightarrow> ('s \<Rightarrow> bool) \<Rightarrow> ('s \<Rightarrow> int) \<Rightarrow> ('l \<Rightarrow> position) \<Rightarrow> ('l \<Rightarrow> bool)
    \<Rightarrow> 's \<Rightarrow> 'l \<Rightarrow> 's \<Rightarrow> 'l \<Rightarrow> bool" where
  "plain_move sem guard count pos other s l s' l' \<longleftrightarrow>
     guard s' = guard s \<and> count s' = count s \<and>
     (pos l' = pos l \<or> {pos l', pos l} \<subseteq> {Outside, Entering GLock} \<or> {pos l', pos l} \<subseteq> {Inside, Leaving GLock}) \<and>
     of_bool (\<not> sem s') - of_bool (other l') = (of_bool (\<not> sem s) - of_bool (other l) :: int)"

definition rw_inv :: "('s \<Rightarrow> bool) \<Rightarrow> ('s \<Rightarrow> bool) \<Rightarrow> ('s \<Rightarrow> int) \<Rightarrow> ('l \<Rightarrow> position) \<Rightarrow> ('l \<Rightarrow> bool)
    \<Rightarrow> (('s \<Rightarrow> bool) \<times> ('l \<Rightarrow> bool)) list \<Rightarrow> 's \<Rightarrow> 'l list \<Rightarrow> bool" where
  "rw_inv sem guard count pos other locks s ls \<longleftrightarrow>
     group_inv (map pos ls) (guard s) (count s) (of_bool (\<not> sem s) - cnt other ls) \<and>
     (\<forall>(t, h) \<in> set locks. cnt h ls = of_bool (t s))"

locale rw_solution =
  fixes T :: "('s, 'l) thread"
    and init :: "('s, 'l) conf"
    and sem guard :: "'s \<Rightarrow> bool"
    and count :: "'s \<Rightarrow> int"
    and pos :: "'l \<Rightarrow> position"
    and other :: "'l \<Rightarrow> bool"
    and locks :: "(('s \<Rightarrow> bool) \<times> ('l \<Rightarrow> bool)) list"
  assumes init_free: "sem (fst init)" "\<not> guard (fst init)" "count (fst init) = 0"
      "list_all (\<lambda>l. pos l = Outside \<and> \<not> other l) (snd init)"
      "\<forall>(t, h) \<in> set locks. \<not> t (fst init) \<and> list_all (\<lambda>l. \<not> h l) (snd init)"
    and step: "(s', l') \<in> set (T i s l) \<Longrightarrow> (other l \<longrightarrow> \<not> sem s) \<Longrightarrow>
      (\<forall>(t, h) \<in> set locks. h l \<longrightarrow> t s) \<Longrightarrow>
      (group_move sem guard count pos s l s' l' \<and> \<not> other l \<and> \<not> other l' \<or>
         plain_move sem guard count pos other s l s' l') \<and>
      (\<forall>(t, h) \<in> set locks. of_bool (t s') - of_bool (h l') = (of_bool (t s) - of_bool (h l) :: int))"
begin

abbreviation inv :: "'s \<Rightarrow> 'l list \<Rightarrow> bool" where
  "inv \<equiv> rw_inv sem guard count pos other locks"

lemma inv_init: "inv (fst init) (snd init)"
proof -
  have "cnt P (snd init) = 0" if "list_all (\<lambda>l. \<not> P l) (snd init)" for P
    using that by (simp add: cnt_zero_iff list_all_length)
  moreover have "group_inv (map pos (snd init)) False 0 0"
    using init_free(4) by (intro group_init) (auto simp: list_all_iff)
  moreover have "list_all (\<lambda>l. \<not> other l) (snd init)" using init_free(4) by (auto simp: list_all_iff)
  ultimately show ?thesis using init_free by (auto simp: rw_inv_def)
qed

lemma inv_group: "inv s ls \<Longrightarrow> group_inv (map pos ls) (guard s) (count s) (of_bool (\<not> sem s) - cnt other ls)"
  by (simp add: rw_inv_def)

lemma other_taken: "inv s ls \<Longrightarrow> i < length ls \<Longrightarrow> other (ls ! i) \<Longrightarrow> \<not> sem s"
  using group_held [OF inv_group, of s ls] cnt_pos [of i ls other] by (cases "sem s") auto

lemma lock_taken: "inv s ls \<Longrightarrow> i < length ls \<Longrightarrow> (t, h) \<in> set locks \<Longrightarrow> h (ls ! i) \<Longrightarrow> t s"
  using cnt_pos [of i ls h] by (cases "t s") (auto simp: rw_inv_def)

lemma inv_step:
  assumes I: "inv s ls" and i: "i < length ls" and out: "(s', l) \<in> set (T k s (ls ! i))"
  shows "inv s' (ls[i := l])"
proof -
  let ?m = "map pos ls" and ?h = "of_bool (\<not> sem s) - cnt other ls"
  have G: "group_inv ?m (guard s) (count s) ?h" by (rule inv_group [OF I])
  have im: "i < length ?m" and mi: "?m ! i = pos (ls ! i)" using i by simp_all
  have locks: "\<forall>(t, h) \<in> set locks. h (ls ! i) \<longrightarrow> t s" using lock_taken [OF I i] by blast
  note st = step [OF out _ locks]
  have st: "group_move sem guard count pos s (ls ! i) s' l \<and> \<not> other (ls ! i) \<and> \<not> other l \<or>
      plain_move sem guard count pos other s (ls ! i) s' l"
    and lk: "\<forall>(t, h) \<in> set locks. of_bool (t s') - of_bool (h l) = (of_bool (t s) - of_bool (h (ls ! i)) :: int)"
    using st other_taken [OF I i] by blast+
  have "cnt h (ls[i := l]) = of_bool (t s')" if "(t, h) \<in> set locks" for t h
  proof -
    have "cnt h ls = of_bool (t s)" using I that by (auto simp: rw_inv_def)
    moreover have "of_bool (t s') - of_bool (h l) = (of_bool (t s) - of_bool (h (ls ! i)) :: int)"
      using lk that by blast
    ultimately show ?thesis using cnt_upd [OF i, of h l] by linarith
  qed
  moreover have "group_inv (?m[i := pos l]) (guard s') (count s') (of_bool (\<not> sem s') - cnt other (ls[i := l]))"
    using st
  proof
    assume m: "plain_move sem guard count pos other s (ls ! i) s' l"
    then have "of_bool (\<not> sem s') - cnt other (ls[i := l]) = ?h"
      using cnt_upd [OF i, of other l] by (simp add: plain_move_def)
    with m group_same [OF G im, of "pos l"] show ?thesis by (simp add: plain_move_def mi)
  next
    assume m: "group_move sem guard count pos s (ls ! i) s' l \<and> \<not> other (ls ! i) \<and> \<not> other l"
    then have o: "cnt other (ls[i := l]) = cnt other ls" using cnt_upd [OF i, of other l] by simp
    from m consider p q where "pos (ls ! i) = Entering p"
        "((guard s', count s', sem s'), q) \<in> set (enter_step p (guard s, count s, sem s))"
        "pos l = (case q of None \<Rightarrow> Inside | Some p' \<Rightarrow> Entering p')"
      | p q where "pos (ls ! i) = Leaving p"
        "((guard s', count s', sem s'), q) \<in> set (leave_step p (guard s, count s, sem s))"
        "pos l = (case q of None \<Rightarrow> Outside | Some p' \<Rightarrow> Leaving p')"
      unfolding group_move_def by blast
    then show ?thesis
    proof cases
      case 1
      have "?h + of_bool (sem s) - of_bool (sem s') = of_bool (\<not> sem s') - cnt other ls" by simp
      with group_enter [OF G im _ 1(2)] 1 show ?thesis by (simp add: mi o)
    next
      case 2
      have "of_bool (\<not> sem s') = of_bool (\<not> sem s) - (of_bool (p = GSem) :: int)"
        using group_departs [OF G im] 2 cnt_nonneg [of other ls]
        by (cases p; cases "sem s") (auto simp: mi split: if_splits)
      then have "?h - of_bool (p = GSem) = of_bool (\<not> sem s') - cnt other ls" by simp
      with group_leave [OF G im _ 2(2)] 2 show ?thesis by (simp add: mi o)
    qed
  qed
  ultimately show ?thesis by (auto simp: rw_inv_def map_update)
qed

lemma solution_inv: "thread_inv T init inv"
  by unfold_locales (auto intro: inv_init inv_step)

lemma reach_solution: "reach T init (s, ls) \<Longrightarrow> inv s ls"
  by (rule thread_inv.reach_inv [OF solution_inv])

text \<open>The group and a thread that holds the semaphore alone exclude each other.\<close>

lemma exclusive:
  assumes I: "inv s ls" and i: "i < length ls" "other (ls ! i)" and j: "j < length ls" "i \<noteq> j"
  shows "\<not> other (ls ! j) \<and> pos (ls ! j) \<noteq> Inside"
proof -
  have w: "1 \<le> cnt other ls" using cnt_pos [of i ls other] i by simp
  have h: "0 \<le> of_bool (\<not> sem s) - cnt other ls" by (rule group_held [OF inv_group [OF I]])
  have "\<not> other (ls ! j)"
    using cnt_two [of i ls j other] i j h by (cases "sem s") auto
  moreover have "pos (ls ! j) \<noteq> Inside"
    using group_inside [OF inv_group [OF I], of j] j w h by (cases "sem s") auto
  ultimately show ?thesis by simp
qed

text \<open>What is free when the threads that could hold it are elsewhere.\<close>

lemma lock_free:
  assumes "inv s ls" "(t, h) \<in> set locks" "\<And>i. i < length ls \<Longrightarrow> \<not> h (ls ! i)"
  shows "\<not> t s"
proof -
  have "cnt h ls = 0" using assms(3) by (simp add: cnt_zero_iff)
  with assms(1,2) show ?thesis by (auto simp: rw_inv_def)
qed

lemma sem_for_first:
  assumes "inv s ls" "\<And>i. i < length ls \<Longrightarrow> \<not> other (ls ! i)" "i < length ls" "pos (ls ! i) = Entering GSem"
  shows "sem s"
proof -
  have "cnt other ls = 0" using assms(2) by (simp add: cnt_zero_iff)
  with group_waits [OF inv_group [OF assms(1)], of i] assms(3,4) show ?thesis by (cases "sem s") auto
qed

lemma guard_free:
  assumes "inv s ls" "\<And>i. i < length ls \<Longrightarrow> pos (ls ! i) \<in> {Outside, Inside, Entering GLock, Leaving GLock}"
  shows "\<not> guard s"
proof -
  have "\<not> guards (pos (ls ! i))" if "i < length ls" for i using assms(2) [OF that] by auto
  then have "cnt guards (map pos ls) = 0" by (simp add: cnt_zero_iff)
  with inv_group [OF assms(1)] show ?thesis by (auto simp: group_inv_def)
qed

lemma sem_free:
  assumes "inv s ls" "\<And>i. i < length ls \<Longrightarrow> \<not> other (ls ! i) \<and> pos (ls ! i) = Outside"
  shows "sem s"
proof -
  have "cnt other ls = 0" "cnt counts (map pos ls) = 0" using assms(2) by (simp_all add: cnt_zero_iff)
  moreover have "\<not> guard s" using guard_free assms by simp
  ultimately show ?thesis using group_empty [OF inv_group [OF assms(1)]] by (cases "sem s") auto
qed

end

section \<open>The shared queue\<close>

text \<open>
  The section \<open>lock_guard lock{dataGuard}; ...\<close>: a writer pushes its value, a reader takes
  the front or finds the queue empty. The pair is the mutex and the queue.
\<close>

datatype dpc = DLock | DBody | DUnlock

fun push_section :: "int \<Rightarrow> dpc \<Rightarrow> bool \<times> int list \<Rightarrow> ((bool \<times> int list) \<times> dpc option) list" where
  "push_section v DLock (g, d) = (if g then [] else [((True, d), Some DBody)])"
| "push_section v DBody (g, d) = [((g, d @ [v]), Some DUnlock)]"
| "push_section v DUnlock (g, d) = [((False, d), None)]"

fun pop_section :: "int option \<Rightarrow> dpc \<Rightarrow> bool \<times> int list
    \<Rightarrow> ((bool \<times> int list) \<times> int option \<times> dpc option) list" where
  "pop_section x DLock (g, d) = (if g then [] else [((True, d), x, Some DBody)])"
| "pop_section x DBody (g, d) =
     (case d of [] \<Rightarrow> [((g, d), x, Some DUnlock)] | v # vs \<Rightarrow> [((g, vs), Some v, Some DUnlock)])"
| "pop_section x DUnlock (g, d) = [((False, d), x, None)]"

text \<open>Every writer sends ten messages.\<close>

definition kMaxMessagesCount :: nat where
  "kMaxMessagesCount = 10"

text \<open>Work left in the blocks, for the termination measures.\<close>

fun gpc_work :: "gpc \<Rightarrow> nat" where
  "gpc_work GLock = 4"
| "gpc_work GCount = 3"
| "gpc_work GTest = 2"
| "gpc_work GSem = 1"
| "gpc_work GUnlock = 0"

fun dpc_work :: "dpc \<Rightarrow> nat" where
  "dpc_work DLock = 2"
| "dpc_work DBody = 1"
| "dpc_work DUnlock = 0"

end
