(* ===== verification/Readers_First.thy ===== *)
theory Readers_First
  imports Light_Switch
begin

text \<open>
  ProducerConsumer/first_readers_writers/main.cpp: readers and writers with preference for the readers. Two
  writer threads push \<open>kMaxMessagesCount\<close> messages each, two reader threads read until they
  find the queue empty; the results hold for any number of writers and readers.
\<close>

section \<open>The program\<close>

record first_state =
  resource :: bool
  rmutex :: bool
  countGuard :: bool
  readcount :: int
  dataGuard :: bool
  msgs :: "int list"
  messagesCount :: "32 word"

text \<open>
  The places of \<open>writer\<close> (in its loop, with the loop counter and the value) and of
  \<open>reader\<close> (with the result so far).
\<close>

datatype first_pc =
    WLoop nat
  | WAcquire nat int
  | WData nat int dpc
  | WRelease nat
  | RAcquire
  | REnter gpc
  | REnterDone
  | RData "int option" dpc
  | LAcquire "int option"
  | RLeave "int option" gpc
  | RLeaveDone "int option"
  | End

fun first_writer :: "first_state \<Rightarrow> first_pc \<Rightarrow> (first_state \<times> first_pc) list" where
  "first_writer s (WLoop k) =
     (if k < kMaxMessagesCount
      then [(s\<lparr>messagesCount := messagesCount s + 1\<rparr>, WAcquire k (sint (messagesCount s)))]
      else [(s, End)])"
| "first_writer s (WAcquire k v) =
     (if resource s then [(s\<lparr>resource := False\<rparr>, WData k v DLock)] else [])"
| "first_writer s (WData k v p) = map (\<lambda>((g, d), r). (s\<lparr>dataGuard := g, msgs := d\<rparr>,
       (case r of Some p' \<Rightarrow> WData k v p' | None \<Rightarrow> WRelease k))) (push_section v p (dataGuard s, msgs s))"
| "first_writer s (WRelease k) = [(s\<lparr>resource := True\<rparr>, WLoop (k + 1))]"
| "first_writer s _ = []"

fun first_startRead :: "first_state \<Rightarrow> first_pc \<Rightarrow> (first_state \<times> first_pc) list" where
  "first_startRead s RAcquire = (if rmutex s then [(s\<lparr>rmutex := False\<rparr>, REnter GLock)] else [])"
| "first_startRead s (REnter p) = map (\<lambda>((g, c, r), q).
       (s\<lparr>countGuard := g, readcount := c, resource := r\<rparr>,
        (case q of Some p' \<Rightarrow> REnter p' | None \<Rightarrow> REnterDone)))
       (enter_step p (countGuard s, readcount s, resource s))"
| "first_startRead s REnterDone = [(s\<lparr>rmutex := True\<rparr>, RData None DLock)]"
| "first_startRead s _ = []"

fun first_stopRead :: "first_state \<Rightarrow> first_pc \<Rightarrow> (first_state \<times> first_pc) list" where
  "first_stopRead s (LAcquire x) = (if rmutex s then [(s\<lparr>rmutex := False\<rparr>, RLeave x GLock)] else [])"
| "first_stopRead s (RLeave x p) = map (\<lambda>((g, c, r), q).
       (s\<lparr>countGuard := g, readcount := c, resource := r\<rparr>,
        (case q of Some p' \<Rightarrow> RLeave x p' | None \<Rightarrow> RLeaveDone x)))
       (leave_step p (countGuard s, readcount s, resource s))"
| "first_stopRead s (RLeaveDone x) =
     [(s\<lparr>rmutex := True\<rparr>, (case x of Some _ \<Rightarrow> RAcquire | None \<Rightarrow> End))]"
| "first_stopRead s _ = []"

fun first_reader :: "first_state \<Rightarrow> first_pc \<Rightarrow> (first_state \<times> first_pc) list" where
  "first_reader s (RData x p) = map (\<lambda>((g, d), y, r). (s\<lparr>dataGuard := g, msgs := d\<rparr>,
       (case r of Some p' \<Rightarrow> RData y p' | None \<Rightarrow> LAcquire y))) (pop_section x p (dataGuard s, msgs s))"
| "first_reader s pc = first_startRead s pc @ first_stopRead s pc"

definition first_thread :: "(first_state, first_pc) thread" where
  "first_thread i s pc = first_writer s pc @ first_reader s pc"

definition first_main :: "nat \<Rightarrow> nat \<Rightarrow> (first_state, first_pc) conf" where
  "first_main w r = (\<lparr>resource = True, rmutex = True, countGuard = False, readcount = 0,
      dataGuard = False, msgs = [], messagesCount = 0\<rparr>,
     replicate w (WLoop 0) @ replicate r RAcquire)"

section \<open>The invariant\<close>

fun rpos :: "first_pc \<Rightarrow> position" where
  "rpos (REnter p) = Entering p"
| "rpos REnterDone = Inside"
| "rpos (RData x p) = Inside"
| "rpos (LAcquire x) = Inside"
| "rpos (RLeave x p) = Leaving p"
| "rpos _ = Outside"

fun writing :: "first_pc \<Rightarrow> bool" where
  "writing (WData k v p) = True"
| "writing (WRelease k) = True"
| "writing _ = False"

fun reading :: "first_pc \<Rightarrow> bool" where
  "reading (RData x p) = True"
| "reading _ = False"

fun has_rmutex :: "first_pc \<Rightarrow> bool" where
  "has_rmutex (REnter p) = True"
| "has_rmutex REnterDone = True"
| "has_rmutex (RLeave x p) = True"
| "has_rmutex (RLeaveDone x) = True"
| "has_rmutex _ = False"

fun in_data :: "first_pc \<Rightarrow> bool" where
  "in_data (WData k v p) = (p \<noteq> DLock)"
| "in_data (RData x p) = (p \<noteq> DLock)"
| "in_data _ = False"

text \<open>
  The readers are the counted group, the writers hold \<open>resource\<close> alone; \<open>rmutex\<close> and the
  mutex of the queue are the other locks.
\<close>

abbreviation first_locks :: "((first_state \<Rightarrow> bool) \<times> (first_pc \<Rightarrow> bool)) list" where
  "first_locks \<equiv> [(\<lambda>s. \<not> rmutex s, has_rmutex), (dataGuard, in_data)]"

interpretation first: rw_solution first_thread "first_main w r" resource countGuard readcount rpos writing first_locks
proof
  fix s s' i l l'
  assume out: "(s', l') \<in> set (first_thread i s l)" and o: "writing l \<longrightarrow> \<not> resource s"
    and lk: "\<forall>(t, h) \<in> set first_locks. h l \<longrightarrow> t s"
  show "(group_move resource countGuard readcount rpos s l s' l' \<and> \<not> writing l \<and> \<not> writing l' \<or>
        plain_move resource countGuard readcount rpos writing s l s' l') \<and>
      (\<forall>(t, h) \<in> set first_locks. of_bool (t s') - of_bool (h l') = (of_bool (t s) - of_bool (h l) :: int))"
  proof (cases l)
    case (WData k v p)
    with out o lk show ?thesis by (cases p) (auto simp: first_thread_def plain_move_def split: if_splits)
  next
    case (REnter p)
    with out o lk show ?thesis by (auto simp: first_thread_def group_move_def split: option.splits)
  next
    case (RData x p)
    with out o lk show ?thesis
      by (cases p) (auto simp: first_thread_def plain_move_def split: if_splits list.splits)
  next
    case (RLeave x p)
    with out o lk show ?thesis by (auto simp: first_thread_def group_move_def split: option.splits)
  next
    case (RLeaveDone x)
    with out o lk show ?thesis by (cases x) (auto simp: first_thread_def plain_move_def)
  qed (use out o lk in \<open>auto simp: first_thread_def plain_move_def split: if_splits\<close>)
qed (auto simp: first_main_def list_all_iff)

section \<open>Termination\<close>

fun first_work :: "first_pc \<Rightarrow> nat" where
  "first_work (WLoop k) = (kMaxMessagesCount - k) * 40 + 1"
| "first_work (WAcquire k v) = (kMaxMessagesCount - (k + 1)) * 40 + 40"
| "first_work (WData k v DLock) = (kMaxMessagesCount - (k + 1)) * 40 + 39"
| "first_work (WData k v DBody) = (kMaxMessagesCount - (k + 1)) * 40 + 38"
| "first_work (WData k v DUnlock) = (kMaxMessagesCount - (k + 1)) * 40 + 3"
| "first_work (WRelease k) = (kMaxMessagesCount - (k + 1)) * 40 + 2"
| "first_work RAcquire = 20"
| "first_work (REnter p) = (case p of GLock \<Rightarrow> 19 | GCount \<Rightarrow> 18 | GTest \<Rightarrow> 17 | GSem \<Rightarrow> 16 | GUnlock \<Rightarrow> 15)"
| "first_work REnterDone = 14"
| "first_work (RData x p) = (case p of DLock \<Rightarrow> 13 | DBody \<Rightarrow> 12 | DUnlock \<Rightarrow> 11) + (if x = None then 0 else 20)"
| "first_work (LAcquire x) = 10 + (if x = None then 0 else 20)"
| "first_work (RLeave x p) = (case p of GLock \<Rightarrow> 9 | GCount \<Rightarrow> 8 | GTest \<Rightarrow> 7 | GSem \<Rightarrow> 6 | GUnlock \<Rightarrow> 5)
     + (if x = None then 0 else 20)"
| "first_work (RLeaveDone x) = 4 + (if x = None then 0 else 20)"
| "first_work End = 0"

definition first_left :: "first_state \<Rightarrow> first_pc list \<Rightarrow> nat" where
  "first_left s ls = workload first_work ls + 30 * length (msgs s)"

lemma first_work_step:
  assumes i: "i < length ls" and out: "(s', l) \<in> set (first_thread i s (ls ! i))"
  shows "first_left s' (ls[i := l]) < first_left s ls"
proof -
  have "first_work l + 30 * length (msgs s') < first_work (ls ! i) + 30 * length (msgs s)"
  proof (cases "ls ! i")
    case (WLoop k)
    then show ?thesis using out by (auto simp: first_thread_def split: if_splits)
  next
    case (WData k v p)
    then show ?thesis using out by (cases p) (auto simp: first_thread_def split: if_splits)
  next
    case (REnter p)
    then show ?thesis using out by (cases p) (auto simp: first_thread_def split: if_splits)
  next
    case (RData x p)
    then show ?thesis using out
      by (cases p) (auto simp: first_thread_def split: if_splits list.splits)
  next
    case (RLeave x p)
    then show ?thesis using out by (cases p) (auto simp: first_thread_def split: if_splits)
  next
    case (RLeaveDone x)
    then show ?thesis using out by (cases x) (auto simp: first_thread_def)
  qed (use out in \<open>auto simp: first_thread_def split: if_splits\<close>)
  then show ?thesis unfolding first_left_def by (rule workload_less [OF i])
qed

interpretation first: thread_term first_thread "first_main w r" first.inv first_left
  by unfold_locales (auto intro: first.inv_init first.inv_step first_work_step)

text \<open>When no thread can move, every thread has returned.\<close>

lemma first_no_deadlock:
  assumes inv: "first.inv s ls" and st: "stuck first_thread (s, ls)"
  shows "list_all (\<lambda>l. l = End) ls"
proof -
  note defs = first_thread_def
  have no: "first_thread i s (ls ! i) = []" if "i < length ls" for i using st that by (simp add: stuck_iff)
  have "\<not> in_data (ls ! i)" if "i < length ls" for i
    using no [OF that] by (cases "ls ! i"; cases "case ls ! i of WData k v p \<Rightarrow> p | RData x p \<Rightarrow> p | _ \<Rightarrow> DLock")
      (auto simp: defs split: list.splits)
  then have dg: "\<not> dataGuard s" using first.lock_free [OF inv, of dataGuard in_data] by simp
  have w: "\<not> writing (ls ! i)" if "i < length ls" for i
  proof (cases "ls ! i")
    case (WData k v p)
    with no [OF that] dg show ?thesis by (cases p) (auto simp: defs)
  qed (use no [OF that] in \<open>auto simp: defs\<close>)
  have pos: "rpos (ls ! i) \<in> {Outside, Inside, Entering GLock, Leaving GLock}" if "i < length ls" for i
  proof (cases "ls ! i")
    case (REnter p)
    with no [OF that] first.sem_for_first [OF inv w that] show ?thesis by (cases p) (auto simp: defs)
  next
    case (RLeave x p)
    with no [OF that] show ?thesis by (cases p) (auto simp: defs)
  qed auto
  have cg: "\<not> countGuard s" by (rule first.guard_free [OF inv pos])
  have "\<not> has_rmutex (ls ! i)" if "i < length ls" for i
    using no [OF that] pos [OF that] cg by (cases "ls ! i") (auto simp: defs)
  then have rm: "rmutex s" using first.lock_free [OF inv, of "\<lambda>s. \<not> rmutex s" has_rmutex] by simp
  have out: "rpos (ls ! i) = Outside" if "i < length ls" for i
  proof (cases "ls ! i")
    case (RData x p)
    with no [OF that] dg show ?thesis by (cases p) (auto simp: defs split: list.splits)
  qed (use no [OF that] pos [OF that] cg rm in \<open>auto simp: defs\<close>)
  have "resource s" using first.sem_free [OF inv] w out by blast
  then have "ls ! i = End" if "i < length ls" for i
    using no [OF that] out [OF that] w [OF that] rm
    by (cases "ls ! i") (auto simp: defs split: if_splits)
  then show ?thesis by (simp add: list_all_length)
qed

section \<open>What the program promises\<close>

text \<open>
  Claim C10. First readers-writers problem: while a writer is between \<open>resource.acquire()\<close> and
  \<open>resource.release()\<close> no other writer is there and no reader reads, whatever the number of
  threads and the interleaving.
\<close>

theorem first_writer_exclusive:
  assumes "reach first_thread (first_main w r) (s, ls)"
    and "i < length ls" "writing (ls ! i)" and "j < length ls" "i \<noteq> j"
  shows "\<not> writing (ls ! j) \<and> \<not> reading (ls ! j)"
  using first.exclusive [OF first.reach_solution [OF assms(1)] assms(2-)]
  by (cases "ls ! j") auto

theorem first_writer_exclusive_witness:
  "\<exists>s ls. reach first_thread (first_main 2 2) (s, ls) \<and> writing (ls ! 1) \<and> \<not> writing (ls ! 0) \<and>
     \<not> reading (ls ! 2) \<and> ls ! 2 = REnter GSem"
proof -
  let ?c = "(\<lparr>resource = False, rmutex = False, countGuard = True, readcount = 1, dataGuard = False,
    msgs = [], messagesCount = 2\<rparr>, [WAcquire 0 0, WData 0 1 DLock, REnter GSem, RAcquire])"
  have "sched first_thread [(0, 0), (1, 0), (1, 0), (2, 0), (2, 0), (2, 0), (2, 0)] (first_main 2 2) = Some ?c"
    by (simp add: first_main_def first_thread_def kMaxMessagesCount_def numeral_eq_Suc)
  then have r: "reach first_thread (first_main 2 2) (fst ?c, snd ?c)" by (simp add: sched_reach)
  from first_writer_exclusive [OF r, of 1 0] first_writer_exclusive [OF r, of 1 2] r
  show ?thesis by (intro exI [of _ "fst ?c"] exI [of _ "snd ?c"]) simp
qed

text \<open>
  First readers-writers problem: the program ends. No run is infinite, and from every
  reachable configuration the threads can go on to a configuration in which all have
  returned; in particular there is no deadlock.
\<close>

theorem first_program_ends:
  assumes "reach first_thread (first_main w r) c"
  shows "(\<exists>s ls. reach first_thread c (s, ls) \<and> list_all (\<lambda>l. l = End) ls) \<and>
    \<not> (\<exists>f. f 0 = c \<and> (\<forall>n. istep first_thread (f n) (f (Suc n))))"
proof -
  obtain s ls where r: "reach first_thread c (s, ls)" and st: "stuck first_thread (s, ls)"
    using first.reach_stuck [OF assms] by auto
  have "first.inv s ls" using first.reach_solution reach_trans [OF r assms] by blast
  from first_no_deadlock [OF this st] r show ?thesis using first.no_infinite_run assms by blast
qed

theorem first_program_ends_witness:
  "\<exists>s ls. reach first_thread (first_main 2 2) (s, ls) \<and> list_all (\<lambda>l. l = End) ls"
  using first_program_ends [OF reach_init, of 2 2] by blast

end
