(* ===== verification/Readers_Second.thy ===== *)
theory Readers_Second
  imports Light_Switch
begin

text \<open>
  ProducerConsumer/second_readers_writers/main.cpp: writers-preference. The first of the writers takes
  \<open>readTry\<close>, which every reader needs to enter, and the last one gives it back: the
  writers are a counted group on \<open>readTry\<close> and the readers one on \<open>resource\<close>.
\<close>

section \<open>The program\<close>

record second_state =
  wmutex :: bool
  rmutex :: bool
  readTry :: bool
  resource :: bool
  readCountGuard :: bool
  readCount :: int
  writeCountGuard :: bool
  writeCount :: int
  dataGuard :: bool
  msgs :: "int list"
  messagesCount :: "32 word"

datatype second_pc =
    WLoop nat
  | SAcquire nat int
  | SEnter nat int gpc
  | SEnterDone nat int
  | SResource nat int
  | WData nat int dpc
  | WRelease nat
  | EAcquire nat
  | ELeave nat gpc
  | ELeaveDone nat
  | RTry
  | RAcquire
  | REnter gpc
  | REnterDone
  | RTryRelease
  | RData "int option" dpc
  | LAcquire "int option"
  | RLeave "int option" gpc
  | RLeaveDone "int option"
  | End

fun second_startWrite :: "second_state \<Rightarrow> second_pc \<Rightarrow> (second_state \<times> second_pc) list" where
  "second_startWrite s (SAcquire k v) = (if wmutex s then [(s\<lparr>wmutex := False\<rparr>, SEnter k v GLock)] else [])"
| "second_startWrite s (SEnter k v p) = map (\<lambda>((g, c, r), q).
       (s\<lparr>writeCountGuard := g, writeCount := c, readTry := r\<rparr>,
        (case q of Some p' \<Rightarrow> SEnter k v p' | None \<Rightarrow> SEnterDone k v)))
       (enter_step p (writeCountGuard s, writeCount s, readTry s))"
| "second_startWrite s (SEnterDone k v) = [(s\<lparr>wmutex := True\<rparr>, SResource k v)]"
| "second_startWrite s (SResource k v) =
     (if resource s then [(s\<lparr>resource := False\<rparr>, WData k v DLock)] else [])"
| "second_startWrite s _ = []"

fun second_endWrite :: "second_state \<Rightarrow> second_pc \<Rightarrow> (second_state \<times> second_pc) list" where
  "second_endWrite s (EAcquire k) = (if wmutex s then [(s\<lparr>wmutex := False\<rparr>, ELeave k GLock)] else [])"
| "second_endWrite s (ELeave k p) = map (\<lambda>((g, c, r), q).
       (s\<lparr>writeCountGuard := g, writeCount := c, readTry := r\<rparr>,
        (case q of Some p' \<Rightarrow> ELeave k p' | None \<Rightarrow> ELeaveDone k)))
       (leave_step p (writeCountGuard s, writeCount s, readTry s))"
| "second_endWrite s (ELeaveDone k) = [(s\<lparr>wmutex := True\<rparr>, WLoop (k + 1))]"
| "second_endWrite s _ = []"

fun second_writer :: "second_state \<Rightarrow> second_pc \<Rightarrow> (second_state \<times> second_pc) list" where
  "second_writer s (WLoop k) =
     (if k < kMaxMessagesCount
      then [(s\<lparr>messagesCount := messagesCount s + 1\<rparr>, SAcquire k (sint (messagesCount s)))]
      else [(s, End)])"
| "second_writer s (WData k v p) = map (\<lambda>((g, d), r). (s\<lparr>dataGuard := g, msgs := d\<rparr>,
       (case r of Some p' \<Rightarrow> WData k v p' | None \<Rightarrow> WRelease k))) (push_section v p (dataGuard s, msgs s))"
| "second_writer s (WRelease k) = [(s\<lparr>resource := True\<rparr>, EAcquire k)]"
| "second_writer s pc = second_startWrite s pc @ second_endWrite s pc"

fun second_startRead :: "second_state \<Rightarrow> second_pc \<Rightarrow> (second_state \<times> second_pc) list" where
  "second_startRead s RTry = (if readTry s then [(s\<lparr>readTry := False\<rparr>, RAcquire)] else [])"
| "second_startRead s RAcquire = (if rmutex s then [(s\<lparr>rmutex := False\<rparr>, REnter GLock)] else [])"
| "second_startRead s (REnter p) = map (\<lambda>((g, c, r), q).
       (s\<lparr>readCountGuard := g, readCount := c, resource := r\<rparr>,
        (case q of Some p' \<Rightarrow> REnter p' | None \<Rightarrow> REnterDone)))
       (enter_step p (readCountGuard s, readCount s, resource s))"
| "second_startRead s REnterDone = [(s\<lparr>rmutex := True\<rparr>, RTryRelease)]"
| "second_startRead s RTryRelease = [(s\<lparr>readTry := True\<rparr>, RData None DLock)]"
| "second_startRead s _ = []"

fun second_endRead :: "second_state \<Rightarrow> second_pc \<Rightarrow> (second_state \<times> second_pc) list" where
  "second_endRead s (LAcquire x) = (if rmutex s then [(s\<lparr>rmutex := False\<rparr>, RLeave x GLock)] else [])"
| "second_endRead s (RLeave x p) = map (\<lambda>((g, c, r), q).
       (s\<lparr>readCountGuard := g, readCount := c, resource := r\<rparr>,
        (case q of Some p' \<Rightarrow> RLeave x p' | None \<Rightarrow> RLeaveDone x)))
       (leave_step p (readCountGuard s, readCount s, resource s))"
| "second_endRead s (RLeaveDone x) =
     [(s\<lparr>rmutex := True\<rparr>, (case x of Some _ \<Rightarrow> RTry | None \<Rightarrow> End))]"
| "second_endRead s _ = []"

fun second_reader :: "second_state \<Rightarrow> second_pc \<Rightarrow> (second_state \<times> second_pc) list" where
  "second_reader s (RData x p) = map (\<lambda>((g, d), y, r). (s\<lparr>dataGuard := g, msgs := d\<rparr>,
       (case r of Some p' \<Rightarrow> RData y p' | None \<Rightarrow> LAcquire y))) (pop_section x p (dataGuard s, msgs s))"
| "second_reader s pc = second_startRead s pc @ second_endRead s pc"

definition second_thread :: "(second_state, second_pc) thread" where
  "second_thread i s pc = second_writer s pc @ second_reader s pc"

definition second_main :: "nat \<Rightarrow> nat \<Rightarrow> (second_state, second_pc) conf" where
  "second_main w r = (\<lparr>wmutex = True, rmutex = True, readTry = True, resource = True,
      readCountGuard = False, readCount = 0, writeCountGuard = False, writeCount = 0,
      dataGuard = False, msgs = [], messagesCount = 0\<rparr>,
     replicate w (WLoop 0) @ replicate r RTry)"

section \<open>The two groups\<close>

fun rpos :: "second_pc \<Rightarrow> position" where
  "rpos (REnter p) = Entering p"
| "rpos REnterDone = Inside"
| "rpos RTryRelease = Inside"
| "rpos (RData x p) = Inside"
| "rpos (LAcquire x) = Inside"
| "rpos (RLeave x p) = Leaving p"
| "rpos _ = Outside"

fun wpos :: "second_pc \<Rightarrow> position" where
  "wpos (SEnter k v p) = Entering p"
| "wpos (SEnterDone k v) = Inside"
| "wpos (SResource k v) = Inside"
| "wpos (WData k v p) = Inside"
| "wpos (WRelease k) = Inside"
| "wpos (EAcquire k) = Inside"
| "wpos (ELeave k p) = Leaving p"
| "wpos _ = Outside"

fun writing :: "second_pc \<Rightarrow> bool" where
  "writing (WData k v p) = True"
| "writing (WRelease k) = True"
| "writing _ = False"

fun reading :: "second_pc \<Rightarrow> bool" where
  "reading (RData x p) = True"
| "reading _ = False"

fun trying :: "second_pc \<Rightarrow> bool" where
  "trying RAcquire = True"
| "trying (REnter p) = True"
| "trying REnterDone = True"
| "trying RTryRelease = True"
| "trying _ = False"

fun has_rmutex :: "second_pc \<Rightarrow> bool" where
  "has_rmutex (REnter p) = True"
| "has_rmutex REnterDone = True"
| "has_rmutex (RLeave x p) = True"
| "has_rmutex (RLeaveDone x) = True"
| "has_rmutex _ = False"

fun has_wmutex :: "second_pc \<Rightarrow> bool" where
  "has_wmutex (SEnter k v p) = True"
| "has_wmutex (SEnterDone k v) = True"
| "has_wmutex (ELeave k p) = True"
| "has_wmutex (ELeaveDone k) = True"
| "has_wmutex _ = False"

fun in_data :: "second_pc \<Rightarrow> bool" where
  "in_data (WData k v p) = (p \<noteq> DLock)"
| "in_data (RData x p) = (p \<noteq> DLock)"
| "in_data _ = False"

abbreviation second_locks :: "((second_state \<Rightarrow> bool) \<times> (second_pc \<Rightarrow> bool)) list" where
  "second_locks \<equiv> [(\<lambda>s. \<not> rmutex s, has_rmutex), (dataGuard, in_data)]"

abbreviation second_wlocks :: "((second_state \<Rightarrow> bool) \<times> (second_pc \<Rightarrow> bool)) list" where
  "second_wlocks \<equiv> [(\<lambda>s. \<not> wmutex s, has_wmutex)]"

interpretation second: rw_solution second_thread "second_main w r" resource readCountGuard readCount rpos writing second_locks
proof
  fix s s' i l l'
  assume out: "(s', l') \<in> set (second_thread i s l)" and o: "writing l \<longrightarrow> \<not> resource s"
    and lk: "\<forall>(t, h) \<in> set second_locks. h l \<longrightarrow> t s"
  show "(group_move resource readCountGuard readCount rpos s l s' l' \<and> \<not> writing l \<and> \<not> writing l' \<or>
        plain_move resource readCountGuard readCount rpos writing s l s' l') \<and>
      (\<forall>(t, h) \<in> set second_locks. of_bool (t s') - of_bool (h l') = (of_bool (t s) - of_bool (h l) :: int))"
  proof (cases l)
    case (WData k v p)
    with out o lk show ?thesis by (cases p) (auto simp: second_thread_def plain_move_def split: if_splits)
  next
    case (SEnter k v p)
    with out o lk show ?thesis by (cases p) (auto simp: second_thread_def plain_move_def split: if_splits)
  next
    case (ELeave k p)
    with out o lk show ?thesis by (cases p) (auto simp: second_thread_def plain_move_def split: if_splits)
  next
    case (REnter p)
    with out o lk show ?thesis by (auto simp: second_thread_def group_move_def split: option.splits)
  next
    case (RData x p)
    with out o lk show ?thesis
      by (cases p) (auto simp: second_thread_def plain_move_def split: if_splits list.splits)
  next
    case (RLeave x p)
    with out o lk show ?thesis by (auto simp: second_thread_def group_move_def split: option.splits)
  next
    case (RLeaveDone x)
    with out o lk show ?thesis by (cases x) (auto simp: second_thread_def plain_move_def)
  qed (use out o lk in \<open>auto simp: second_thread_def plain_move_def split: if_splits\<close>)
qed (auto simp: second_main_def list_all_iff)

interpretation second_w: rw_solution second_thread "second_main w r" readTry writeCountGuard writeCount wpos trying second_wlocks
proof
  fix s s' i l l'
  assume out: "(s', l') \<in> set (second_thread i s l)" and o: "trying l \<longrightarrow> \<not> readTry s"
    and lk: "\<forall>(t, h) \<in> set second_wlocks. h l \<longrightarrow> t s"
  show "(group_move readTry writeCountGuard writeCount wpos s l s' l' \<and> \<not> trying l \<and> \<not> trying l' \<or>
        plain_move readTry writeCountGuard writeCount wpos trying s l s' l') \<and>
      (\<forall>(t, h) \<in> set second_wlocks. of_bool (t s') - of_bool (h l') = (of_bool (t s) - of_bool (h l) :: int))"
  proof (cases l)
    case (WData k v p)
    with out o lk show ?thesis by (cases p) (auto simp: second_thread_def plain_move_def split: if_splits)
  next
    case (SEnter k v p)
    with out o lk show ?thesis by (auto simp: second_thread_def group_move_def split: option.splits)
  next
    case (ELeave k p)
    with out o lk show ?thesis by (auto simp: second_thread_def group_move_def split: option.splits)
  next
    case (REnter p)
    with out o lk show ?thesis by (cases p) (auto simp: second_thread_def plain_move_def split: if_splits)
  next
    case (RData x p)
    with out o lk show ?thesis
      by (cases p) (auto simp: second_thread_def plain_move_def split: if_splits list.splits)
  next
    case (RLeave x p)
    with out o lk show ?thesis by (cases p) (auto simp: second_thread_def plain_move_def split: if_splits)
  next
    case (RLeaveDone x)
    with out o lk show ?thesis by (cases x) (auto simp: second_thread_def plain_move_def)
  qed (use out o lk in \<open>auto simp: second_thread_def plain_move_def split: if_splits\<close>)
qed (auto simp: second_main_def list_all_iff)

section \<open>Termination\<close>

text \<open>The work left in a round of a writer, in a round of a reader, and per queued message.\<close>

fun second_work :: "second_pc \<Rightarrow> nat" where
  "second_work (WLoop k) = (kMaxMessagesCount - k) * 60 + 1"
| "second_work (SAcquire k v) = (kMaxMessagesCount - (k + 1)) * 60 + 60"
| "second_work (SEnter k v p) = (kMaxMessagesCount - (k + 1)) * 60 + 55 + gpc_work p"
| "second_work (SEnterDone k v) = (kMaxMessagesCount - (k + 1)) * 60 + 54"
| "second_work (SResource k v) = (kMaxMessagesCount - (k + 1)) * 60 + 53"
| "second_work (WData k v p) = (kMaxMessagesCount - (k + 1)) * 60 + (if p = DUnlock then 15 else 50 + dpc_work p)"
| "second_work (WRelease k) = (kMaxMessagesCount - (k + 1)) * 60 + 14"
| "second_work (EAcquire k) = (kMaxMessagesCount - (k + 1)) * 60 + 13"
| "second_work (ELeave k p) = (kMaxMessagesCount - (k + 1)) * 60 + 8 + gpc_work p"
| "second_work (ELeaveDone k) = (kMaxMessagesCount - (k + 1)) * 60 + 7"
| "second_work RTry = 23"
| "second_work RAcquire = 22"
| "second_work (REnter p) = 17 + gpc_work p"
| "second_work REnterDone = 16"
| "second_work RTryRelease = 15"
| "second_work (RData x p) = 12 + dpc_work p + (if x = None then 0 else 24)"
| "second_work (LAcquire x) = 11 + (if x = None then 0 else 24)"
| "second_work (RLeave x p) = 6 + gpc_work p + (if x = None then 0 else 24)"
| "second_work (RLeaveDone x) = 5 + (if x = None then 0 else 24)"
| "second_work End = 0"

definition second_left :: "second_state \<Rightarrow> second_pc list \<Rightarrow> nat" where
  "second_left s ls = workload second_work ls + 30 * length (msgs s)"

lemma second_work_step:
  assumes i: "i < length ls" and out: "(s', l) \<in> set (second_thread i s (ls ! i))"
  shows "second_left s' (ls[i := l]) < second_left s ls"
proof -
  note defs = second_thread_def
  have "second_work l + 30 * length (msgs s') < second_work (ls ! i) + 30 * length (msgs s)"
  proof (cases "ls ! i")
    case (WLoop k)
    then show ?thesis using out by (auto simp: defs split: if_splits)
  next
    case (SEnter k v p)
    then show ?thesis using out by (cases p) (auto simp: defs split: if_splits)
  next
    case (ELeave k p)
    then show ?thesis using out by (cases p) (auto simp: defs split: if_splits)
  next
    case (WData k v p)
    then show ?thesis using out by (cases p) (auto simp: defs split: if_splits)
  next
    case (REnter p)
    then show ?thesis using out by (cases p) (auto simp: defs split: if_splits)
  next
    case (RData x p)
    then show ?thesis using out by (cases p) (auto simp: defs split: if_splits list.splits)
  next
    case (RLeave x p)
    then show ?thesis using out by (cases p) (auto simp: defs split: if_splits)
  next
    case (RLeaveDone x)
    then show ?thesis using out by (cases x) (auto simp: defs)
  qed (use out in \<open>auto simp: defs split: if_splits\<close>)
  then show ?thesis unfolding second_left_def by (rule workload_less [OF i])
qed

interpretation second: thread_term second_thread "second_main w r" second.inv second_left
  by unfold_locales (auto intro: second.inv_init second.inv_step second_work_step)

lemma second_no_deadlock:
  assumes R: "second.inv s ls" and W: "second_w.inv s ls" and st: "stuck second_thread (s, ls)"
  shows "list_all (\<lambda>l. l = End) ls"
proof -
  note defs = second_thread_def
  have no: "second_thread i s (ls ! i) = []" if "i < length ls" for i using st that by (simp add: stuck_iff)
  have "\<not> in_data (ls ! i)" if "i < length ls" for i
    using no [OF that] by (cases "ls ! i"; cases "case ls ! i of WData k v p \<Rightarrow> p | RData x p \<Rightarrow> p | _ \<Rightarrow> DLock")
      (auto simp: defs split: list.splits)
  then have dg: "\<not> dataGuard s" using second.lock_free [OF R, of dataGuard in_data] by simp
  have w: "\<not> writing (ls ! i)" if "i < length ls" for i
  proof (cases "ls ! i")
    case (WData k v p)
    with no [OF that] dg show ?thesis by (cases p) (auto simp: defs)
  qed (use no [OF that] in \<open>auto simp: defs\<close>)
  have pos: "rpos (ls ! i) \<in> {Outside, Inside, Entering GLock, Leaving GLock}" if "i < length ls" for i
  proof (cases "ls ! i")
    case (REnter p)
    with no [OF that] second.sem_for_first [OF R w that] show ?thesis by (cases p) (auto simp: defs)
  next
    case (RLeave x p)
    with no [OF that] show ?thesis by (cases p) (auto simp: defs)
  qed auto
  have cg: "\<not> readCountGuard s" by (rule second.guard_free [OF R pos])
  have "\<not> has_rmutex (ls ! i)" if "i < length ls" for i
    using no [OF that] pos [OF that] cg by (cases "ls ! i") (auto simp: defs)
  then have rm: "rmutex s" using second.lock_free [OF R, of "\<lambda>s. \<not> rmutex s" has_rmutex] by simp
  have out: "rpos (ls ! i) = Outside \<and> \<not> trying (ls ! i)" if "i < length ls" for i
  proof (cases "ls ! i")
    case (RData x p)
    with no [OF that] dg show ?thesis by (cases p) (auto simp: defs split: list.splits)
  qed (use no [OF that] pos [OF that] cg rm in \<open>auto simp: defs\<close>)
  have res: "resource s" using second.sem_free [OF R] w out by blast
  have wp: "wpos (ls ! i) \<in> {Outside, Inside, Entering GLock, Leaving GLock}" if "i < length ls" for i
  proof (cases "ls ! i")
    case (SEnter k v p)
    with no [OF that] second_w.sem_for_first [OF W _ that] out show ?thesis by (cases p) (auto simp: defs)
  next
    case (ELeave k p)
    with no [OF that] show ?thesis by (cases p) (auto simp: defs)
  qed auto
  have wg: "\<not> writeCountGuard s" by (rule second_w.guard_free [OF W wp])
  have "\<not> has_wmutex (ls ! i)" if "i < length ls" for i
    using no [OF that] wp [OF that] wg by (cases "ls ! i") (auto simp: defs)
  then have wm: "wmutex s" using second_w.lock_free [OF W, of "\<lambda>s. \<not> wmutex s" has_wmutex] by simp
  have wout: "wpos (ls ! i) = Outside" if "i < length ls" for i
    using no [OF that] w [OF that] wp [OF that] wg wm res by (cases "ls ! i") (auto simp: defs)
  have rt: "readTry s" using second_w.sem_free [OF W] out wout by blast
  have "ls ! i = End" if "i < length ls" for i
    using no [OF that] out [OF that] wout [OF that] rm wm rt
    by (cases "ls ! i") (auto simp: defs split: if_splits)
  then show ?thesis by (simp add: list_all_length)
qed

section \<open>What the program promises\<close>

text \<open>
  Claim C11. Second readers-writers problem: while a writer holds \<open>resource\<close> no other writer
  and no reader is in its section, and while a writer is registered, that is between its
  entry block and its exit block, no reader is inside the entry section that it guards with
  \<open>readTry\<close>: the readers wait for the writers.
\<close>

theorem second_writer_exclusive:
  assumes "reach second_thread (second_main w r) (s, ls)"
    and "i < length ls" and "j < length ls" "i \<noteq> j"
  shows "(writing (ls ! i) \<longrightarrow> \<not> writing (ls ! j) \<and> \<not> reading (ls ! j)) \<and>
    (wpos (ls ! i) = Inside \<longrightarrow> \<not> trying (ls ! j))"
proof -
  note R = second.reach_solution [OF assms(1)] and W = second_w.reach_solution [OF assms(1)]
  have "writing (ls ! i) \<Longrightarrow> \<not> writing (ls ! j) \<and> \<not> reading (ls ! j)"
    using second.exclusive [OF R assms(2) _ assms(3,4)] by (cases "ls ! j") auto
  moreover have "trying (ls ! j) \<Longrightarrow> wpos (ls ! i) \<noteq> Inside"
    using second_w.exclusive [OF W assms(3) _ assms(2)] assms(4) by auto
  ultimately show ?thesis by blast
qed

theorem second_writer_exclusive_witness:
  "\<exists>s ls. reach second_thread (second_main 2 2) (s, ls) \<and> wpos (ls ! 1) = Inside \<and> writing (ls ! 1) \<and>
     \<not> writing (ls ! 0) \<and> \<not> trying (ls ! 2) \<and> \<not> reading (ls ! 2)"
proof -
  let ?s = "\<lparr>wmutex = True, rmutex = True, readTry = False, resource = False, readCountGuard = False,
    readCount = 0, writeCountGuard = False, writeCount = 1, dataGuard = False, msgs = [], messagesCount = 2\<rparr>"
  let ?ls = "[SAcquire 0 0, WData 0 1 DLock, RTry, RTry]"
  have "sched second_thread [(0, 0), (1, 0), (1, 0), (1, 0), (1, 0), (1, 0), (1, 0), (1, 0), (1, 0), (1, 0)]
      (second_main 2 2) = Some (?s, ?ls)"
    by (simp add: second_main_def second_thread_def kMaxMessagesCount_def numeral_eq_Suc)
  then have r: "reach second_thread (second_main 2 2) (?s, ?ls)" by (rule sched_reach)
  from second_writer_exclusive [OF r, of 1 0] second_writer_exclusive [OF r, of 1 2] r
  show ?thesis by (intro exI [of _ ?s] exI [of _ ?ls]) simp
qed

text \<open>
  Second readers-writers problem: there is no infinite run and no deadlock, so that
  every run can only end with all writers and readers returned.
\<close>

theorem second_program_ends:
  assumes "reach second_thread (second_main w r) c"
  shows "(\<exists>s ls. reach second_thread c (s, ls) \<and> list_all (\<lambda>l. l = End) ls) \<and>
    \<not> (\<exists>f. f 0 = c \<and> (\<forall>n. istep second_thread (f n) (f (Suc n))))"
proof -
  obtain s ls where r: "reach second_thread c (s, ls)" and st: "stuck second_thread (s, ls)"
    using second.reach_stuck [OF assms] by auto
  have rr: "reach second_thread (second_main w r) (s, ls)" by (rule reach_trans [OF r assms])
  from second_no_deadlock [OF second.reach_solution [OF rr] second_w.reach_solution [OF rr] st] r
  show ?thesis using second.no_infinite_run assms by blast
qed

theorem second_program_ends_witness:
  "\<exists>s ls. reach second_thread (second_main 2 2) (s, ls) \<and> list_all (\<lambda>l. l = End) ls"
  using second_program_ends [OF reach_init, of 2 2] by blast

end
