(* ===== verification/Readers_Second_C.thy ===== *)
theory Readers_Second_C
  imports Light_Switch
begin

text \<open>
  ProducerConsumer/second_readers_writers_c/main.c: the writers-preference solution with POSIX semaphores.
  Five readers print the shared variable once, two writers add 5 to it once; \<open>p_guard\<close>
  protects the printing. Every semaphore starts at 1 and is posted only by the thread that
  has taken it, so it is a flag (true when it can be taken; the guards of the two counts are
  flags that are true when taken).
\<close>

section \<open>The program\<close>

record c_state =
  readcount :: int
  writecount :: int
  sh_var :: int
  rcount_guard :: bool
  wcount_guard :: bool
  rsem :: bool
  wsem :: bool
  p_guard :: bool

datatype c_pc =
    RAnnounce
  | RAnnounced
  | RWait
  | REnter gpc
  | RPost
  | RPrint
  | RPrinted int
  | RLeave int gpc
  | REnd int
  | WAnnounce
  | WAnnounced
  | WEnter gpc
  | WWait
  | WLoad
  | WStore int
  | WPost
  | WLeave gpc
  | WEnd

text \<open>A reader ends with the value it has printed.\<close>

fun c_reader :: "c_state \<Rightarrow> c_pc \<Rightarrow> (c_state \<times> c_pc) list" where
  "c_reader s RAnnounce = (if p_guard s then [(s\<lparr>p_guard := False\<rparr>, RAnnounced)] else [])"
| "c_reader s RAnnounced = [(s\<lparr>p_guard := True\<rparr>, RWait)]"
| "c_reader s RWait = (if rsem s then [(s\<lparr>rsem := False\<rparr>, REnter GLock)] else [])"
| "c_reader s (REnter p) = map (\<lambda>((g, c, r), q).
       (s\<lparr>rcount_guard := g, readcount := c, wsem := r\<rparr>,
        (case q of Some p' \<Rightarrow> REnter p' | None \<Rightarrow> RPost)))
       (enter_step p (rcount_guard s, readcount s, wsem s))"
| "c_reader s RPost = [(s\<lparr>rsem := True\<rparr>, RPrint)]"
| "c_reader s RPrint = (if p_guard s then [(s\<lparr>p_guard := False\<rparr>, RPrinted (sh_var s))] else [])"
| "c_reader s (RPrinted v) = [(s\<lparr>p_guard := True\<rparr>, RLeave v GLock)]"
| "c_reader s (RLeave v p) = map (\<lambda>((g, c, r), q).
       (s\<lparr>rcount_guard := g, readcount := c, wsem := r\<rparr>,
        (case q of Some p' \<Rightarrow> RLeave v p' | None \<Rightarrow> REnd v)))
       (leave_step p (rcount_guard s, readcount s, wsem s))"
| "c_reader s _ = []"

fun c_writer :: "c_state \<Rightarrow> c_pc \<Rightarrow> (c_state \<times> c_pc) list" where
  "c_writer s WAnnounce = (if p_guard s then [(s\<lparr>p_guard := False\<rparr>, WAnnounced)] else [])"
| "c_writer s WAnnounced = [(s\<lparr>p_guard := True\<rparr>, WEnter GLock)]"
| "c_writer s (WEnter p) = map (\<lambda>((g, c, r), q).
       (s\<lparr>wcount_guard := g, writecount := c, rsem := r\<rparr>,
        (case q of Some p' \<Rightarrow> WEnter p' | None \<Rightarrow> WWait)))
       (enter_step p (wcount_guard s, writecount s, rsem s))"
| "c_writer s WWait = (if wsem s then [(s\<lparr>wsem := False\<rparr>, WLoad)] else [])"
| "c_writer s WLoad = [(s, WStore (sh_var s))]"
| "c_writer s (WStore v) = [(s\<lparr>sh_var := v + 5\<rparr>, WPost)]"
| "c_writer s WPost = [(s\<lparr>wsem := True\<rparr>, WLeave GLock)]"
| "c_writer s (WLeave p) = map (\<lambda>((g, c, r), q).
       (s\<lparr>wcount_guard := g, writecount := c, rsem := r\<rparr>,
        (case q of Some p' \<Rightarrow> WLeave p' | None \<Rightarrow> WEnd)))
       (leave_step p (wcount_guard s, writecount s, rsem s))"
| "c_writer s _ = []"

definition c_thread :: "(c_state, c_pc) thread" where
  "c_thread i s pc = c_reader s pc @ c_writer s pc"

definition c_main :: "(c_state, c_pc) conf" where
  "c_main = (\<lparr>readcount = 0, writecount = 0, sh_var = 5, rcount_guard = False, wcount_guard = False,
      rsem = True, wsem = True, p_guard = True\<rparr>,
     [RAnnounce, WAnnounce, RAnnounce, RAnnounce, RAnnounce, WAnnounce, RAnnounce])"

section \<open>The two groups\<close>

fun rpos :: "c_pc \<Rightarrow> position" where
  "rpos (REnter p) = Entering p"
| "rpos RPost = Inside"
| "rpos RPrint = Inside"
| "rpos (RPrinted v) = Inside"
| "rpos (RLeave v p) = Leaving p"
| "rpos _ = Outside"

fun wpos :: "c_pc \<Rightarrow> position" where
  "wpos (WEnter p) = Entering p"
| "wpos WWait = Inside"
| "wpos WLoad = Inside"
| "wpos (WStore v) = Inside"
| "wpos WPost = Inside"
| "wpos (WLeave p) = Leaving p"
| "wpos _ = Outside"

fun writing :: "c_pc \<Rightarrow> bool" where
  "writing WLoad = True"
| "writing (WStore v) = True"
| "writing WPost = True"
| "writing _ = False"

fun trying :: "c_pc \<Rightarrow> bool" where
  "trying (REnter p) = True"
| "trying RPost = True"
| "trying _ = False"

fun printing :: "c_pc \<Rightarrow> bool" where
  "printing RAnnounced = True"
| "printing (RPrinted v) = True"
| "printing WAnnounced = True"
| "printing _ = False"

fun wrote :: "c_pc \<Rightarrow> bool" where
  "wrote WPost = True"
| "wrote (WLeave p) = True"
| "wrote WEnd = True"
| "wrote _ = False"

abbreviation c_locks :: "((c_state \<Rightarrow> bool) \<times> (c_pc \<Rightarrow> bool)) list" where
  "c_locks \<equiv> [(\<lambda>s. \<not> p_guard s, printing)]"

interpretation second_c: rw_solution c_thread c_main wsem rcount_guard readcount rpos writing c_locks
proof
  fix s s' i l l'
  assume out: "(s', l') \<in> set (c_thread i s l)" and o: "writing l \<longrightarrow> \<not> wsem s"
    and lk: "\<forall>(t, h) \<in> set c_locks. h l \<longrightarrow> t s"
  show "(group_move wsem rcount_guard readcount rpos s l s' l' \<and> \<not> writing l \<and> \<not> writing l' \<or>
        plain_move wsem rcount_guard readcount rpos writing s l s' l') \<and>
      (\<forall>(t, h) \<in> set c_locks. of_bool (t s') - of_bool (h l') = (of_bool (t s) - of_bool (h l) :: int))"
  proof (cases l)
    case (REnter p)
    with out o lk show ?thesis by (auto simp: c_thread_def group_move_def split: option.splits)
  next
    case (RLeave v p)
    with out o lk show ?thesis by (auto simp: c_thread_def group_move_def split: option.splits)
  next
    case (WEnter p)
    with out o lk show ?thesis by (cases p) (auto simp: c_thread_def plain_move_def split: if_splits)
  next
    case (WLeave p)
    with out o lk show ?thesis by (cases p) (auto simp: c_thread_def plain_move_def split: if_splits)
  qed (use out o lk in \<open>auto simp: c_thread_def plain_move_def split: if_splits\<close>)
qed (auto simp: c_main_def)

interpretation second_cw: rw_solution c_thread c_main rsem wcount_guard writecount wpos trying "[]"
proof
  fix s s' i l l'
  assume out: "(s', l') \<in> set (c_thread i s l)" and o: "trying l \<longrightarrow> \<not> rsem s"
  show "(group_move rsem wcount_guard writecount wpos s l s' l' \<and> \<not> trying l \<and> \<not> trying l' \<or>
        plain_move rsem wcount_guard writecount wpos trying s l s' l') \<and>
      (\<forall>(t, h) \<in> set []. of_bool (t s') - of_bool (h l') = (of_bool (t s) - of_bool (h l) :: int))"
  proof (cases l)
    case (WEnter p)
    with out o show ?thesis by (auto simp: c_thread_def group_move_def split: option.splits)
  next
    case (WLeave p)
    with out o show ?thesis by (auto simp: c_thread_def group_move_def split: option.splits)
  next
    case (REnter p)
    with out o show ?thesis by (cases p) (auto simp: c_thread_def plain_move_def split: if_splits)
  next
    case (RLeave v p)
    with out o show ?thesis by (cases p) (auto simp: c_thread_def plain_move_def split: if_splits)
  qed (use out o in \<open>auto simp: c_thread_def plain_move_def split: if_splits\<close>)
qed (auto simp: c_main_def)

section \<open>The shared variable\<close>

text \<open>The value is 5 more for every writer that has stored, and a loaded value is current.\<close>

definition c_inv :: "c_state \<Rightarrow> c_pc list \<Rightarrow> bool" where
  "c_inv s ls \<longleftrightarrow> second_c.inv s ls \<and> sh_var s = 5 + 5 * cnt wrote ls \<and>
     (\<forall>j v. j < length ls \<longrightarrow> ls ! j = WStore v \<longrightarrow> v = sh_var s)"

lemma c_inv_step:
  assumes I: "c_inv s ls" and i: "i < length ls" and out: "(s', l) \<in> set (c_thread k s (ls ! i))"
  shows "c_inv s' (ls[i := l])"
proof -
  have R: "second_c.inv s ls" and v: "sh_var s = 5 + 5 * cnt wrote ls"
    and st: "\<And>j v. j < length ls \<Longrightarrow> ls ! j = WStore v \<Longrightarrow> v = sh_var s"
    using I unfolding c_inv_def by blast+
  have R': "second_c.inv s' (ls[i := l])" by (rule second_c.inv_step [OF R i out])
  show ?thesis
  proof (cases "\<exists>v. ls ! i = WStore v")
    case True
    then obtain v where li: "ls ! i = WStore v" by blast
    then have "v = sh_var s" and s': "s' = s\<lparr>sh_var := v + 5\<rparr>" and l: "l = WPost"
      using st [OF i] out by (auto simp: c_thread_def)
    have "ls ! j \<noteq> WStore w" if "j < length ls" "j \<noteq> i" for j w
      using second_c.exclusive [OF R i _ that(1)] that(2) li by fastforce
    then show ?thesis using R' v \<open>v = sh_var s\<close> i li unfolding c_inv_def s' l
      by (auto simp: nth_list_update cnt_upd)
  next
    case False
    then have "sh_var s' = sh_var s" and "wrote l = wrote (ls ! i)" and "\<And>v. l = WStore v \<Longrightarrow> v = sh_var s"
      using out by (cases "ls ! i"; force simp: c_thread_def split: if_splits option.splits)+
    then show ?thesis using R' v st i unfolding c_inv_def
      by (auto simp: nth_list_update cnt_upd)
  qed
qed

interpretation c_value: thread_inv c_thread c_main c_inv
proof
  have "second_c.inv (fst c_main) (snd c_main)" by (rule second_c.inv_init)
  then show "c_inv (fst c_main) (snd c_main)" by (auto simp: c_inv_def c_main_def nth_Cons split: nat.splits)
qed (rule c_inv_step)

fun c_ended :: "c_pc \<Rightarrow> bool" where
  "c_ended (REnd v) = True"
| "c_ended WEnd = True"
| "c_ended _ = False"

fun is_writer :: "c_pc \<Rightarrow> bool" where
  "is_writer WAnnounce = True"
| "is_writer WAnnounced = True"
| "is_writer (WEnter p) = True"
| "is_writer WWait = True"
| "is_writer WLoad = True"
| "is_writer (WStore v) = True"
| "is_writer WPost = True"
| "is_writer (WLeave p) = True"
| "is_writer WEnd = True"
| "is_writer _ = False"

interpretation c_roles: thread_inv c_thread c_main "\<lambda>s ls. length ls = 7 \<and> cnt is_writer ls = 2"
proof
  show "length (snd c_main) = 7 \<and> cnt is_writer (snd c_main) = 2" by (simp add: c_main_def)
next
  fix s ls i s' l
  assume I: "length ls = 7 \<and> cnt is_writer ls = 2" and i: "i < length ls"
    and out: "(s', l) \<in> set (c_thread i s (ls ! i))"
  have "is_writer l = is_writer (ls ! i)"
    using out by (cases "ls ! i"; force simp: c_thread_def split: if_splits option.splits)
  with I i show "length (ls[i := l]) = 7 \<and> cnt is_writer (ls[i := l]) = 2" by (simp add: cnt_upd)
qed

section \<open>Termination\<close>

fun c_work :: "c_pc \<Rightarrow> nat" where
  "c_work RAnnounce = 20"
| "c_work RAnnounced = 19"
| "c_work RWait = 18"
| "c_work (REnter p) = 13 + gpc_work p"
| "c_work RPost = 12"
| "c_work RPrint = 11"
| "c_work (RPrinted v) = 10"
| "c_work (RLeave v p) = 5 + gpc_work p"
| "c_work (REnd v) = 0"
| "c_work WAnnounce = 20"
| "c_work WAnnounced = 19"
| "c_work (WEnter p) = 14 + gpc_work p"
| "c_work WWait = 13"
| "c_work WLoad = 12"
| "c_work (WStore v) = 11"
| "c_work WPost = 10"
| "c_work (WLeave p) = 5 + gpc_work p"
| "c_work WEnd = 0"

lemma c_work_step:
  assumes i: "i < length ls" and out: "(s', l) \<in> set (c_thread k s (ls ! i))"
  shows "workload c_work (ls[i := l]) < workload c_work ls"
proof -
  have "c_work l < c_work (ls ! i)"
  proof (cases "ls ! i")
    case (REnter p)
    then show ?thesis using out by (cases p) (auto simp: c_thread_def split: if_splits)
  next
    case (RLeave v p)
    then show ?thesis using out by (cases p) (auto simp: c_thread_def split: if_splits)
  next
    case (WEnter p)
    then show ?thesis using out by (cases p) (auto simp: c_thread_def split: if_splits)
  next
    case (WLeave p)
    then show ?thesis using out by (cases p) (auto simp: c_thread_def split: if_splits)
  qed (use out in \<open>auto simp: c_thread_def split: if_splits\<close>)
  then show ?thesis using workload_less [OF i, of c_work l 0 0] by simp
qed

interpretation c_ends: thread_term c_thread c_main c_inv "\<lambda>s. workload c_work"
  by unfold_locales (rule c_work_step)

lemma c_no_deadlock:
  assumes R: "second_c.inv s ls" and W: "second_cw.inv s ls" and st: "stuck c_thread (s, ls)"
  shows "list_all c_ended ls"
proof -
  note defs = c_thread_def
  have no: "c_thread i s (ls ! i) = []" if "i < length ls" for i using st that by (simp add: stuck_iff)
  have "\<not> printing (ls ! i)" if "i < length ls" for i
    using no [OF that] by (cases "ls ! i") (auto simp: defs)
  then have pg: "p_guard s" using second_c.lock_free [OF R, of "\<lambda>s. \<not> p_guard s" printing] by simp
  have w: "\<not> writing (ls ! i)" if "i < length ls" for i
    using no [OF that] by (cases "ls ! i") (auto simp: defs)
  have pos: "rpos (ls ! i) \<in> {Outside, Inside, Entering GLock, Leaving GLock}" if "i < length ls" for i
  proof (cases "ls ! i")
    case (REnter p)
    with no [OF that] second_c.sem_for_first [OF R w that] show ?thesis by (cases p) (auto simp: defs)
  next
    case (RLeave x p)
    with no [OF that] show ?thesis by (cases p) (auto simp: defs)
  qed auto
  have rg: "\<not> rcount_guard s" by (rule second_c.guard_free [OF R pos])
  have out: "rpos (ls ! i) = Outside \<and> \<not> trying (ls ! i)" if "i < length ls" for i
    using no [OF that] pos [OF that] rg pg by (cases "ls ! i") (auto simp: defs)
  have ws: "wsem s" using second_c.sem_free [OF R] w out by blast
  have wp: "wpos (ls ! i) \<in> {Outside, Inside, Entering GLock, Leaving GLock}" if "i < length ls" for i
  proof (cases "ls ! i")
    case (WEnter p)
    with no [OF that] second_cw.sem_for_first [OF W _ that] out show ?thesis by (cases p) (auto simp: defs)
  next
    case (WLeave p)
    with no [OF that] show ?thesis by (cases p) (auto simp: defs)
  qed auto
  have wg: "\<not> wcount_guard s" by (rule second_cw.guard_free [OF W wp])
  have wout: "wpos (ls ! i) = Outside" if "i < length ls" for i
    using no [OF that] wp [OF that] wg ws by (cases "ls ! i") (auto simp: defs)
  have rs: "rsem s" using second_cw.sem_free [OF W] out wout by blast
  have "c_ended (ls ! i)" if "i < length ls" for i
    using no [OF that] out [OF that] wout [OF that] pg rs by (cases "ls ! i") (auto simp: defs)
  then show ?thesis by (simp add: list_all_length)
qed

section \<open>What the program promises\<close>

text \<open>
  The C solution loses no update and ends: every run can be completed, no run is
  infinite, and when all five readers and both writers have returned \<open>sh_var\<close> is
  5 + 2 * 5 = 15.
\<close>

theorem second_c_result:
  assumes "reach c_thread c_main c"
  shows "(\<exists>s ls. reach c_thread c (s, ls) \<and> list_all c_ended ls) \<and>
    (list_all c_ended (snd c) \<longrightarrow> sh_var (fst c) = 15) \<and>
    \<not> (\<exists>f. f 0 = c \<and> (\<forall>n. istep c_thread (f n) (f (Suc n))))"
proof -
  obtain s ls where r: "reach c_thread c (s, ls)" and st: "stuck c_thread (s, ls)"
    using c_ends.reach_stuck [OF assms] by auto
  have rr: "reach c_thread c_main (s, ls)" by (rule reach_trans [OF r assms])
  have e: "list_all c_ended ls"
    by (rule c_no_deadlock [OF second_c.reach_solution [OF rr] second_cw.reach_solution [OF rr] st])
  have "sh_var (fst c) = 15" if "list_all c_ended (snd c)"
  proof -
    have same: "wrote l = is_writer l" if "c_ended l" for l using that by (cases l) auto
    have "cnt wrote (snd c) = cnt is_writer (snd c)"
      using that by (induction "snd c") (auto simp: cnt_def same list_all_iff intro!: arg_cong [where f = length] filter_cong)
    with c_value.reach_inv_conf [OF assms] c_roles.reach_inv_conf [OF assms] show ?thesis
      by (simp add: c_inv_def)
  qed
  with r e show ?thesis using c_ends.no_infinite_run assms by blast
qed

theorem second_c_result_witness:
  "\<exists>s ls. reach c_thread c_main (s, ls) \<and> list_all c_ended ls \<and> sh_var s = 15"
proof -
  obtain s ls where r: "reach c_thread c_main (s, ls)" and e: "list_all c_ended ls"
    using second_c_result [OF reach_init] by blast
  from second_c_result [OF r] r e show ?thesis by auto
qed

end
