(* ===== verification/Readers_Third.thy ===== *)
theory Readers_Third
  imports Light_Switch
begin

text \<open>
  ProducerConsumer/third_readers_writers/main.cpp: no thread starves. Writers and readers line up at
  \<open>serviceQueue\<close> before they ask for \<open>resource\<close>; the readers are the counted group. That
  \<open>serviceQueue\<close> is handed over in the order of arrival is not promised by
  \<open>std::binary_semaphore\<close>, so only safety, deadlock freedom and termination are stated.
\<close>

section \<open>The program\<close>

record third_state =
  resource :: bool
  rmutex :: bool
  serviceQueue :: bool
  readCountGuard :: bool
  readCount :: int
  dataGuard :: bool
  msgs :: "int list"
  messagesCount :: "32 word"

datatype third_pc =
    WLoop nat
  | WQueue nat int
  | WAcquire nat int
  | WQueueRelease nat int
  | WData nat int dpc
  | WRelease nat
  | RQueue
  | RAcquire
  | REnter gpc
  | RQueueRelease
  | REnterDone
  | RData "int option" dpc
  | LAcquire "int option"
  | RLeave "int option" gpc
  | RLeaveDone "int option"
  | End

fun third_startWrite :: "third_state \<Rightarrow> third_pc \<Rightarrow> (third_state \<times> third_pc) list" where
  "third_startWrite s (WQueue k v) =
     (if serviceQueue s then [(s\<lparr>serviceQueue := False\<rparr>, WAcquire k v)] else [])"
| "third_startWrite s (WAcquire k v) =
     (if resource s then [(s\<lparr>resource := False\<rparr>, WQueueRelease k v)] else [])"
| "third_startWrite s (WQueueRelease k v) = [(s\<lparr>serviceQueue := True\<rparr>, WData k v DLock)]"
| "third_startWrite s _ = []"

definition third_endWrite :: "third_state \<Rightarrow> third_state" where
  "third_endWrite s = s\<lparr>resource := True\<rparr>"

fun third_writer :: "third_state \<Rightarrow> third_pc \<Rightarrow> (third_state \<times> third_pc) list" where
  "third_writer s (WLoop k) =
     (if k < kMaxMessagesCount
      then [(s\<lparr>messagesCount := messagesCount s + 1\<rparr>, WQueue k (sint (messagesCount s)))]
      else [(s, End)])"
| "third_writer s (WData k v p) = map (\<lambda>((g, d), r). (s\<lparr>dataGuard := g, msgs := d\<rparr>,
       (case r of Some p' \<Rightarrow> WData k v p' | None \<Rightarrow> WRelease k))) (push_section v p (dataGuard s, msgs s))"
| "third_writer s (WRelease k) = [(third_endWrite s, WLoop (k + 1))]"
| "third_writer s pc = third_startWrite s pc"

fun third_startRead :: "third_state \<Rightarrow> third_pc \<Rightarrow> (third_state \<times> third_pc) list" where
  "third_startRead s RQueue = (if serviceQueue s then [(s\<lparr>serviceQueue := False\<rparr>, RAcquire)] else [])"
| "third_startRead s RAcquire = (if rmutex s then [(s\<lparr>rmutex := False\<rparr>, REnter GLock)] else [])"
| "third_startRead s (REnter p) = map (\<lambda>((g, c, r), q).
       (s\<lparr>readCountGuard := g, readCount := c, resource := r\<rparr>,
        (case q of Some p' \<Rightarrow> REnter p' | None \<Rightarrow> RQueueRelease)))
       (enter_step p (readCountGuard s, readCount s, resource s))"
| "third_startRead s RQueueRelease = [(s\<lparr>serviceQueue := True\<rparr>, REnterDone)]"
| "third_startRead s REnterDone = [(s\<lparr>rmutex := True\<rparr>, RData None DLock)]"
| "third_startRead s _ = []"

fun third_endRead :: "third_state \<Rightarrow> third_pc \<Rightarrow> (third_state \<times> third_pc) list" where
  "third_endRead s (LAcquire x) = (if rmutex s then [(s\<lparr>rmutex := False\<rparr>, RLeave x GLock)] else [])"
| "third_endRead s (RLeave x p) = map (\<lambda>((g, c, r), q).
       (s\<lparr>readCountGuard := g, readCount := c, resource := r\<rparr>,
        (case q of Some p' \<Rightarrow> RLeave x p' | None \<Rightarrow> RLeaveDone x)))
       (leave_step p (readCountGuard s, readCount s, resource s))"
| "third_endRead s (RLeaveDone x) =
     [(s\<lparr>rmutex := True\<rparr>, (case x of Some _ \<Rightarrow> RQueue | None \<Rightarrow> End))]"
| "third_endRead s _ = []"

fun third_reader :: "third_state \<Rightarrow> third_pc \<Rightarrow> (third_state \<times> third_pc) list" where
  "third_reader s (RData x p) = map (\<lambda>((g, d), y, r). (s\<lparr>dataGuard := g, msgs := d\<rparr>,
       (case r of Some p' \<Rightarrow> RData y p' | None \<Rightarrow> LAcquire y))) (pop_section x p (dataGuard s, msgs s))"
| "third_reader s pc = third_startRead s pc @ third_endRead s pc"

definition third_thread :: "(third_state, third_pc) thread" where
  "third_thread i s pc = third_writer s pc @ third_reader s pc"

definition third_main :: "nat \<Rightarrow> nat \<Rightarrow> (third_state, third_pc) conf" where
  "third_main w r = (\<lparr>resource = True, rmutex = True, serviceQueue = True, readCountGuard = False,
      readCount = 0, dataGuard = False, msgs = [], messagesCount = 0\<rparr>,
     replicate w (WLoop 0) @ replicate r RQueue)"

section \<open>The invariant\<close>

fun rpos :: "third_pc \<Rightarrow> position" where
  "rpos (REnter p) = Entering p"
| "rpos RQueueRelease = Inside"
| "rpos REnterDone = Inside"
| "rpos (RData x p) = Inside"
| "rpos (LAcquire x) = Inside"
| "rpos (RLeave x p) = Leaving p"
| "rpos _ = Outside"

fun writing :: "third_pc \<Rightarrow> bool" where
  "writing (WQueueRelease k v) = True"
| "writing (WData k v p) = True"
| "writing (WRelease k) = True"
| "writing _ = False"

fun reading :: "third_pc \<Rightarrow> bool" where
  "reading (RData x p) = True"
| "reading _ = False"

fun has_rmutex :: "third_pc \<Rightarrow> bool" where
  "has_rmutex (REnter p) = True"
| "has_rmutex RQueueRelease = True"
| "has_rmutex REnterDone = True"
| "has_rmutex (RLeave x p) = True"
| "has_rmutex (RLeaveDone x) = True"
| "has_rmutex _ = False"

fun served :: "third_pc \<Rightarrow> bool" where
  "served (WAcquire k v) = True"
| "served (WQueueRelease k v) = True"
| "served RAcquire = True"
| "served (REnter p) = True"
| "served RQueueRelease = True"
| "served _ = False"

fun in_data :: "third_pc \<Rightarrow> bool" where
  "in_data (WData k v p) = (p \<noteq> DLock)"
| "in_data (RData x p) = (p \<noteq> DLock)"
| "in_data _ = False"

abbreviation third_locks :: "((third_state \<Rightarrow> bool) \<times> (third_pc \<Rightarrow> bool)) list" where
  "third_locks \<equiv> [(\<lambda>s. \<not> rmutex s, has_rmutex), (dataGuard, in_data), (\<lambda>s. \<not> serviceQueue s, served)]"

interpretation third: rw_solution third_thread "third_main w r" resource readCountGuard readCount rpos writing third_locks
proof
  fix s s' i l l'
  assume out: "(s', l') \<in> set (third_thread i s l)" and o: "writing l \<longrightarrow> \<not> resource s"
    and lk: "\<forall>(t, h) \<in> set third_locks. h l \<longrightarrow> t s"
  note defs = third_thread_def third_endWrite_def
  show "(group_move resource readCountGuard readCount rpos s l s' l' \<and> \<not> writing l \<and> \<not> writing l' \<or>
        plain_move resource readCountGuard readCount rpos writing s l s' l') \<and>
      (\<forall>(t, h) \<in> set third_locks. of_bool (t s') - of_bool (h l') = (of_bool (t s) - of_bool (h l) :: int))"
  proof (cases l)
    case (WData k v p)
    with out o lk show ?thesis by (cases p) (auto simp: defs plain_move_def split: if_splits)
  next
    case (REnter p)
    with out o lk show ?thesis by (auto simp: defs group_move_def split: option.splits)
  next
    case (RData x p)
    with out o lk show ?thesis by (cases p) (auto simp: defs plain_move_def split: if_splits list.splits)
  next
    case (RLeave x p)
    with out o lk show ?thesis by (auto simp: defs group_move_def split: option.splits)
  next
    case (RLeaveDone x)
    with out o lk show ?thesis by (cases x) (auto simp: defs plain_move_def)
  qed (use out o lk in \<open>auto simp: defs plain_move_def split: if_splits\<close>)
qed (auto simp: third_main_def list_all_iff)

section \<open>Termination\<close>

fun third_work :: "third_pc \<Rightarrow> nat" where
  "third_work (WLoop k) = (kMaxMessagesCount - k) * 60 + 1"
| "third_work (WQueue k v) = (kMaxMessagesCount - (k + 1)) * 60 + 60"
| "third_work (WAcquire k v) = (kMaxMessagesCount - (k + 1)) * 60 + 59"
| "third_work (WQueueRelease k v) = (kMaxMessagesCount - (k + 1)) * 60 + 58"
| "third_work (WData k v p) = (kMaxMessagesCount - (k + 1)) * 60 + (if p = DUnlock then 15 else 50 + dpc_work p)"
| "third_work (WRelease k) = (kMaxMessagesCount - (k + 1)) * 60 + 14"
| "third_work RQueue = 23"
| "third_work RAcquire = 22"
| "third_work (REnter p) = 17 + gpc_work p"
| "third_work RQueueRelease = 16"
| "third_work REnterDone = 15"
| "third_work (RData x p) = 12 + dpc_work p + (if x = None then 0 else 24)"
| "third_work (LAcquire x) = 11 + (if x = None then 0 else 24)"
| "third_work (RLeave x p) = 6 + gpc_work p + (if x = None then 0 else 24)"
| "third_work (RLeaveDone x) = 5 + (if x = None then 0 else 24)"
| "third_work End = 0"

definition third_left :: "third_state \<Rightarrow> third_pc list \<Rightarrow> nat" where
  "third_left s ls = workload third_work ls + 30 * length (msgs s)"

lemma third_work_step:
  assumes i: "i < length ls" and out: "(s', l) \<in> set (third_thread i s (ls ! i))"
  shows "third_left s' (ls[i := l]) < third_left s ls"
proof -
  note defs = third_thread_def third_endWrite_def
  have "third_work l + 30 * length (msgs s') < third_work (ls ! i) + 30 * length (msgs s)"
  proof (cases "ls ! i")
    case (WData k v p)
    then show ?thesis using out by (cases p) (auto simp: defs split: if_splits)
  next
    case (REnter p)
    then show ?thesis using out by (cases p) (auto simp: defs split: if_splits)
  next
    case (RData x p)
    then show ?thesis using out by (cases p) (auto simp: defs split: if_splits list.splits)
  next
    case (RLeave x p)
    then show ?thesis using out by (cases p) (auto simp: defs split: if_splits)
  next
    case (RLeaveDone x)
    then show ?thesis using out by (cases x) (auto simp: defs)
  qed (use out in \<open>auto simp: defs split: if_splits\<close>)
  then show ?thesis unfolding third_left_def by (rule workload_less [OF i])
qed

interpretation third: thread_term third_thread "third_main w r" third.inv third_left
  by unfold_locales (auto intro: third.inv_init third.inv_step third_work_step)

lemma third_no_deadlock:
  assumes R: "third.inv s ls" and st: "stuck third_thread (s, ls)"
  shows "list_all (\<lambda>l. l = End) ls"
proof -
  note defs = third_thread_def third_endWrite_def
  have no: "third_thread i s (ls ! i) = []" if "i < length ls" for i using st that by (simp add: stuck_iff)
  have "\<not> in_data (ls ! i)" if "i < length ls" for i
    using no [OF that] by (cases "ls ! i"; cases "case ls ! i of WData k v p \<Rightarrow> p | RData x p \<Rightarrow> p | _ \<Rightarrow> DLock")
      (auto simp: defs split: list.splits)
  then have dg: "\<not> dataGuard s" using third.lock_free [OF R, of dataGuard in_data] by simp
  have w: "\<not> writing (ls ! i)" if "i < length ls" for i
  proof (cases "ls ! i")
    case (WData k v p)
    with no [OF that] dg show ?thesis by (cases p) (auto simp: defs)
  qed (use no [OF that] in \<open>auto simp: defs\<close>)
  have pos: "rpos (ls ! i) \<in> {Outside, Inside, Entering GLock, Leaving GLock}" if "i < length ls" for i
  proof (cases "ls ! i")
    case (REnter p)
    with no [OF that] third.sem_for_first [OF R w that] show ?thesis by (cases p) (auto simp: defs)
  next
    case (RLeave x p)
    with no [OF that] show ?thesis by (cases p) (auto simp: defs)
  qed auto
  have cg: "\<not> readCountGuard s" by (rule third.guard_free [OF R pos])
  have "\<not> has_rmutex (ls ! i)" if "i < length ls" for i
    using no [OF that] pos [OF that] cg by (cases "ls ! i") (auto simp: defs)
  then have rm: "rmutex s" using third.lock_free [OF R, of "\<lambda>s. \<not> rmutex s" has_rmutex] by simp
  have out: "rpos (ls ! i) = Outside" if "i < length ls" for i
  proof (cases "ls ! i")
    case (RData x p)
    with no [OF that] dg show ?thesis by (cases p) (auto simp: defs split: list.splits)
  qed (use no [OF that] pos [OF that] cg rm in \<open>auto simp: defs\<close>)
  have res: "resource s" using third.sem_free [OF R] w out by blast
  have "\<not> served (ls ! i)" if "i < length ls" for i
    using no [OF that] out [OF that] w [OF that] res rm by (cases "ls ! i") (auto simp: defs)
  then have sq: "serviceQueue s" using third.lock_free [OF R, of "\<lambda>s. \<not> serviceQueue s" served] by simp
  have "ls ! i = End" if "i < length ls" for i
    using no [OF that] out [OF that] w [OF that] rm res sq
    by (cases "ls ! i") (auto simp: defs split: if_splits)
  then show ?thesis by (simp add: list_all_length)
qed

section \<open>What the program promises\<close>

text \<open>
  Claim C12. Third readers-writers problem: a writer that holds \<open>resource\<close> is alone, and at most
  one thread is being served between \<open>serviceQueue.acquire()\<close> and \<open>serviceQueue.release()\<close>.
\<close>

theorem third_writer_exclusive:
  assumes "reach third_thread (third_main w r) (s, ls)"
    and "i < length ls" and "j < length ls" "i \<noteq> j"
  shows "(writing (ls ! i) \<longrightarrow> \<not> writing (ls ! j) \<and> \<not> reading (ls ! j)) \<and>
    \<not> (served (ls ! i) \<and> served (ls ! j))"
proof -
  note R = third.reach_solution [OF assms(1)]
  have "writing (ls ! i) \<Longrightarrow> \<not> writing (ls ! j) \<and> \<not> reading (ls ! j)"
    using third.exclusive [OF R assms(2) _ assms(3,4)] by (cases "ls ! j") auto
  moreover have "cnt served ls \<le> 1" using R by (simp add: rw_inv_def)
  then have "\<not> (served (ls ! i) \<and> served (ls ! j))"
    using cnt_two [of i ls j served] assms(2-4) by auto
  ultimately show ?thesis by blast
qed

theorem third_writer_exclusive_witness:
  "\<exists>s ls. reach third_thread (third_main 2 2) (s, ls) \<and> writing (ls ! 1) \<and> served (ls ! 1) \<and>
     \<not> served (ls ! 0) \<and> \<not> served (ls ! 2) \<and> \<not> reading (ls ! 2)"
proof -
  let ?s = "\<lparr>resource = False, rmutex = True, serviceQueue = False, readCountGuard = False,
    readCount = 0, dataGuard = False, msgs = [], messagesCount = 2\<rparr>"
  let ?ls = "[WQueue 0 0, WQueueRelease 0 1, RQueue, RQueue]"
  have "sched third_thread [(0, 0), (1, 0), (1, 0), (1, 0)] (third_main 2 2) = Some (?s, ?ls)"
    by (simp add: third_main_def third_thread_def kMaxMessagesCount_def numeral_eq_Suc)
  then have r: "reach third_thread (third_main 2 2) (?s, ?ls)" by (rule sched_reach)
  from third_writer_exclusive [OF r, of 1 0] third_writer_exclusive [OF r, of 1 2] r
  show ?thesis by (intro exI [of _ ?s] exI [of _ ?ls]) simp
qed

text \<open>
  Third readers-writers problem: no infinite run and no deadlock, so that every run can
  only end with all writers and readers returned.
\<close>

theorem third_program_ends:
  assumes "reach third_thread (third_main w r) c"
  shows "(\<exists>s ls. reach third_thread c (s, ls) \<and> list_all (\<lambda>l. l = End) ls) \<and>
    \<not> (\<exists>f. f 0 = c \<and> (\<forall>n. istep third_thread (f n) (f (Suc n))))"
proof -
  obtain s ls where r: "reach third_thread c (s, ls)" and st: "stuck third_thread (s, ls)"
    using third.reach_stuck [OF assms] by auto
  have "third.inv s ls" using third.reach_solution reach_trans [OF r assms] by blast
  from third_no_deadlock [OF this st] r show ?thesis using third.no_infinite_run assms by blast
qed

theorem third_program_ends_witness:
  "\<exists>s ls. reach third_thread (third_main 2 2) (s, ls) \<and> list_all (\<lambda>l. l = End) ls"
  using third_program_ends [OF reach_init, of 2 2] by blast

end
