(* ===== verification/Single_Buffers.thy ===== *)
theory Single_Buffers
  imports Conc_Prelude
begin

text \<open>
  The bounded buffers for one producer and one consumer: ProducerConsumer/producer_consumer_single/main.cpp,
  where both sides wait busily on an atomic count, and ProducerConsumer/producer_consumer_single_c/main.c, with three
  POSIX semaphores. Counts and indices stay below 32 in both, so they are natural numbers
  and integers.
\<close>

section \<open>The window of written and not yet read cells\<close>

text \<open>Cells \<open>r\<close> to \<open>w - 1\<close>, counted from the start of the program, hold the values of \<open>f\<close>.\<close>

definition window :: "'a list \<Rightarrow> nat \<Rightarrow> (nat \<Rightarrow> 'a) \<Rightarrow> nat \<Rightarrow> nat \<Rightarrow> bool" where
  "window buf n f r w \<longleftrightarrow> length buf = n \<and> 0 < n \<and> r \<le> w \<and> w \<le> r + n \<and>
     (\<forall>k. r \<le> k \<and> k < w \<longrightarrow> buf ! (k mod n) = f k)"

lemma window_write:
  assumes "window buf n f r w" "w < r + n"
  shows "window (buf[w mod n := f w]) n f r (Suc w)"
proof -
  have "w mod n \<noteq> k mod n" if "r \<le> k" "k < w" for k
  proof
    assume "w mod n = k mod n"
    then have "n dvd w - k" using that mod_eq_dvd_iff_nat [of k w n] by simp
    with that assms show False by (auto dest: dvd_imp_le simp: window_def)
  qed
  then show ?thesis using assms by (auto simp: window_def less_Suc_eq nth_list_update)
qed

lemma window_read: "window buf n f r w \<Longrightarrow> r < w \<Longrightarrow> buf ! (r mod n) = f r \<and> window buf n f (Suc r) w"
  by (auto simp: window_def)

lemma window_init: "0 < n \<Longrightarrow> length buf = n \<Longrightarrow> window buf n f 0 0"
  by (simp add: window_def)

section \<open>Busy waiting on a count\<close>

definition kMaxMessages :: nat where
  "kMaxMessages = 10"

definition N :: nat where
  "N = 4"

record single_state =
  messagesCount :: nat
  bufferMutex :: bool
  buffer :: "nat list"
  count :: int

definition produceMessage :: "single_state \<Rightarrow> nat \<times> single_state" where
  "produceMessage s = (messagesCount s, s\<lparr>messagesCount := messagesCount s + 1\<rparr>)"

text \<open>
  The places of the producer, with the loop counter, \<open>tail\<close> and the message, and of the
  consumer, with the loop counter, \<open>head\<close>, the message and the messages consumed so far.
\<close>

datatype single_pc =
    PLoop nat nat
  | PWait nat nat nat
  | PLock nat nat nat
  | PStore nat nat nat
  | PUnlock nat nat
  | PCount nat nat
  | PEnd
  | CLoop nat nat "nat list"
  | CWait nat nat "nat list"
  | CLock nat nat "nat list"
  | CLoad nat nat "nat list"
  | CUnlock nat nat nat "nat list"
  | CCount nat nat nat "nat list"
  | CEnd "nat list"

fun single_producer :: "single_state \<Rightarrow> single_pc \<Rightarrow> (single_state \<times> single_pc) list" where
  "single_producer s (PLoop i tail) =
     (if i < kMaxMessages
      then let (m, s') = produceMessage s in [(s', PWait i tail m)]
      else [(s, PEnd)])"
| "single_producer s (PWait i tail m) =
     [(s, if int N = count s then PWait i tail m else PLock i tail m)]"
| "single_producer s (PLock i tail m) =
     (if bufferMutex s then [] else [(s\<lparr>bufferMutex := True\<rparr>, PStore i tail m)])"
| "single_producer s (PStore i tail m) = [(s\<lparr>buffer := (buffer s)[tail := m]\<rparr>, PUnlock i (tail + 1))]"
| "single_producer s (PUnlock i tail) = [(s\<lparr>bufferMutex := False\<rparr>, PCount i tail)]"
| "single_producer s (PCount i tail) = [(s\<lparr>count := count s + 1\<rparr>, PLoop (i + 1) (tail mod N))]"
| "single_producer s _ = []"

fun single_consumer :: "single_state \<Rightarrow> single_pc \<Rightarrow> (single_state \<times> single_pc) list" where
  "single_consumer s (CLoop i head log) =
     [(s, if i < kMaxMessages then CWait i head log else CEnd log)]"
| "single_consumer s (CWait i head log) =
     [(s, if 0 = count s then CWait i head log else CLock i head log)]"
| "single_consumer s (CLock i head log) =
     (if bufferMutex s then [] else [(s\<lparr>bufferMutex := True\<rparr>, CLoad i head log)])"
| "single_consumer s (CLoad i head log) = [(s, CUnlock i (head + 1) (buffer s ! head) log)]"
| "single_consumer s (CUnlock i head m log) = [(s\<lparr>bufferMutex := False\<rparr>, CCount i head m log)]"
| "single_consumer s (CCount i head m log) =
     [(s\<lparr>count := count s - 1\<rparr>, CLoop (i + 1) (head mod N) (log @ [m]))]"
| "single_consumer s _ = []"

definition single_thread :: "(single_state, single_pc) thread" where
  "single_thread t s pc = single_producer s pc @ single_consumer s pc"

definition single_main :: "(single_state, single_pc) conf" where
  "single_main = (\<lparr>messagesCount = 0, bufferMutex = False, buffer = replicate N 0, count = 0\<rparr>,
     [PLoop 0 0, CLoop 0 0 []])"

text \<open>
  What each side knows, given the number \<open>r\<close> of cells the consumer has given back: the
  producer's next cell is free once it has seen the count, and its message is the counter.
\<close>

fun sp_ok :: "single_state \<Rightarrow> nat \<Rightarrow> single_pc \<Rightarrow> bool" where
  "sp_ok s r (PLoop i tail) = (i \<le> kMaxMessages \<and> tail = i mod N \<and> messagesCount s = i)"
| "sp_ok s r (PWait i tail m) = (i < kMaxMessages \<and> tail = i mod N \<and> messagesCount s = i + 1 \<and> m = i)"
| "sp_ok s r (PLock i tail m) = (i < kMaxMessages \<and> tail = i mod N \<and> messagesCount s = i + 1 \<and> m = i \<and> i < r + N)"
| "sp_ok s r (PStore i tail m) = (i < kMaxMessages \<and> tail = i mod N \<and> messagesCount s = i + 1 \<and> m = i \<and> i < r + N)"
| "sp_ok s r (PUnlock i tail) = (i < kMaxMessages \<and> tail = i mod N + 1 \<and> messagesCount s = i + 1)"
| "sp_ok s r (PCount i tail) = (i < kMaxMessages \<and> tail = i mod N + 1 \<and> messagesCount s = i + 1)"
| "sp_ok s r PEnd = True"
| "sp_ok s r _ = False"

fun sc_ok :: "nat \<Rightarrow> single_pc \<Rightarrow> bool" where
  "sc_ok p (CLoop i head log) = (i \<le> kMaxMessages \<and> head = i mod N \<and> log = [0..<i])"
| "sc_ok p (CWait i head log) = (i < kMaxMessages \<and> head = i mod N \<and> log = [0..<i])"
| "sc_ok p (CLock i head log) = (i < kMaxMessages \<and> head = i mod N \<and> log = [0..<i] \<and> i < p)"
| "sc_ok p (CLoad i head log) = (i < kMaxMessages \<and> head = i mod N \<and> log = [0..<i] \<and> i < p)"
| "sc_ok p (CUnlock i head m log) = (i < kMaxMessages \<and> head = i mod N + 1 \<and> log = [0..<i] \<and> m = i \<and> i < p)"
| "sc_ok p (CCount i head m log) = (i < kMaxMessages \<and> head = i mod N + 1 \<and> log = [0..<i] \<and> m = i \<and> i < p)"
| "sc_ok p (CEnd log) = (log = [0..<kMaxMessages])"
| "sc_ok p _ = False"

text \<open>Cells written and published by the producer, read and given back by the consumer.\<close>

fun written :: "single_pc \<Rightarrow> nat" where
  "written (PLoop i tail) = i"
| "written (PWait i tail m) = i"
| "written (PLock i tail m) = i"
| "written (PStore i tail m) = i"
| "written (PUnlock i tail) = i + 1"
| "written (PCount i tail) = i + 1"
| "written _ = kMaxMessages"

fun published :: "single_pc \<Rightarrow> nat" where
  "published (PUnlock i tail) = i"
| "published (PCount i tail) = i"
| "published pc = written pc"

fun read :: "single_pc \<Rightarrow> nat" where
  "read (CLoop i head log) = i"
| "read (CWait i head log) = i"
| "read (CLock i head log) = i"
| "read (CLoad i head log) = i"
| "read (CUnlock i head m log) = i + 1"
| "read (CCount i head m log) = i + 1"
| "read _ = kMaxMessages"

fun given_back :: "single_pc \<Rightarrow> nat" where
  "given_back (CUnlock i head m log) = i"
| "given_back (CCount i head m log) = i"
| "given_back pc = read pc"

definition single_inv :: "single_state \<Rightarrow> single_pc list \<Rightarrow> bool" where
  "single_inv s ls \<longleftrightarrow> (\<exists>P C. ls = [P, C] \<and> sp_ok s (given_back C) P \<and> sc_ok (published P) C \<and>
     count s = int (published P) - int (given_back C) \<and>
     given_back C \<le> published P \<and> published P \<le> given_back C + N \<and>
     written P \<le> given_back C + N \<and>
     window (buffer s) N (\<lambda>k. k) (read C) (written P))"

lemma single_inv_init: "single_inv (fst single_main) (snd single_main)"
  by (auto simp: single_inv_def single_main_def N_def window_def kMaxMessages_def)

lemma single_inv_producer:
  assumes "sp_ok s (given_back C) P" "sc_ok (published P) C"
    "count s = int (published P) - int (given_back C)" "given_back C \<le> published P"
    "published P \<le> given_back C + N" "written P \<le> given_back C + N"
    "window (buffer s) N (\<lambda>k. k) (read C) (written P)"
    and out: "(s', P') \<in> set (single_thread t s P)"
  shows "single_inv s' [P', C]"
proof (cases P)
  case (PLoop i tail)
  with assms show ?thesis
    by (auto simp: single_thread_def single_inv_def produceMessage_def split: if_splits)
next
  case (PWait i tail m)
  with assms show ?thesis by (auto simp: single_thread_def single_inv_def split: if_splits)
next
  case (PLock i tail m)
  with assms show ?thesis by (auto simp: single_thread_def single_inv_def split: if_splits)
next
  case (PStore i tail m)
  have "given_back C \<le> read C" by (cases C) auto
  with PStore assms window_write [of "buffer s" N "\<lambda>k. k" "read C" i] show ?thesis
    by (auto simp: single_thread_def single_inv_def)
next
  case (PUnlock i tail)
  with assms show ?thesis by (auto simp: single_thread_def single_inv_def)
next
  case (PCount i tail)
  have "sc_ok (i + 1) C" using assms(2) PCount by (cases C) auto
  moreover have "(i mod N + 1) mod N = (i + 1) mod N" by (simp add: mod_Suc_eq)
  ultimately show ?thesis using PCount assms
    by (auto simp: single_thread_def single_inv_def)
qed (use assms in \<open>auto simp: single_thread_def\<close>)

lemma single_inv_consumer:
  assumes "sp_ok s (given_back C) P" "sc_ok (published P) C"
    "count s = int (published P) - int (given_back C)" "given_back C \<le> published P"
    "published P \<le> given_back C + N" "written P \<le> given_back C + N"
    "window (buffer s) N (\<lambda>k. k) (read C) (written P)"
    and out: "(s', C') \<in> set (single_thread t s C)"
  shows "single_inv s' [P, C']"
proof (cases C)
  case (CLoad i head log)
  have "published P \<le> written P" by (cases P) auto
  with CLoad assms window_read [of "buffer s" N "\<lambda>k. k" i "written P"] show ?thesis
    by (auto simp: single_thread_def single_inv_def)
next
  case (CCount i head m log)
  have "sp_ok (s\<lparr>count := count s - 1\<rparr>) (i + 1) P" using assms(1) CCount by (cases P) auto
  moreover have "(i mod N + 1) mod N = (i + 1) mod N" by (simp add: mod_Suc_eq)
  moreover have "i < published P" using CCount assms(2) by simp
  ultimately show ?thesis using CCount assms
    by (auto simp: single_thread_def single_inv_def)
next
  case (CLock i head log)
  have "sp_ok (s\<lparr>bufferMutex := True\<rparr>) i P" using assms(1) CLock by (cases P) auto
  then show ?thesis using CLock assms by (auto simp: single_thread_def single_inv_def split: if_splits)
next
  case (CUnlock i head m log)
  have "sp_ok (s\<lparr>bufferMutex := False\<rparr>) i P" using assms(1) CUnlock by (cases P) auto
  then show ?thesis using CUnlock assms by (auto simp: single_thread_def single_inv_def)
qed (use assms in \<open>auto simp: single_thread_def single_inv_def split: if_splits\<close>)

lemma single_inv_step:
  assumes inv: "single_inv s ls" and i: "i < length ls" and out: "(s', l) \<in> set (single_thread t s (ls ! i))"
  shows "single_inv s' (ls[i := l])"
proof -
  from inv obtain P C where ls: "ls = [P, C]" and I: "sp_ok s (given_back C) P" "sc_ok (published P) C"
    "count s = int (published P) - int (given_back C)" "given_back C \<le> published P"
    "published P \<le> given_back C + N" "written P \<le> given_back C + N"
    "window (buffer s) N (\<lambda>k. k) (read C) (written P)" by (auto simp: single_inv_def)
  from i ls consider "i = 0" | "i = 1" by fastforce
  then show ?thesis
    using single_inv_producer [OF I] single_inv_consumer [OF I] out ls by cases auto
qed

interpretation single: thread_inv single_thread single_main single_inv
  by unfold_locales (auto intro: single_inv_init single_inv_step)

text \<open>
  The busy-waiting buffer delivers the ten messages in order: in every reachable
  configuration in which the consumer has ended it has consumed exactly 0, ..., 9, and the
  buffer count never leaves the range from 0 to \<open>N\<close>.
\<close>

theorem single_consumer_result:
  assumes "reach single_thread single_main (s, [P, C])"
  shows "0 \<le> count s \<and> count s \<le> int N \<and> (C = CEnd log \<longrightarrow> log = [0..<10])"
proof -
  have "single_inv s [P, C]" by (rule single.reach_inv [OF assms])
  then show ?thesis by (auto simp: single_inv_def kMaxMessages_def)
qed

text \<open>A run in which the two sides take turns.\<close>

lemma single_turn:
  assumes "k < kMaxMessages" "\<not> bufferMutex s" "count s = 0" "messagesCount s = k" "length (buffer s) = N"
  shows "\<exists>s'. reach single_thread (s, [PLoop k (k mod N), CLoop k (k mod N) log])
      (s', [PLoop (k + 1) ((k + 1) mod N), CLoop (k + 1) ((k + 1) mod N) (log @ [k])]) \<and>
    \<not> bufferMutex s' \<and> count s' = 0 \<and> messagesCount s' = k + 1 \<and> length (buffer s') = N"
proof -
  let ?s = "s\<lparr>messagesCount := k + 1, buffer := (buffer s)[k mod N := k], bufferMutex := False, count := 0\<rparr>"
  have m: "Suc (k mod N) mod N = Suc k mod N" by (simp add: mod_Suc_eq)
  have n: "0 < N" by (simp add: N_def)
  have "sched single_thread
      [(0, 0), (0, 0), (0, 0), (0, 0), (0, 0), (0, 0), (1, 0), (1, 0), (1, 0), (1, 0), (1, 0), (1, 0)]
      (s, [PLoop k (k mod N), CLoop k (k mod N) log]) =
    Some (?s, [PLoop (k + 1) ((k + 1) mod N), CLoop (k + 1) ((k + 1) mod N) (log @ [k])])"
    using assms m n by (simp add: single_thread_def produceMessage_def)
  from sched_reach [OF this] assms show ?thesis by (intro exI [of _ ?s]) simp
qed

lemma single_turns:
  "k \<le> kMaxMessages \<Longrightarrow> \<exists>s. reach single_thread single_main
     (s, [PLoop k (k mod N), CLoop k (k mod N) [0..<k]]) \<and>
    \<not> bufferMutex s \<and> count s = 0 \<and> messagesCount s = k \<and> length (buffer s) = N"
proof (induction k)
  case 0
  show ?case by (intro exI [of _ "fst single_main"]) (simp add: single_main_def reach_init)
next
  case (Suc k)
  then obtain s where r: "reach single_thread single_main (s, [PLoop k (k mod N), CLoop k (k mod N) [0..<k]])"
    and s: "\<not> bufferMutex s" "count s = 0" "messagesCount s = k" "length (buffer s) = N" by auto
  from single_turn [OF _ s, of "[0..<k]"] Suc.prems reach_trans [OF _ r] show ?case by fastforce
qed

theorem single_consumer_result_witness:
  "\<exists>s. reach single_thread single_main (s, [PEnd, CEnd [0..<10]]) \<and> count s \<le> int N"
proof -
  obtain s where r: "reach single_thread single_main (s, [PLoop 10 (10 mod N), CLoop 10 (10 mod N) [0..<10]])"
    using single_turns [of 10] unfolding kMaxMessages_def by blast
  have "sched single_thread [(0, 0), (1, 0)] (s, [PLoop 10 (10 mod N), CLoop 10 (10 mod N) [0..<10]]) =
      Some (s, [PEnd, CEnd [0..<10]])"
    by (simp add: single_thread_def kMaxMessages_def)
  from reach_trans [OF sched_reach [OF this] r]
  have "reach single_thread single_main (s, [PEnd, CEnd [0..<10]])" .
  with single_consumer_result [OF this] show ?thesis by blast
qed

section \<open>Three semaphores\<close>

definition BUFFER_SIZE :: nat where
  "BUFFER_SIZE = 5"

definition MAX_ITEMS :: nat where
  "MAX_ITEMS = 20"

record sem_state =
  sbuffer :: "nat list"
  in_pos :: nat
  out_pos :: nat
  produced_count :: nat
  consumed_count :: nat
  mutex :: bool
  full :: nat
  empty :: nat

datatype sem_pc =
    PTest nat
  | PEmpty nat
  | PMutex nat
  | PBody nat
  | PPost nat
  | PFull nat
  | PExit
  | CTest "nat list"
  | CFull "nat list"
  | CMutex "nat list"
  | CBody "nat list"
  | CPost "nat list"
  | CEmpty "nat list"
  | CExit "nat list"

text \<open>
  \<open>mutex\<close> is a semaphore that starts at 1, a flag that is true when it can be taken. The
  consumer carries the items it has printed.
\<close>

fun sem_producer :: "sem_state \<Rightarrow> sem_pc \<Rightarrow> (sem_state \<times> sem_pc) list" where
  "sem_producer s (PTest item) = [(s, if produced_count s < MAX_ITEMS then PEmpty item else PExit)]"
| "sem_producer s (PEmpty item) = (if 0 < empty s then [(s\<lparr>empty := empty s - 1\<rparr>, PMutex item)] else [])"
| "sem_producer s (PMutex item) = (if mutex s then [(s\<lparr>mutex := False\<rparr>, PBody item)] else [])"
| "sem_producer s (PBody item) =
     [(s\<lparr>sbuffer := (sbuffer s)[in_pos s := item], in_pos := (in_pos s + 1) mod BUFFER_SIZE,
         produced_count := produced_count s + 1\<rparr>, PPost (item + 1))]"
| "sem_producer s (PPost item) = [(s\<lparr>mutex := True\<rparr>, PFull item)]"
| "sem_producer s (PFull item) = [(s\<lparr>full := full s + 1\<rparr>, PTest item)]"
| "sem_producer s _ = []"

fun sem_consumer :: "sem_state \<Rightarrow> sem_pc \<Rightarrow> (sem_state \<times> sem_pc) list" where
  "sem_consumer s (CTest log) = [(s, if consumed_count s < MAX_ITEMS then CFull log else CExit log)]"
| "sem_consumer s (CFull log) = (if 0 < full s then [(s\<lparr>full := full s - 1\<rparr>, CMutex log)] else [])"
| "sem_consumer s (CMutex log) = (if mutex s then [(s\<lparr>mutex := False\<rparr>, CBody log)] else [])"
| "sem_consumer s (CBody log) =
     [(s\<lparr>out_pos := (out_pos s + 1) mod BUFFER_SIZE, consumed_count := consumed_count s + 1\<rparr>,
       CPost (log @ [sbuffer s ! out_pos s]))]"
| "sem_consumer s (CPost log) = [(s\<lparr>mutex := True\<rparr>, CEmpty log)]"
| "sem_consumer s (CEmpty log) = [(s\<lparr>empty := empty s + 1\<rparr>, CTest log)]"
| "sem_consumer s _ = []"

definition sem_thread :: "(sem_state, sem_pc) thread" where
  "sem_thread t s pc = sem_producer s pc @ sem_consumer s pc"

definition sem_main :: "(sem_state, sem_pc) conf" where
  "sem_main = (\<lparr>sbuffer = replicate BUFFER_SIZE 0, in_pos = 0, out_pos = 0, produced_count = 0,
      consumed_count = 0, mutex = True, full = 0, empty = BUFFER_SIZE\<rparr>, [PTest 1, CTest []])"

fun sem_p :: "sem_state \<Rightarrow> sem_pc \<Rightarrow> bool" where
  "sem_p s (PTest item) = (item = produced_count s + 1)"
| "sem_p s (PEmpty item) = (item = produced_count s + 1 \<and> produced_count s < MAX_ITEMS)"
| "sem_p s (PMutex item) = (item = produced_count s + 1 \<and> produced_count s < MAX_ITEMS)"
| "sem_p s (PBody item) = (item = produced_count s + 1 \<and> produced_count s < MAX_ITEMS \<and> \<not> mutex s)"
| "sem_p s (PPost item) = (item = produced_count s + 1 \<and> \<not> mutex s)"
| "sem_p s (PFull item) = (item = produced_count s + 1)"
| "sem_p s PExit = (produced_count s = MAX_ITEMS)"
| "sem_p s _ = False"

text \<open>Cells that a side has reserved, or used and not yet announced.\<close>

fun p_reserved :: "sem_pc \<Rightarrow> nat" where
  "p_reserved (PMutex item) = 1"
| "p_reserved (PBody item) = 1"
| "p_reserved _ = 0"

fun p_unannounced :: "sem_pc \<Rightarrow> nat" where
  "p_unannounced (PPost item) = 1"
| "p_unannounced (PFull item) = 1"
| "p_unannounced _ = 0"

fun c_reserved :: "sem_pc \<Rightarrow> nat" where
  "c_reserved (CMutex log) = 1"
| "c_reserved (CBody log) = 1"
| "c_reserved _ = 0"

fun c_unannounced :: "sem_pc \<Rightarrow> nat" where
  "c_unannounced (CPost log) = 1"
| "c_unannounced (CEmpty log) = 1"
| "c_unannounced _ = 0"

fun consumed :: "sem_pc \<Rightarrow> nat list" where
  "consumed (CTest log) = log"
| "consumed (CFull log) = log"
| "consumed (CMutex log) = log"
| "consumed (CBody log) = log"
| "consumed (CPost log) = log"
| "consumed (CEmpty log) = log"
| "consumed (CExit log) = log"
| "consumed _ = []"

fun p_section :: "sem_pc \<Rightarrow> bool" where
  "p_section (PBody item) = True"
| "p_section (PPost item) = True"
| "p_section (CBody log) = True"
| "p_section (CPost log) = True"
| "p_section _ = False"

fun is_consumer :: "sem_pc \<Rightarrow> bool" where
  "is_consumer (CTest log) = True"
| "is_consumer (CFull log) = True"
| "is_consumer (CMutex log) = True"
| "is_consumer (CBody log) = True"
| "is_consumer (CPost log) = True"
| "is_consumer (CEmpty log) = True"
| "is_consumer (CExit log) = True"
| "is_consumer _ = False"

fun c_limit :: "nat \<Rightarrow> sem_pc \<Rightarrow> bool" where
  "c_limit n (CFull log) = (n < MAX_ITEMS)"
| "c_limit n (CExit log) = (MAX_ITEMS \<le> n)"
| "c_limit n _ = True"

definition sem_inv :: "sem_state \<Rightarrow> sem_pc list \<Rightarrow> bool" where
  "sem_inv s ls \<longleftrightarrow> (\<exists>P C. ls = [P, C] \<and> sem_p s P \<and> is_consumer C \<and>
     of_bool (p_section P) + of_bool (p_section C) = (of_bool (\<not> mutex s) :: nat) \<and>
     in_pos s = produced_count s mod BUFFER_SIZE \<and> out_pos s = consumed_count s mod BUFFER_SIZE \<and>
     consumed C = map Suc [0..<consumed_count s] \<and>
     consumed_count s + full s + p_unannounced P + c_reserved C = produced_count s \<and>
     produced_count s + empty s + p_reserved P + c_unannounced C = consumed_count s + BUFFER_SIZE \<and>
     produced_count s \<le> MAX_ITEMS \<and>
     c_limit (consumed_count s) C \<and>
     window (sbuffer s) BUFFER_SIZE Suc (consumed_count s) (produced_count s))"

lemma sem_inv_init: "sem_inv (fst sem_main) (snd sem_main)"
  by (simp add: sem_inv_def sem_main_def window_def BUFFER_SIZE_def)

lemma sem_inv_producer:
  assumes inv: "sem_inv s [P, C]" and out: "(s', l) \<in> set (sem_thread t s P)"
  shows "sem_inv s' [l, C]"
proof -
  from inv have I: "sem_p s P" "is_consumer C"
     "of_bool (p_section P) + of_bool (p_section C) = (of_bool (\<not> mutex s) :: nat)"
     "in_pos s = produced_count s mod BUFFER_SIZE" "out_pos s = consumed_count s mod BUFFER_SIZE"
     "consumed C = map Suc [0..<consumed_count s]"
     "consumed_count s + full s + p_unannounced P + c_reserved C = produced_count s"
     "produced_count s + empty s + p_reserved P + c_unannounced C = consumed_count s + BUFFER_SIZE"
     "produced_count s \<le> MAX_ITEMS"
     "c_limit (consumed_count s) C"
     and W: "window (sbuffer s) BUFFER_SIZE Suc (consumed_count s) (produced_count s)"
    by (simp_all add: sem_inv_def)
  show ?thesis
  proof (cases P)
    case (PBody item)
    then have "window ((sbuffer s)[produced_count s mod BUFFER_SIZE := Suc (produced_count s)])
        BUFFER_SIZE Suc (consumed_count s) (Suc (produced_count s))"
      using I by (intro window_write [OF W]) simp
    then show ?thesis using out I PBody
      by (cases C) (auto simp: sem_thread_def sem_inv_def mod_Suc_eq)
  qed (use out I W in \<open>auto simp: sem_thread_def sem_inv_def split: if_splits\<close>)
qed

lemma sem_inv_consumer:
  assumes inv: "sem_inv s [P, C]" and out: "(s', l) \<in> set (sem_thread t s C)"
  shows "sem_inv s' [P, l]"
proof -
  from inv have I: "sem_p s P" "is_consumer C"
     "of_bool (p_section P) + of_bool (p_section C) = (of_bool (\<not> mutex s) :: nat)"
     "in_pos s = produced_count s mod BUFFER_SIZE" "out_pos s = consumed_count s mod BUFFER_SIZE"
     "consumed C = map Suc [0..<consumed_count s]"
     "consumed_count s + full s + p_unannounced P + c_reserved C = produced_count s"
     "produced_count s + empty s + p_reserved P + c_unannounced C = consumed_count s + BUFFER_SIZE"
     "produced_count s \<le> MAX_ITEMS"
     "c_limit (consumed_count s) C"
     and W: "window (sbuffer s) BUFFER_SIZE Suc (consumed_count s) (produced_count s)"
    by (simp_all add: sem_inv_def)
  show ?thesis
  proof (cases C)
    case (CBody log)
    have "consumed_count s < produced_count s" using I CBody by simp
    from window_read [OF W this] have R: "sbuffer s ! out_pos s = Suc (consumed_count s)"
      "window (sbuffer s) BUFFER_SIZE Suc (Suc (consumed_count s)) (produced_count s)"
      using I by simp_all
    have l: "s' = s\<lparr>out_pos := (out_pos s + 1) mod BUFFER_SIZE, consumed_count := consumed_count s + 1\<rparr>"
      "l = CPost (log @ [Suc (consumed_count s)])"
      using out CBody R by (simp_all add: sem_thread_def)
    have "sem_p s' P" using I(1) l by (cases P) auto
    moreover have "out_pos s' = Suc (consumed_count s) mod BUFFER_SIZE" using I l by (simp add: mod_Suc_eq)
    ultimately show ?thesis using R I CBody unfolding sem_inv_def l
      by (intro exI [of _ P] exI [of _ "CPost (log @ [Suc (consumed_count s)])"]) simp
  next
    case (CTest log)
    then have l: "s' = s" "l = (if consumed_count s < MAX_ITEMS then CFull log else CExit log)"
      using out by (simp_all add: sem_thread_def)
    show ?thesis using I W CTest unfolding sem_inv_def l
      by (intro exI [of _ P] exI [of _ "if consumed_count s < MAX_ITEMS then CFull log else CExit log"]) simp
  next
    case (CFull log)
    then have l: "0 < full s" "s' = s\<lparr>full := full s - 1\<rparr>" "l = CMutex log"
      using out by (simp_all add: sem_thread_def split: if_splits)
    have "sem_p s' P" using I(1) l by (cases P) auto
    then show ?thesis using I W CFull l(1) unfolding sem_inv_def l
      by (intro exI [of _ P] exI [of _ "CMutex log"]) simp
  next
    case (CMutex log)
    then have l: "mutex s" "s' = s\<lparr>mutex := False\<rparr>" "l = CBody log"
      using out by (simp_all add: sem_thread_def split: if_splits)
    have "sem_p s' P" using I(1) l by (cases P) auto
    then show ?thesis using I W CMutex l(1) unfolding sem_inv_def l
      by (intro exI [of _ P] exI [of _ "CBody log"]) simp
  next
    case (CPost log)
    then have l: "s' = s\<lparr>mutex := True\<rparr>" "l = CEmpty log"
      using out by (simp_all add: sem_thread_def)
    have sec: "\<not> p_section P" using I(3) CPost by (cases "p_section P"; cases "mutex s") simp_all
    then have "sem_p s' P" using I(1) l by (cases P) auto
    then show ?thesis using I(2,4-) W CPost sec unfolding sem_inv_def l
      by (intro exI [of _ P] exI [of _ "CEmpty log"]) simp
  next
    case (CEmpty log)
    then have l: "s' = s\<lparr>empty := empty s + 1\<rparr>" "l = CTest log"
      using out by (simp_all add: sem_thread_def)
    have "sem_p s' P" using I(1) l by (cases P) auto
    then show ?thesis using I W CEmpty unfolding sem_inv_def l
      by (intro exI [of _ P] exI [of _ "CTest log"]) simp
  qed (use out I in \<open>auto simp: sem_thread_def\<close>)
qed

lemma sem_inv_step:
  assumes inv: "sem_inv s ls" and i: "i < length ls" and out: "(s', l) \<in> set (sem_thread t s (ls ! i))"
  shows "sem_inv s' (ls[i := l])"
proof -
  from inv obtain P C where ls: "ls = [P, C]" unfolding sem_inv_def by blast
  with i consider "i = 0" | "i = 1" by fastforce
  then show ?thesis
    using inv out sem_inv_producer [of s P C s' l t] sem_inv_consumer [of s P C s' l t] by cases (simp_all add: ls)
qed

text \<open>The work left: rounds to come and the rest of the current round.\<close>

fun sem_work :: "sem_pc \<Rightarrow> nat" where
  "sem_work (PTest item) = 4"
| "sem_work (PEmpty item) = 3"
| "sem_work (PMutex item) = 2"
| "sem_work (PBody item) = 1"
| "sem_work (PPost item) = 6"
| "sem_work (PFull item) = 5"
| "sem_work PExit = 0"
| "sem_work (CTest log) = 4"
| "sem_work (CFull log) = 3"
| "sem_work (CMutex log) = 2"
| "sem_work (CBody log) = 1"
| "sem_work (CPost log) = 6"
| "sem_work (CEmpty log) = 5"
| "sem_work (CExit log) = 0"

definition sem_left :: "sem_state \<Rightarrow> sem_pc list \<Rightarrow> nat" where
  "sem_left s ls = workload sem_work ls + (10 * (MAX_ITEMS - produced_count s) + 10 * (MAX_ITEMS - consumed_count s))"

lemma sem_limits:
  assumes "sem_inv s ls"
  shows "produced_count s \<le> MAX_ITEMS" "i < length ls \<Longrightarrow> ls ! i = PBody item \<Longrightarrow> produced_count s < MAX_ITEMS"
    "i < length ls \<Longrightarrow> ls ! i = CBody log \<Longrightarrow> consumed_count s < MAX_ITEMS"
proof -
  from assms obtain P C where ls: "ls = [P, C]" and P: "sem_p s P" and C: "is_consumer C"
    and c: "consumed_count s + full s + p_unannounced P + c_reserved C = produced_count s"
    and m: "produced_count s \<le> MAX_ITEMS" unfolding sem_inv_def by blast
  show "produced_count s \<le> MAX_ITEMS" by (rule m)
  show "produced_count s < MAX_ITEMS" if "i < length ls" "ls ! i = PBody item"
  proof -
    from that ls consider "P = PBody item" | "C = PBody item" by (auto simp: less_Suc_eq)
    then show ?thesis using P C by cases auto
  qed
  show "consumed_count s < MAX_ITEMS" if "i < length ls" "ls ! i = CBody log"
  proof -
    from that ls consider "P = CBody log" | "C = CBody log" by (auto simp: less_Suc_eq)
    then show ?thesis using P c m by cases auto
  qed
qed

lemma sem_work_step:
  assumes inv: "sem_inv s ls" and i: "i < length ls" and out: "(s', l) \<in> set (sem_thread t s (ls ! i))"
  shows "sem_left s' (ls[i := l]) < sem_left s ls"
proof -
  have "sem_work l + (10 * (MAX_ITEMS - produced_count s') + 10 * (MAX_ITEMS - consumed_count s')) <
      sem_work (ls ! i) + (10 * (MAX_ITEMS - produced_count s) + 10 * (MAX_ITEMS - consumed_count s))"
    using out sem_limits(2,3) [OF inv i]
    by (cases "ls ! i") (auto simp: sem_thread_def split: if_splits)
  then show ?thesis unfolding sem_left_def by (rule workload_less [OF i])
qed

interpretation sem: thread_term sem_thread sem_main sem_inv sem_left
  by unfold_locales (auto intro: sem_inv_init sem_inv_step sem_work_step)

lemma sem_no_deadlock:
  assumes inv: "sem_inv s ls" and st: "stuck sem_thread (s, ls)"
  shows "ls = [PExit, CExit (map Suc [0..<MAX_ITEMS])]"
proof -
  from inv obtain P C where ls: "ls = [P, C]" and P: "sem_p s P" and C: "is_consumer C"
    and sec: "of_bool (p_section P) + of_bool (p_section C) = (of_bool (\<not> mutex s) :: nat)"
    and log: "consumed C = map Suc [0..<consumed_count s]"
    and c: "consumed_count s + full s + p_unannounced P + c_reserved C = produced_count s"
    and e: "produced_count s + empty s + p_reserved P + c_unannounced C = consumed_count s + BUFFER_SIZE"
    and m: "produced_count s \<le> MAX_ITEMS" and l: "c_limit (consumed_count s) C"
    unfolding sem_inv_def by blast
  have noP: "sem_thread 0 s P = []" and noC: "sem_thread 1 s C = []"
    using st ls by (auto simp: stuck_iff less_Suc_eq)
  have "\<not> p_section P" using noP by (cases P) (auto simp: sem_thread_def)
  moreover have "\<not> p_section C" using noC by (cases C) (auto simp: sem_thread_def)
  ultimately have mu: "mutex s" using sec by (cases "mutex s") auto
  have "P = PExit \<or> (\<exists>item. P = PEmpty item \<and> empty s = 0)"
    using noP mu P by (cases P) (auto simp: sem_thread_def split: if_splits)
  moreover have "(\<exists>log. C = CExit log) \<or> (\<exists>log. C = CFull log \<and> full s = 0)"
    using noC mu C by (cases C) (auto simp: sem_thread_def split: if_splits)
  ultimately have "P = PExit \<and> (\<exists>log. C = CExit log)"
    using P c e m l by (auto simp: BUFFER_SIZE_def)
  moreover from this have "consumed_count s = MAX_ITEMS" using c m l P by auto
  ultimately show ?thesis using ls log by auto
qed

text \<open>
  Claim C19. The three-semaphore buffer is correct and ends: the buffer never holds more than
  \<open>BUFFER_SIZE\<close> items, no run is infinite, and every run can only end with both threads
  returned and the items 1, ..., 20 consumed in that order.
\<close>

theorem sem_program_result:
  assumes "reach sem_thread sem_main c"
  shows "consumed_count (fst c) \<le> produced_count (fst c) \<and>
    produced_count (fst c) \<le> consumed_count (fst c) + BUFFER_SIZE \<and>
    (stuck sem_thread c \<longrightarrow> snd c = [PExit, CExit [1..<21]]) \<and>
    (\<exists>c'. reach sem_thread c c' \<and> stuck sem_thread c') \<and>
    \<not> (\<exists>f. f 0 = c \<and> (\<forall>n. istep sem_thread (f n) (f (Suc n))))"
proof -
  have inv: "sem_inv (fst c) (snd c)" by (rule sem.reach_inv_conf [OF assms])
  then have "consumed_count (fst c) \<le> produced_count (fst c)"
    "produced_count (fst c) \<le> consumed_count (fst c) + BUFFER_SIZE" by (auto simp: sem_inv_def)
  moreover have "map Suc [0..<MAX_ITEMS] = [1..<21]"
    unfolding map_Suc_upt by (simp add: MAX_ITEMS_def)
  then have "stuck sem_thread c \<Longrightarrow> snd c = [PExit, CExit [1..<21]]"
    using sem_no_deadlock [of "fst c" "snd c"] inv by simp
  ultimately show ?thesis using sem.reach_stuck [OF assms] sem.no_infinite_run assms by blast
qed

theorem sem_program_result_witness:
  "\<exists>s. reach sem_thread sem_main (s, [PExit, CExit [1..<21]])"
proof -
  obtain c where r: "reach sem_thread sem_main c" and st: "stuck sem_thread c"
    using sem_program_result [OF reach_init] by blast
  from sem_program_result [OF r] st have "snd c = [PExit, CExit [1..<21]]" by blast
  with r show ?thesis by (metis prod.collapse)
qed

end
