(* ===== verification/Seqlock_Client.thy ===== *)
theory Seqlock_Client
  imports Conc_Prelude
begin

text \<open>
  The interface of the six \<open>Seqlock\<close> classes of the directory SeqLock and the two programs
  that each of them comes with, \<open>main.cpp\<close> and the fuzz test \<open>test.cpp\<close>. A value is the list
  of the three 64-bit fields of \<open>Data\<close>; copying a value is done field by field, so that a
  torn read is possible. \<open>load\<close> and \<open>store\<close> are small machines over the shared state; the
  locale \<open>seqlock\<close> states what they promise to one writer and any number of readers, and
  both programs are proved once for everything that keeps the promise.
\<close>

section \<open>Data\<close>

type_synonym u64 = "64 word"
type_synonym data = "u64 list"

definition make_data :: "u64 \<Rightarrow> u64 \<Rightarrow> u64 \<Rightarrow> data" where
  "make_data a b c = [a, b, c]"

abbreviation field_a :: "data \<Rightarrow> u64" where "field_a v \<equiv> v ! 0"
abbreviation field_b :: "data \<Rightarrow> u64" where "field_b v \<equiv> v ! 1"
abbreviation field_c :: "data \<Rightarrow> u64" where "field_c v \<equiv> v ! 2"

definition zero_data :: data where
  "zero_data = make_data 0 0 0"

section \<open>The contract\<close>

text \<open>
  \<open>Inv vals m w s rs\<close>: with the values \<open>vals 0\<close> (initial), \<open>vals 1\<close>, ... the writer has
  completed \<open>m\<close> stores and is at \<open>w\<close> of the next one (\<open>None\<close> between stores), the shared
  state is \<open>s\<close>, and reader \<open>i\<close> is at \<open>rs ! i\<close>, with the number of stores that were complete
  when its load began. A load returns a value that was not overwritten before it began and
  whose store has begun. \<open>ok m\<close> restricts the number of stores (a counter wraps).
\<close>

locale seqlock =
  fixes load_start :: 'r
    and load_step :: "'s \<Rightarrow> 'r \<Rightarrow> ('s \<times> ('r + data)) list"
    and store_start :: 'w
    and store_step :: "data \<Rightarrow> 's \<Rightarrow> 'w \<Rightarrow> ('s \<times> 'w option) list"
    and s0 :: 's
    and ok :: "nat \<Rightarrow> bool"
    and Inv :: "(nat \<Rightarrow> data) \<Rightarrow> nat \<Rightarrow> 'w option \<Rightarrow> 's \<Rightarrow> (nat \<times> 'r) option list \<Rightarrow> bool"
  assumes Inv_init: "\<lbrakk>vals 0 = zero_data; \<And>k. length (vals k) = 3\<rbrakk> \<Longrightarrow> Inv vals 0 None s0 (replicate n None)"
    and begin_load: "\<lbrakk>Inv vals m w s rs; i < length rs; rs ! i = None\<rbrakk> \<Longrightarrow>
      Inv vals m w s (rs[i := Some (m, load_start)])"
    and load: "\<lbrakk>Inv vals m w s rs; i < length rs; rs ! i = Some (j, p); (s', r) \<in> set (load_step s p)\<rbrakk> \<Longrightarrow>
      (case r of Inl p' \<Rightarrow> Inv vals m w s' (rs[i := Some (j, p')])
       | Inr v \<Rightarrow> Inv vals m w s' (rs[i := None]) \<and>
           (\<exists>k. j \<le> k \<and> k \<le> m + of_bool (w \<noteq> None) \<and> v = vals k))"
    and begin_store: "\<lbrakk>Inv vals m None s rs; ok m\<rbrakk> \<Longrightarrow> Inv vals m (Some store_start) s rs"
    and store: "\<lbrakk>Inv vals m (Some q) s rs; ok m; (s', t) \<in> set (store_step (vals (Suc m)) s q)\<rbrakk> \<Longrightarrow>
      (case t of Some q' \<Rightarrow> Inv vals m (Some q') s' rs | None \<Rightarrow> Inv vals (Suc m) None s' rs)"
    and ok_small: "m < 2 \<Longrightarrow> ok m"

section \<open>The program main.cpp\<close>

record 's main_state =
  seqlock :: 's
  exitFlag :: bool
  writerEnded :: bool

datatype ('r, 'w) main_pc =
    RCheck
  | RLoad 'r
  | RSuccess data
  | RFail
  | WNext nat
  | WStore nat 'w
  | WEnd
  | MJoin
  | MEnd

definition main_stores :: "data list" where
  "main_stores = [make_data 3 2 1, make_data 100 200 300]"

definition main_check :: "data \<Rightarrow> bool" where
  "main_check v \<longleftrightarrow> field_a v + 100 = field_b v \<and> field_c v = field_a v + field_b v"

text \<open>The readers loop until the check succeeds or \<open>exitFlag\<close> is set.\<close>

fun main_reader :: "'r \<Rightarrow> ('s \<Rightarrow> 'r \<Rightarrow> ('s \<times> ('r + data)) list)
    \<Rightarrow> 's main_state \<Rightarrow> ('r, 'w) main_pc \<Rightarrow> ('s main_state \<times> ('r, 'w) main_pc) list" where
  "main_reader lstart ld g RCheck = [(g, if exitFlag g then RFail else RLoad lstart)]"
| "main_reader lstart ld g (RLoad p) = map (\<lambda>(s', r). (g\<lparr>seqlock := s'\<rparr>,
       (case r of Inl p' \<Rightarrow> RLoad p' | Inr v \<Rightarrow> if main_check v then RSuccess v else RCheck)))
       (ld (seqlock g) p)"
| "main_reader lstart ld g _ = []"

fun main_writer :: "'w \<Rightarrow> (data \<Rightarrow> 's \<Rightarrow> 'w \<Rightarrow> ('s \<times> 'w option) list)
    \<Rightarrow> 's main_state \<Rightarrow> ('r, 'w) main_pc \<Rightarrow> ('s main_state \<times> ('r, 'w) main_pc) list" where
  "main_writer sstart st g (WNext k) =
     (if k < length main_stores then [(g, WStore k sstart)] else [(g\<lparr>writerEnded := True\<rparr>, WEnd)])"
| "main_writer sstart st g (WStore k p) = map (\<lambda>(s', r). (g\<lparr>seqlock := s'\<rparr>,
       (case r of Some p' \<Rightarrow> WStore k p' | None \<Rightarrow> WNext (k + 1)))) (st (main_stores ! k) (seqlock g) p)"
| "main_writer sstart st g _ = []"

text \<open>The main thread joins the writer, then sets \<open>exitFlag\<close>.\<close>

fun main_joiner :: "'s main_state \<Rightarrow> ('r, 'w) main_pc \<Rightarrow> ('s main_state \<times> ('r, 'w) main_pc) list" where
  "main_joiner g MJoin = (if writerEnded g then [(g\<lparr>exitFlag := True\<rparr>, MEnd)] else [])"
| "main_joiner g _ = []"

definition main_thread :: "'r \<Rightarrow> ('s \<Rightarrow> 'r \<Rightarrow> ('s \<times> ('r + data)) list)
    \<Rightarrow> 'w \<Rightarrow> (data \<Rightarrow> 's \<Rightarrow> 'w \<Rightarrow> ('s \<times> 'w option) list) \<Rightarrow> ('s main_state, ('r, 'w) main_pc) thread" where
  "main_thread lstart ld sstart st i g pc =
     main_reader lstart ld g pc @ main_writer sstart st g pc @ main_joiner g pc"

text \<open>The main thread, the writer thread and the two readers.\<close>

definition main_init :: "'s \<Rightarrow> ('s main_state, ('r, 'w) main_pc) conf" where
  "main_init s0 = (\<lparr>seqlock = s0, exitFlag = False, writerEnded = False\<rparr>, [WNext 0, MJoin, RCheck, RCheck])"

text \<open>The stores of the program: what they are and how many are complete.\<close>

definition main_vals :: "nat \<Rightarrow> data" where
  "main_vals k = (if 1 \<le> k \<and> k \<le> 2 then main_stores ! (k - 1) else zero_data)"

fun main_done :: "('r, 'w) main_pc \<Rightarrow> nat" where
  "main_done (WNext k) = k"
| "main_done (WStore k p) = k"
| "main_done _ = 2"

fun main_at :: "('r, 'w) main_pc \<Rightarrow> 'w option" where
  "main_at (WStore k p) = Some p"
| "main_at _ = None"

fun main_load :: "nat \<Rightarrow> ('r, 'w) main_pc \<Rightarrow> (nat \<times> 'r) option" where
  "main_load j (RLoad p) = Some (j, p)"
| "main_load j _ = None"

fun main_local :: "('r, 'w) main_pc \<Rightarrow> bool" where
  "main_local (RSuccess v) = (v = make_data 100 200 300)"
| "main_local _ = True"

fun main_writing :: "('r, 'w) main_pc \<Rightarrow> bool" where
  "main_writing (WNext k) = (k \<le> 2)"
| "main_writing (WStore k p) = (k < 2)"
| "main_writing WEnd = True"
| "main_writing _ = False"

lemma main_vals [simp]: "main_vals 0 = zero_data" "length (main_vals k) = 3"
  by (auto simp: main_vals_def main_stores_def make_data_def zero_data_def nth_Cons split: nat.splits)

lemma main_vals_Suc: "k < 2 \<Longrightarrow> main_vals (Suc k) = main_stores ! k"
  by (simp add: main_vals_def)

lemma main_check_vals: "k \<le> 2 \<Longrightarrow> main_check (main_vals k) \<Longrightarrow> main_vals k = make_data 100 200 300"
proof -
  assume "k \<le> 2" and c: "main_check (main_vals k)"
  then consider "k = 0" | "k = 1" | "k = 2" by linarith
  then show ?thesis
    using c by cases (simp_all add: main_vals_def main_check_def main_stores_def make_data_def zero_data_def)
qed

lemma map2_upd: "map2 f (xs[i := x]) (ys[i := y]) = (map2 f xs ys)[i := f x y]"
proof -
  have "zip (xs[i := x]) (ys[i := y]) = (zip xs ys)[i := (x, y)]"
    using update_zip [of xs ys i "(x, y)"] by simp
  then show ?thesis by (simp only: map_update prod.case)
qed

fun main_role :: "('r, 'w) main_pc \<Rightarrow> bool" where
  "main_role (WNext k) = True"
| "main_role (WStore k p) = True"
| "main_role WEnd = True"
| "main_role _ = False"

context seqlock begin

definition main_inv :: "'s main_state \<Rightarrow> ('r, 'w) main_pc list \<Rightarrow> bool" where
  "main_inv g ls \<longleftrightarrow> (\<exists>W ls' js. ls = W # ls' \<and> length js = length ls' \<and> main_writing W \<and>
     list_all main_local ls' \<and> list_all (\<lambda>l. \<not> main_role l) ls' \<and>
     Inv main_vals (main_done W) (main_at W) (seqlock g) (map2 main_load js ls'))"

lemma main_inv_init: "main_inv (fst (main_init s0)) (snd (main_init s0))"
proof -
  have "Inv main_vals 0 None s0 (replicate 3 None)" by (rule Inv_init) auto
  then show ?thesis
    unfolding main_inv_def
    by (intro exI [of _ "WNext 0"] exI [of _ "[MJoin, RCheck, RCheck]"] exI [of _ "[0, 0, 0]"])
      (simp add: main_init_def numeral_eq_Suc)
qed

lemma main_inv_writer:
  assumes "main_inv g (W # ls')" and out: "(g', W') \<in> set (main_thread load_start load_step store_start store_step t g W)"
  shows "main_inv g' (W' # ls')"
proof -
  from assms(1) obtain js where js: "length js = length ls'" and W: "main_writing W"
    and L: "list_all main_local ls'" "list_all (\<lambda>l. \<not> main_role l) ls'"
    and I: "Inv main_vals (main_done W) (main_at W) (seqlock g) (map2 main_load js ls')"
    by (auto simp: main_inv_def)
  have "main_writing W' \<and> Inv main_vals (main_done W') (main_at W') (seqlock g') (map2 main_load js ls')"
  proof (cases W)
    case (WNext k)
    show ?thesis
    proof (cases "k < 2")
      case True
      with WNext out I begin_store [of main_vals k] ok_small [of k] show ?thesis
        by (auto simp: main_thread_def main_stores_def)
    next
      case False
      then have "k = 2" using W WNext by simp
      with WNext out I show ?thesis by (auto simp: main_thread_def main_stores_def)
    qed
  next
    case (WStore k p)
    then have k: "k < 2" using W by simp
    from WStore out obtain s' r where st: "(s', r) \<in> set (store_step (main_vals (Suc k)) (seqlock g) p)"
      and g': "g' = g\<lparr>seqlock := s'\<rparr>" and W': "W' = (case r of Some p' \<Rightarrow> WStore k p' | None \<Rightarrow> WNext (k + 1))"
      by (auto simp: main_thread_def main_vals_Suc [OF k])
    have "Inv main_vals k (Some p) (seqlock g) (map2 main_load js ls')" using I WStore by simp
    from store [OF this ok_small [OF k] st] k show ?thesis by (auto simp: g' W' split: option.splits)
  qed (use W out in \<open>auto simp: main_thread_def\<close>)
  with js L show ?thesis by (auto simp: main_inv_def)
qed

lemma main_inv_reader:
  assumes "main_inv g (W # ls')" and i: "i < length ls'"
    and out: "(g', l) \<in> set (main_thread load_start load_step store_start store_step t g (ls' ! i))"
  shows "main_inv g' (W # ls'[i := l])"
proof -
  from assms(1) obtain js where js: "length js = length ls'" and W: "main_writing W"
    and L: "list_all main_local ls'" "list_all (\<lambda>l. \<not> main_role l) ls'"
    and I: "Inv main_vals (main_done W) (main_at W) (seqlock g) (map2 main_load js ls')"
    by (auto simp: main_inv_def)
  let ?rs = "map2 main_load js ls'"
  have ri: "i < length ?rs" "?rs ! i = main_load (js ! i) (ls' ! i)" using i js by simp_all
  have zip: "map2 main_load (js[i := j]) (ls'[i := l]) = ?rs[i := main_load j l]" for j
    by (rule map2_upd)
  have nw: "\<not> main_role (ls' ! i)" using L(2) i by (simp add: list_all_length)
  have ms: "main_done W + of_bool (main_at W \<noteq> None) \<le> 2" using W by (cases W) auto
  have "\<not> main_role l \<and> main_local l \<and>
      (\<exists>j. Inv main_vals (main_done W) (main_at W) (seqlock g') (?rs[i := main_load j l]))"
  proof (cases "ls' ! i")
    case RCheck
    with out have "seqlock g' = seqlock g" "l = RFail \<or> l = RLoad load_start"
      by (auto simp: main_thread_def split: if_splits)
    moreover have "?rs[i := None] = ?rs" using ri RCheck by (metis list_update_id main_load.simps(2))
    ultimately show ?thesis
      using I begin_load [OF I ri(1)] ri RCheck by auto
  next
    case (RLoad p)
    then obtain s' r where st: "(s', r) \<in> set (load_step (seqlock g) p)" and g': "seqlock g' = s'"
      and l: "l = (case r of Inl p' \<Rightarrow> RLoad p' | Inr v \<Rightarrow> if main_check v then RSuccess v else RCheck)"
      using out by (auto simp: main_thread_def)
    have "?rs ! i = Some (js ! i, p)" using ri RLoad by simp
    note A = load [OF I ri(1) this st]
    show ?thesis
    proof (cases r)
      case (Inl p')
      with A l g' show ?thesis by auto
    next
      case (Inr v)
      with A obtain k where "k \<le> main_done W + of_bool (main_at W \<noteq> None)" "v = main_vals k" by auto
      with ms have "main_check v \<Longrightarrow> v = make_data 100 200 300" using main_check_vals [of k] by auto
      with Inr A l g' show ?thesis by auto
    qed
  next
    case MJoin
    with out have "seqlock g' = seqlock g" "l = MEnd" by (auto simp: main_thread_def split: if_splits)
    moreover have "?rs[i := None] = ?rs" using ri MJoin by (metis list_update_id main_load.simps(8))
    ultimately show ?thesis using I by auto
  qed (use out nw in \<open>auto simp: main_thread_def\<close>)
  then obtain j where "\<not> main_role l" "main_local l"
    "Inv main_vals (main_done W) (main_at W) (seqlock g') (map2 main_load (js[i := j]) (ls'[i := l]))"
    unfolding zip by blast
  with js W L show ?thesis unfolding main_inv_def
    by (intro exI [of _ W] exI [of _ "ls'[i := l]"] exI [of _ "js[i := j]"]) (simp add: list_all_upd)
qed

lemma main_thread_inv:
  "thread_inv (main_thread load_start load_step store_start store_step) (main_init s0) main_inv"
proof
  show "main_inv (fst (main_init s0)) (snd (main_init s0))" by (rule main_inv_init)
next
  fix g ls i g' l
  assume I: "main_inv g ls" and i: "i < length ls"
    and out: "(g', l) \<in> set (main_thread load_start load_step store_start store_step i g (ls ! i))"
  from I obtain W ls' where ls: "ls = W # ls'" by (auto simp: main_inv_def)
  show "main_inv g' (ls[i := l])"
  proof (cases i)
    case 0
    with main_inv_writer I out ls show ?thesis by simp
  next
    case (Suc n)
    with main_inv_reader [OF I [unfolded ls], of n g' l i] i out ls show ?thesis by simp
  qed
qed

text \<open>A reader of \<open>main.cpp\<close> that reports success has read the whole second value.\<close>

lemma main_success:
  assumes "reach (main_thread load_start load_step store_start store_step) (main_init s0) (g, ls)"
    and "RSuccess v \<in> set ls"
  shows "v = make_data 100 200 300"
proof -
  have "main_inv g ls" by (rule thread_inv.reach_inv [OF main_thread_inv assms(1)])
  then obtain W ls' where "ls = W # ls'" "main_writing W" "list_all main_local ls'"
    unfolding main_inv_def by blast
  with assms(2) have "main_local (RSuccess v :: ('r, 'w) main_pc)" by (auto simp: list_all_iff)
  then show ?thesis by simp
qed

end

section \<open>The fuzz test test.cpp\<close>

definition kOffset :: u64 where
  "kOffset = 100"

definition kThreadCount :: nat where
  "kThreadCount = 100"

definition kOperationsCount :: nat where
  "kOperationsCount = 10000000"

record 's test_state =
  seqLock :: 's
  isReady :: u64

text \<open>
  The readers wait for \<open>isReady\<close>, load and check; a failed check exits. The writer stores a
  new value in every round, for ever if a reader does not end.
\<close>

datatype ('r, 'w) test_pc =
    TSpin
  | TLoop nat
  | TLoad nat 'r
  | TFailed
  | TDone
  | TNext nat
  | TStore nat 'w
  | TCount nat
  | TQuit nat
  | TEnd nat

definition test_data :: "nat \<Rightarrow> data" where
  "test_data counter =
     (let a = of_nat counter; b = a + kOffset; c = b + a in make_data a b c)"

definition test_check :: "data \<Rightarrow> bool" where
  "test_check v \<longleftrightarrow> \<not> (field_a v + kOffset \<noteq> field_b v \<or> field_c v \<noteq> field_a v + field_b v)"

fun test_reader :: "'r \<Rightarrow> ('s \<Rightarrow> 'r \<Rightarrow> ('s \<times> ('r + data)) list)
    \<Rightarrow> 's test_state \<Rightarrow> ('r, 'w) test_pc \<Rightarrow> ('s test_state \<times> ('r, 'w) test_pc) list" where
  "test_reader lstart ld g TSpin = [(g, if isReady g = 0 then TSpin else TLoop 0)]"
| "test_reader lstart ld g (TLoop i) =
     (if i < kOperationsCount then [(g, TLoad i lstart)] else [(g\<lparr>isReady := isReady g - 1\<rparr>, TDone)])"
| "test_reader lstart ld g (TLoad i p) = map (\<lambda>(s', r). (g\<lparr>seqLock := s'\<rparr>,
       (case r of Inl p' \<Rightarrow> TLoad i p' | Inr v \<Rightarrow> if test_check v then TLoop (i + 1) else TFailed)))
       (ld (seqLock g) p)"
| "test_reader lstart ld g _ = []"

fun test_writer :: "'w \<Rightarrow> (data \<Rightarrow> 's \<Rightarrow> 'w \<Rightarrow> ('s \<times> 'w option) list)
    \<Rightarrow> 's test_state \<Rightarrow> ('r, 'w) test_pc \<Rightarrow> ('s test_state \<times> ('r, 'w) test_pc) list" where
  "test_writer sstart st g (TNext c) = [(g, TStore c sstart)]"
| "test_writer sstart st g (TStore c p) = map (\<lambda>(s', r). (g\<lparr>seqLock := s'\<rparr>,
       (case r of Some p' \<Rightarrow> TStore c p' | None \<Rightarrow> TCount (c + 1)))) (st (test_data c) (seqLock g) p)"
| "test_writer sstart st g (TCount c) =
     [(if of_nat c = (1 :: u64) then g\<lparr>isReady := isReady g + of_nat kThreadCount\<rparr> else g, TQuit c)]"
| "test_writer sstart st g (TQuit c) = [(g, if isReady g = 0 then TEnd c else TNext c)]"
| "test_writer sstart st g _ = []"

definition test_thread :: "'r \<Rightarrow> ('s \<Rightarrow> 'r \<Rightarrow> ('s \<times> ('r + data)) list)
    \<Rightarrow> 'w \<Rightarrow> (data \<Rightarrow> 's \<Rightarrow> 'w \<Rightarrow> ('s \<times> 'w option) list) \<Rightarrow> ('s test_state, ('r, 'w) test_pc) thread" where
  "test_thread lstart ld sstart st i g pc = test_reader lstart ld g pc @ test_writer sstart st g pc"

definition test_init :: "'s \<Rightarrow> ('s test_state, ('r, 'w) test_pc) conf" where
  "test_init s0 = (\<lparr>seqLock = s0, isReady = 0\<rparr>, TNext 0 # replicate kThreadCount TSpin)"

definition test_vals :: "nat \<Rightarrow> data" where
  "test_vals k = (case k of 0 \<Rightarrow> zero_data | Suc c \<Rightarrow> test_data c)"

fun test_done :: "('r, 'w) test_pc \<Rightarrow> nat" where
  "test_done (TNext c) = c"
| "test_done (TStore c p) = c"
| "test_done (TCount c) = c"
| "test_done (TQuit c) = c"
| "test_done (TEnd c) = c"
| "test_done _ = 0"

text \<open>The number of stores that the writer has begun.\<close>

fun test_begun :: "('r, 'w) test_pc \<Rightarrow> nat" where
  "test_begun (TStore c p) = c + 1"
| "test_begun pc = test_done pc"

fun test_at :: "('r, 'w) test_pc \<Rightarrow> 'w option" where
  "test_at (TStore c p) = Some p"
| "test_at _ = None"

fun test_load :: "nat \<Rightarrow> ('r, 'w) test_pc \<Rightarrow> (nat \<times> 'r) option" where
  "test_load j (TLoad i p) = Some (j, p)"
| "test_load j _ = None"

fun test_role :: "('r, 'w) test_pc \<Rightarrow> bool" where
  "test_role (TNext c) = True"
| "test_role (TStore c p) = True"
| "test_role (TCount c) = (1 \<le> c)"
| "test_role (TQuit c) = True"
| "test_role (TEnd c) = True"
| "test_role _ = False"

text \<open>A reader that has passed the wait, and one whose load began after the first store.\<close>

fun test_reads :: "nat \<Rightarrow> nat \<Rightarrow> ('r, 'w) test_pc \<Rightarrow> bool" where
  "test_reads m j TSpin = True"
| "test_reads m j (TLoop i) = (1 \<le> m)"
| "test_reads m j (TLoad i p) = (1 \<le> m \<and> 1 \<le> j)"
| "test_reads m j TDone = True"
| "test_reads m j _ = False"

lemma kThreadCount_eqs:
  "replicate kThreadCount x = x # replicate 99 x" "(of_nat kThreadCount :: u64) = 100" "(100 :: u64) \<noteq> 0"
proof -
  show "replicate kThreadCount x = x # replicate 99 x"
    using replicate_Suc [of 99 x] by (simp add: kThreadCount_def del: replicate_Suc)
qed (simp_all add: kThreadCount_def)

lemma test_vals [simp]: "test_vals 0 = zero_data" "length (test_vals k) = 3" "test_vals (Suc c) = test_data c"
  by (auto simp: test_vals_def test_data_def make_data_def zero_data_def Let_def split: nat.splits)

lemma test_check_vals: "1 \<le> k \<Longrightarrow> test_check (test_vals k)"
  by (cases k) (auto simp: test_check_def test_data_def make_data_def Let_def)

lemma test_reads_mono: "test_reads m j l \<Longrightarrow> m \<le> m' \<Longrightarrow> test_reads m' j l"
  by (cases "(m, j, l)" rule: test_reads.cases) auto

context seqlock begin

definition test_inv :: "'s test_state \<Rightarrow> ('r, 'w) test_pc list \<Rightarrow> bool" where
  "test_inv g ls \<longleftrightarrow> (\<exists>W ls' js. ls = W # ls' \<and> length js = length ls' \<and> test_role W \<and>
     (isReady g \<noteq> 0 \<longrightarrow> 1 \<le> test_done W) \<and>
     list_all2 (test_reads (test_done W)) js ls' \<and>
     Inv test_vals (test_done W) (test_at W) (seqLock g) (map2 test_load js ls'))"

lemma test_inv_init: "test_inv (fst (test_init s0)) (snd (test_init s0))"
proof -
  have "Inv test_vals 0 None s0 (replicate kThreadCount None)" by (rule Inv_init) auto
  moreover have "map2 test_load (replicate n 0) (replicate n TSpin) = (replicate n None :: (nat \<times> 'r) option list)" for n
    by (induction n) auto
  moreover have "list_all2 (test_reads 0) (replicate n 0) (replicate n TSpin)" for n
    by (simp add: list_all2_conv_all_nth)
  ultimately show ?thesis
    unfolding test_inv_def
    by (intro exI [of _ "TNext 0"] exI [of _ "replicate kThreadCount TSpin"] exI [of _ "replicate kThreadCount 0"])
      (simp add: test_init_def)
qed

lemma test_inv_writer:
  assumes "test_inv g (W # ls')" and out: "(g', W') \<in> set (test_thread load_start load_step store_start store_step t g W)"
    and oks: "\<forall>k < test_begun W'. ok k"
  shows "test_inv g' (W' # ls')"
proof -
  from assms(1) obtain js where js: "length js = length ls'" and W: "test_role W"
    and rd: "isReady g \<noteq> 0 \<longrightarrow> 1 \<le> test_done W" and L: "list_all2 (test_reads (test_done W)) js ls'"
    and I: "Inv test_vals (test_done W) (test_at W) (seqLock g) (map2 test_load js ls')"
    by (auto simp: test_inv_def)
  have "test_role W' \<and> test_done W \<le> test_done W' \<and> (isReady g' \<noteq> 0 \<longrightarrow> 1 \<le> test_done W') \<and>
      Inv test_vals (test_done W') (test_at W') (seqLock g') (map2 test_load js ls')"
  proof (cases W)
    case (TNext c)
    with out have W': "W' = TStore c store_start" "g' = g" by (auto simp: test_thread_def)
    with oks have "ok c" by simp
    with begin_store [of test_vals c] I TNext W' rd show ?thesis by simp
  next
    case (TStore c p)
    with out obtain s' r where st: "(s', r) \<in> set (store_step (test_vals (Suc c)) (seqLock g) p)"
      and g': "g' = g\<lparr>seqLock := s'\<rparr>" and W': "W' = (case r of Some p' \<Rightarrow> TStore c p' | None \<Rightarrow> TCount (c + 1))"
      by (auto simp: test_thread_def)
    have "ok c" using oks W' by (auto split: option.splits)
    have "Inv test_vals c (Some p) (seqLock g) (map2 test_load js ls')" using I TStore by simp
    from store [OF this \<open>ok c\<close> st] show ?thesis using rd TStore by (auto simp: g' W' split: option.splits)
  next
    case (TCount c)
    with out W I rd show ?thesis by (auto simp: test_thread_def)
  next
    case (TQuit c)
    with out W I rd show ?thesis by (auto simp: test_thread_def)
  qed (use W out in \<open>auto simp: test_thread_def\<close>)
  moreover from this L have "list_all2 (test_reads (test_done W')) js ls'"
    by (auto simp: list_all2_conv_all_nth intro: test_reads_mono)
  ultimately show ?thesis using js by (auto simp: test_inv_def)
qed

lemma test_inv_reader:
  assumes "test_inv g (W # ls')" and i: "i < length ls'"
    and out: "(g', l) \<in> set (test_thread load_start load_step store_start store_step t g (ls' ! i))"
  shows "test_inv g' (W # ls'[i := l])"
proof -
  from assms(1) obtain js where js: "length js = length ls'" and W: "test_role W"
    and rd: "isReady g \<noteq> 0 \<longrightarrow> 1 \<le> test_done W" and L: "list_all2 (test_reads (test_done W)) js ls'"
    and I: "Inv test_vals (test_done W) (test_at W) (seqLock g) (map2 test_load js ls')"
    by (auto simp: test_inv_def)
  let ?rs = "map2 test_load js ls'"
  have ri: "i < length ?rs" "?rs ! i = test_load (js ! i) (ls' ! i)" using i js by simp_all
  have R: "test_reads (test_done W) (js ! i) (ls' ! i)" using L i js by (simp add: list_all2_conv_all_nth)
  have "\<exists>j. test_reads (test_done W) j l \<and> (isReady g' \<noteq> 0 \<longrightarrow> 1 \<le> test_done W) \<and>
      Inv test_vals (test_done W) (test_at W) (seqLock g') (?rs[i := test_load j l])"
  proof (cases "ls' ! i")
    case TSpin
    with out have "g' = g" "l = TSpin \<or> l = TLoop 0 \<and> isReady g \<noteq> 0"
      by (auto simp: test_thread_def split: if_splits)
    moreover have "?rs[i := None] = ?rs" using ri TSpin by (metis list_update_id test_load.simps(2))
    ultimately show ?thesis using I rd by auto
  next
    case (TLoop k)
    then have m: "1 \<le> test_done W" using R by simp
    from TLoop out have "seqLock g' = seqLock g" "l = TDone \<or> l = TLoad k load_start"
      by (auto simp: test_thread_def split: if_splits)
    moreover have "?rs[i := None] = ?rs" using ri TLoop by (metis list_update_id test_load.simps(3))
    ultimately show ?thesis using I begin_load [OF I ri(1)] ri TLoop m by auto
  next
    case (TLoad k p)
    then have m: "1 \<le> test_done W" "1 \<le> js ! i" using R by simp_all
    from TLoad obtain s' r where st: "(s', r) \<in> set (load_step (seqLock g) p)" and g': "seqLock g' = s'"
      and l: "l = (case r of Inl p' \<Rightarrow> TLoad k p' | Inr v \<Rightarrow> if test_check v then TLoop (k + 1) else TFailed)"
      using out by (auto simp: test_thread_def)
    have "?rs ! i = Some (js ! i, p)" using ri TLoad by simp
    note A = load [OF I ri(1) this st]
    show ?thesis
    proof (cases r)
      case (Inl p')
      with A l g' m show ?thesis by (intro exI [of _ "js ! i"]) auto
    next
      case (Inr v)
      with A obtain n where "js ! i \<le> n" "v = test_vals n" by auto
      with m have "test_check v" using test_check_vals [of n] by auto
      with Inr A l g' m show ?thesis by (intro exI [of _ "js ! i"]) auto
    qed
  qed (use out R in \<open>auto simp: test_thread_def\<close>)
  then obtain j where j: "test_reads (test_done W) j l" "isReady g' \<noteq> 0 \<longrightarrow> 1 \<le> test_done W"
    "Inv test_vals (test_done W) (test_at W) (seqLock g') (map2 test_load (js[i := j]) (ls'[i := l]))"
    unfolding map2_upd by blast
  moreover have "list_all2 (test_reads (test_done W)) (js[i := j]) (ls'[i := l])"
    using L j(1) by (simp add: list_all2_update_cong)
  ultimately show ?thesis using js W unfolding test_inv_def
    by (intro exI [of _ W] exI [of _ "ls'[i := l]"] exI [of _ "js[i := j]"]) simp
qed

text \<open>As long as the number of stores is allowed, the invariant holds.\<close>

lemma test_begun_mono:
  "(g', W') \<in> set (test_thread load_start load_step store_start store_step t g W) \<Longrightarrow>
     test_begun W \<le> test_begun W'"
  by (cases W) (auto simp: test_thread_def split: option.splits)

lemma test_thread_inv:
  "thread_inv (test_thread load_start load_step store_start store_step) (test_init s0)
     (\<lambda>g ls. ls \<noteq> [] \<and> ((\<forall>k < test_begun (hd ls). ok k) \<longrightarrow> test_inv g ls))"
proof
  show "snd (test_init s0) \<noteq> [] \<and> ((\<forall>k < test_begun (hd (snd (test_init s0))). ok k) \<longrightarrow>
      test_inv (fst (test_init s0)) (snd (test_init s0)))"
    using test_inv_init by (simp add: test_init_def)
next
  fix g ls i g' l
  assume I: "ls \<noteq> [] \<and> ((\<forall>k < test_begun (hd ls). ok k) \<longrightarrow> test_inv g ls)" and i: "i < length ls"
    and out: "(g', l) \<in> set (test_thread load_start load_step store_start store_step i g (ls ! i))"
  obtain W ls' where ls: "ls = W # ls'" using I by (cases ls) auto
  show "ls[i := l] \<noteq> [] \<and> ((\<forall>k < test_begun (hd (ls[i := l])). ok k) \<longrightarrow> test_inv g' (ls[i := l]))"
  proof (cases i)
    case 0
    have "test_begun W \<le> test_begun l" using test_begun_mono out ls 0 by simp
    with 0 I test_inv_writer [of g W ls' g' l i] out ls show ?thesis by auto
  next
    case (Suc n)
    with test_inv_reader [of g W ls' n g' l i] I i out ls show ?thesis by auto
  qed
qed

text \<open>The check of the fuzz test never fails.\<close>

lemma test_never_fails:
  assumes "reach (test_thread load_start load_step store_start store_step) (test_init s0) (g, ls)"
    and "\<And>k. k < test_begun (hd ls) \<Longrightarrow> ok k"
  shows "TFailed \<notin> set ls"
proof -
  have "test_inv g ls" using thread_inv.reach_inv [OF test_thread_inv assms(1)] assms(2) by blast
  then obtain W ls' js where ls: "ls = W # ls'" and W: "test_role W" and L: "list_all2 (test_reads (test_done W)) js ls'"
    unfolding test_inv_def by blast
  have "l \<noteq> TFailed" if "l \<in> set ls'" for l
    using L that by (auto simp: list_all2_conv_all_nth in_set_conv_nth)
  then show ?thesis using ls W by auto
qed

end

end
