(* ===== verification/Seqlock_Register.thy ===== *)
theory Seqlock_Register
  imports Seqlock_Client
begin

text \<open>
  What the \<open>Seqlock\<close> classes promise to any program of one writer and any number of readers, and not only to the two
  programs of the repository, whose values can often be told apart field by field: a load never mixes the fields of two
  stores. It is proved once for every class that keeps the contract of the locale \<open>seqlock\<close>.
\<close>

section \<open>The clients\<close>

text \<open>
  The writer stores a list of values, one after the other; \<open>begun\<close> and \<open>completed\<close> count its stores. A reader loads as
  often as it likes, and logs for each load how many stores were complete when it began, what it returned, and how many
  stores had begun by then.
\<close>

record 's register_state =
  register :: 's
  begun :: nat
  completed :: nat

type_synonym load_log = "(nat \<times> data \<times> nat) list"

datatype ('r, 'w) register_pc =
    Reader load_log
  | Reading nat 'r load_log
  | Writer
  | Writing 'w

fun register_thread :: "data list \<Rightarrow> 'r \<Rightarrow> ('s \<Rightarrow> 'r \<Rightarrow> ('s \<times> ('r + data)) list)
    \<Rightarrow> 'w \<Rightarrow> (data \<Rightarrow> 's \<Rightarrow> 'w \<Rightarrow> ('s \<times> 'w option) list) \<Rightarrow> ('s register_state, ('r, 'w) register_pc) thread" where
  "register_thread vs lstart ld sstart st t g (Reader log) = [(g, Reading (completed g) lstart log)]"
| "register_thread vs lstart ld sstart st t g (Reading j p log) = map (\<lambda>(s', r). (g\<lparr>register := s'\<rparr>,
       case r of Inl p' \<Rightarrow> Reading j p' log | Inr v \<Rightarrow> Reader (log @ [(j, v, begun g)]))) (ld (register g) p)"
| "register_thread vs lstart ld sstart st t g Writer =
     (if begun g < length vs then [(g\<lparr>begun := begun g + 1\<rparr>, Writing sstart)] else [])"
| "register_thread vs lstart ld sstart st t g (Writing p) = map (\<lambda>(s', r).
       case r of Some p' \<Rightarrow> (g\<lparr>register := s'\<rparr>, Writing p')
       | None \<Rightarrow> (g\<lparr>register := s', completed := begun g\<rparr>, Writer)) (st (vs ! (begun g - 1)) (register g) p)"

definition register_init :: "'s \<Rightarrow> nat \<Rightarrow> ('s register_state, ('r, 'w) register_pc) conf" where
  "register_init s0 readers = (\<lparr>register = s0, begun = 0, completed = 0\<rparr>, Writer # replicate readers (Reader []))"

text \<open>The value after \<open>k\<close> stores.\<close>

definition stored_value :: "data list \<Rightarrow> nat \<Rightarrow> data" where
  "stored_value vs k = (if 1 \<le> k \<and> k \<le> length vs then vs ! (k - 1) else zero_data)"

text \<open>
  The value of a load was not overwritten before the load began, and its store began before the load returned.
\<close>

definition load_whole :: "data list \<Rightarrow> nat \<times> data \<times> nat \<Rightarrow> bool" where
  "load_whole vs x \<longleftrightarrow> (case x of (j, v, b) \<Rightarrow> list_ex (\<lambda>k. v = stored_value vs k) [j..<Suc b])"

fun load_log :: "('r, 'w) register_pc \<Rightarrow> load_log" where
  "load_log (Reader log) = log"
| "load_log (Reading j p log) = log"
| "load_log _ = []"

section \<open>No load is torn\<close>

fun reading :: "('r, 'w) register_pc \<Rightarrow> (nat \<times> 'r) option" where
  "reading (Reading j p log) = Some (j, p)"
| "reading _ = None"

fun writing :: "('r, 'w) register_pc \<Rightarrow> 'w option" where
  "writing (Writing p) = Some p"
| "writing _ = None"

fun is_reader :: "('r, 'w) register_pc \<Rightarrow> bool" where
  "is_reader (Reader log) = True"
| "is_reader (Reading j p log) = True"
| "is_reader _ = False"

definition three_fields :: "data list \<Rightarrow> bool" where
  "three_fields vs \<longleftrightarrow> list_all (\<lambda>v. length v = 3) vs"

lemma stored_value_simps:
  "stored_value vs 0 = zero_data"
  "k < length vs \<Longrightarrow> stored_value vs (Suc k) = vs ! k"
  "three_fields vs \<Longrightarrow> length (stored_value vs k) = 3"
  by (auto simp: stored_value_def three_fields_def list_all_length zero_data_def make_data_def)

context seqlock
begin

definition register_inv :: "data list \<Rightarrow> 's register_state \<Rightarrow> ('r, 'w) register_pc list \<Rightarrow> bool" where
  "register_inv vs g ls \<longleftrightarrow> (\<exists>W ls'. ls = W # ls' \<and> \<not> is_reader W \<and>
     begun g = completed g + of_bool (writing W \<noteq> None) \<and> begun g \<le> length vs \<and>
     list_all (\<lambda>l. is_reader l \<and> list_all (load_whole vs) (load_log l)) ls' \<and>
     Inv (stored_value vs) (completed g) (writing W) (register g) (map reading ls'))"

lemma register_start:
  assumes "three_fields vs"
  shows "register_inv vs (fst (register_init s0 n)) (snd (register_init s0 n))"
proof -
  have "Inv (stored_value vs) 0 None s0 (replicate n None)"
    by (rule Inv_init) (simp_all add: stored_value_simps assms)
  then show ?thesis by (simp add: register_inv_def register_init_def)
qed

lemma writer_moves:
  assumes ok: "\<And>k. k < length vs \<Longrightarrow> ok k" and I: "register_inv vs g (W # ls')"
    and st: "(g', W') \<in> set (register_thread vs load_start load_step store_start store_step t g W)"
  shows "register_inv vs g' (W' # ls')"
proof -
  from I have W: "\<not> is_reader W" "begun g = completed g + of_bool (writing W \<noteq> None)" "begun g \<le> length vs"
    and L: "list_all (\<lambda>l. is_reader l \<and> list_all (load_whole vs) (load_log l)) ls'"
    and J: "Inv (stored_value vs) (completed g) (writing W) (register g) (map reading ls')"
    by (auto simp: register_inv_def)
  show ?thesis
  proof (cases W)
    case Writer
    with st have "begun g < length vs" "g' = g\<lparr>begun := begun g + 1\<rparr>" "W' = Writing store_start"
      by (auto split: if_splits)
    with Writer W L J ok [of "completed g"] begin_store show ?thesis by (simp add: register_inv_def)
  next
    case (Writing p)
    then have b: "begun g = Suc (completed g)" and lt: "completed g < length vs" using W by auto
    from st Writing obtain s' r where a: "(s', r) \<in> set (store_step (vs ! completed g) (register g) p)"
      and e: "(g', W') = (case r of Some p' \<Rightarrow> (g\<lparr>register := s'\<rparr>, Writing p')
        | None \<Rightarrow> (g\<lparr>register := s', completed := Suc (completed g)\<rparr>, Writer))" by (auto simp: b)
    have "Inv (stored_value vs) (completed g) (Some p) (register g) (map reading ls')" using J Writing by simp
    note S = store [OF this ok [OF lt] a [folded stored_value_simps(2) [OF lt]]]
    show ?thesis
    proof (cases r)
      case None
      with e S W L b lt show ?thesis by (simp add: register_inv_def)
    next
      case (Some p')
      with e S W L b lt show ?thesis by (simp add: register_inv_def)
    qed
  qed (use W in simp_all)
qed

lemma reader_moves:
  assumes I: "register_inv vs g (W # ls')" and i: "i < length ls'"
    and st: "(g', l) \<in> set (register_thread vs load_start load_step store_start store_step t g (ls' ! i))"
  shows "register_inv vs g' (W # ls'[i := l])"
proof -
  from I have W: "\<not> is_reader W" "begun g = completed g + of_bool (writing W \<noteq> None)" "begun g \<le> length vs"
    and L: "list_all (\<lambda>l. is_reader l \<and> list_all (load_whole vs) (load_log l)) ls'"
    and J: "Inv (stored_value vs) (completed g) (writing W) (register g) (map reading ls')"
    by (auto simp: register_inv_def)
  have li: "is_reader (ls' ! i)" "list_all (load_whole vs) (load_log (ls' ! i))" using L i by (simp_all add: list_all_length)
  have ri: "i < length (map reading ls')" "map reading ls' ! i = reading (ls' ! i)" using i by simp_all
  have "is_reader l \<and> list_all (load_whole vs) (load_log l) \<and> begun g' = begun g \<and> completed g' = completed g \<and>
      Inv (stored_value vs) (completed g) (writing W) (register g') ((map reading ls')[i := reading l])"
  proof (cases "ls' ! i")
    case (Reader log)
    with st li begin_load [OF J ri(1)] ri show ?thesis by simp
  next
    case (Reading j p log)
    with st obtain s' r where a: "(s', r) \<in> set (load_step (register g) p)" and g': "g' = g\<lparr>register := s'\<rparr>"
      and l: "l = (case r of Inl p' \<Rightarrow> Reading j p' log | Inr v \<Rightarrow> Reader (log @ [(j, v, begun g)]))" by auto
    note A = load [OF J ri(1) _ a]
    show ?thesis
    proof (cases r)
      case (Inl p')
      with A ri Reading li g' l show ?thesis by simp
    next
      case (Inr v)
      with A ri Reading W(2) obtain k where "j \<le> k" "k \<le> begun g" "v = stored_value vs k" by auto
      then have "load_whole vs (j, v, begun g)" by (auto simp: load_whole_def list_ex_iff)
      with Inr A ri Reading li g' l show ?thesis by simp
    qed
  qed (use li in simp_all)
  then show ?thesis using W L by (simp add: register_inv_def list_all_upd map_update)
qed

lemma register_runs:
  assumes "three_fields vs" and "\<And>k. k < length vs \<Longrightarrow> ok k"
  shows "thread_inv (register_thread vs load_start load_step store_start store_step) (register_init s0 n) (register_inv vs)"
proof
  show "register_inv vs (fst (register_init s0 n)) (snd (register_init s0 n))" by (rule register_start [OF assms(1)])
next
  fix g ls i g' l
  assume I: "register_inv vs g ls" and i: "i < length ls"
    and st: "(g', l) \<in> set (register_thread vs load_start load_step store_start store_step i g (ls ! i))"
  from I obtain W ls' where ls: "ls = W # ls'" by (auto simp: register_inv_def)
  show "register_inv vs g' (ls[i := l])"
  proof (cases i)
    case 0
    with writer_moves [OF assms(2)] I st ls show ?thesis by simp
  next
    case (Suc k)
    with reader_moves [of vs g W ls' k g' l i] I st ls i show ?thesis by simp
  qed
qed

lemma loads_whole:
  assumes "three_fields vs" and "\<And>k. k < length vs \<Longrightarrow> ok k"
    and "reach (register_thread vs load_start load_step store_start store_step) (register_init s0 n) (g, ls)" and "l \<in> set ls"
  shows "list_all (load_whole vs) (load_log l)"
proof -
  have "register_inv vs g ls" by (rule thread_inv.reach_inv [OF register_runs assms(3)]) (use assms in auto)
  then obtain W ls' where ls: "ls = W # ls'" "\<not> is_reader W"
    and L: "list_all (\<lambda>l. is_reader l \<and> list_all (load_whole vs) (load_log l)) ls'"
    by (auto simp: register_inv_def)
  from assms(4) ls consider "l = W" | "l \<in> set ls'" by auto
  then show ?thesis
  proof cases
    case 1
    with ls(2) show ?thesis by (cases W) simp_all
  next
    case 2
    with L show ?thesis by (auto simp: list_all_iff)
  qed
qed

end

end
