(* ===== verification/Seqlock_Counters.thy ===== *)
theory Seqlock_Counters
  imports Seqlock_Register Spinlocks
begin

text \<open>
  The three classes that are sequence locks proper: SeqLock/seqlock_naive (a 32-bit counter),
  SeqLock/seqlock_rigtorp/rigtorp (a counter of type \<open>size_t\<close>) and SeqLock/seqlock_spinlock (a counter of
  type \<open>uintptr_t\<close> and a spin lock for the writers). The counters are words and wrap.
\<close>

unbundle bit_operations_syntax

section \<open>What a counter tells\<close>

text \<open>
  \<open>ver\<close> is the number of increments so far and \<open>c\<close> the counter. A reader that has read the
  counter has \<open>(f, i, acc)\<close>: the value it saw and the first \<open>i\<close> fields. If no increment has
  happened since and the value was even, the fields belong to one store.
\<close>

fun reader_ok :: "(nat \<Rightarrow> data) \<Rightarrow> nat \<Rightarrow> nat \<Rightarrow> ('a::len word \<times> nat \<times> data) option \<Rightarrow> bool" where
  "reader_ok vals ver j None = (2 * j \<le> ver)"
| "reader_ok vals ver j (Some (f, i, acc)) = (\<exists>v0. f = of_nat v0 \<and> 2 * j \<le> v0 \<and> v0 \<le> ver \<and>
     (even v0 \<and> ver = v0 \<longrightarrow> acc = take i (vals (v0 div 2))))"

definition seq_inv :: "(nat \<Rightarrow> data) \<Rightarrow> nat \<Rightarrow> 'a::len word \<Rightarrow> data
    \<Rightarrow> (nat \<times> ('a word \<times> nat \<times> data) option) option list \<Rightarrow> bool" where
  "seq_inv vals ver c sh rv \<longleftrightarrow> (\<forall>k. length (vals k) = 3) \<and> ver < 2 ^ LENGTH('a) \<and> c = of_nat ver \<and>
     length sh = 3 \<and> (even ver \<longrightarrow> sh = vals (ver div 2)) \<and>
     list_all (\<lambda>x. case x of None \<Rightarrow> True | Some (j, r) \<Rightarrow> reader_ok vals ver j r) rv"

lemma seq_init:
  "\<lbrakk>vals 0 = zero_data; \<And>k. length (vals k) = 3\<rbrakk> \<Longrightarrow> seq_inv vals 0 0 zero_data (replicate n None)"
  by (simp add: seq_inv_def zero_data_def make_data_def)

lemma reader_ok_mono: "reader_ok vals ver j r \<Longrightarrow> ver \<le> ver' \<Longrightarrow> reader_ok vals ver' j r"
  by (cases "(vals, ver, j, r)" rule: reader_ok.cases) fastforce+

lemma seq_bump:
  assumes "seq_inv vals ver (c :: 'a::len word) sh rv" "Suc ver < 2 ^ LENGTH('a)"
    "even (Suc ver) \<Longrightarrow> sh = vals (Suc ver div 2)"
  shows "seq_inv vals (Suc ver) (c + 1) sh rv"
proof -
  have "list_all (\<lambda>x. case x of None \<Rightarrow> True | Some (j, r) \<Rightarrow> reader_ok vals (Suc ver) j r) rv"
    using assms(1) by (auto simp: seq_inv_def elim!: list.pred_mono_strong split: option.splits
        intro: reader_ok_mono [of vals ver])
  then show ?thesis using assms by (simp add: seq_inv_def)
qed

lemma seq_write: "seq_inv vals ver c sh rv \<Longrightarrow> odd ver \<Longrightarrow> seq_inv vals ver c (sh[i := x]) rv"
  by (simp add: seq_inv_def)

lemma seq_reader:
  "seq_inv vals ver c sh rv \<Longrightarrow> (case x of None \<Rightarrow> True | Some (j, r) \<Rightarrow> reader_ok vals ver j r) \<Longrightarrow>
     seq_inv vals ver c sh (rv[i := x])"
  by (simp add: seq_inv_def list_all_upd)

lemma seq_at:
  "seq_inv vals ver c sh rv \<Longrightarrow> i < length rv \<Longrightarrow> rv ! i = Some (j, r) \<Longrightarrow> reader_ok vals ver j r"
  by (auto simp: seq_inv_def list_all_length)

lemma reader_bound: "reader_ok vals ver j r \<Longrightarrow> 2 * j \<le> ver"
  by (cases "(vals, ver, j, r)" rule: reader_ok.cases) auto

lemma seq_open:
  assumes "seq_inv vals ver c sh rv" "i < length rv" "rv ! i = Some (j, r)"
  shows "seq_inv vals ver c sh (rv[i := Some (j, Some (c, 0, []))])"
proof -
  have "2 * j \<le> ver" using seq_at [OF assms] by (rule reader_bound)
  then show ?thesis using assms(1) by (intro seq_reader) (auto simp: seq_inv_def)
qed

lemma seq_retry:
  assumes "seq_inv vals ver c sh rv" "i < length rv" "rv ! i = Some (j, r)"
  shows "seq_inv vals ver c sh (rv[i := Some (j, None)])"
  using assms(1) reader_bound [OF seq_at [OF assms]] by (intro seq_reader) simp_all

lemma seq_field:
  assumes inv: "seq_inv vals ver c sh rv" and i: "i < length rv" and r: "rv ! i = Some (j, Some (f, k, acc))"
    and k: "k < 3"
  shows "seq_inv vals ver c sh (rv[i := Some (j, Some (f, Suc k, acc @ [sh ! k]))])"
proof -
  from seq_at [OF inv i r] obtain v0 where v0: "f = of_nat v0" "2 * j \<le> v0" "v0 \<le> ver"
    "even v0 \<and> ver = v0 \<longrightarrow> acc = take k (vals (v0 div 2))" by auto
  have "even v0 \<and> ver = v0 \<longrightarrow> acc @ [sh ! k] = take (Suc k) (vals (v0 div 2))"
    using v0(4) inv k by (auto simp: seq_inv_def take_Suc_conv_app_nth)
  with v0 have "reader_ok vals ver j (Some (f, Suc k, acc @ [sh ! k]))" by auto
  with inv show ?thesis by (intro seq_reader) simp_all
qed

text \<open>The lowest bit of the counter is the parity of the number of increments.\<close>

lemma of_nat_and_one: "v < 2 ^ LENGTH('a) \<Longrightarrow> (of_nat v :: 'a::len word) AND 1 = 0 \<longleftrightarrow> even v"
proof -
  assume v: "v < 2 ^ LENGTH('a)"
  have "bit (unat (of_nat v :: 'a word)) 0 \<longleftrightarrow> bit (of_nat v :: 'a word) 0"
    by (simp add: bit_unsigned_iff del: bit_0)
  then have "even (of_nat v :: 'a word) \<longleftrightarrow> even v"
    using v by (simp add: bit_0 unat_of_nat)
  then show ?thesis by (simp add: and_one_eq even_iff_mod_2_eq_zero)
qed

lemma and_one_cases: "(f :: 'a::len word) AND 1 = 1 \<longleftrightarrow> f AND 1 \<noteq> 0"
  by (simp add: and_one_eq)

lemma seq_done:
  fixes c :: "'a::len word"
  assumes inv: "seq_inv vals ver c sh rv" and i: "i < length rv" and r: "rv ! i = Some (j, Some (c, 3, acc))"
    and e: "c AND 1 = 0"
  shows "even ver \<and> j \<le> ver div 2 \<and> acc = vals (ver div 2)"
proof -
  from inv have ver: "ver < 2 ^ LENGTH('a)" "c = of_nat ver" "length (vals k) = 3" for k
    by (auto simp: seq_inv_def)
  from seq_at [OF inv i r] obtain v0 where v0: "c = of_nat v0" "2 * j \<le> v0" "v0 \<le> ver"
    "even v0 \<and> ver = v0 \<longrightarrow> acc = take 3 (vals (v0 div 2))" by auto
  have "(of_nat ver :: 'a word) = of_nat v0" using ver(2) v0(1) by simp
  then have "ver mod 2 ^ LENGTH('a) = v0 mod 2 ^ LENGTH('a)" by (metis unat_of_nat)
  then have "ver = v0" using ver(1) v0(3) by simp
  moreover have "even ver" using of_nat_and_one [OF ver(1)] e ver(2) by simp
  ultimately show ?thesis using v0 ver(3) by (auto simp: dvd_def)
qed

text \<open>The view of a list of readers, and its update.\<close>

definition view :: "('r \<Rightarrow> ('a::len word \<times> nat \<times> data) option) \<Rightarrow> (nat \<times> 'r) option list
    \<Rightarrow> (nat \<times> ('a word \<times> nat \<times> data) option) option list" where
  "view v rs = map (map_option (\<lambda>(j, p). (j, v p))) rs"

lemma view_simps [simp]:
  "length (view v rs) = length rs"
  "view v (replicate n None) = replicate n None"
  "view v (rs[i := Some (j, p)]) = (view v rs)[i := Some (j, v p)]"
  "view v (rs[i := None]) = (view v rs)[i := None]"
  "i < length rs \<Longrightarrow> view v rs ! i = map_option (\<lambda>(j, p). (j, v p)) (rs ! i)"
  by (simp_all add: view_def map_update)

section \<open>seqlock_naive\<close>

record naive_state =
  mCounter :: "32 word"
  mSharedValue :: data

datatype naive_r = NStart | NCopy "32 word" nat data
datatype naive_w = NInc | NWrite nat

definition naive_new :: naive_state where
  "naive_new = \<lparr>mCounter = 0, mSharedValue = zero_data\<rparr>"

text \<open>The copy of the three fields is followed by the second load of the counter.\<close>

fun naive_load :: "naive_state \<Rightarrow> naive_r \<Rightarrow> (naive_state \<times> (naive_r + data)) list" where
  "naive_load s NStart =
     [(s, Inl (if mCounter s AND 1 = 1 then NStart else NCopy (mCounter s) 0 []))]"
| "naive_load s (NCopy startFlag i copy) =
     (if i < 3 then [(s, Inl (NCopy startFlag (i + 1) (copy @ [mSharedValue s ! i])))]
      else [(s, if startFlag = mCounter s then Inr copy else Inl NStart)])"

fun naive_store :: "data \<Rightarrow> naive_state \<Rightarrow> naive_w \<Rightarrow> (naive_state \<times> naive_w option) list" where
  "naive_store aValue s NInc = [(s\<lparr>mCounter := mCounter s + 1\<rparr>, Some (NWrite 0))]"
| "naive_store aValue s (NWrite i) =
     (if i < 3 then [(s\<lparr>mSharedValue := (mSharedValue s)[i := aValue ! i]\<rparr>, Some (NWrite (i + 1)))]
      else [(s\<lparr>mCounter := mCounter s + 1\<rparr>, None)])"

text \<open>The counter is back at its start after \<open>2 ^ 31\<close> stores; fewer are allowed.\<close>

definition naive_ok :: "nat \<Rightarrow> bool" where
  "naive_ok m \<longleftrightarrow> 2 * m + 2 < 2 ^ 32"

fun naive_view :: "naive_r \<Rightarrow> (32 word \<times> nat \<times> data) option" where
  "naive_view NStart = None"
| "naive_view (NCopy f i acc) = Some (f, i, acc)"

fun naive_flag :: "naive_r \<Rightarrow> bool" where
  "naive_flag NStart = True"
| "naive_flag (NCopy f i acc) = (f AND 1 = 0 \<and> i \<le> 3)"

fun naive_ver :: "nat \<Rightarrow> naive_w option \<Rightarrow> nat" where
  "naive_ver m (Some (NWrite i)) = 2 * m + 1"
| "naive_ver m _ = 2 * m"

fun naive_cells :: "data \<Rightarrow> naive_w option \<Rightarrow> data \<Rightarrow> bool" where
  "naive_cells v (Some (NWrite i)) sh = (i \<le> 3 \<and> take i sh = take i v)"
| "naive_cells v _ sh = True"

definition naive_inv :: "(nat \<Rightarrow> data) \<Rightarrow> nat \<Rightarrow> naive_w option \<Rightarrow> naive_state
    \<Rightarrow> (nat \<times> naive_r) option list \<Rightarrow> bool" where
  "naive_inv vals m w s rs \<longleftrightarrow>
     seq_inv vals (naive_ver m w) (mCounter s) (mSharedValue s) (view naive_view rs) \<and>
     naive_cells (vals (Suc m)) w (mSharedValue s) \<and>
     list_all (\<lambda>x. case x of None \<Rightarrow> True | Some (j, p) \<Rightarrow> naive_flag p) rs"

lemma take_Suc_eq: "take (Suc i) (xs[i := ys ! i]) = take (Suc i) ys"
  if "take i xs = take i ys" "i < length xs" "length xs = length ys"
  using that by (simp add: take_Suc_conv_app_nth)

lemma naive_loads:
  fixes rs :: "(nat \<times> naive_r) option list"
  assumes I: "naive_inv vals m w s rs" and i: "i < length rs" and ri: "rs ! i = Some (j, p)"
    and st: "(s', r) \<in> set (naive_load s p)"
  shows "case r of Inl p' \<Rightarrow> naive_inv vals m w s' (rs[i := Some (j, p')])
     | Inr v \<Rightarrow> naive_inv vals m w s' (rs[i := None]) \<and>
         (\<exists>k. j \<le> k \<and> k \<le> m + of_bool (w \<noteq> None) \<and> v = vals k)"
proof -
  have S: "seq_inv vals (naive_ver m w) (mCounter s) (mSharedValue s) (view naive_view rs)"
    and fl: "naive_flag p" using I i ri by (auto simp: naive_inv_def list_all_length)
  have iv: "i < length (view naive_view rs)" and rv: "view naive_view rs ! i = Some (j, naive_view p)"
    using i ri by simp_all
  show ?thesis
  proof (cases p)
    case NStart
    with st I seq_open [OF S iv rv] seq_retry [OF S iv rv] show ?thesis
      by (auto simp: naive_inv_def and_one_cases split: if_splits intro!: list_all_upd)
  next
    case (NCopy f k acc)
    show ?thesis
    proof (cases "k < 3")
      case True
      with NCopy st I fl seq_field [OF S iv _ True, of j f acc] rv show ?thesis
        by (auto simp: naive_inv_def intro!: list_all_upd)
    next
      case False
      then have k: "k = 3" using fl NCopy by simp
      show ?thesis
      proof (cases "f = mCounter s")
        case True
        have "even (naive_ver m w) \<and> j \<le> naive_ver m w div 2 \<and> acc = vals (naive_ver m w div 2)"
          using seq_done [OF S iv, of j acc] rv NCopy True k fl by simp
        moreover from this have "naive_ver m w div 2 = m"
          by (cases "(m, w)" rule: naive_ver.cases) auto
        moreover have "seq_inv vals (naive_ver m w) (mCounter s) (mSharedValue s) ((view naive_view rs)[i := None])"
          using S by (intro seq_reader) auto
        ultimately show ?thesis
          using NCopy st I k True by (auto simp: naive_inv_def intro!: list_all_upd)
      next
        case False
        with NCopy st I k seq_retry [OF S iv rv] show ?thesis
          by (auto simp: naive_inv_def intro!: list_all_upd)
      qed
    qed
  qed
qed

lemma naive_stores:
  fixes rs :: "(nat \<times> naive_r) option list"
  assumes I: "naive_inv vals m (Some q) s rs" and ok: "naive_ok m"
    and st: "(s', t) \<in> set (naive_store (vals (Suc m)) s q)"
  shows "case t of Some q' \<Rightarrow> naive_inv vals m (Some q') s' rs | None \<Rightarrow> naive_inv vals (Suc m) None s' rs"
proof -
  have S: "seq_inv vals (naive_ver m (Some q)) (mCounter s) (mSharedValue s) (view naive_view rs)"
    and L: "length (mSharedValue s) = 3" "length (vals (Suc m)) = 3"
    using I by (auto simp: naive_inv_def seq_inv_def)
  show ?thesis
  proof (cases q)
    case NInc
    with st I ok seq_bump [OF S] show ?thesis by (auto simp: naive_inv_def naive_ok_def)
  next
    case (NWrite i)
    show ?thesis
    proof (cases "i < 3")
      case True
      with NWrite st I L seq_write [OF S, of i] show ?thesis
        by (auto simp: naive_inv_def take_Suc_eq)
    next
      case False
      then have "mSharedValue s = vals (Suc m)" using NWrite I L by (simp add: naive_inv_def)
      with False NWrite st I ok seq_bump [OF S] show ?thesis
        by (auto simp: naive_inv_def naive_ok_def)
    qed
  qed
qed

interpretation naive: seqlock NStart naive_load NInc naive_store naive_new naive_ok naive_inv
proof
  show "naive_inv vals 0 None naive_new (replicate n None)"
    if "vals 0 = zero_data" "\<And>k. length (vals k) = 3" for vals n
    using seq_init [of vals n] that by (simp add: naive_inv_def naive_new_def)
next
  fix vals m w s i j and rs :: "(nat \<times> naive_r) option list"
  assume I: "naive_inv vals m w s rs" and i: "i < length rs" "rs ! i = None"
  have "2 * m \<le> naive_ver m w" by (cases "(m, w)" rule: naive_ver.cases) auto
  with I show "naive_inv vals m w s (rs[i := Some (m, NStart)])"
    by (auto simp: naive_inv_def intro!: seq_reader list_all_upd)
next
  fix vals m w s i j p s' r and rs :: "(nat \<times> naive_r) option list"
  assume I: "naive_inv vals m w s rs" and i: "i < length rs" and ri: "rs ! i = Some (j, p)"
    and st: "(s', r) \<in> set (naive_load s p)"
  then show "case r of Inl p' \<Rightarrow> naive_inv vals m w s' (rs[i := Some (j, p')])
     | Inr v \<Rightarrow> naive_inv vals m w s' (rs[i := None]) \<and>
         (\<exists>k. j \<le> k \<and> k \<le> m + of_bool (w \<noteq> None) \<and> v = vals k)" by (rule naive_loads)
next
  show "naive_inv vals m (Some NInc) s rs" if "naive_inv vals m None s rs" "naive_ok m" for vals m s rs
    using that by (simp add: naive_inv_def)
next
  fix vals m q s t s' and rs :: "(nat \<times> naive_r) option list"
  assume I: "naive_inv vals m (Some q) s rs" and ok: "naive_ok m"
    and st: "(s', t) \<in> set (naive_store (vals (Suc m)) s q)"
  then show "case t of Some q' \<Rightarrow> naive_inv vals m (Some q') s' rs | None \<Rightarrow> naive_inv vals (Suc m) None s' rs" by (rule naive_stores)
next
  show "naive_ok m" if "m < 2" for m using that by (simp add: naive_ok_def)
qed

section \<open>seqlock_rigtorp\<close>

record rigtorp_state =
  rig_seq :: u64
  rig_value :: data

datatype rigtorp_r = RStart | RCopy u64 nat data
datatype rigtorp_w = GLoad | GOpen u64 | GWrite u64 nat

definition rigtorp_new :: rigtorp_state where
  "rigtorp_new = \<lparr>rig_seq = 0, rig_value = zero_data\<rparr>"

text \<open>The copy is made also when the counter is odd; the check at the end rejects it.\<close>

fun rigtorp_load :: "rigtorp_state \<Rightarrow> rigtorp_r \<Rightarrow> (rigtorp_state \<times> (rigtorp_r + data)) list" where
  "rigtorp_load s RStart = [(s, Inl (RCopy (rig_seq s) 0 []))]"
| "rigtorp_load s (RCopy seq0 i copy) =
     (if i < 3 then [(s, Inl (RCopy seq0 (i + 1) (copy @ [rig_value s ! i])))]
      else [(s, if seq0 \<noteq> rig_seq s \<or> seq0 AND 1 \<noteq> 0 then Inl RStart else Inr copy)])"

fun rigtorp_store :: "data \<Rightarrow> rigtorp_state \<Rightarrow> rigtorp_w \<Rightarrow> (rigtorp_state \<times> rigtorp_w option) list" where
  "rigtorp_store desired s GLoad = [(s, Some (GOpen (rig_seq s)))]"
| "rigtorp_store desired s (GOpen seq0) = [(s\<lparr>rig_seq := seq0 + 1\<rparr>, Some (GWrite seq0 0))]"
| "rigtorp_store desired s (GWrite seq0 i) =
     (if i < 3 then [(s\<lparr>rig_value := (rig_value s)[i := desired ! i]\<rparr>, Some (GWrite seq0 (i + 1)))]
      else [(s\<lparr>rig_seq := seq0 + 2\<rparr>, None)])"

definition rigtorp_ok :: "nat \<Rightarrow> bool" where
  "rigtorp_ok m \<longleftrightarrow> 2 * m + 2 < 2 ^ 64"

fun rigtorp_view :: "rigtorp_r \<Rightarrow> (64 word \<times> nat \<times> data) option" where
  "rigtorp_view RStart = None"
| "rigtorp_view (RCopy f i acc) = Some (f, i, acc)"

fun rigtorp_flag :: "rigtorp_r \<Rightarrow> bool" where
  "rigtorp_flag RStart = True"
| "rigtorp_flag (RCopy f i acc) = (i \<le> 3)"

fun rigtorp_ver :: "nat \<Rightarrow> rigtorp_w option \<Rightarrow> nat" where
  "rigtorp_ver m (Some (GWrite f i)) = 2 * m + 1"
| "rigtorp_ver m _ = 2 * m"

fun rigtorp_cells :: "data \<Rightarrow> u64 \<Rightarrow> rigtorp_w option \<Rightarrow> data \<Rightarrow> bool" where
  "rigtorp_cells v c (Some (GOpen f)) sh = (f = c)"
| "rigtorp_cells v c (Some (GWrite f i)) sh = (f + 1 = c \<and> i \<le> 3 \<and> take i sh = take i v)"
| "rigtorp_cells v c _ sh = True"

definition rigtorp_inv :: "(nat \<Rightarrow> data) \<Rightarrow> nat \<Rightarrow> rigtorp_w option \<Rightarrow> rigtorp_state
    \<Rightarrow> (nat \<times> rigtorp_r) option list \<Rightarrow> bool" where
  "rigtorp_inv vals m w s rs \<longleftrightarrow>
     seq_inv vals (rigtorp_ver m w) (rig_seq s) (rig_value s) (view rigtorp_view rs) \<and>
     rigtorp_cells (vals (Suc m)) (rig_seq s) w (rig_value s) \<and>
     list_all (\<lambda>x. case x of None \<Rightarrow> True | Some (j, p) \<Rightarrow> rigtorp_flag p) rs"

lemma rigtorp_loads:
  fixes rs :: "(nat \<times> rigtorp_r) option list"
  assumes I: "rigtorp_inv vals m w s rs" and i: "i < length rs" and ri: "rs ! i = Some (j, p)"
    and st: "(s', r) \<in> set (rigtorp_load s p)"
  shows "case r of Inl p' \<Rightarrow> rigtorp_inv vals m w s' (rs[i := Some (j, p')])
     | Inr v \<Rightarrow> rigtorp_inv vals m w s' (rs[i := None]) \<and>
         (\<exists>k. j \<le> k \<and> k \<le> m + of_bool (w \<noteq> None) \<and> v = vals k)"
proof -
  have S: "seq_inv vals (rigtorp_ver m w) (rig_seq s) (rig_value s) (view rigtorp_view rs)"
    and fl: "rigtorp_flag p" using I i ri by (auto simp: rigtorp_inv_def list_all_length)
  have iv: "i < length (view rigtorp_view rs)" and rv: "view rigtorp_view rs ! i = Some (j, rigtorp_view p)"
    using i ri by simp_all
  show ?thesis
  proof (cases p)
    case RStart
    with st I seq_open [OF S iv rv] show ?thesis
      by (auto simp: rigtorp_inv_def intro!: list_all_upd)
  next
    case (RCopy f k acc)
    show ?thesis
    proof (cases "k < 3")
      case True
      with RCopy st I fl seq_field [OF S iv _ True, of j f acc] rv show ?thesis
        by (auto simp: rigtorp_inv_def intro!: list_all_upd)
    next
      case False
      then have k: "k = 3" using fl RCopy by simp
      show ?thesis
      proof (cases "f = rig_seq s \<and> f AND 1 = 0")
        case True
        have "even (rigtorp_ver m w) \<and> j \<le> rigtorp_ver m w div 2 \<and> acc = vals (rigtorp_ver m w div 2)"
          using seq_done [OF S iv, of j acc] rv RCopy True k by auto
        moreover from this have "rigtorp_ver m w div 2 = m"
          by (cases "(m, w)" rule: rigtorp_ver.cases) auto
        moreover have "seq_inv vals (rigtorp_ver m w) (rig_seq s) (rig_value s) ((view rigtorp_view rs)[i := None])"
          using S by (intro seq_reader) auto
        ultimately show ?thesis
          using RCopy st I k True by (auto simp: rigtorp_inv_def intro!: list_all_upd)
      next
        case False
        with RCopy st I k seq_retry [OF S iv rv] show ?thesis
          by (auto simp: rigtorp_inv_def intro!: list_all_upd)
      qed
    qed
  qed
qed

lemma rigtorp_stores:
  fixes rs :: "(nat \<times> rigtorp_r) option list"
  assumes I: "rigtorp_inv vals m (Some q) s rs" and ok: "rigtorp_ok m"
    and st: "(s', t) \<in> set (rigtorp_store (vals (Suc m)) s q)"
  shows "case t of Some q' \<Rightarrow> rigtorp_inv vals m (Some q') s' rs | None \<Rightarrow> rigtorp_inv vals (Suc m) None s' rs"
proof -
  have S: "seq_inv vals (rigtorp_ver m (Some q)) (rig_seq s) (rig_value s) (view rigtorp_view rs)"
    and L: "length (rig_value s) = 3" "length (vals (Suc m)) = 3"
    using I by (auto simp: rigtorp_inv_def seq_inv_def)
  show ?thesis
  proof (cases q)
    case GLoad
    with st I show ?thesis by (auto simp: rigtorp_inv_def)
  next
    case (GOpen f)
    with st I ok seq_bump [OF S] show ?thesis by (auto simp: rigtorp_inv_def rigtorp_ok_def)
  next
    case (GWrite f i)
    show ?thesis
    proof (cases "i < 3")
      case True
      with GWrite st I L seq_write [OF S, of i] show ?thesis
        by (auto simp: rigtorp_inv_def take_Suc_eq)
    next
      case False
      then have "rig_value s = vals (Suc m)" "f + 2 = rig_seq s + 1"
        using GWrite I L by (auto simp: rigtorp_inv_def add.commute)
      with False GWrite st I ok seq_bump [OF S] show ?thesis
        by (auto simp: rigtorp_inv_def rigtorp_ok_def)
    qed
  qed
qed

interpretation rigtorp: seqlock RStart rigtorp_load GLoad rigtorp_store rigtorp_new rigtorp_ok rigtorp_inv
proof
  show "rigtorp_inv vals 0 None rigtorp_new (replicate n None)"
    if "vals 0 = zero_data" "\<And>k. length (vals k) = 3" for vals n
    using seq_init [of vals n] that by (simp add: rigtorp_inv_def rigtorp_new_def)
next
  fix vals m w s i j and rs :: "(nat \<times> rigtorp_r) option list"
  assume I: "rigtorp_inv vals m w s rs" and i: "i < length rs" "rs ! i = None"
  have "2 * m \<le> rigtorp_ver m w" by (cases "(m, w)" rule: rigtorp_ver.cases) auto
  with I show "rigtorp_inv vals m w s (rs[i := Some (m, RStart)])"
    by (auto simp: rigtorp_inv_def intro!: seq_reader list_all_upd)
next
  fix vals m w s i j p s' r and rs :: "(nat \<times> rigtorp_r) option list"
  assume I: "rigtorp_inv vals m w s rs" and i: "i < length rs" and ri: "rs ! i = Some (j, p)"
    and st: "(s', r) \<in> set (rigtorp_load s p)"
  then show "case r of Inl p' \<Rightarrow> rigtorp_inv vals m w s' (rs[i := Some (j, p')])
     | Inr v \<Rightarrow> rigtorp_inv vals m w s' (rs[i := None]) \<and>
         (\<exists>k. j \<le> k \<and> k \<le> m + of_bool (w \<noteq> None) \<and> v = vals k)" by (rule rigtorp_loads)
next
  show "rigtorp_inv vals m (Some GLoad) s rs" if "rigtorp_inv vals m None s rs" "rigtorp_ok m" for vals m s rs
    using that by (simp add: rigtorp_inv_def)
next
  fix vals m q s t s' and rs :: "(nat \<times> rigtorp_r) option list"
  assume I: "rigtorp_inv vals m (Some q) s rs" and ok: "rigtorp_ok m"
    and st: "(s', t) \<in> set (rigtorp_store (vals (Suc m)) s q)"
  then show "case t of Some q' \<Rightarrow> rigtorp_inv vals m (Some q') s' rs | None \<Rightarrow> rigtorp_inv vals (Suc m) None s' rs" by (rule rigtorp_stores)
next
  show "rigtorp_ok m" if "m < 2" for m using that by (simp add: rigtorp_ok_def)
qed

section \<open>seqlock_spinlock\<close>

record spin_state =
  mFlags :: u64
  mLock :: bool
  mValue :: data

datatype spin_r = SEnter | SCopy u64 nat data
datatype spin_w = SLock aflag_pc | SOpen | SWrite nat | SUnlock

definition spin_new :: spin_state where
  "spin_new = \<lparr>mFlags = 0, mLock = False, mValue = zero_data\<rparr>"

text \<open>\<open>SpinLock\<close> of this directory has the code of the waiting \<open>atomic_flag\<close> lock.\<close>

definition seq_spin_lock :: "bool \<Rightarrow> aflag_pc \<Rightarrow> (bool \<times> aflag_pc option) list" where
  "seq_spin_lock = aflag_lock"

definition seq_spin_unlock :: "bool \<Rightarrow> bool" where
  "seq_spin_unlock = aflag_unlock"

text \<open>\<open>read_enter\<close>, the copy of the three fields, \<open>read_leave\<close>.\<close>

fun spin_load :: "spin_state \<Rightarrow> spin_r \<Rightarrow> (spin_state \<times> (spin_r + data)) list" where
  "spin_load s SEnter =
     [(s, Inl (if mFlags s AND 1 = 0 then SCopy (mFlags s) 0 [] else SEnter))]"
| "spin_load s (SCopy flag i copy) =
     (if i < 3 then [(s, Inl (SCopy flag (i + 1) (copy @ [mValue s ! i])))]
      else [(s, if mFlags s = flag then Inr copy else Inl SEnter)])"

text \<open>\<open>write_lock\<close>, the copy, \<open>write_unlock\<close>.\<close>

fun spin_store :: "data \<Rightarrow> spin_state \<Rightarrow> spin_w \<Rightarrow> (spin_state \<times> spin_w option) list" where
  "spin_store aValue s (SLock p) = map (\<lambda>(f, r). (s\<lparr>mLock := f\<rparr>,
       Some (case r of Some p' \<Rightarrow> SLock p' | None \<Rightarrow> SOpen))) (seq_spin_lock (mLock s) p)"
| "spin_store aValue s SOpen = [(s\<lparr>mFlags := mFlags s + 1\<rparr>, Some (SWrite 0))]"
| "spin_store aValue s (SWrite i) =
     (if i < 3 then [(s\<lparr>mValue := (mValue s)[i := aValue ! i]\<rparr>, Some (SWrite (i + 1)))]
      else [(s\<lparr>mFlags := mFlags s + 1\<rparr>, Some SUnlock)])"
| "spin_store aValue s SUnlock = [(s\<lparr>mLock := seq_spin_unlock (mLock s)\<rparr>, None)]"

definition spin_ok :: "nat \<Rightarrow> bool" where
  "spin_ok m \<longleftrightarrow> 2 * m + 2 < 2 ^ 64"

fun spin_view :: "spin_r \<Rightarrow> (64 word \<times> nat \<times> data) option" where
  "spin_view SEnter = None"
| "spin_view (SCopy f i acc) = Some (f, i, acc)"

fun spin_flag :: "spin_r \<Rightarrow> bool" where
  "spin_flag SEnter = True"
| "spin_flag (SCopy f i acc) = (f AND 1 = 0 \<and> i \<le> 3)"

fun spin_ver :: "nat \<Rightarrow> spin_w option \<Rightarrow> nat" where
  "spin_ver m (Some (SWrite i)) = 2 * m + 1"
| "spin_ver m (Some SUnlock) = 2 * m + 2"
| "spin_ver m _ = 2 * m"

fun spin_cells :: "data \<Rightarrow> spin_w option \<Rightarrow> data \<Rightarrow> bool" where
  "spin_cells v (Some (SWrite i)) sh = (i \<le> 3 \<and> take i sh = take i v)"
| "spin_cells v _ sh = True"

definition spin_inv :: "(nat \<Rightarrow> data) \<Rightarrow> nat \<Rightarrow> spin_w option \<Rightarrow> spin_state
    \<Rightarrow> (nat \<times> spin_r) option list \<Rightarrow> bool" where
  "spin_inv vals m w s rs \<longleftrightarrow>
     seq_inv vals (spin_ver m w) (mFlags s) (mValue s) (view spin_view rs) \<and>
     spin_cells (vals (Suc m)) w (mValue s) \<and>
     list_all (\<lambda>x. case x of None \<Rightarrow> True | Some (j, p) \<Rightarrow> spin_flag p) rs"

lemma spin_loads:
  fixes rs :: "(nat \<times> spin_r) option list"
  assumes I: "spin_inv vals m w s rs" and i: "i < length rs" and ri: "rs ! i = Some (j, p)"
    and st: "(s', r) \<in> set (spin_load s p)"
  shows "case r of Inl p' \<Rightarrow> spin_inv vals m w s' (rs[i := Some (j, p')])
     | Inr v \<Rightarrow> spin_inv vals m w s' (rs[i := None]) \<and>
         (\<exists>k. j \<le> k \<and> k \<le> m + of_bool (w \<noteq> None) \<and> v = vals k)"
proof -
  have S: "seq_inv vals (spin_ver m w) (mFlags s) (mValue s) (view spin_view rs)"
    and fl: "spin_flag p" using I i ri by (auto simp: spin_inv_def list_all_length)
  have iv: "i < length (view spin_view rs)" and rv: "view spin_view rs ! i = Some (j, spin_view p)"
    using i ri by simp_all
  show ?thesis
  proof (cases p)
    case SEnter
    with st I seq_open [OF S iv rv] seq_retry [OF S iv rv] show ?thesis
      by (auto simp: spin_inv_def split: if_splits intro!: list_all_upd)
  next
    case (SCopy f k acc)
    show ?thesis
    proof (cases "k < 3")
      case True
      with SCopy st I fl seq_field [OF S iv _ True, of j f acc] rv show ?thesis
        by (auto simp: spin_inv_def intro!: list_all_upd)
    next
      case False
      then have k: "k = 3" using fl SCopy by simp
      show ?thesis
      proof (cases "f = mFlags s")
        case True
        have "even (spin_ver m w) \<and> j \<le> spin_ver m w div 2 \<and> acc = vals (spin_ver m w div 2)"
          using seq_done [OF S iv, of j acc] rv SCopy True k fl by simp
        moreover from this have "spin_ver m w div 2 \<le> m + of_bool (w \<noteq> None)"
          by (cases "(m, w)" rule: spin_ver.cases) auto
        moreover have "seq_inv vals (spin_ver m w) (mFlags s) (mValue s) ((view spin_view rs)[i := None])"
          using S by (intro seq_reader) auto
        ultimately show ?thesis
          using SCopy st I k True by (fastforce simp: spin_inv_def intro!: list_all_upd)
      next
        case False
        with SCopy st I k seq_retry [OF S iv rv] show ?thesis
          by (auto simp: spin_inv_def intro!: list_all_upd)
      qed
    qed
  qed
qed

lemma spin_stores:
  fixes rs :: "(nat \<times> spin_r) option list"
  assumes I: "spin_inv vals m (Some q) s rs" and ok: "spin_ok m"
    and st: "(s', t) \<in> set (spin_store (vals (Suc m)) s q)"
  shows "case t of Some q' \<Rightarrow> spin_inv vals m (Some q') s' rs | None \<Rightarrow> spin_inv vals (Suc m) None s' rs"
proof -
  have S: "seq_inv vals (spin_ver m (Some q)) (mFlags s) (mValue s) (view spin_view rs)"
    and L: "length (mValue s) = 3" "length (vals (Suc m)) = 3"
    using I by (auto simp: spin_inv_def seq_inv_def)
  show ?thesis
  proof (cases q)
    case (SLock p)
    with st I show ?thesis by (auto simp: spin_inv_def split: option.splits)
  next
    case SOpen
    with st I ok seq_bump [OF S] show ?thesis by (auto simp: spin_inv_def spin_ok_def)
  next
    case (SWrite i)
    show ?thesis
    proof (cases "i < 3")
      case True
      with SWrite st I L seq_write [OF S, of i] show ?thesis
        by (auto simp: spin_inv_def take_Suc_eq)
    next
      case False
      then have "mValue s = vals (Suc m)" using SWrite I L by (simp add: spin_inv_def)
      with False SWrite st I ok seq_bump [OF S] show ?thesis
        by (auto simp: spin_inv_def spin_ok_def)
    qed
  next
    case SUnlock
    with st I show ?thesis by (auto simp: spin_inv_def)
  qed
qed

interpretation spin: seqlock SEnter spin_load "SLock TestAndSet" spin_store spin_new spin_ok spin_inv
proof
  show "spin_inv vals 0 None spin_new (replicate n None)"
    if "vals 0 = zero_data" "\<And>k. length (vals k) = 3" for vals n
    using seq_init [of vals n] that by (simp add: spin_inv_def spin_new_def)
next
  fix vals m w s i j and rs :: "(nat \<times> spin_r) option list"
  assume I: "spin_inv vals m w s rs" and i: "i < length rs" "rs ! i = None"
  have "2 * m \<le> spin_ver m w" by (cases "(m, w)" rule: spin_ver.cases) auto
  with I show "spin_inv vals m w s (rs[i := Some (m, SEnter)])"
    by (auto simp: spin_inv_def intro!: seq_reader list_all_upd)
next
  fix vals m w s i j p s' r and rs :: "(nat \<times> spin_r) option list"
  assume I: "spin_inv vals m w s rs" and i: "i < length rs" and ri: "rs ! i = Some (j, p)"
    and st: "(s', r) \<in> set (spin_load s p)"
  then show "case r of Inl p' \<Rightarrow> spin_inv vals m w s' (rs[i := Some (j, p')])
     | Inr v \<Rightarrow> spin_inv vals m w s' (rs[i := None]) \<and>
         (\<exists>k. j \<le> k \<and> k \<le> m + of_bool (w \<noteq> None) \<and> v = vals k)" by (rule spin_loads)
next
  show "spin_inv vals m (Some (SLock TestAndSet)) s rs" if "spin_inv vals m None s rs" "spin_ok m" for vals m s rs
    using that by (simp add: spin_inv_def)
next
  fix vals m q s t s' and rs :: "(nat \<times> spin_r) option list"
  assume I: "spin_inv vals m (Some q) s rs" and ok: "spin_ok m"
    and st: "(s', t) \<in> set (spin_store (vals (Suc m)) s q)"
  then show "case t of Some q' \<Rightarrow> spin_inv vals m (Some q') s' rs | None \<Rightarrow> spin_inv vals (Suc m) None s' rs" by (rule spin_stores)
next
  show "spin_ok m" if "m < 2" for m using that by (simp add: spin_ok_def)
qed

section \<open>The programs\<close>

definition naive_main_thread :: "(naive_state main_state, (naive_r, naive_w) main_pc) thread" where
  "naive_main_thread = main_thread NStart naive_load NInc naive_store"

definition naive_main :: "(naive_state main_state, (naive_r, naive_w) main_pc) conf" where
  "naive_main = main_init naive_new"

definition naive_test_thread :: "(naive_state test_state, (naive_r, naive_w) test_pc) thread" where
  "naive_test_thread = test_thread NStart naive_load NInc naive_store"

definition naive_test :: "(naive_state test_state, (naive_r, naive_w) test_pc) conf" where
  "naive_test = test_init naive_new"

definition rigtorp_main_thread :: "(rigtorp_state main_state, (rigtorp_r, rigtorp_w) main_pc) thread" where
  "rigtorp_main_thread = main_thread RStart rigtorp_load GLoad rigtorp_store"

definition rigtorp_main :: "(rigtorp_state main_state, (rigtorp_r, rigtorp_w) main_pc) conf" where
  "rigtorp_main = main_init rigtorp_new"

definition rigtorp_test_thread :: "(rigtorp_state test_state, (rigtorp_r, rigtorp_w) test_pc) thread" where
  "rigtorp_test_thread = test_thread RStart rigtorp_load GLoad rigtorp_store"

definition rigtorp_test :: "(rigtorp_state test_state, (rigtorp_r, rigtorp_w) test_pc) conf" where
  "rigtorp_test = test_init rigtorp_new"

definition spin_main_thread :: "(spin_state main_state, (spin_r, spin_w) main_pc) thread" where
  "spin_main_thread = main_thread SEnter spin_load (SLock TestAndSet) spin_store"

definition spin_main :: "(spin_state main_state, (spin_r, spin_w) main_pc) conf" where
  "spin_main = main_init spin_new"

definition spin_test_thread :: "(spin_state test_state, (spin_r, spin_w) test_pc) thread" where
  "spin_test_thread = test_thread SEnter spin_load (SLock TestAndSet) spin_store"

definition spin_test :: "(spin_state test_state, (spin_r, spin_w) test_pc) conf" where
  "spin_test = test_init spin_new"

section \<open>What the classes promise\<close>

definition naive_clients :: "data list \<Rightarrow> (naive_state register_state, (naive_r, naive_w) register_pc) thread" where
  "naive_clients vs = register_thread vs NStart naive_load NInc naive_store"

definition naive_clients_init :: "nat \<Rightarrow> (naive_state register_state, (naive_r, naive_w) register_pc) conf" where
  "naive_clients_init n = register_init naive_new n"

text \<open>
  Claim C38. No torn read in seqlock_naive/Seqlock.hpp, although values are copied field by field: whatever fewer than \<open>2 ^ 31\<close>
  values one writer stores and however often any number of readers load, a load returns all fields of one value, which was not
  overwritten before the load began and whose store began before the load returned.
\<close>

theorem naive_loads_whole:
  assumes "three_fields vs" and "length vs < 2 ^ 31" and "reach (naive_clients vs) (naive_clients_init n) (g, ls)" and "l \<in> set ls"
  shows "list_all (load_whole vs) (load_log l)"
proof -
  have "naive_ok k" if "k < length vs" for k using that assms(2) by (simp add: naive_ok_def)
  from naive.loads_whole [OF assms(1) this assms(3,4) [unfolded naive_clients_def naive_clients_init_def]] show ?thesis .
qed

text \<open>The reader copies the first field of the first value and the others of the second one, and has to try again.\<close>

theorem naive_loads_whole_witness:
  "\<exists>g ls. reach (naive_clients [[1, 2, 3], [4, 5, 6]]) (naive_clients_init 1) (g, ls) \<and>
     ls = [Writer, Reader [(1, [4, 5, 6], 2)]] \<and> load_whole [[1, 2, 3], [4, 5, 6]] (1, [4, 5, 6], 2)"
proof -
  let ?vs = "[[1, 2, 3], [4, 5, 6]]"
  have vs: "three_fields ?vs" "length ?vs < 2 ^ 31" by (simp_all add: three_fields_def)
  have "map_option snd (sched (naive_clients ?vs)
      (map (\<lambda>i. (i, 0)) (replicate 6 0 @ replicate 3 1 @ replicate 6 0 @ replicate 8 1)) (naive_clients_init 1)) =
      Some [Writer, Reader [(1, [4, 5, 6], 2)]]"
    by code_simp
  then obtain g where r: "reach (naive_clients ?vs) (naive_clients_init 1) (g, [Writer, Reader [(1, [4, 5, 6], 2)]])"
    by (auto dest: sched_reach)
  from naive_loads_whole [OF vs r, of "Reader [(1, [4, 5, 6], 2)]"] r show ?thesis by auto
qed

text \<open>The same for the two classes with a wider counter.\<close>

lemma rigtorp_loads_whole:
  assumes "three_fields vs" and "length vs < 2 ^ 63"
    and "reach (register_thread vs RStart rigtorp_load GLoad rigtorp_store) (register_init rigtorp_new n) (g, ls)" and "l \<in> set ls"
  shows "list_all (load_whole vs) (load_log l)"
proof -
  have "rigtorp_ok k" if "k < length vs" for k using that assms(2) by (simp add: rigtorp_ok_def)
  from rigtorp.loads_whole [OF assms(1) this assms(3,4)] show ?thesis .
qed

lemma spin_loads_whole:
  assumes "three_fields vs" and "length vs < 2 ^ 63"
    and "reach (register_thread vs SEnter spin_load (SLock TestAndSet) spin_store) (register_init spin_new n) (g, ls)" and "l \<in> set ls"
  shows "list_all (load_whole vs) (load_log l)"
proof -
  have "spin_ok k" if "k < length vs" for k using that assms(2) by (simp add: spin_ok_def)
  from spin.loads_whole [OF assms(1) this assms(3,4)] show ?thesis .
qed

text \<open>A reader of seqlock_naive/main.cpp that reports success has read the second value.\<close>

lemma naive_reader_success:
  assumes "reach naive_main_thread naive_main (g, ls)" and "RSuccess v \<in> set ls"
  shows "v = make_data 100 200 300"
  using assms unfolding naive_main_thread_def naive_main_def by (rule naive.main_success)

text \<open>
  The fuzz test of seqlock_naive/test.cpp with its hundred readers: as long as the writer
  has begun fewer than \<open>2 ^ 31\<close> stores, no check of a loaded value fails.
\<close>

theorem naive_test_never_fails:
  assumes "reach naive_test_thread naive_test (g, ls)" and "test_begun (hd ls) < 2 ^ 31"
  shows "TFailed \<notin> set ls"
proof -
  have "naive_ok k" if "k < test_begun (hd ls)" for k
    using that assms(2) by (simp add: naive_ok_def)
  with assms(1) show ?thesis unfolding naive_test_thread_def naive_test_def
    by (rule naive.test_never_fails)
qed

theorem naive_test_never_fails_witness:
  "\<exists>g ls. reach naive_test_thread naive_test (g, ls) \<and> ls ! 1 = TLoop 1 \<and> hd ls = TNext 1 \<and> TFailed \<notin> set ls"
proof -
  let ?w = "(0, 0)" and ?r = "(1, 0)"
  have "\<exists>g. sched naive_test_thread
      [?w, ?w, ?w, ?w, ?w, ?w, ?w, ?w, ?r, ?r, ?r, ?r, ?r, ?r, ?r] naive_test =
      Some (g, TNext 1 # TLoop 1 # replicate 99 TSpin)"
    by (simp add: naive_test_thread_def naive_test_def test_thread_def test_init_def naive_new_def kThreadCount_eqs
        zero_data_def test_data_def make_data_def test_check_def kOffset_def kOperationsCount_def
        Let_def upd_Cons_numeral)
  then obtain g where r: "reach naive_test_thread naive_test (g, TNext 1 # TLoop 1 # replicate 99 TSpin)"
    by (auto dest: sched_reach)
  from naive_test_never_fails [OF r] r show ?thesis by fastforce
qed

text \<open>
  The fuzz test of seqlock_rigtorp/test.cpp: the class reads the counter once per store and
  publishes \<open>seq0 + 1\<close> and \<open>seq0 + 2\<close>; no check fails before \<open>2 ^ 63\<close> stores have begun.
\<close>

theorem rigtorp_test_never_fails:
  assumes "reach rigtorp_test_thread rigtorp_test (g, ls)" and "test_begun (hd ls) < 2 ^ 63"
  shows "TFailed \<notin> set ls"
proof -
  have "rigtorp_ok k" if "k < test_begun (hd ls)" for k
    using that assms(2) by (simp add: rigtorp_ok_def)
  with assms(1) show ?thesis unfolding rigtorp_test_thread_def rigtorp_test_def
    by (rule rigtorp.test_never_fails)
qed

theorem rigtorp_test_never_fails_witness:
  "\<exists>g ls. reach rigtorp_test_thread rigtorp_test (g, ls) \<and> ls ! 1 = TLoop 1 \<and> hd ls = TNext 1 \<and> TFailed \<notin> set ls"
proof -
  let ?w = "(0, 0)" and ?r = "(1, 0)"
  have "\<exists>g. sched rigtorp_test_thread
      [?w, ?w, ?w, ?w, ?w, ?w, ?w, ?w, ?w, ?r, ?r, ?r, ?r, ?r, ?r, ?r] rigtorp_test =
      Some (g, TNext 1 # TLoop 1 # replicate 99 TSpin)"
    by (simp add: rigtorp_test_thread_def rigtorp_test_def test_thread_def test_init_def rigtorp_new_def kThreadCount_eqs
        zero_data_def test_data_def make_data_def test_check_def kOffset_def kOperationsCount_def
        Let_def upd_Cons_numeral)
  then obtain g where r: "reach rigtorp_test_thread rigtorp_test (g, TNext 1 # TLoop 1 # replicate 99 TSpin)"
    by (auto dest: sched_reach)
  from rigtorp_test_never_fails [OF r] r show ?thesis by fastforce
qed

text \<open>
  The fuzz test of seqlock_spinlock/test.cpp: \<open>read_enter\<close> and \<open>read_leave\<close> never let
  a torn value through before \<open>2 ^ 63\<close> stores have begun.
\<close>

theorem spin_test_never_fails:
  assumes "reach spin_test_thread spin_test (g, ls)" and "test_begun (hd ls) < 2 ^ 63"
  shows "TFailed \<notin> set ls"
proof -
  have "spin_ok k" if "k < test_begun (hd ls)" for k
    using that assms(2) by (simp add: spin_ok_def)
  with assms(1) show ?thesis unfolding spin_test_thread_def spin_test_def
    by (rule spin.test_never_fails)
qed

theorem spin_test_never_fails_witness:
  "\<exists>g ls. reach spin_test_thread spin_test (g, ls) \<and> ls ! 1 = TLoop 1 \<and> hd ls = TNext 1 \<and> TFailed \<notin> set ls"
proof -
  let ?w = "(0, 0)" and ?r = "(1, 0)"
  have "\<exists>g. sched spin_test_thread
      [?w, ?w, ?w, ?w, ?w, ?w, ?w, ?w, ?w, ?w, ?r, ?r, ?r, ?r, ?r, ?r, ?r] spin_test =
      Some (g, TNext 1 # TLoop 1 # replicate 99 TSpin)"
    by (simp add: spin_test_thread_def spin_test_def test_thread_def test_init_def spin_new_def kThreadCount_eqs
        zero_data_def test_data_def make_data_def test_check_def kOffset_def kOperationsCount_def
        seq_spin_lock_def seq_spin_unlock_def Let_def upd_Cons_numeral)
  then obtain g where r: "reach spin_test_thread spin_test (g, TNext 1 # TLoop 1 # replicate 99 TSpin)"
    by (auto dest: sched_reach)
  from spin_test_never_fails [OF r] r show ?thesis by fastforce
qed

end
