(* ===== verification/Seqlock_Locks.thy ===== *)
theory Seqlock_Locks
  imports Seqlock_Client
begin

text \<open>
  The three classes that have the interface of a sequence lock and lock for every access:
  SeqLock/seqlock_emulator (\<open>std::shared_mutex\<close>), SeqLock/seqlock_mutex_emulator (\<open>std::mutex\<close>) and
  SeqLock/seqlock_posix_emulator (\<open>pthread_rwlock_t\<close>). The locks are the documented ones: a blocked call
  has no step, a released lock may be taken by any thread.
\<close>

section \<open>Reader-writer locks\<close>

record rwlock =
  writing :: bool
  reading :: nat

definition rwlock_new :: rwlock where
  "rwlock_new = \<lparr>writing = False, reading = 0\<rparr>"

definition lock_shared :: "rwlock \<Rightarrow> rwlock list" where
  "lock_shared l = (if writing l then [] else [l\<lparr>reading := reading l + 1\<rparr>])"

definition lock_exclusive :: "rwlock \<Rightarrow> rwlock list" where
  "lock_exclusive l = (if writing l \<or> 0 < reading l then [] else [l\<lparr>writing := True\<rparr>])"

definition unlock_shared :: "rwlock \<Rightarrow> rwlock" where
  "unlock_shared l = l\<lparr>reading := reading l - 1\<rparr>"

definition unlock_exclusive :: "rwlock \<Rightarrow> rwlock" where
  "unlock_exclusive l = l\<lparr>writing := False\<rparr>"

text \<open>\<open>pthread_rwlock_unlock\<close> releases whichever lock is held.\<close>

definition rwlock_unlock :: "rwlock \<Rightarrow> rwlock" where
  "rwlock_unlock l = (if writing l then unlock_exclusive l else unlock_shared l)"

section \<open>The three classes\<close>

text \<open>The steps of \<open>load\<close> and \<open>store\<close>: take the lock, copy field by field, release it.\<close>

datatype lock_r = LLock | LCopy nat data
datatype lock_w = WLock | WCopy nat

record emulator_state =
  mSharedMutex :: rwlock
  emuValue :: data

definition emulator_new :: emulator_state where
  "emulator_new = \<lparr>mSharedMutex = rwlock_new, emuValue = zero_data\<rparr>"

fun emulator_load :: "emulator_state \<Rightarrow> lock_r \<Rightarrow> (emulator_state \<times> (lock_r + data)) list" where
  "emulator_load s LLock = map (\<lambda>l. (s\<lparr>mSharedMutex := l\<rparr>, Inl (LCopy 0 []))) (lock_shared (mSharedMutex s))"
| "emulator_load s (LCopy i copy) =
     (if i < 3 then [(s, Inl (LCopy (i + 1) (copy @ [emuValue s ! i])))]
      else [(s\<lparr>mSharedMutex := unlock_shared (mSharedMutex s)\<rparr>, Inr copy)])"

fun emulator_store :: "data \<Rightarrow> emulator_state \<Rightarrow> lock_w \<Rightarrow> (emulator_state \<times> lock_w option) list" where
  "emulator_store aValue s WLock =
     map (\<lambda>l. (s\<lparr>mSharedMutex := l\<rparr>, Some (WCopy 0))) (lock_exclusive (mSharedMutex s))"
| "emulator_store aValue s (WCopy i) =
     (if i < 3 then [(s\<lparr>emuValue := (emuValue s)[i := aValue ! i]\<rparr>, Some (WCopy (i + 1)))]
      else [(s\<lparr>mSharedMutex := unlock_exclusive (mSharedMutex s)\<rparr>, None)])"

definition posix_seq_new :: emulator_state where
  "posix_seq_new = \<lparr>mSharedMutex = rwlock_new, emuValue = zero_data\<rparr>"

fun posix_seq_load :: "emulator_state \<Rightarrow> lock_r \<Rightarrow> (emulator_state \<times> (lock_r + data)) list" where
  "posix_seq_load s LLock = map (\<lambda>l. (s\<lparr>mSharedMutex := l\<rparr>, Inl (LCopy 0 []))) (lock_shared (mSharedMutex s))"
| "posix_seq_load s (LCopy i copy) =
     (if i < 3 then [(s, Inl (LCopy (i + 1) (copy @ [emuValue s ! i])))]
      else [(s\<lparr>mSharedMutex := rwlock_unlock (mSharedMutex s)\<rparr>, Inr copy)])"

fun posix_seq_store :: "data \<Rightarrow> emulator_state \<Rightarrow> lock_w \<Rightarrow> (emulator_state \<times> lock_w option) list" where
  "posix_seq_store aValue s WLock =
     map (\<lambda>l. (s\<lparr>mSharedMutex := l\<rparr>, Some (WCopy 0))) (lock_exclusive (mSharedMutex s))"
| "posix_seq_store aValue s (WCopy i) =
     (if i < 3 then [(s\<lparr>emuValue := (emuValue s)[i := aValue ! i]\<rparr>, Some (WCopy (i + 1)))]
      else [(s\<lparr>mSharedMutex := rwlock_unlock (mSharedMutex s)\<rparr>, None)])"

record mutex_state =
  mMutex :: bool
  mutexValue :: data

definition mutex_seq_new :: mutex_state where
  "mutex_seq_new = \<lparr>mMutex = False, mutexValue = zero_data\<rparr>"

fun mutex_seq_load :: "mutex_state \<Rightarrow> lock_r \<Rightarrow> (mutex_state \<times> (lock_r + data)) list" where
  "mutex_seq_load s LLock = (if mMutex s then [] else [(s\<lparr>mMutex := True\<rparr>, Inl (LCopy 0 []))])"
| "mutex_seq_load s (LCopy i copy) =
     (if i < 3 then [(s, Inl (LCopy (i + 1) (copy @ [mutexValue s ! i])))]
      else [(s\<lparr>mMutex := False\<rparr>, Inr copy)])"

fun mutex_seq_store :: "data \<Rightarrow> mutex_state \<Rightarrow> lock_w \<Rightarrow> (mutex_state \<times> lock_w option) list" where
  "mutex_seq_store aValue s WLock = (if mMutex s then [] else [(s\<lparr>mMutex := True\<rparr>, Some (WCopy 0))])"
| "mutex_seq_store aValue s (WCopy i) =
     (if i < 3 then [(s\<lparr>mutexValue := (mutexValue s)[i := aValue ! i]\<rparr>, Some (WCopy (i + 1)))]
      else [(s\<lparr>mMutex := False\<rparr>, None)])"

section \<open>What the locks keep\<close>

fun held :: "(nat \<times> lock_r) option \<Rightarrow> bool" where
  "held (Some (j, LCopy i acc)) = True"
| "held _ = False"

fun store_at :: "lock_w option \<Rightarrow> nat option" where
  "store_at (Some (WCopy i)) = Some i"
| "store_at _ = None"

fun load_ok :: "nat \<Rightarrow> data \<Rightarrow> (nat \<times> lock_r) option \<Rightarrow> bool" where
  "load_ok m sh None = True"
| "load_ok m sh (Some (j, LLock)) = (j \<le> m)"
| "load_ok m sh (Some (j, LCopy i acc)) = (j \<le> m \<and> i \<le> 3 \<and> acc = take i sh)"

text \<open>
  While the writer copies no load is under way; otherwise the value is that of the last store and
  every load has copied a part of it.
\<close>

definition lock_inv :: "(nat \<Rightarrow> data) \<Rightarrow> nat \<Rightarrow> lock_w option \<Rightarrow> data \<Rightarrow> (nat \<times> lock_r) option list \<Rightarrow> bool" where
  "lock_inv vals m w sh rs \<longleftrightarrow> length sh = 3 \<and> (\<forall>k. length (vals k) = 3) \<and> list_all (load_ok m sh) rs \<and>
     (case store_at w of None \<Rightarrow> sh = vals m
      | Some i \<Rightarrow> i \<le> 3 \<and> take i sh = take i (vals (Suc m)) \<and> cnt held rs = 0)"

lemma load_ok_idle: "\<not> held r \<Longrightarrow> load_ok m sh r \<Longrightarrow> m \<le> m' \<Longrightarrow> load_ok m' sh' r"
  by (cases "(m, sh, r)" rule: load_ok.cases) auto

lemma load_ok_mono: "load_ok m sh r \<Longrightarrow> m \<le> m' \<Longrightarrow> load_ok m' sh r"
  by (cases "(m, sh, r)" rule: load_ok.cases) auto

lemma lock_inv_init:
  "\<lbrakk>vals 0 = zero_data; \<And>k. length (vals k) = 3\<rbrakk> \<Longrightarrow> lock_inv vals 0 None zero_data (replicate n None)"
  by (simp add: lock_inv_def zero_data_def make_data_def)

lemma lock_inv_begin:
  "lock_inv vals m w sh rs \<Longrightarrow> i < length rs \<Longrightarrow> rs ! i = None \<Longrightarrow> lock_inv vals m w sh (rs[i := Some (m, LLock)])"
  by (auto simp: lock_inv_def cnt_upd intro: list_all_upd split: option.splits)

lemma lock_inv_enter:
  assumes "lock_inv vals m w sh rs" "i < length rs" "rs ! i = Some (j, LLock)" "store_at w = None"
  shows "lock_inv vals m w sh (rs[i := Some (j, LCopy 0 [])])"
proof -
  have "load_ok m sh (Some (j, LLock))"
    using assms(1) assms(2) unfolding lock_inv_def list_all_length assms(3) [symmetric] by blast
  with assms show ?thesis by (auto simp: lock_inv_def intro: list_all_upd)
qed

lemma lock_inv_copy:
  assumes I: "lock_inv vals m w sh rs" and i: "i < length rs" and ri: "rs ! i = Some (j, LCopy k acc)"
  shows "store_at w = None \<and> j \<le> m \<and> k \<le> 3 \<and> acc = take k (vals m) \<and>
    (k < 3 \<longrightarrow> lock_inv vals m w sh (rs[i := Some (j, LCopy (Suc k) (acc @ [sh ! k]))])) \<and>
    lock_inv vals m w sh (rs[i := None])"
proof -
  have "load_ok m sh (Some (j, LCopy k acc))"
    using I i unfolding lock_inv_def list_all_length ri [symmetric] by blast
  moreover have "1 \<le> cnt held rs" using i by (rule cnt_pos) (simp add: ri)
  then have "store_at w = None" using I by (auto simp: lock_inv_def split: option.splits)
  ultimately show ?thesis
    using I by (auto simp: lock_inv_def take_Suc_conv_app_nth intro!: list_all_upd)
qed

lemma lock_inv_write:
  assumes "lock_inv vals m (Some (WCopy k)) sh rs" "k < 3"
  shows "lock_inv vals m (Some (WCopy (Suc k))) (sh[k := vals (Suc m) ! k]) rs"
proof -
  have "\<forall>r \<in> set rs. \<not> held r" using assms(1) by (auto simp: lock_inv_def cnt_def filter_empty_conv)
  then have "list_all (load_ok m sh') rs" for sh'
    using assms(1) by (auto simp: lock_inv_def list_all_iff intro: load_ok_idle)
  with assms show ?thesis by (auto simp: lock_inv_def take_Suc_conv_app_nth)
qed

lemma lock_inv_written:
  assumes "lock_inv vals m (Some (WCopy k)) sh rs" "\<not> k < 3"
  shows "lock_inv vals (Suc m) None sh rs"
  using assms by (auto simp: lock_inv_def elim!: list.pred_mono_strong intro: load_ok_mono)

lemma lock_inv_open:
  "lock_inv vals m (Some WLock) sh rs \<Longrightarrow> cnt held rs = 0 \<Longrightarrow> lock_inv vals m (Some (WCopy 0)) sh rs"
  by (auto simp: lock_inv_def)

definition rwlock_inv :: "lock_w option \<Rightarrow> rwlock \<Rightarrow> (nat \<times> lock_r) option list \<Rightarrow> bool" where
  "rwlock_inv w l rs \<longleftrightarrow> writing l = (store_at w \<noteq> None) \<and> int (reading l) = cnt held rs"

definition emulator_inv :: "(nat \<Rightarrow> data) \<Rightarrow> nat \<Rightarrow> lock_w option \<Rightarrow> emulator_state
    \<Rightarrow> (nat \<times> lock_r) option list \<Rightarrow> bool" where
  "emulator_inv vals m w s rs \<longleftrightarrow> lock_inv vals m w (emuValue s) rs \<and> rwlock_inv w (mSharedMutex s) rs"

lemma rwlock_begin:
  "i < length rs \<Longrightarrow> rs ! i = None \<Longrightarrow> rwlock_inv w l rs \<Longrightarrow> rwlock_inv w l (rs[i := Some (m, LLock)])"
  by (simp add: rwlock_inv_def cnt_upd)

interpretation emulator: seqlock LLock emulator_load WLock emulator_store emulator_new "\<lambda>_. True" emulator_inv
proof
  show "emulator_inv vals 0 None emulator_new (replicate n None)"
    if "vals 0 = zero_data" "\<And>k. length (vals k) = 3" for vals n
    using lock_inv_init [of vals n] that
    by (simp add: emulator_inv_def emulator_new_def rwlock_inv_def rwlock_new_def)
next
  fix vals m w s i j and rs :: "(nat \<times> lock_r) option list"
  assume "emulator_inv vals m w s rs" "i < length rs" "rs ! i = None"
  then show "emulator_inv vals m w s (rs[i := Some (m, LLock)])"
    by (simp add: emulator_inv_def lock_inv_begin rwlock_begin)
next
  fix vals m w s i j p s' r and rs :: "(nat \<times> lock_r) option list"
  assume I: "emulator_inv vals m w s rs" and i: "i < length rs" and ri: "rs ! i = Some (j, p)"
    and st: "(s', r) \<in> set (emulator_load s p)"
  show "case r of Inl p' \<Rightarrow> emulator_inv vals m w s' (rs[i := Some (j, p')])
     | Inr v \<Rightarrow> emulator_inv vals m w s' (rs[i := None]) \<and>
         (\<exists>k. j \<le> k \<and> k \<le> m + of_bool (w \<noteq> None) \<and> v = vals k)"
  proof (cases p)
    case LLock
    with st I i ri show ?thesis
      by (auto simp: emulator_inv_def rwlock_inv_def lock_shared_def cnt_upd lock_inv_enter split: if_splits)
  next
    case (LCopy k acc)
    have L: "lock_inv vals m w (emuValue s) rs" and R: "rwlock_inv w (mSharedMutex s) rs"
      using I by (simp_all add: emulator_inv_def)
    have c: "1 \<le> cnt held rs" using i by (rule cnt_pos) (simp add: ri LCopy)
    note C = lock_inv_copy [OF L i, of j k acc]
    show ?thesis
    proof (cases "k < 3")
      case True
      with LCopy st C R ri i show ?thesis by (auto simp: emulator_inv_def rwlock_inv_def cnt_upd)
    next
      case False
      have len: "length (vals m) = 3" using L by (simp add: lock_inv_def)
      with False LCopy st C R ri i c show ?thesis
        by (auto simp: emulator_inv_def rwlock_inv_def unlock_shared_def cnt_upd)
    qed
  qed
next
  show "emulator_inv vals m (Some WLock) s rs" if "emulator_inv vals m None s rs" for vals m s rs
    using that by (auto simp: emulator_inv_def rwlock_inv_def lock_inv_def)
next
  fix vals m q s t s' and rs :: "(nat \<times> lock_r) option list"
  assume I: "emulator_inv vals m (Some q) s rs" and st: "(s', t) \<in> set (emulator_store (vals (Suc m)) s q)"
  show "case t of Some q' \<Rightarrow> emulator_inv vals m (Some q') s' rs | None \<Rightarrow> emulator_inv vals (Suc m) None s' rs"
  proof (cases q)
    case WLock
    with st I show ?thesis
      by (auto simp: emulator_inv_def rwlock_inv_def lock_exclusive_def lock_inv_open split: if_splits)
  next
    case (WCopy k)
    have L: "lock_inv vals m (Some (WCopy k)) (emuValue s) rs" using I WCopy by (simp add: emulator_inv_def)
    from lock_inv_write [OF L] lock_inv_written [OF L] WCopy st I show ?thesis
      by (auto simp: emulator_inv_def rwlock_inv_def unlock_exclusive_def split: if_splits)
  qed
qed simp

text \<open>In the states that occur, the POSIX class takes the same steps.\<close>

lemma posix_load_eq:
  assumes "emulator_inv vals m w s rs" "i < length rs" "rs ! i = Some (j, p)"
  shows "posix_seq_load s p = emulator_load s p"
proof (cases p)
  case (LCopy k acc)
  then have "store_at w = None"
    using lock_inv_copy [of vals m w "emuValue s" rs i j k acc] assms by (simp add: emulator_inv_def)
  with LCopy assms show ?thesis by (simp add: emulator_inv_def rwlock_inv_def rwlock_unlock_def)
qed simp

lemma posix_store_eq:
  assumes "emulator_inv vals m (Some q) s rs"
  shows "posix_seq_store v s q = emulator_store v s q"
  using assms by (cases q) (simp_all add: emulator_inv_def rwlock_inv_def rwlock_unlock_def)

interpretation posix_seq: seqlock LLock posix_seq_load WLock posix_seq_store posix_seq_new "\<lambda>_. True" emulator_inv
proof
  have new: "posix_seq_new = emulator_new" by (simp add: posix_seq_new_def emulator_new_def)
  show "emulator_inv vals 0 None posix_seq_new (replicate n None)"
    if "vals 0 = zero_data" "\<And>k. length (vals k) = 3" for vals n
    unfolding new using that by (rule emulator.Inv_init)
next
  fix vals m w s i j p s' r and rs :: "(nat \<times> lock_r) option list"
  assume I: "emulator_inv vals m w s rs" "i < length rs" "rs ! i = Some (j, p)"
    and st: "(s', r) \<in> set (posix_seq_load s p)"
  from emulator.load [OF I] st posix_load_eq [OF I] show
    "case r of Inl p' \<Rightarrow> emulator_inv vals m w s' (rs[i := Some (j, p')])
     | Inr v \<Rightarrow> emulator_inv vals m w s' (rs[i := None]) \<and>
         (\<exists>k. j \<le> k \<and> k \<le> m + of_bool (w \<noteq> None) \<and> v = vals k)" by simp
next
  fix vals m q s t s' and rs :: "(nat \<times> lock_r) option list"
  assume I: "emulator_inv vals m (Some q) s rs" and st: "(s', t) \<in> set (posix_seq_store (vals (Suc m)) s q)"
  from emulator.store [OF I] st posix_store_eq [OF I] show
    "case t of Some q' \<Rightarrow> emulator_inv vals m (Some q') s' rs | None \<Rightarrow> emulator_inv vals (Suc m) None s' rs"
    by simp
qed (simp_all add: emulator.begin_load emulator.begin_store)

definition mutex_inv :: "(nat \<Rightarrow> data) \<Rightarrow> nat \<Rightarrow> lock_w option \<Rightarrow> mutex_state
    \<Rightarrow> (nat \<times> lock_r) option list \<Rightarrow> bool" where
  "mutex_inv vals m w s rs \<longleftrightarrow> lock_inv vals m w (mutexValue s) rs \<and>
     cnt held rs + of_bool (store_at w \<noteq> None) = of_bool (mMutex s)"

interpretation mutex_seq: seqlock LLock mutex_seq_load WLock mutex_seq_store mutex_seq_new "\<lambda>_. True" mutex_inv
proof
  show "mutex_inv vals 0 None mutex_seq_new (replicate n None)"
    if "vals 0 = zero_data" "\<And>k. length (vals k) = 3" for vals n
    using lock_inv_init [of vals n] that by (simp add: mutex_inv_def mutex_seq_new_def)
next
  fix vals m w s i j and rs :: "(nat \<times> lock_r) option list"
  assume "mutex_inv vals m w s rs" "i < length rs" "rs ! i = None"
  then show "mutex_inv vals m w s (rs[i := Some (m, LLock)])"
    by (simp add: mutex_inv_def lock_inv_begin cnt_upd)
next
  fix vals m w s i j p s' r and rs :: "(nat \<times> lock_r) option list"
  assume I: "mutex_inv vals m w s rs" and i: "i < length rs" and ri: "rs ! i = Some (j, p)"
    and st: "(s', r) \<in> set (mutex_seq_load s p)"
  show "case r of Inl p' \<Rightarrow> mutex_inv vals m w s' (rs[i := Some (j, p')])
     | Inr v \<Rightarrow> mutex_inv vals m w s' (rs[i := None]) \<and>
         (\<exists>k. j \<le> k \<and> k \<le> m + of_bool (w \<noteq> None) \<and> v = vals k)"
  proof (cases p)
    case LLock
    with st I cnt_nonneg [of held rs] have "\<not> mMutex s" "store_at w = None"
      by (auto simp: mutex_inv_def of_bool_def split: if_splits)
    with LLock st I i ri show ?thesis
      by (simp add: mutex_inv_def cnt_upd lock_inv_enter)
  next
    case (LCopy k acc)
    have L: "lock_inv vals m w (mutexValue s) rs" using I by (simp add: mutex_inv_def)
    have c: "1 \<le> cnt held rs" using i by (rule cnt_pos) (simp add: ri LCopy)
    note C = lock_inv_copy [OF L i, of j k acc]
    show ?thesis
    proof (cases "k < 3")
      case True
      with LCopy st C I ri i show ?thesis by (auto simp: mutex_inv_def cnt_upd)
    next
      case False
      have len: "length (vals m) = 3" using L by (simp add: lock_inv_def)
      with False LCopy st C I ri i c show ?thesis
        by (cases "mMutex s") (auto simp: mutex_inv_def cnt_upd)
    qed
  qed
next
  show "mutex_inv vals m (Some WLock) s rs" if "mutex_inv vals m None s rs" for vals m s rs
    using that by (auto simp: mutex_inv_def lock_inv_def)
next
  fix vals m q s t s' and rs :: "(nat \<times> lock_r) option list"
  assume I: "mutex_inv vals m (Some q) s rs" and st: "(s', t) \<in> set (mutex_seq_store (vals (Suc m)) s q)"
  show "case t of Some q' \<Rightarrow> mutex_inv vals m (Some q') s' rs | None \<Rightarrow> mutex_inv vals (Suc m) None s' rs"
  proof (cases q)
    case WLock
    with st I show ?thesis
      by (auto simp: mutex_inv_def lock_inv_open split: if_splits)
  next
    case (WCopy k)
    have L: "lock_inv vals m (Some (WCopy k)) (mutexValue s) rs" using I WCopy by (simp add: mutex_inv_def)
    have "cnt held rs = 0" using L by (simp add: lock_inv_def)
    with lock_inv_write [OF L] lock_inv_written [OF L] WCopy st I show ?thesis
      by (auto simp: mutex_inv_def split: if_splits)
  qed
qed simp

section \<open>The programs\<close>

definition emulator_main_thread :: "(emulator_state main_state, (lock_r, lock_w) main_pc) thread" where
  "emulator_main_thread = main_thread LLock emulator_load WLock emulator_store"

definition emulator_main :: "(emulator_state main_state, (lock_r, lock_w) main_pc) conf" where
  "emulator_main = main_init emulator_new"

definition emulator_test_thread :: "(emulator_state test_state, (lock_r, lock_w) test_pc) thread" where
  "emulator_test_thread = test_thread LLock emulator_load WLock emulator_store"

definition emulator_test :: "(emulator_state test_state, (lock_r, lock_w) test_pc) conf" where
  "emulator_test = test_init emulator_new"

definition posix_seq_main_thread :: "(emulator_state main_state, (lock_r, lock_w) main_pc) thread" where
  "posix_seq_main_thread = main_thread LLock posix_seq_load WLock posix_seq_store"

definition posix_seq_main :: "(emulator_state main_state, (lock_r, lock_w) main_pc) conf" where
  "posix_seq_main = main_init posix_seq_new"

definition posix_seq_test_thread :: "(emulator_state test_state, (lock_r, lock_w) test_pc) thread" where
  "posix_seq_test_thread = test_thread LLock posix_seq_load WLock posix_seq_store"

definition posix_seq_test :: "(emulator_state test_state, (lock_r, lock_w) test_pc) conf" where
  "posix_seq_test = test_init posix_seq_new"

definition mutex_seq_main_thread :: "(mutex_state main_state, (lock_r, lock_w) main_pc) thread" where
  "mutex_seq_main_thread = main_thread LLock mutex_seq_load WLock mutex_seq_store"

definition mutex_seq_main :: "(mutex_state main_state, (lock_r, lock_w) main_pc) conf" where
  "mutex_seq_main = main_init mutex_seq_new"

definition mutex_seq_test_thread :: "(mutex_state test_state, (lock_r, lock_w) test_pc) thread" where
  "mutex_seq_test_thread = test_thread LLock mutex_seq_load WLock mutex_seq_store"

definition mutex_seq_test :: "(mutex_state test_state, (lock_r, lock_w) test_pc) conf" where
  "mutex_seq_test = test_init mutex_seq_new"

lemmas main_programs = emulator_main_thread_def emulator_main_def posix_seq_main_thread_def posix_seq_main_def
  mutex_seq_main_thread_def mutex_seq_main_def

lemmas test_programs = emulator_test_thread_def emulator_test_def posix_seq_test_thread_def posix_seq_test_def
  mutex_seq_test_thread_def mutex_seq_test_def

text \<open>
  The programs main.cpp over the three locked classes: whatever the interleaving, a reader
  that reports success has read the three fields of the second store.
\<close>

theorem locked_reader_success:
  assumes "(\<exists>g. reach emulator_main_thread emulator_main (g, ls)) \<or>
      (\<exists>g. reach posix_seq_main_thread posix_seq_main (g, ls)) \<or>
      (\<exists>g. reach mutex_seq_main_thread mutex_seq_main (g, ls))"
    and "RSuccess v \<in> set ls"
  shows "v = make_data 100 200 300"
  using assms emulator.main_success posix_seq.main_success mutex_seq.main_success
  unfolding main_programs by blast

theorem locked_reader_success_witness:
  "\<exists>g. reach posix_seq_main_thread posix_seq_main (g, [WNext 2, MJoin, RSuccess (make_data 100 200 300), RCheck]) \<and>
     field_c (make_data 100 200 300) = 300"
proof -
  let ?w = "(0, 0)" and ?r = "(2, 0)"
  have "\<exists>g. sched posix_seq_main_thread
      [?w, ?w, ?w, ?w, ?w, ?w, ?w, ?w, ?w, ?w, ?w, ?w, ?r, ?r, ?r, ?r, ?r, ?r] posix_seq_main =
      Some (g, [WNext 2, MJoin, RSuccess (make_data 100 200 300), RCheck])"
    by (simp add: main_programs main_thread_def main_init_def posix_seq_new_def rwlock_new_def
        lock_shared_def lock_exclusive_def unlock_shared_def unlock_exclusive_def rwlock_unlock_def
        main_stores_def make_data_def zero_data_def main_check_def upd_Cons_numeral)
  then obtain g where r: "reach posix_seq_main_thread posix_seq_main
      (g, [WNext 2, MJoin, RSuccess (make_data 100 200 300), RCheck])"
    by (auto dest: sched_reach)
  then have "make_data 100 200 300 = make_data 100 200 300"
    by (intro locked_reader_success [of "[WNext 2, MJoin, RSuccess (make_data 100 200 300), RCheck]"]) auto
  with r show ?thesis by (auto simp: make_data_def)
qed

text \<open>
  The fuzz tests test.cpp over the three locked classes: no check of a loaded value ever
  fails, for any number of stores.
\<close>

theorem locked_test_never_fails:
  assumes "(\<exists>g. reach emulator_test_thread emulator_test (g, ls)) \<or>
      (\<exists>g. reach posix_seq_test_thread posix_seq_test (g, ls)) \<or>
      (\<exists>g. reach mutex_seq_test_thread mutex_seq_test (g, ls))"
  shows "TFailed \<notin> set ls"
  using assms emulator.test_never_fails posix_seq.test_never_fails mutex_seq.test_never_fails
  unfolding test_programs by blast

theorem locked_test_never_fails_witness:
  "\<exists>g. reach mutex_seq_test_thread mutex_seq_test (g, TNext 1 # TLoop 1 # replicate 99 TSpin) \<and>
     TFailed \<notin> set (TNext 1 # TLoop 1 # replicate 99 TSpin :: (lock_r, lock_w) test_pc list)"
proof -
  let ?w = "(0, 0)" and ?r = "(1, 0)"
  have "\<exists>g. sched mutex_seq_test_thread
      [?w, ?w, ?w, ?w, ?w, ?w, ?w, ?w, ?r, ?r, ?r, ?r, ?r, ?r, ?r] mutex_seq_test =
      Some (g, TNext 1 # TLoop 1 # replicate 99 TSpin)"
    by (simp add: test_programs test_thread_def test_init_def mutex_seq_new_def kThreadCount_eqs
        zero_data_def test_data_def make_data_def test_check_def kOffset_def kOperationsCount_def
        Let_def upd_Cons_numeral)
  then obtain g where r: "reach mutex_seq_test_thread mutex_seq_test (g, TNext 1 # TLoop 1 # replicate 99 TSpin)"
    by (auto dest: sched_reach)
  then have "TFailed \<notin> set (TNext 1 # TLoop 1 # replicate 99 TSpin :: (lock_r, lock_w) test_pc list)"
    by (intro locked_test_never_fails) blast
  with r show ?thesis by blast
qed

end
