(* ===== verification/Mpsc_Queue.thy ===== *)
theory Mpsc_Queue
  imports Fifo_Interface
begin

text \<open>
  The queue of ProducerConsumer/mpsc_queue_test/mpsc_queue.h for many producers and one consumer, and
  tests of mpsc_queue_test.cpp. The three indices are words of 64 bits and wrap. \<open>push\<close> and \<open>pop\<close>
  are modelled as whole calls, for the single-threaded tests, and access by access, for the
  threaded ones; a weak compare-and-swap may fail without a reason.
\<close>

unbundle bit_operations_syntax

section \<open>The queue\<close>

type_synonym index = "64 word"

definition MPSC_QUEUE_CAPACITY :: nat where
  "MPSC_QUEUE_CAPACITY = 1024"

definition maxIndexMask :: index where
  "maxIndexMask = of_nat MPSC_QUEUE_CAPACITY - 1"

record 'a mpsc =
  readIndex :: index
  commitWriteIndex :: index
  reserveWriteIndex :: index
  buf :: "'a list"

text \<open>The cells that \<open>new T[capacity]\<close> leaves uninitialised hold \<open>d\<close>.\<close>

definition mpsc_new :: "'a \<Rightarrow> 'a mpsc" where
  "mpsc_new d = \<lparr>readIndex = 0, commitWriteIndex = 0, reserveWriteIndex = 0,
     buf = replicate MPSC_QUEUE_CAPACITY d\<rparr>"

definition slot :: "index \<Rightarrow> nat" where
  "slot i = unat (i AND maxIndexMask)"

text \<open>
  A call without interference: the first exchange of the commit index succeeds, or fails, loads
  the index into \<open>rw\<close>, and the second one succeeds.
\<close>

definition mpsc_push :: "'a \<Rightarrow> 'a mpsc \<Rightarrow> bool \<times> 'a mpsc" where
  "mpsc_push msg q =
     (let rw = reserveWriteIndex q; r = readIndex q
      in if rw - r = of_nat MPSC_QUEUE_CAPACITY then (False, q)
         else (True, q\<lparr>reserveWriteIndex := rw + 1, buf := (buf q)[slot rw := msg],
           commitWriteIndex := commitWriteIndex q + 1\<rparr>))"

definition mpsc_pop :: "'a mpsc \<Rightarrow> 'a option \<times> 'a mpsc" where
  "mpsc_pop q =
     (let r = readIndex q; cw = commitWriteIndex q
      in if cw = r then (None, q) else (Some (buf q ! slot r), q\<lparr>readIndex := r + 1\<rparr>))"

text \<open>Access by access; \<open>Inr\<close> is the return.\<close>

datatype 'a mpsc_push_pc =
    PushReserve 'a
  | PushRead 'a index
  | PushCas 'a index
  | PushWrite 'a index
  | PushCommit index

fun mpsc_push_step :: "'a mpsc \<Rightarrow> 'a mpsc_push_pc \<Rightarrow> ('a mpsc \<times> ('a mpsc_push_pc + bool)) list" where
  "mpsc_push_step q (PushReserve msg) = [(q, Inl (PushRead msg (reserveWriteIndex q)))]"
| "mpsc_push_step q (PushRead msg rw) =
     [(q, if rw - readIndex q = of_nat MPSC_QUEUE_CAPACITY then Inr False else Inl (PushCas msg rw))]"
| "mpsc_push_step q (PushCas msg rw) =
     (q, Inl (PushReserve msg)) #
     (if reserveWriteIndex q = rw then [(q\<lparr>reserveWriteIndex := rw + 1\<rparr>, Inl (PushWrite msg rw))] else [])"
| "mpsc_push_step q (PushWrite msg rw) = [(q\<lparr>buf := (buf q)[slot rw := msg]\<rparr>, Inl (PushCommit rw))]"
| "mpsc_push_step q (PushCommit rw) =
     (q, Inl (PushCommit (commitWriteIndex q))) #
     (if commitWriteIndex q = rw then [(q\<lparr>commitWriteIndex := rw + 1\<rparr>, Inr True)] else [])"

datatype 'a mpsc_pop_pc = PopRead | PopCommit index | PopTake index | PopStore index 'a

fun mpsc_pop_step :: "'a mpsc \<Rightarrow> 'a mpsc_pop_pc \<Rightarrow> 'a mpsc \<times> ('a mpsc_pop_pc + 'a option)" where
  "mpsc_pop_step q PopRead = (q, Inl (PopCommit (readIndex q)))"
| "mpsc_pop_step q (PopCommit r) = (q, if commitWriteIndex q = r then Inr None else Inl (PopTake r))"
| "mpsc_pop_step q (PopTake r) = (q, Inl (PopStore r (buf q ! slot r)))"
| "mpsc_pop_step q (PopStore r msg) = (q\<lparr>readIndex := r + 1\<rparr>, Inr (Some msg))"

section \<open>Whole calls keep the contract of a bounded queue\<close>

definition mpsc_used :: "'a mpsc \<Rightarrow> nat" where
  "mpsc_used q = unat (commitWriteIndex q - readIndex q)"

definition mpsc_contents :: "'a mpsc \<Rightarrow> 'a list" where
  "mpsc_contents q = ring_slice (buf q) (unat (readIndex q)) (mpsc_used q)"

definition mpsc_ok :: "'a mpsc \<Rightarrow> bool" where
  "mpsc_ok q \<longleftrightarrow> length (buf q) = MPSC_QUEUE_CAPACITY \<and> commitWriteIndex q = reserveWriteIndex q \<and>
     mpsc_used q \<le> MPSC_QUEUE_CAPACITY"

lemma of_nat_unat_index: "of_nat (unat (i :: index)) = i"
  by simp

lemma slot_mod: "slot i = unat i mod 1024"
proof -
  have "maxIndexMask = mask 10" by (simp add: maxIndexMask_def MPSC_QUEUE_CAPACITY_def mask_eq_exp_minus_1)
  then have "slot i = unat (take_bit 10 i)" by (simp add: slot_def take_bit_eq_mask)
  also have "\<dots> = take_bit 10 (unat i)" by (rule unsigned_take_bit_eq)
  also have "\<dots> = unat i mod 1024" by (simp add: take_bit_eq_mod)
  finally show ?thesis .
qed

text \<open>The capacity divides \<open>2 ^ 64\<close>, so the ring goes on across the wrap of the indices.\<close>

lemma unat_add_mod: "unat (r + of_nat k :: index) mod 1024 = (unat r + k) mod 1024"
proof -
  have "unat (r + of_nat k :: index) = (unat r + k) mod 2 ^ 64"
    by (simp add: unat_word_ariths unat_of_nat mod_add_right_eq)
  moreover have "(1024 :: nat) dvd 2 ^ 64" by simp
  ultimately show ?thesis by (simp only: mod_mod_cancel)
qed

lemma ring_slice_cong: "r mod length b = r' mod length b \<Longrightarrow> ring_slice b r n = ring_slice b r' n"
  by (metis ring_slice_mod)

text \<open>Writing the cell at the commit index does not touch the contents, committing adds it, reading on removes the front.\<close>

lemma slot_add: "slot (r + of_nat k) = (unat r + k) mod 1024"
  unfolding slot_mod by (rule unat_add_mod)

lemma commit_slot: "slot (commitWriteIndex q) = (unat (readIndex q) + mpsc_used q) mod 1024"
  using slot_add [of "readIndex q" "mpsc_used q"] by (simp add: mpsc_used_def)

lemma mpsc_cell:
  assumes "length (buf q) = 1024" and "mpsc_used q < 1024"
  shows "mpsc_contents (q\<lparr>buf := (buf q)[slot (commitWriteIndex q) := x]\<rparr>) = mpsc_contents q"
  using ring_slice_upd_outside [of "mpsc_used q" "buf q" "unat (readIndex q)" x] assms
  by (simp add: mpsc_contents_def commit_slot) (simp add: mpsc_used_def)

lemma mpsc_commit:
  assumes "length (buf q) = 1024" and "mpsc_used q < 1024"
  shows "mpsc_used (q\<lparr>commitWriteIndex := commitWriteIndex q + 1\<rparr>) = Suc (mpsc_used q)"
    "mpsc_contents (q\<lparr>commitWriteIndex := commitWriteIndex q + 1\<rparr>) = mpsc_contents q @ [buf q ! slot (commitWriteIndex q)]"
proof -
  have "commitWriteIndex q + 1 - readIndex q = of_nat (Suc (mpsc_used q))" by (simp add: mpsc_used_def)
  then show u: "mpsc_used (q\<lparr>commitWriteIndex := commitWriteIndex q + 1\<rparr>) = Suc (mpsc_used q)"
    using assms(2) by (simp add: mpsc_used_def [of "q\<lparr>commitWriteIndex := _\<rparr>"] unat_of_nat del: of_nat_Suc)
  show "mpsc_contents (q\<lparr>commitWriteIndex := commitWriteIndex q + 1\<rparr>) = mpsc_contents q @ [buf q ! slot (commitWriteIndex q)]"
    using assms(1) unfolding mpsc_contents_def u ring_slice_Suc commit_slot by simp
qed

lemma mpsc_read:
  assumes "length (buf q) = 1024" and "mpsc_used q = Suc n" and "n < 1024"
  shows "mpsc_used (q\<lparr>readIndex := readIndex q + 1\<rparr>) = n"
    "mpsc_contents q = buf q ! slot (readIndex q) # mpsc_contents (q\<lparr>readIndex := readIndex q + 1\<rparr>)"
proof -
  have "commitWriteIndex q - readIndex q = of_nat (Suc n)" using assms(2) by (metis mpsc_used_def of_nat_unat_index)
  then have "commitWriteIndex q - (readIndex q + 1) = of_nat n" by (simp add: algebra_simps)
  then show u: "mpsc_used (q\<lparr>readIndex := readIndex q + 1\<rparr>) = n" using assms(3) by (simp add: mpsc_used_def unat_of_nat)
  have "ring_slice (buf q) (unat (readIndex q + 1)) n = ring_slice (buf q) (Suc (unat (readIndex q))) n"
    using unat_add_mod [of "readIndex q" 1] assms(1) by (intro ring_slice_cong) simp
  then show "mpsc_contents q = buf q ! slot (readIndex q) # mpsc_contents (q\<lparr>readIndex := readIndex q + 1\<rparr>)"
    using assms(1) unfolding mpsc_contents_def u assms(2) ring_slice_Cons slot_mod by simp
qed

lemma mpsc_push_ok:
  assumes ok: "mpsc_ok q" and lt: "mpsc_used q < MPSC_QUEUE_CAPACITY" and p: "mpsc_push x q = (b, q')"
  shows "b \<and> mpsc_ok q' \<and> mpsc_contents q' = mpsc_contents q @ [x]"
proof -
  let ?w = "commitWriteIndex q" let ?q = "q\<lparr>buf := (buf q)[slot ?w := x]\<rparr>"
  have q: "reserveWriteIndex q = ?w" "length (buf q) = 1024" "mpsc_used q < 1024"
    using ok lt by (simp_all add: mpsc_ok_def MPSC_QUEUE_CAPACITY_def)
  then have "?w - readIndex q \<noteq> of_nat MPSC_QUEUE_CAPACITY"
    by (auto simp: mpsc_used_def MPSC_QUEUE_CAPACITY_def)
  with p q(1) have b: "b" and q': "q' = (?q\<lparr>commitWriteIndex := commitWriteIndex ?q + 1\<rparr>)\<lparr>reserveWriteIndex := ?w + 1\<rparr>"
    by (auto simp: mpsc_push_def Let_def)
  have u: "length (buf ?q) = 1024" "mpsc_used ?q < 1024" using q by (simp_all add: mpsc_used_def)
  have keep: "mpsc_contents (r\<lparr>reserveWriteIndex := w\<rparr>) = mpsc_contents r" "mpsc_used (r\<lparr>reserveWriteIndex := w\<rparr>) = mpsc_used r"
    for r :: "'a mpsc" and w by (simp_all add: mpsc_contents_def mpsc_used_def)
  have "slot ?w < 1024" by (simp add: commit_slot)
  then have "mpsc_contents q' = mpsc_contents q @ [x]"
    using mpsc_commit(2) [OF u] mpsc_cell [OF q(2,3)] q(2) unfolding q' keep by simp
  moreover have "mpsc_used q' \<le> 1024" using mpsc_commit(1) [OF u] u(2) unfolding q' keep by simp
  ultimately show ?thesis using b q(2) by (simp add: mpsc_ok_def MPSC_QUEUE_CAPACITY_def q')
qed

lemma mpsc_pop_ok:
  assumes ok: "mpsc_ok q" and ne: "mpsc_used q = Suc n" and p: "mpsc_pop q = (v, q')"
  shows "mpsc_ok q' \<and> (\<exists>x. v = Some x \<and> mpsc_contents q = x # mpsc_contents q')"
proof -
  have "commitWriteIndex q \<noteq> readIndex q" using ne by (auto simp: mpsc_used_def)
  with p have v: "v = Some (buf q ! slot (readIndex q))" and q': "q' = q\<lparr>readIndex := readIndex q + 1\<rparr>"
    by (auto simp: mpsc_pop_def Let_def)
  have len: "length (buf q) = 1024" "n < 1024"
    using ok ne by (simp_all add: mpsc_ok_def MPSC_QUEUE_CAPACITY_def)
  show ?thesis
    using mpsc_read [OF len(1) ne len(2)] ok len v unfolding q' by (simp add: mpsc_ok_def MPSC_QUEUE_CAPACITY_def)
qed

interpretation mpsc: bounded_fifo mpsc_push mpsc_pop mpsc_contents "\<lambda>_. MPSC_QUEUE_CAPACITY" mpsc_ok
proof unfold_locales
  fix q q' :: "'a mpsc" and x b
  assume ok: "mpsc_ok q"
  show "b \<and> mpsc_ok q' \<and> mpsc_contents q' = mpsc_contents q @ [x] \<and> MPSC_QUEUE_CAPACITY = MPSC_QUEUE_CAPACITY"
    if "length (mpsc_contents q) < MPSC_QUEUE_CAPACITY" "mpsc_push x q = (b, q')"
    using mpsc_push_ok [OF ok _ that(2)] that(1) by (simp add: mpsc_contents_def)
  show "mpsc_push x q = (False, q)" if full: "\<not> length (mpsc_contents q) < MPSC_QUEUE_CAPACITY"
  proof -
    have "unat (reserveWriteIndex q - readIndex q) = MPSC_QUEUE_CAPACITY"
      using full ok by (auto simp: mpsc_contents_def mpsc_ok_def mpsc_used_def)
    then have "reserveWriteIndex q - readIndex q = of_nat MPSC_QUEUE_CAPACITY"
      by (metis of_nat_unat_index)
    then show ?thesis by (simp add: mpsc_push_def Let_def)
  qed
  show "mpsc_pop q = (None, q)" if "mpsc_contents q = []"
  proof -
    have "mpsc_used q = 0" using that by (metis length_ring_slice list.size(3) mpsc_contents_def)
    then have "(of_nat (mpsc_used q) :: index) = 0" by simp
    then have "commitWriteIndex q - readIndex q = 0" unfolding mpsc_used_def of_nat_unat_index .
    then show ?thesis by (simp add: mpsc_pop_def Let_def)
  qed
  show "length (mpsc_contents q) \<le> MPSC_QUEUE_CAPACITY" using ok by (simp add: mpsc_contents_def mpsc_ok_def)
next
  fix q q' :: "'a mpsc" and x xs v
  assume ok: "mpsc_ok q" and c: "mpsc_contents q = x # xs" and p: "mpsc_pop q = (v, q')"
  from c obtain n where "mpsc_used q = Suc n"
    by (metis length_Cons length_ring_slice mpsc_contents_def)
  from mpsc_pop_ok [OF ok this p] c
  show "v = Some x \<and> mpsc_ok q' \<and> mpsc_contents q' = xs \<and> MPSC_QUEUE_CAPACITY = MPSC_QUEUE_CAPACITY" by auto
qed

lemma mpsc_ok_new [simp]: "mpsc_ok (mpsc_new d)" and mpsc_contents_new [simp]: "mpsc_contents (mpsc_new d) = []"
  by (simp_all add: mpsc_ok_def mpsc_new_def mpsc_used_def mpsc_contents_def)

section \<open>The single-threaded tests\<close>

definition test_single_threaded_basic :: "int \<Rightarrow> bool" where
  "test_single_threaded_basic d =
     (let (a1, q1) = mpsc_push 1 (mpsc_new d); (a2, q2) = mpsc_push 2 q1; (a3, q3) = mpsc_push 3 q2;
          (v1, q4) = mpsc_pop q3; (v2, q5) = mpsc_pop q4; (v3, q6) = mpsc_pop q5
      in a1 \<and> a2 \<and> a3 \<and> v1 = Some 1 \<and> v2 = Some 2 \<and> v3 = Some 3 \<and> fst (mpsc_pop q6) = None)"

definition test_capacity_limit :: "int \<Rightarrow> bool" where
  "test_capacity_limit d =
     (case fill mpsc_push (map int [0..<MPSC_QUEUE_CAPACITY]) (mpsc_new d) of
        None \<Rightarrow> False
      | Some q \<Rightarrow> \<not> fst (mpsc_push 9999 q))"

lemma mpsc_filled:
  "\<exists>q. fill mpsc_push (map int [0..<MPSC_QUEUE_CAPACITY]) (mpsc_new d) = Some q \<and> mpsc_ok q \<and>
     length (mpsc_contents q) = MPSC_QUEUE_CAPACITY"
  using mpsc.fill_contents [of "mpsc_new d" "map int [0..<MPSC_QUEUE_CAPACITY]"] by auto

text \<open>
  A client without threads sees a queue: after any calls the values that were accepted are
  those returned followed by those still stored, and exactly 1024 fit. In particular the two
  single-threaded tests pass, whatever the cells held before.
\<close>

theorem mpsc_sequential:
  "(let (accepted, returned, q) = fifo_run mpsc_push mpsc_pop cs (mpsc_new d)
    in accepted = returned @ mpsc_contents q \<and> length (mpsc_contents q) \<le> 1024) \<and>
   test_single_threaded_basic v \<and> test_capacity_limit v"
proof (intro conjI)
  obtain a r q where run: "fifo_run mpsc_push mpsc_pop cs (mpsc_new d) = (a, r, q)"
    by (metis prod_cases3)
  from mpsc.fifo_run_order [OF mpsc_ok_new run] mpsc.within_capacity [of q]
  show "let (accepted, returned, q) = fifo_run mpsc_push mpsc_pop cs (mpsc_new d)
    in accepted = returned @ mpsc_contents q \<and> length (mpsc_contents q) \<le> 1024"
    by (simp add: run MPSC_QUEUE_CAPACITY_def)
next
  show "test_single_threaded_basic v"
    by (simp add: test_single_threaded_basic_def mpsc_push_def mpsc_pop_def mpsc_new_def Let_def slot_mod
        MPSC_QUEUE_CAPACITY_def)
next
  obtain q where "fill mpsc_push (map int [0..<MPSC_QUEUE_CAPACITY]) (mpsc_new v) = Some q" "mpsc_ok q"
    "length (mpsc_contents q) = MPSC_QUEUE_CAPACITY" using mpsc_filled by blast
  with mpsc.push_refuses [of q 9999] show "test_capacity_limit v" by (simp add: test_capacity_limit_def)
qed

end
