(* ===== verification/Mpsc_Tests.thy ===== *)
theory Mpsc_Tests
  imports Mpsc_Queue
begin

text \<open>
  Threaded tests of ProducerConsumer/mpsc_queue_test/mpsc_queue_test.cpp: the full queue and the
  multiple producers with a single consumer. The theory shows that the indices keep their order,
  that a full queue refuses every push, and that the second exchange loop of \<open>push\<close> lets the
  consumer see a cell that no producer has written.
\<close>

section \<open>test_full_queue_behavior\<close>

record full_state =
  fullQueue :: "int mpsc"
  fullStart :: bool
  successful_pushes :: int
  fullEnded :: nat

datatype full_pc = FWait | FTry nat | FPush nat "int mpsc_push_pc" | FDone | FMain | FJoin | FResult bool

definition FULL_PRODUCERS :: nat where
  "FULL_PRODUCERS = 4"

fun full_producer :: "full_state \<Rightarrow> full_pc \<Rightarrow> (full_state \<times> full_pc) list" where
  "full_producer g FWait = [(g, if fullStart g then FTry 0 else FWait)]"
| "full_producer g (FTry i) =
     [if i < 100 then (g, FPush i (PushReserve 999)) else (g\<lparr>fullEnded := fullEnded g + 1\<rparr>, FDone)]"
| "full_producer g (FPush i pc) = map (\<lambda>(q, r). case r of
       Inl pc' \<Rightarrow> (g\<lparr>fullQueue := q\<rparr>, FPush i pc')
     | Inr b \<Rightarrow> (g\<lparr>fullQueue := q, successful_pushes := successful_pushes g + (if b then 1 else 0)\<rparr>, FTry (i + 1)))
       (mpsc_push_step (fullQueue g) pc)"
| "full_producer g _ = []"

text \<open>The main thread starts the producers, joins them and checks the counter.\<close>

fun full_main :: "full_state \<Rightarrow> full_pc \<Rightarrow> (full_state \<times> full_pc) list" where
  "full_main g FMain = [(g\<lparr>fullStart := True\<rparr>, FJoin)]"
| "full_main g FJoin = (if fullEnded g = FULL_PRODUCERS then [(g, FResult (successful_pushes g = 0))] else [])"
| "full_main g _ = []"

definition full_thread :: "(full_state, full_pc) thread" where
  "full_thread i g pc = full_producer g pc @ full_main g pc"

definition full_init :: "int \<Rightarrow> (full_state, full_pc) conf" where
  "full_init d =
     (case fill mpsc_push (map int [0..<MPSC_QUEUE_CAPACITY]) (mpsc_new d) of
        None \<Rightarrow> (\<lparr>fullQueue = mpsc_new d, fullStart = False, successful_pushes = 0, fullEnded = 0\<rparr>, [FResult False])
      | Some q \<Rightarrow> (\<lparr>fullQueue = q, fullStart = False, successful_pushes = 0, fullEnded = 0\<rparr>,
          FMain # replicate FULL_PRODUCERS FWait))"

fun full_local :: "int mpsc \<Rightarrow> full_pc \<Rightarrow> bool" where
  "full_local q (FPush i (PushReserve m)) = True"
| "full_local q (FPush i (PushRead m rw)) = (rw = reserveWriteIndex q)"
| "full_local q (FPush i pc) = False"
| "full_local q (FResult b) = b"
| "full_local q _ = True"

definition full_inv :: "full_state \<Rightarrow> full_pc list \<Rightarrow> bool" where
  "full_inv g ls \<longleftrightarrow> successful_pushes g = 0 \<and>
     reserveWriteIndex (fullQueue g) - readIndex (fullQueue g) = of_nat MPSC_QUEUE_CAPACITY \<and>
     list_all (full_local (fullQueue g)) ls"

lemma full_step:
  assumes "successful_pushes g = 0" "full_local (fullQueue g) l"
    "reserveWriteIndex (fullQueue g) - readIndex (fullQueue g) = of_nat MPSC_QUEUE_CAPACITY"
    "(g', l') \<in> set (full_thread i g l)"
  shows "successful_pushes g' = 0 \<and> fullQueue g' = fullQueue g \<and> full_local (fullQueue g) l'"
proof (cases l)
  case (FPush k pc)
  with assms show ?thesis by (cases pc) (auto simp: full_thread_def)
qed (use assms in \<open>auto simp: full_thread_def split: if_splits\<close>)

lemma full_index:
  assumes "mpsc_ok q" "length (mpsc_contents q) = MPSC_QUEUE_CAPACITY"
  shows "reserveWriteIndex q - readIndex q = of_nat MPSC_QUEUE_CAPACITY"
  using assms of_nat_unat_index [of "commitWriteIndex q - readIndex q"]
  by (simp add: mpsc_contents_def mpsc_ok_def mpsc_used_def)

interpretation full_test: thread_inv full_thread "full_init d" full_inv for d
proof
  obtain q where "fill mpsc_push (map int [0..<MPSC_QUEUE_CAPACITY]) (mpsc_new d) = Some q" "mpsc_ok q"
    "length (mpsc_contents q) = MPSC_QUEUE_CAPACITY" using mpsc_filled by blast
  with full_index show "full_inv (fst (full_init d)) (snd (full_init d))"
    by (simp add: full_init_def full_inv_def)
next
  fix g ls i g' l
  assume "full_inv g ls" "i < length ls" "(g', l) \<in> set (full_thread i g (ls ! i))"
  moreover from this have "full_local (fullQueue g) (ls ! i)" by (simp add: full_inv_def list_all_length)
  ultimately show "full_inv g' (ls[i := l])"
    using full_step [of g "ls ! i" g' l i] by (auto simp: full_inv_def intro: list_all_upd)
qed

text \<open>
  test_full_queue_behavior passes in every interleaving: once 1024 values are stored no push of
  the four producers succeeds, and the test does not return false.
\<close>

theorem full_queue_refuses:
  assumes "reach full_thread (full_init d) (g, ls)"
  shows "successful_pushes g = 0 \<and> FResult False \<notin> set ls \<and>
    reserveWriteIndex (fullQueue g) - readIndex (fullQueue g) = 1024"
  using full_test.reach_inv [OF assms]
  by (auto simp: full_inv_def list_all_iff MPSC_QUEUE_CAPACITY_def)

theorem full_queue_refuses_witness:
  "\<exists>g ls. reach full_thread (full_init 7) (g, ls) \<and> ls ! 1 = FTry 1 \<and> successful_pushes g = 0"
proof -
  obtain q where q: "fill mpsc_push (map int [0..<MPSC_QUEUE_CAPACITY]) (mpsc_new 7) = Some q" "mpsc_ok q"
    "length (mpsc_contents q) = MPSC_QUEUE_CAPACITY" using mpsc_filled by blast
  have "\<exists>g ls. sched full_thread [(0, 0), (1, 0), (1, 0), (1, 0), (1, 0)] (full_init 7) =
      Some (g, ls) \<and> ls ! 1 = FTry 1"
    using full_index [OF q(2,3)]
    by (simp add: full_init_def q(1) full_thread_def FULL_PRODUCERS_def numeral_eq_Suc)
  then obtain g ls where r: "reach full_thread (full_init 7) (g, ls)" and l: "ls ! 1 = FTry 1"
    by (auto dest: sched_reach)
  from full_queue_refuses [OF r] r l show ?thesis by blast
qed

section \<open>test_multiple_producers_single_consumer\<close>

definition NUM_PRODUCERS :: nat where "NUM_PRODUCERS = 4"
definition ITEMS_PER_PRODUCER :: nat where "ITEMS_PER_PRODUCER = 1000"
definition TOTAL_ITEMS :: nat where "TOTAL_ITEMS = NUM_PRODUCERS * ITEMS_PER_PRODUCER"

record multi_state =
  queue :: "int mpsc"
  start :: bool
  ended :: nat

text \<open>The list of the main thread holds the values in the order they were popped.\<close>

datatype multi_pc =
    PWait nat
  | PNext nat nat
  | PPush nat nat "int mpsc_push_pc"
  | PEnd
  | MStart
  | MNext "int list"
  | MPop "int list" "int mpsc_pop_pc"
  | MJoin "int list"
  | MEnd bool

definition multi_value :: "nat \<Rightarrow> nat \<Rightarrow> int" where
  "multi_value p i = int (p * ITEMS_PER_PRODUCER + i)"

fun multi_producer :: "multi_state \<Rightarrow> multi_pc \<Rightarrow> (multi_state \<times> multi_pc) list" where
  "multi_producer g (PWait p) = [(g, if start g then PNext p 0 else PWait p)]"
| "multi_producer g (PNext p i) =
     [if i < ITEMS_PER_PRODUCER then (g, PPush p i (PushReserve (multi_value p i)))
      else (g\<lparr>ended := ended g + 1\<rparr>, PEnd)]"
| "multi_producer g (PPush p i pc) = map (\<lambda>(q, r). (g\<lparr>queue := q\<rparr>,
       (case r of Inl pc' \<Rightarrow> PPush p i pc'
        | Inr b \<Rightarrow> if b then PNext p (i + 1) else PPush p i (PushReserve (multi_value p i)))))
       (mpsc_push_step (queue g) pc)"
| "multi_producer g _ = []"

text \<open>\<open>received\<close> is a set: every value has to be there, and as many as were popped.\<close>

definition multi_check :: "int list \<Rightarrow> bool" where
  "multi_check received \<longleftrightarrow> length (remdups received) = TOTAL_ITEMS \<and>
     list_all (\<lambda>i. int i \<in> set received) [0..<TOTAL_ITEMS]"

fun multi_main :: "multi_state \<Rightarrow> multi_pc \<Rightarrow> (multi_state \<times> multi_pc) list" where
  "multi_main g MStart = [(g\<lparr>start := True\<rparr>, MNext [])]"
| "multi_main g (MNext received) =
     [(g, if length received < TOTAL_ITEMS then MPop received PopRead else MJoin received)]"
| "multi_main g (MPop received pc) =
     (let (q, r) = mpsc_pop_step (queue g) pc in [(g\<lparr>queue := q\<rparr>,
       (case r of Inl pc' \<Rightarrow> MPop received pc'
        | Inr None \<Rightarrow> MNext received
        | Inr (Some v) \<Rightarrow> MNext (received @ [v])))])"
| "multi_main g (MJoin received) =
     (if ended g = NUM_PRODUCERS then [(g, MEnd (multi_check received))] else [])"
| "multi_main g _ = []"

definition multi_thread :: "(multi_state, multi_pc) thread" where
  "multi_thread i g pc = multi_producer g pc @ multi_main g pc"

definition multi_init :: "int \<Rightarrow> (multi_state, multi_pc) conf" where
  "multi_init d = (\<lparr>queue = mpsc_new d, start = False, ended = 0\<rparr>,
     MStart # map PWait [0..<NUM_PRODUCERS])"

section \<open>The order of the indices\<close>

fun inflight :: "multi_pc \<Rightarrow> bool" where
  "inflight (PPush p i (PushWrite m rw)) = True"
| "inflight (PPush p i (PushCommit rw)) = True"
| "inflight _ = False"

fun reserved :: "multi_pc \<Rightarrow> int" where
  "reserved (PNext p i) = int i"
| "reserved (PPush p i pc) = int i + of_bool (inflight (PPush p i pc))"
| "reserved PEnd = int ITEMS_PER_PRODUCER"
| "reserved _ = 0"

text \<open>
  What a producer knows between its accesses: a reservation that is still current was made
  with room in the ring. What the consumer knows: its copy of the read index is current.
\<close>

fun producer_ok :: "'a mpsc \<Rightarrow> multi_pc \<Rightarrow> bool" where
  "producer_ok q (PWait p) = True"
| "producer_ok q (PNext p i) = (i \<le> ITEMS_PER_PRODUCER)"
| "producer_ok q (PPush p i (PushCas m rw)) = (i < ITEMS_PER_PRODUCER \<and> unat rw \<le> unat (reserveWriteIndex q) \<and>
     (rw = reserveWriteIndex q \<longrightarrow> unat (reserveWriteIndex q) < unat (readIndex q) + 1024))"
| "producer_ok q (PPush p i (PushRead m rw)) = (i < ITEMS_PER_PRODUCER \<and> unat rw \<le> unat (reserveWriteIndex q))"
| "producer_ok q (PPush p i pc) = (i < ITEMS_PER_PRODUCER)"
| "producer_ok q PEnd = True"
| "producer_ok q _ = False"

fun consumer_ok :: "'a mpsc \<Rightarrow> multi_pc \<Rightarrow> bool" where
  "consumer_ok q (MPop received (PopCommit r)) = (r = readIndex q)"
| "consumer_ok q (MPop received (PopTake r)) = (r = readIndex q \<and> unat r < unat (commitWriteIndex q))"
| "consumer_ok q (MPop received (PopStore r v)) = (r = readIndex q \<and> unat r < unat (commitWriteIndex q))"
| "consumer_ok q (MPop received PopRead) = True"
| "consumer_ok q MStart = True"
| "consumer_ok q (MNext received) = True"
| "consumer_ok q (MJoin received) = True"
| "consumer_ok q (MEnd b) = True"
| "consumer_ok q _ = False"

definition index_order :: "'a mpsc \<Rightarrow> bool" where
  "index_order q \<longleftrightarrow> unat (readIndex q) \<le> unat (commitWriteIndex q) \<and>
     unat (commitWriteIndex q) \<le> unat (reserveWriteIndex q) \<and>
     unat (reserveWriteIndex q) \<le> unat (readIndex q) + 1024"

definition multi_inv :: "multi_state \<Rightarrow> multi_pc list \<Rightarrow> bool" where
  "multi_inv g ls \<longleftrightarrow> (\<exists>M ps. ls = M # ps \<and> length ps = NUM_PRODUCERS \<and> index_order (queue g) \<and>
     int (unat (reserveWriteIndex (queue g))) = int (unat (commitWriteIndex (queue g))) + cnt inflight ps \<and>
     int (unat (reserveWriteIndex (queue g))) = total reserved ps \<and>
     consumer_ok (queue g) M \<and> list_all (producer_ok (queue g)) ps)"

lemma unat_inc: "unat (x :: index) < 5000 \<Longrightarrow> unat (x + 1) = unat x + 1"
  by (simp add: unat_word_ariths)

lemma full_diff:
  assumes "unat (w :: index) = unat r + 1024"
  shows "w - r = of_nat MPSC_QUEUE_CAPACITY"
proof -
  have "w = of_nat (unat r + 1024)" using assms of_nat_unat_index [of w] by simp
  also have "\<dots> = r + 1024" by simp
  finally show ?thesis by (simp add: MPSC_QUEUE_CAPACITY_def)
qed

lemma index_eqI: "unat (x :: index) = unat y \<Longrightarrow> x = y"
  by (metis of_nat_unat_index)

lemma producer_ok_mono:
  assumes "producer_ok q l" "unat (reserveWriteIndex q) \<le> unat (reserveWriteIndex q')"
    "unat (readIndex q) \<le> unat (readIndex q')"
  shows "producer_ok q' l"
  using assms index_eqI [of "reserveWriteIndex q" "reserveWriteIndex q'"]
  by (cases "(q, l)" rule: producer_ok.cases) auto

lemma reserved_bound: "producer_ok q l \<Longrightarrow> 0 \<le> reserved l \<and> reserved l \<le> 1000"
  by (cases "(q, l)" rule: producer_ok.cases) (auto simp: ITEMS_PER_PRODUCER_def)

lemma multi_bound:
  assumes "list_all (producer_ok q) ps" "length ps = NUM_PRODUCERS"
  shows "total reserved ps \<le> 4000"
proof -
  have "0 \<le> reserved l \<and> reserved l \<le> 1000" if "l \<in> set ps" for l
    using assms(1) that reserved_bound [of q l] by (auto simp: list_all_iff)
  from total_bounds [OF this, of ps] assms(2) show ?thesis by (simp add: NUM_PRODUCERS_def)
qed

lemma consumer_ok_mono:
  assumes "consumer_ok q l" "readIndex q' = readIndex q" "unat (commitWriteIndex q) \<le> unat (commitWriteIndex q')"
  shows "consumer_ok q' l"
  using assms by (cases "(q, l)" rule: consumer_ok.cases) auto

text \<open>One access of a push.\<close>

lemma push_step_indices:
  assumes ord: "index_order q" and b: "unat (reserveWriteIndex q) \<le> 4000"
    and pok: "producer_ok q (PPush p i pc)"
    and fl: "inflight (PPush p i pc) \<Longrightarrow> unat (commitWriteIndex q) < unat (reserveWriteIndex q)"
    and st: "(q', r) \<in> set (mpsc_push_step q pc)"
  shows "index_order q' \<and> readIndex q' = readIndex q \<and>
    unat (reserveWriteIndex q) \<le> unat (reserveWriteIndex q') \<and> unat (commitWriteIndex q) \<le> unat (commitWriteIndex q') \<and>
    (case r of
      Inl pc' \<Rightarrow> producer_ok q' (PPush p i pc') \<and>
        int (unat (reserveWriteIndex q')) = int (unat (reserveWriteIndex q)) +
          of_bool (inflight (PPush p i pc')) - of_bool (inflight (PPush p i pc)) \<and>
        commitWriteIndex q' = commitWriteIndex q
    | Inr b \<Rightarrow> reserveWriteIndex q' = reserveWriteIndex q \<and> inflight (PPush p i pc) = b \<and>
        unat (commitWriteIndex q') = unat (commitWriteIndex q) + of_bool b)"
proof (cases pc)
  case (PushReserve m)
  with assms show ?thesis by auto
next
  case (PushRead m rw)
  have "unat rw < unat (readIndex q) + 1024"
    if "rw - readIndex q \<noteq> of_nat MPSC_QUEUE_CAPACITY" "rw = reserveWriteIndex q"
    using that full_diff [of rw "readIndex q"] ord by (fastforce simp: index_order_def)
  with PushRead assms show ?thesis by (auto split: if_splits)
next
  case (PushCas m rw)
  have "unat (reserveWriteIndex q + 1) = unat (reserveWriteIndex q) + 1" using b by (intro unat_inc) simp
  with PushCas assms show ?thesis by (auto simp: index_order_def split: if_splits)
next
  case (PushWrite m rw)
  with assms show ?thesis by (auto simp: index_order_def)
next
  case (PushCommit rw)
  have "unat (commitWriteIndex q + 1) = unat (commitWriteIndex q) + 1"
    using b ord by (intro unat_inc) (simp add: index_order_def)
  with PushCommit assms show ?thesis by (auto simp: index_order_def split: if_splits)
qed

lemma multi_step_producer:
  assumes I: "multi_inv g (M # ps)" and i: "i < length ps" and out: "(g', l) \<in> set (multi_thread t g (ps ! i))"
  shows "multi_inv g' (M # ps[i := l])"
proof -
  let ?q = "queue g" and ?q' = "queue g'"
  have len: "length ps = NUM_PRODUCERS" and ord: "index_order ?q"
    and eq1: "int (unat (reserveWriteIndex ?q)) = int (unat (commitWriteIndex ?q)) + cnt inflight ps"
    and eq2: "int (unat (reserveWriteIndex ?q)) = total reserved ps"
    and M: "consumer_ok ?q M" and all: "list_all (producer_ok ?q) ps"
    using I by (auto simp: multi_inv_def)
  have b: "unat (reserveWriteIndex ?q) \<le> 4000" using multi_bound [OF all len] eq2 by linarith
  have pok: "producer_ok ?q (ps ! i)" using all i by (simp add: list_all_length)
  have "index_order ?q' \<and> readIndex ?q' = readIndex ?q \<and>
    unat (reserveWriteIndex ?q) \<le> unat (reserveWriteIndex ?q') \<and> unat (commitWriteIndex ?q) \<le> unat (commitWriteIndex ?q') \<and>
    producer_ok ?q' l \<and>
    int (unat (reserveWriteIndex ?q')) = int (unat (reserveWriteIndex ?q)) + reserved l - reserved (ps ! i) \<and>
    int (unat (reserveWriteIndex ?q')) - int (unat (commitWriteIndex ?q')) =
      int (unat (reserveWriteIndex ?q)) - int (unat (commitWriteIndex ?q)) +
      of_bool (inflight l) - of_bool (inflight (ps ! i))"
  proof (cases "ps ! i")
    case (PPush p k pc)
    have fl: "unat (commitWriteIndex ?q) < unat (reserveWriteIndex ?q)" if "inflight (PPush p k pc)"
      using cnt_pos [of i ps inflight] i that PPush eq1 by (metis less_add_same_cancel1 of_nat_less_iff zero_less_one zle_add1_eq_le less_le_trans add_0)
    from out PPush obtain r where st: "(?q', r) \<in> set (mpsc_push_step ?q pc)"
      and l: "l = (case r of Inl pc' \<Rightarrow> PPush p k pc'
        | Inr b \<Rightarrow> if b then PNext p (k + 1) else PPush p k (PushReserve (multi_value p k)))"
      by (auto simp: multi_thread_def)
    have k: "k < ITEMS_PER_PRODUCER" using pok PPush by (cases pc) auto
    from push_step_indices [OF ord b pok [unfolded PPush] fl st] l PPush k show ?thesis
      by (cases r) (auto split: if_splits)
  qed (use out pok ord in \<open>auto simp: multi_thread_def split: if_splits\<close>)
  note D = this
  have "producer_ok ?q' z" if "producer_ok ?q z" for z
    using D by (intro producer_ok_mono [OF that]) simp_all
  then have "list_all (producer_ok ?q') ps"
    using all by (auto elim!: list.pred_mono_strong)
  then have "list_all (producer_ok ?q') (ps[i := l])" using D by (intro list_all_upd) simp_all
  moreover from D M have "consumer_ok ?q' M" by (auto intro: consumer_ok_mono)
  ultimately show ?thesis
    using D len eq1 eq2 i by (simp add: multi_inv_def cnt_upd total_upd)
qed

text \<open>One access of a pop.\<close>

lemma pop_step_indices:
  assumes ord: "index_order q" and b: "unat (reserveWriteIndex q) \<le> 4000"
    and ok: "consumer_ok q (MPop rc pc)" and st: "mpsc_pop_step q pc = (q', r)"
  shows "index_order q' \<and> reserveWriteIndex q' = reserveWriteIndex q \<and> commitWriteIndex q' = commitWriteIndex q \<and>
    unat (readIndex q) \<le> unat (readIndex q') \<and>
    (case r of Inl pc' \<Rightarrow> consumer_ok q' (MPop rc pc') | Inr v \<Rightarrow> True)"
proof (cases pc)
  case PopRead
  with assms show ?thesis by auto
next
  case (PopCommit r)
  have "unat (readIndex q) < unat (commitWriteIndex q)" if "commitWriteIndex q \<noteq> readIndex q"
    using ord that index_eqI [of "readIndex q" "commitWriteIndex q"] by (fastforce simp: index_order_def)
  with PopCommit assms show ?thesis by auto
next
  case (PopTake r)
  with assms show ?thesis by auto
next
  case (PopStore x v)
  then have "unat (readIndex q) < unat (commitWriteIndex q)" using ok by auto
  moreover from this have "unat (readIndex q + 1) = unat (readIndex q) + 1"
    using b ord by (intro unat_inc) (simp add: index_order_def)
  ultimately show ?thesis using PopStore assms by (auto simp: index_order_def)
qed

lemma multi_step_main:
  assumes I: "multi_inv g (M # ps)" and out: "(g', l) \<in> set (multi_thread t g M)"
  shows "multi_inv g' (l # ps)"
proof -
  let ?q = "queue g" and ?q' = "queue g'"
  have len: "length ps = NUM_PRODUCERS" and ord: "index_order ?q"
    and eq1: "int (unat (reserveWriteIndex ?q)) = int (unat (commitWriteIndex ?q)) + cnt inflight ps"
    and eq2: "int (unat (reserveWriteIndex ?q)) = total reserved ps"
    and M: "consumer_ok ?q M" and all: "list_all (producer_ok ?q) ps"
    using I by (auto simp: multi_inv_def)
  have b: "unat (reserveWriteIndex ?q) \<le> 4000" using multi_bound [OF all len] eq2 by linarith
  have D: "index_order ?q' \<and> reserveWriteIndex ?q' = reserveWriteIndex ?q \<and> commitWriteIndex ?q' = commitWriteIndex ?q \<and>
    unat (readIndex ?q) \<le> unat (readIndex ?q') \<and> consumer_ok ?q' l"
  proof (cases M)
    case (MPop rc pc)
    obtain q1 r where st: "mpsc_pop_step ?q pc = (q1, r)" by (cases "mpsc_pop_step ?q pc")
    from pop_step_indices [OF ord b M [unfolded MPop] st] out MPop st show ?thesis
      by (auto simp: multi_thread_def split: sum.splits option.splits)
  qed (use out M ord in \<open>auto simp: multi_thread_def split: if_splits\<close>)
  have "producer_ok ?q' z" if "producer_ok ?q z" for z
    using D by (intro producer_ok_mono [OF that]) simp_all
  then have "list_all (producer_ok ?q') ps"
    using all by (auto elim!: list.pred_mono_strong)
  with D len eq1 eq2 show ?thesis by (simp add: multi_inv_def)
qed

interpretation multi: thread_inv multi_thread "multi_init d" multi_inv for d
proof
  show "multi_inv (fst (multi_init d)) (snd (multi_init d))"
    by (simp add: multi_init_def multi_inv_def mpsc_new_def index_order_def NUM_PRODUCERS_def numeral_eq_Suc)
next
  fix g ls i g' l
  assume I: "multi_inv g ls" and i: "i < length ls" and out: "(g', l) \<in> set (multi_thread i g (ls ! i))"
  obtain M ps where ls: "ls = M # ps" using I by (auto simp: multi_inv_def)
  show "multi_inv g' (ls[i := l])"
  proof (cases i)
    case 0
    with multi_step_main [of g M ps g' l i] I out ls show ?thesis by simp
  next
    case (Suc n)
    with multi_step_producer [of g M ps n g' l i] I i out ls show ?thesis by simp
  qed
qed

text \<open>
  Claim C29. In test_multiple_producers_single_consumer the indices keep the order read, commit, reserve
  in every interleaving, and the reservations are at most 1024 ahead of the reader: no producer
  reserves a cell beyond a full ring. (The header comment states the order of commit and reserve
  the other way round.) The difference of the last two is the number of pushes under way.
\<close>

theorem mpsc_index_order:
  assumes "reach multi_thread (multi_init d) (g, ls)"
  shows "readIndex (queue g) \<le> commitWriteIndex (queue g) \<and>
    commitWriteIndex (queue g) \<le> reserveWriteIndex (queue g) \<and>
    unat (reserveWriteIndex (queue g)) \<le> unat (readIndex (queue g)) + 1024 \<and>
    int (unat (reserveWriteIndex (queue g) - commitWriteIndex (queue g))) = cnt inflight (tl ls)"
proof -
  obtain M ps where ls: "ls = M # ps" and ord: "index_order (queue g)"
    and eq: "int (unat (reserveWriteIndex (queue g))) = int (unat (commitWriteIndex (queue g))) + cnt inflight ps"
    using multi.reach_inv [OF assms] by (auto simp: multi_inv_def)
  from ord have le: "readIndex (queue g) \<le> commitWriteIndex (queue g)"
    "commitWriteIndex (queue g) \<le> reserveWriteIndex (queue g)"
    by (simp_all add: index_order_def word_le_nat_alt)
  then have "unat (reserveWriteIndex (queue g) - commitWriteIndex (queue g)) =
      unat (reserveWriteIndex (queue g)) - unat (commitWriteIndex (queue g))"
    by (simp add: unat_sub_if_size word_le_nat_alt)
  with le ord eq ls show ?thesis by (simp add: index_order_def word_le_nat_alt)
qed

theorem mpsc_index_order_witness:
  "\<exists>g ls. reach multi_thread (multi_init 7) (g, ls) \<and> reserveWriteIndex (queue g) = 2 \<and>
     commitWriteIndex (queue g) = 1 \<and> cnt inflight (tl ls) = 1"
proof -
  have "\<exists>g ls. sched multi_thread [(0, 0), (1, 0), (1, 0), (1, 0), (1, 0), (1, 1), (1, 0), (1, 1),
       (2, 0), (2, 0), (2, 0), (2, 0), (2, 1)] (multi_init 7) = Some (g, ls) \<and>
     reserveWriteIndex (queue g) = 2 \<and> commitWriteIndex (queue g) = 1"
    by (simp add: multi_init_def multi_thread_def NUM_PRODUCERS_def upt_rec
        mpsc_new_def ITEMS_PER_PRODUCER_def TOTAL_ITEMS_def slot_mod MPSC_QUEUE_CAPACITY_def
        upd_Cons_numeral Let_def)
  then obtain g ls where r: "reach multi_thread (multi_init 7) (g, ls)"
    and e: "reserveWriteIndex (queue g) = 2" "commitWriteIndex (queue g) = 1" by (auto dest: sched_reach)
  from mpsc_index_order [OF r] e have "cnt inflight (tl ls) = 1" by simp
  with r e show ?thesis by blast
qed

text \<open>
  Two producers reserve cells 0 and 1; the second writes its cell, its exchange of the commit
  index fails and loads 0 into \<open>rw\<close>, and the next attempt succeeds. The consumer pops cell 0,
  which the first producer has not written.
\<close>

definition unwritten_schedule :: "(nat \<times> nat) list" where
  "unwritten_schedule = [(0, 0), (1, 0), (2, 0), (1, 0), (2, 0), (1, 0), (1, 0), (1, 1),
     (2, 0), (2, 0), (2, 1), (2, 0), (2, 0), (2, 1), (0, 0), (0, 0), (0, 0), (0, 0), (0, 0)]"

text \<open>
  Claim C25. With two producers the consumer can pop a cell that no producer has written: some run of
  test_multiple_producers_single_consumer pops what the uninitialised array held, although the first
  producer has pushed nothing yet, and counts it as received.
\<close>

theorem mpsc_pops_unwritten:
  "\<exists>g p3 p4. reach multi_thread (multi_init d)
     (g, [MNext [d], PPush 0 0 (PushWrite (multi_value 0 0) 0), PNext 1 1, p3, p4]) \<and>
     readIndex (queue g) = 1 \<and> commitWriteIndex (queue g) = 1 \<and> reserveWriteIndex (queue g) = 2"
proof -
  have "\<exists>g p3 p4. sched multi_thread unwritten_schedule (multi_init d) =
     Some (g, [MNext [d], PPush 0 0 (PushWrite (multi_value 0 0) 0), PNext 1 1, p3, p4]) \<and>
     readIndex (queue g) = 1 \<and> commitWriteIndex (queue g) = 1 \<and> reserveWriteIndex (queue g) = 2"
    by (simp add: unwritten_schedule_def multi_init_def multi_thread_def NUM_PRODUCERS_def upt_rec
        mpsc_new_def ITEMS_PER_PRODUCER_def TOTAL_ITEMS_def slot_mod MPSC_QUEUE_CAPACITY_def
        upd_Cons_numeral Let_def)
  then show ?thesis by (blast dest: sched_reach)
qed

end
