(* ===== verification/Mpsc_Stress.thy ===== *)
theory Mpsc_Stress
  imports Mpsc_Queue
begin

text \<open>
  The other threaded tests of ProducerConsumer/mpsc_queue_test/mpsc_queue_test.cpp: high contention, the order of each
  producer, alternating calls, producers with a variable rate. They differ in the values, in what a producer does when the
  queue is full and in what the consumer checks. A test that returns while its threads have not been joined ends the
  process, since the destructor of a joinable \<open>std::thread\<close> terminates it.
\<close>

section \<open>The tests\<close>

datatype stress_test = HighContention | PerProducer | Alternating | VariableRate

fun stress_producers :: "stress_test \<Rightarrow> nat" where
  "stress_producers HighContention = 8"
| "stress_producers PerProducer = 4"
| "stress_producers Alternating = 3"
| "stress_producers VariableRate = 4"

fun stress_items :: "stress_test \<Rightarrow> nat" where
  "stress_items HighContention = 5000"
| "stress_items PerProducer = 500"
| "stress_items Alternating = 1000"
| "stress_items VariableRate = 500"

definition stress_expected :: "stress_test \<Rightarrow> nat" where
  "stress_expected x = stress_producers x * stress_items x"

fun stress_value :: "stress_test \<Rightarrow> nat \<Rightarrow> nat \<Rightarrow> int" where
  "stress_value PerProducer p i = or (push_bit 20 (int p)) (int i)"
| "stress_value x p i = int (p * stress_items x + i)"

section \<open>The producers\<close>

record stress_state =
  squeue :: "int mpsc"
  sstart :: bool
  push_failures :: nat
  total_pushed :: nat
  sended :: nat
  terminated :: bool

text \<open>What the consumer keeps: the values, the last sequence number of each producer, the number of values.\<close>

record stress_consumer =
  received :: "int list"
  last_seq :: "int list"
  consumed :: nat

datatype stress_end = Returns bool | Terminates | OutOfRange

datatype stress_pc =
    SWait nat
  | SNext nat nat
  | SPush nat nat nat "int mpsc_push_pc"
  | SGiveUp nat nat
  | SCount nat nat
  | SEnd
  | CStart
  | CNext stress_consumer
  | CPop stress_consumer "int mpsc_pop_pc"
  | CJoin stress_consumer
  | CEnd stress_end

text \<open>After a refused push. \<open>stop\<close> of the alternating test is never set.\<close>

definition stress_refused :: "stress_test \<Rightarrow> nat \<Rightarrow> nat \<Rightarrow> nat \<Rightarrow> stress_pc" where
  "stress_refused x p i retries =
     (if x = HighContention \<and> retries + 1 > 1000 then SGiveUp p i
      else SPush p i (retries + 1) (PushReserve (stress_value x p i)))"

fun stress_producer :: "stress_test \<Rightarrow> stress_state \<Rightarrow> stress_pc \<Rightarrow> (stress_state \<times> stress_pc) list" where
  "stress_producer x g (SWait p) = [(g, if sstart g \<or> x = Alternating then SNext p 0 else SWait p)]"
| "stress_producer x g (SNext p i) =
     [if i < stress_items x then (g, SPush p i 0 (PushReserve (stress_value x p i)))
      else (g\<lparr>sended := sended g + 1\<rparr>, SEnd)]"
| "stress_producer x g (SPush p i retries pc) = map (\<lambda>(q, r). (g\<lparr>squeue := q\<rparr>,
       (case r of
          Inl pc' \<Rightarrow> SPush p i retries pc'
        | Inr b \<Rightarrow> if \<not> b then stress_refused x p i retries else if x = Alternating then SCount p i else SNext p (i + 1))))
       (mpsc_push_step (squeue g) pc)"
| "stress_producer x g (SGiveUp p i) = [(g\<lparr>push_failures := push_failures g + 1\<rparr>, SNext p (i + 1))]"
| "stress_producer x g (SCount p i) = [(g\<lparr>total_pushed := total_pushed g + 1\<rparr>, SNext p (i + 1))]"
| "stress_producer x g _ = []"

section \<open>The consumers\<close>

text \<open>What the consumer does with a value; \<open>Inr\<close> when the test is over.\<close>

fun stress_take :: "stress_test \<Rightarrow> int \<Rightarrow> stress_consumer \<Rightarrow> stress_consumer + stress_end" where
  "stress_take HighContention v c = Inl (c\<lparr>received := received c @ [v]\<rparr>)"
| "stress_take PerProducer v c =
     (let producer_id = drop_bit 20 v; sequence = and v 1048575
      in if producer_id < 0 \<or> int (length (last_seq c)) \<le> producer_id then Inr OutOfRange
         else if sequence \<le> last_seq c ! nat producer_id then Inr Terminates
         else Inl (c\<lparr>last_seq := (last_seq c)[nat producer_id := sequence], consumed := consumed c + 1\<rparr>))"
| "stress_take Alternating v c = Inl (c\<lparr>consumed := consumed c + 1\<rparr>)"
| "stress_take VariableRate v c =
     (if v \<in> set (received c) then Inr Terminates else Inl (c\<lparr>received := received c @ [v]\<rparr>))"

text \<open>The condition of the loop.\<close>

fun stress_goes_on :: "stress_test \<Rightarrow> stress_state \<Rightarrow> stress_consumer \<Rightarrow> bool" where
  "stress_goes_on HighContention g c = (int (length (received c)) < int (stress_expected HighContention) - int (push_failures g))"
| "stress_goes_on VariableRate g c = (length (received c) < stress_expected VariableRate)"
| "stress_goes_on x g c = (consumed c < stress_expected x)"

text \<open>The checks after the joins.\<close>

fun stress_check :: "stress_test \<Rightarrow> stress_consumer \<Rightarrow> bool" where
  "stress_check HighContention c = distinct (received c)"
| "stress_check PerProducer c = list_all (\<lambda>p. last_seq c ! p = int (stress_items PerProducer) - 1) [0..<stress_producers PerProducer]"
| "stress_check Alternating c = (consumed c = stress_expected Alternating)"
| "stress_check VariableRate c = (length (received c) = stress_expected VariableRate)"

text \<open>The loop of the high-contention test may also stop after a pop, when its time is over.\<close>

fun stress_main :: "stress_test \<Rightarrow> stress_state \<Rightarrow> stress_pc \<Rightarrow> (stress_state \<times> stress_pc) list" where
  "stress_main x g CStart =
     [(g\<lparr>sstart := True\<rparr>, CNext \<lparr>received = [], last_seq = replicate (stress_producers x) (-1), consumed = 0\<rparr>)]"
| "stress_main x g (CNext c) = [(g, if stress_goes_on x g c then CPop c PopRead else CJoin c)]"
| "stress_main x g (CPop c pc) =
     (let (q, r) = mpsc_pop_step (squeue g) pc; g = g\<lparr>squeue := q\<rparr>;
          next = (\<lambda>c. (g, CNext c) # (if x = HighContention then [(g, CJoin c)] else []))
      in case r of
           Inl pc' \<Rightarrow> [(g, CPop c pc')]
         | Inr None \<Rightarrow> next c
         | Inr (Some v) \<Rightarrow>
             (case stress_take x v c of
                Inl c' \<Rightarrow> next c'
              | Inr e \<Rightarrow> [(g\<lparr>terminated := True\<rparr>, CEnd e)]))"
| "stress_main x g (CJoin c) = (if sended g = stress_producers x then [(g, CEnd (Returns (stress_check x c)))] else [])"
| "stress_main x g _ = []"

definition stress_thread :: "stress_test \<Rightarrow> (stress_state, stress_pc) thread" where
  "stress_thread x t g pc = (if terminated g then [] else stress_producer x g pc @ stress_main x g pc)"

definition stress_init :: "stress_test \<Rightarrow> int \<Rightarrow> (stress_state, stress_pc) conf" where
  "stress_init x d =
     (\<lparr>squeue = mpsc_new d, sstart = False, push_failures = 0, total_pushed = 0, sended = 0, terminated = False\<rparr>,
      CStart # map SWait [0..<stress_producers x])"

section \<open>A test that is not robust against the queue\<close>

text \<open>
  Two producers reserve cells 0 and 1, the second one commits first, and the consumer reads cell 0, which nobody has written:
  with what the memory held, a test indexes its vector out of range, or ends the process.
\<close>

definition stress_schedule :: "(nat \<times> nat) list" where
  "stress_schedule = [(0, 0), (1, 0), (2, 0), (1, 0), (2, 0), (1, 0), (1, 0), (1, 1),
     (2, 0), (2, 0), (2, 1), (2, 0), (2, 0), (2, 1), (0, 0), (0, 0), (0, 0), (0, 0), (0, 0)]"

text \<open>
  test_fifo_ordering_per_producer can read beyond \<open>last_seq\<close>: for any contents \<open>d\<close> of the new array that is not the code of
  one of the producers.
\<close>

theorem per_producer_test_out_of_range:
  assumes "drop_bit 20 d < 0 \<or> 4 \<le> drop_bit 20 d"
  shows "\<exists>g ls. reach (stress_thread PerProducer) (stress_init PerProducer d) (g, CEnd OutOfRange # ls) \<and>
     readIndex (squeue g) = 1"
proof -
  have "\<exists>g ls. sched (stress_thread PerProducer) stress_schedule (stress_init PerProducer d) =
      Some (g, CEnd OutOfRange # ls) \<and> readIndex (squeue g) = 1"
    using assms by (auto simp: stress_schedule_def stress_init_def stress_thread_def upt_rec mpsc_new_def stress_expected_def
        slot_mod MPSC_QUEUE_CAPACITY_def upd_Cons_numeral Let_def)
  then show ?thesis by (blast dest: sched_reach)
qed

theorem per_producer_test_out_of_range_witness:
  "\<exists>g ls. reach (stress_thread PerProducer) (stress_init PerProducer (-1)) (g, CEnd OutOfRange # ls) \<and> readIndex (squeue g) = 1"
  by (rule per_producer_test_out_of_range) simp

section \<open>RUN_TEST\<close>

text \<open>\<open>main\<close> runs the tests in order and counts; a test is what its function has returned. The last component is the result of \<open>main\<close>.\<close>

record test_counts =
  total_tests :: nat
  passed_tests :: nat
  failed_tests :: nat

definition RUN_TEST :: "bool \<Rightarrow> test_counts \<Rightarrow> test_counts" where
  "RUN_TEST result c =
     (let c = c\<lparr>total_tests := total_tests c + 1\<rparr>
      in if result then c\<lparr>passed_tests := passed_tests c + 1\<rparr> else c\<lparr>failed_tests := failed_tests c + 1\<rparr>)"

definition mpsc_tests_main :: "bool list \<Rightarrow> test_counts \<times> int" where
  "mpsc_tests_main results =
     (let c = fold RUN_TEST results \<lparr>total_tests = 0, passed_tests = 0, failed_tests = 0\<rparr>
      in (c, if failed_tests c = 0 then 0 else 1))"

lemma mpsc_tests_counted:
  "fold RUN_TEST results c = \<lparr>total_tests = total_tests c + length results,
     passed_tests = passed_tests c + length (filter id results), failed_tests = failed_tests c + length (filter Not results)\<rparr>"
  by (induction results arbitrary: c) (auto simp: RUN_TEST_def Let_def)

lemma mpsc_tests_result: "snd (mpsc_tests_main results) = 0 \<longleftrightarrow> list_all id results"
  by (auto simp: mpsc_tests_main_def mpsc_tests_counted Let_def filter_empty_conv list_all_iff)

end
