(* ===== verification/Condition_Variables.thy ===== *)
theory Condition_Variables
  imports Conc_Prelude
begin

text \<open>
  The vocabulary of the programs that wait on a \<open>std::condition_variable\<close>. A condition variable is
  the list of the threads that wait on it. \<open>wait(lock, pred)\<close> is the loop that tests the predicate
  with the mutex held, then releases the mutex and enqueues itself in one step, and tests again
  once it has been woken and has the mutex. Between the test and the enqueueing other threads
  can run, as far as they do not need the mutex.
\<close>

type_synonym condvar = "nat list"

text \<open>\<open>notify_one\<close> wakes any one of the waiting threads, if there is one.\<close>

definition notify_one :: "condvar \<Rightarrow> condvar list" where
  "notify_one ws = (if ws = [] then [[]] else map (\<lambda>i. remove1 i ws) ws)"

definition notify_all :: "condvar \<Rightarrow> condvar" where
  "notify_all ws = []"

text \<open>
  Thread \<open>t\<close> returns from the wait when it has been notified, or for no reason if \<open>spurious\<close>
  allows that, and the mutex is free.
\<close>

definition may_resume :: "bool \<Rightarrow> nat \<Rightarrow> condvar \<Rightarrow> bool \<Rightarrow> bool" where
  "may_resume spurious t ws locked \<longleftrightarrow> \<not> locked \<and> (spurious \<or> t \<notin> set ws)"

text \<open>The mutex and what is known under it.\<close>

text \<open>
  A mutex protects the part \<open>p\<close> of the state: with at most one holder, a step that changes it is
  taken by the holder, so what the other threads know about it is not affected.
\<close>

lemma holder_unique:
  assumes "cnt H ls = of_bool m" "i < length ls" "j < length ls" "i \<noteq> j" "H (ls ! i)"
  shows "\<not> H (ls ! j)"
  using assms cnt_le_one_unique [of H ls i j] by (cases m) auto

lemma nobody_holds:
  assumes "cnt H ls = of_bool m" "\<not> m" "j < length ls"
  shows "\<not> H (ls ! j)"
  using assms by (simp add: cnt_zero_iff)

text \<open>Running a schedule in pieces.\<close>

lemma sched_append: "sched T (xs @ ys) c = (case sched T xs c of None \<Rightarrow> None | Some c' \<Rightarrow> sched T ys c')"
proof (induction T xs c rule: sched.induct)
  case (1 T c)
  then show ?case by simp
next
  case (2 T i k ss g ls)
  show ?case
  proof (cases "i < length ls \<and> k < length (T i g (ls ! i))")
    case True
    with "2.IH" [OF _ refl] show ?thesis by (simp add: Let_def)
  next
    case False
    then show ?thesis by (auto simp: Let_def)
  qed
qed

lemma sched_rounds:
  assumes "\<And>k. k < n \<Longrightarrow> sched T (ss k) (c k) = Some (c (Suc k))"
  shows "sched T (concat (map ss [0..<n])) (c 0) = Some (c n)"
  using assms by (induction n) (simp_all add: sched_append)

end
