(* ===== verification/Buffer_Monitor.thy ===== *)
theory Buffer_Monitor
  imports Condition_Variables
begin

text \<open>
  ProducerConsumer/producer_consumer_monitor/main.cpp: a monitor with two condition variables around a
  ring of three cells, two producers, two consumers, and a main thread that stops them. Standard output,
  which is written with the mutex held, records the order of the operations.
\<close>

section \<open>The monitor\<close>

definition mon_kMaxMessagesCount :: nat where "mon_kMaxMessagesCount = 10"
definition mon_kBufferSize :: nat where "mon_kBufferSize = 3"

datatype mon_event = Append nat | Remove nat

record bounded_buffer =
  buffer :: "nat list"
  head :: nat
  tail :: nat
  count :: nat
  nonempty :: condvar
  nonfull :: condvar
  mtx :: bool
  endSignal :: bool
  messagesCount :: nat
  printed :: "mon_event list"

text \<open>
  Producers: \<open>ANext i\<close> starts round \<open>i\<close>, the others are places inside \<open>append\<close>. Consumers:
  places inside \<open>remove\<close>. The main thread sleeps, stops the monitor and joins.
\<close>

datatype mon_pc =
    ANext nat
  | ALock nat nat
  | ATest nat nat
  | ABlock nat nat
  | AWait nat nat
  | AEnd nat nat
  | AStore nat nat
  | ANotify nat
  | AUnlock nat
  | ADone
  | RLock
  | RTest
  | RBlock
  | RWait
  | REnd
  | RTake
  | RNotify nat
  | RUnlock "nat option"
  | RDone
  | MSleep
  | MStop1
  | MStop2
  | MStop3

fun mon_append :: "bool \<Rightarrow> nat \<Rightarrow> bounded_buffer \<Rightarrow> mon_pc \<Rightarrow> (bounded_buffer \<times> mon_pc) list" where
  "mon_append sp t s (ALock i v) = (if mtx s then [] else [(s\<lparr>mtx := True\<rparr>, ATest i v)])"
| "mon_append sp t s (ATest i v) =
     [(s, if \<not> (mon_kBufferSize = count s) \<or> endSignal s then AEnd i v else ABlock i v)]"
| "mon_append sp t s (ABlock i v) = [(s\<lparr>nonfull := nonfull s @ [t], mtx := False\<rparr>, AWait i v)]"
| "mon_append sp t s (AWait i v) =
     (if may_resume sp t (nonfull s) (mtx s)
      then [(s\<lparr>mtx := True, nonfull := remove1 t (nonfull s)\<rparr>, ATest i v)] else [])"
| "mon_append sp t s (AEnd i v) = [(s, if endSignal s then AUnlock i else AStore i v)]"
| "mon_append sp t s (AStore i v) =
     [(s\<lparr>printed := printed s @ [Append v], buffer := (buffer s)[tail s := v],
         tail := (tail s + 1) mod mon_kBufferSize, count := count s + 1\<rparr>, ANotify i)]"
| "mon_append sp t s (ANotify i) = map (\<lambda>ws. (s\<lparr>nonempty := ws\<rparr>, AUnlock i)) (notify_one (nonempty s))"
| "mon_append sp t s (AUnlock i) = [(s\<lparr>mtx := False\<rparr>, ANext (i + 1))]"
| "mon_append sp t s _ = []"

fun mon_remove :: "bool \<Rightarrow> nat \<Rightarrow> bounded_buffer \<Rightarrow> mon_pc \<Rightarrow> (bounded_buffer \<times> mon_pc) list" where
  "mon_remove sp t s RLock = (if mtx s then [] else [(s\<lparr>mtx := True\<rparr>, RTest)])"
| "mon_remove sp t s RTest = [(s, if \<not> (0 = count s) \<or> endSignal s then REnd else RBlock)]"
| "mon_remove sp t s RBlock = [(s\<lparr>nonempty := nonempty s @ [t], mtx := False\<rparr>, RWait)]"
| "mon_remove sp t s RWait =
     (if may_resume sp t (nonempty s) (mtx s)
      then [(s\<lparr>mtx := True, nonempty := remove1 t (nonempty s)\<rparr>, RTest)] else [])"
| "mon_remove sp t s REnd = [(s, if endSignal s then RUnlock None else RTake)]"
| "mon_remove sp t s RTake =
     (let portion = buffer s ! head s in
      [(s\<lparr>printed := printed s @ [Remove portion], head := (head s + 1) mod mon_kBufferSize,
          count := count s - 1\<rparr>, RNotify portion)])"
| "mon_remove sp t s (RNotify v) =
     map (\<lambda>ws. (s\<lparr>nonfull := ws\<rparr>, RUnlock (Some v))) (notify_one (nonfull s))"
| "mon_remove sp t s _ = []"

text \<open>\<open>stop\<close> does not take the mutex.\<close>

fun mon_stop :: "bounded_buffer \<Rightarrow> mon_pc \<Rightarrow> (bounded_buffer \<times> mon_pc) list" where
  "mon_stop s MSleep = [(s\<lparr>endSignal := True\<rparr>, MStop1)]"
| "mon_stop s MStop1 = [(s\<lparr>nonempty := notify_all (nonempty s)\<rparr>, MStop2)]"
| "mon_stop s MStop2 = [(s\<lparr>nonfull := notify_all (nonfull s)\<rparr>, MStop3)]"
| "mon_stop s _ = []"

fun mon_producer :: "bounded_buffer \<Rightarrow> mon_pc \<Rightarrow> (bounded_buffer \<times> mon_pc) list" where
  "mon_producer s (ANext i) =
     [if i < mon_kMaxMessagesCount then (s\<lparr>messagesCount := messagesCount s + 1\<rparr>, ALock i (messagesCount s))
      else (s, ADone)]"
| "mon_producer s _ = []"

fun mon_consumer :: "bounded_buffer \<Rightarrow> mon_pc \<Rightarrow> (bounded_buffer \<times> mon_pc) list" where
  "mon_consumer s (RUnlock result) =
     [(s\<lparr>mtx := False\<rparr>, case result of None \<Rightarrow> RDone | Some portion \<Rightarrow> RLock)]"
| "mon_consumer s _ = []"

definition mon_thread :: "bool \<Rightarrow> (bounded_buffer, mon_pc) thread" where
  "mon_thread sp t s pc =
     mon_producer s pc @ mon_append sp t s pc @ mon_consumer s pc @ mon_remove sp t s pc @ mon_stop s pc"

definition mon_main :: "(bounded_buffer, mon_pc) conf" where
  "mon_main = (\<lparr>buffer = replicate mon_kBufferSize 0, head = 0, tail = 0, count = 0, nonempty = [], nonfull = [],
     mtx = False, endSignal = False, messagesCount = 0, printed = []\<rparr>,
     [ANext 0, RLock, ANext 0, RLock, MSleep])"

section \<open>The invariant\<close>

fun appended :: "mon_event list \<Rightarrow> nat list" where
  "appended [] = []"
| "appended (Append v # es) = v # appended es"
| "appended (Remove v # es) = appended es"

fun removed :: "mon_event list \<Rightarrow> nat list" where
  "removed [] = []"
| "removed (Append v # es) = removed es"
| "removed (Remove v # es) = v # removed es"

lemma appended_snoc [simp]: "appended (es @ [e]) = appended es @ (case e of Append v \<Rightarrow> [v] | Remove v \<Rightarrow> [])"
  by (induction es rule: appended.induct) (auto split: mon_event.splits)

lemma removed_snoc [simp]: "removed (es @ [e]) = removed es @ (case e of Append v \<Rightarrow> [] | Remove v \<Rightarrow> [v])"
  by (induction es rule: removed.induct) (auto split: mon_event.splits)

fun holds_mtx :: "mon_pc \<Rightarrow> bool" where
  "holds_mtx (ATest i v) = True"
| "holds_mtx (ABlock i v) = True"
| "holds_mtx (AEnd i v) = True"
| "holds_mtx (AStore i v) = True"
| "holds_mtx (ANotify i) = True"
| "holds_mtx (AUnlock i) = True"
| "holds_mtx RTest = True"
| "holds_mtx RBlock = True"
| "holds_mtx REnd = True"
| "holds_mtx RTake = True"
| "holds_mtx (RNotify v) = True"
| "holds_mtx (RUnlock r) = True"
| "holds_mtx _ = False"

text \<open>What a thread knows after its test of the predicate.\<close>

fun tested :: "bounded_buffer \<Rightarrow> mon_pc \<Rightarrow> bool" where
  "tested s (AEnd i v) = (count s < mon_kBufferSize \<or> endSignal s)"
| "tested s (AStore i v) = (count s < mon_kBufferSize)"
| "tested s REnd = (0 < count s \<or> endSignal s)"
| "tested s RTake = (0 < count s)"
| "tested s _ = True"

definition mon_contents :: "bounded_buffer \<Rightarrow> nat list" where
  "mon_contents s = ring_slice (buffer s) (head s) (count s)"

definition mon_ring :: "bounded_buffer \<Rightarrow> bool" where
  "mon_ring s \<longleftrightarrow> length (buffer s) = mon_kBufferSize \<and> head s < mon_kBufferSize \<and> count s \<le> mon_kBufferSize \<and>
     tail s = (head s + count s) mod mon_kBufferSize \<and> appended (printed s) = removed (printed s) @ mon_contents s"

definition mon_inv :: "bounded_buffer \<Rightarrow> mon_pc list \<Rightarrow> bool" where
  "mon_inv s ls \<longleftrightarrow> mon_ring s \<and> cnt holds_mtx ls = of_bool (mtx s) \<and> list_all (tested s) ls"

lemma mon_ring_append:
  assumes "mon_ring s" "count s < mon_kBufferSize"
  shows "mon_ring (s\<lparr>printed := printed s @ [Append v], buffer := (buffer s)[tail s := v],
         tail := (tail s + 1) mod mon_kBufferSize, count := count s + 1\<rparr>)"
  using assms ring_slice_upd_outside [of "count s" "buffer s" "head s" v]
  by (simp add: mon_ring_def mon_contents_def ring_slice_Suc mon_kBufferSize_def mod_simps)

lemma mon_ring_remove:
  assumes "mon_ring s" "0 < count s"
  shows "mon_ring (s\<lparr>printed := printed s @ [Remove (buffer s ! head s)], head := (head s + 1) mod mon_kBufferSize,
          count := count s - 1\<rparr>)"
proof -
  obtain n where n: "count s = Suc n" using assms(2) gr0_conv_Suc by blast
  have "ring_slice (buffer s) (Suc (head s) mod 3) n = ring_slice (buffer s) (Suc (head s)) n"
    using assms(1) ring_slice_mod [of "buffer s" "Suc (head s)" n] by (simp add: mon_ring_def mon_kBufferSize_def)
  with assms(1) n show ?thesis
    by (simp add: mon_ring_def mon_contents_def ring_slice_Cons mon_kBufferSize_def mod_simps)
qed

text \<open>
  A step keeps the ring, takes or releases the mutex as its place says, and changes the count
  only if its thread holds the mutex.
\<close>

lemma mon_step_local:
  assumes R: "mon_ring s" and K: "tested s l" and H: "holds_mtx l \<longrightarrow> mtx s"
    and out: "(s', l') \<in> set (mon_thread sp t s l)"
  shows "mon_ring s' \<and> tested s' l' \<and> (endSignal s \<longrightarrow> endSignal s') \<and>
    (count s' = count s \<or> holds_mtx l) \<and>
    of_bool (mtx s') = of_bool (mtx s) - of_bool (holds_mtx l) + (of_bool (holds_mtx l') :: int)"
proof (cases l)
  case (AStore i v)
  with out mon_ring_append [OF R] K H show ?thesis by (auto simp: mon_thread_def)
next
  case RTake
  with out mon_ring_remove [OF R] K H show ?thesis by (auto simp: mon_thread_def Let_def)
qed (use out R K H in \<open>auto simp: mon_thread_def mon_ring_def mon_contents_def may_resume_def split: if_splits option.splits\<close>)

lemma tested_keep:
  "tested s l \<Longrightarrow> endSignal s \<longrightarrow> endSignal s' \<Longrightarrow> count s' = count s \<or> \<not> holds_mtx l \<Longrightarrow> tested s' l"
  by (cases l) auto

interpretation monitor: thread_inv "mon_thread sp" mon_main mon_inv for sp
proof
  show "mon_inv (fst mon_main) (snd mon_main)"
    by (simp add: mon_inv_def mon_main_def mon_ring_def mon_contents_def mon_kBufferSize_def)
next
  fix s ls i s' l
  assume I: "mon_inv s ls" and i: "i < length ls" and out: "(s', l) \<in> set (mon_thread sp i s (ls ! i))"
  have R: "mon_ring s" and C: "cnt holds_mtx ls = of_bool (mtx s)" and K: "list_all (tested s) ls"
    using I by (simp_all add: mon_inv_def)
  have "holds_mtx (ls ! i) \<longrightarrow> mtx s" using nobody_holds [OF C _ i] by blast
  note D = mon_step_local [OF R _ this out]
  have k: "tested s (ls ! i)" using K i by (simp add: list_all_length)
  have "tested s' (ls[i := l] ! j)" if "j < length ls" for j
  proof (cases "j = i")
    case True
    with D [OF k] i show ?thesis by simp
  next
    case False
    have "tested s (ls ! j)" using K that by (simp add: list_all_length)
    moreover have "holds_mtx (ls ! i) \<Longrightarrow> \<not> holds_mtx (ls ! j)"
      using holder_unique [OF C i that] False by blast
    ultimately show ?thesis using D [OF k] False by (auto intro: tested_keep)
  qed
  then have "list_all (tested s') (ls[i := l])" by (simp add: list_all_length)
  moreover have "cnt holds_mtx (ls[i := l]) = of_bool (mtx s')" using D [OF k] C i by (simp add: cnt_upd)
  ultimately show "mon_inv s' (ls[i := l])" using D [OF k] by (simp add: mon_inv_def)
qed

section \<open>What the monitor promises\<close>

text \<open>
  Claim C32. Whatever the interleaving, and with spurious wakeups or without: what has been printed as
  removed, followed by the cells in use, is what has been printed as appended, in the same order; never
  more than three portions are stored; and at most one thread is inside \<open>append\<close> or \<open>remove\<close>.
\<close>

theorem monitor_is_fifo:
  assumes "reach (mon_thread sp) mon_main (s, ls)"
  shows "appended (printed s) = removed (printed s) @ mon_contents s \<and> length (mon_contents s) = count s \<and>
    count s \<le> 3 \<and> cnt holds_mtx ls \<le> 1"
  using monitor.reach_inv [OF assms]
  by (simp add: mon_inv_def mon_ring_def mon_contents_def mon_kBufferSize_def)

text \<open>A round of each producer and of the first consumer.\<close>

theorem monitor_is_fifo_witness:
  "\<exists>s ls. reach (mon_thread False) mon_main (s, ls) \<and> printed s = [Append 0, Append 1, Remove 0] \<and>
     removed (printed s) = [0] \<and> mon_contents s = [1]"
proof -
  let ?p = "\<lambda>t. replicate 7 (t, 0)"
  have "\<exists>s ls. sched (mon_thread False) (?p 0 @ ?p 2 @ replicate 6 (1, 0)) mon_main = Some (s, ls) \<and>
      printed s = [Append 0, Append 1, Remove 0]"
    by (simp add: mon_main_def mon_thread_def mon_kBufferSize_def mon_kMaxMessagesCount_def notify_one_def
        upd_Cons_numeral replicate_unroll)
  then obtain s ls where r: "reach (mon_thread False) mon_main (s, ls)"
    and o: "printed s = [Append 0, Append 1, Remove 0]" by (auto dest: sched_reach)
  from monitor_is_fifo [OF r] o have "mon_contents s = [1]" by simp
  with r o show ?thesis by (intro exI [of _ s] exI [of _ ls]) simp
qed

text \<open>
  The second consumer tests the predicate, the main thread sets \<open>endSignal\<close> and notifies nobody,
  the consumer goes to sleep. The other threads see \<open>endSignal\<close> and return.
\<close>

definition lost_schedule :: "(nat \<times> nat) list" where
  "lost_schedule = [(3, 0), (3, 0), (4, 0), (4, 0), (4, 0), (3, 0)] @
     replicate 4 (1, 0) @ replicate 51 (0, 0) @ replicate 51 (2, 0)"

text \<open>
  \<open>stop\<close> sets \<open>endSignal\<close> without the mutex, so its notification can fall between the test
  and the wait of a consumer. Without spurious wakeups the program then never ends: all other threads
  have returned and the consumer waits for a notification that nobody will send.
\<close>

theorem monitor_lost_wakeup:
  "\<exists>s. reach (mon_thread False) mon_main (s, [ADone, RDone, ADone, RWait, MStop3]) \<and>
     stuck (mon_thread False) (s, [ADone, RDone, ADone, RWait, MStop3]) \<and> endSignal s \<and> \<not> mtx s"
proof -
  have "\<exists>s. sched (mon_thread False) lost_schedule mon_main = Some (s, [ADone, RDone, ADone, RWait, MStop3]) \<and>
      endSignal s \<and> \<not> mtx s \<and> nonempty s = [3]"
    by (simp add: lost_schedule_def mon_main_def mon_thread_def mon_kBufferSize_def mon_kMaxMessagesCount_def
        notify_all_def upd_Cons_numeral replicate_unroll)
  then obtain s where r: "reach (mon_thread False) mon_main (s, [ADone, RDone, ADone, RWait, MStop3])"
    and s: "endSignal s" "\<not> mtx s" "nonempty s = [3]" by (auto dest: sched_reach)
  from s have "stuck (mon_thread False) (s, [ADone, RDone, ADone, RWait, MStop3])"
    by (simp add: stuck_def mon_thread_def may_resume_def upt_rec)
  with r s show ?thesis by blast
qed

end
