(* ===== verification/Buffer_Semaphores.thy ===== *)
theory Buffer_Semaphores
  imports Condition_Variables
begin

text \<open>
  ProducerConsumer/producer_consumer_bounded_buffer/main.cpp: two producers and two consumers around a
  \<open>std::queue\<close>, two counting semaphores and a mutex. The consumers ignore the result of
  \<open>try_acquire_for\<close>. Standard output is written with the mutex held and records the order.
\<close>

section \<open>The program\<close>

definition bb_kMaxMessagesCount :: nat where "bb_kMaxMessagesCount = 10"
definition bb_kBufferSize :: nat where "bb_kBufferSize = 3"

datatype portion_event = Produce nat | Consume nat

record portions =
  numberQueueingPortions :: nat
  numberEmptyPositions :: nat
  bufferManipulation :: bool
  bb_buffer :: "nat list"
  bb_messages :: nat
  bb_printed :: "portion_event list"

definition take_portion_from_buffer :: "portions \<Rightarrow> nat option \<times> portions" where
  "take_portion_from_buffer s =
     (if bb_buffer s = [] then (None, s)
      else (Some (hd (bb_buffer s)), s\<lparr>bb_buffer := tl (bb_buffer s)\<rparr>))"

definition add_portion_to_buffer :: "nat \<Rightarrow> portions \<Rightarrow> portions" where
  "add_portion_to_buffer portion s = s\<lparr>bb_buffer := bb_buffer s @ [portion]\<rparr>"

datatype portion_pc =
    PNext nat
  | PAcquire nat nat
  | PLock nat nat
  | PAdd nat nat
  | PUnlock nat
  | PRelease nat
  | PReturn
  | CTry
  | CLock
  | CTake
  | CUnlock "nat option"
  | CRelease
  | CReturn

fun bb_producer :: "portions \<Rightarrow> portion_pc \<Rightarrow> (portions \<times> portion_pc) list" where
  "bb_producer s (PNext i) =
     [if i < bb_kMaxMessagesCount then (s\<lparr>bb_messages := bb_messages s + 1\<rparr>, PAcquire i (bb_messages s))
      else (s, PReturn)]"
| "bb_producer s (PAcquire i v) =
     (if 0 < numberEmptyPositions s
      then [(s\<lparr>numberEmptyPositions := numberEmptyPositions s - 1\<rparr>, PLock i v)] else [])"
| "bb_producer s (PLock i v) =
     (if bufferManipulation s then [] else [(s\<lparr>bufferManipulation := True\<rparr>, PAdd i v)])"
| "bb_producer s (PAdd i v) =
     [(add_portion_to_buffer v (s\<lparr>bb_printed := bb_printed s @ [Produce v]\<rparr>), PUnlock i)]"
| "bb_producer s (PUnlock i) = [(s\<lparr>bufferManipulation := False\<rparr>, PRelease i)]"
| "bb_producer s (PRelease i) =
     [(s\<lparr>numberQueueingPortions := numberQueueingPortions s + 1\<rparr>, PNext (i + 1))]"
| "bb_producer s _ = []"

text \<open>
  \<open>try_acquire_for\<close> gives up after a second without a portion, and, if \<open>spurious\<close> allows it, also
  when there is one, as the standard permits. What follows does not depend on it.
\<close>

fun bb_consumer :: "bool \<Rightarrow> portions \<Rightarrow> portion_pc \<Rightarrow> (portions \<times> portion_pc) list" where
  "bb_consumer sp s CTry =
     (if 0 < numberQueueingPortions s
      then [(s\<lparr>numberQueueingPortions := numberQueueingPortions s - 1\<rparr>, CLock)] else []) @
     (if sp \<or> numberQueueingPortions s = 0 then [(s, CLock)] else [])"
| "bb_consumer sp s CLock =
     (if bufferManipulation s then [] else [(s\<lparr>bufferManipulation := True\<rparr>, CTake)])"
| "bb_consumer sp s CTake =
     (case take_portion_from_buffer s of
        (None, s') \<Rightarrow> [(s', CUnlock None)]
      | (Some v, s') \<Rightarrow> [(s'\<lparr>bb_printed := bb_printed s @ [Consume v]\<rparr>, CUnlock (Some v))])"
| "bb_consumer sp s (CUnlock result) =
     [(s\<lparr>bufferManipulation := False\<rparr>, case result of None \<Rightarrow> CReturn | Some v \<Rightarrow> CRelease)]"
| "bb_consumer sp s CRelease = [(s\<lparr>numberEmptyPositions := numberEmptyPositions s + 1\<rparr>, CTry)]"
| "bb_consumer sp s _ = []"

definition bb_thread :: "bool \<Rightarrow> (portions, portion_pc) thread" where
  "bb_thread sp t s pc = bb_producer s pc @ bb_consumer sp s pc"

definition bb_main :: "(portions, portion_pc) conf" where
  "bb_main = (\<lparr>numberQueueingPortions = 0, numberEmptyPositions = bb_kBufferSize, bufferManipulation = False,
     bb_buffer = [], bb_messages = 0, bb_printed = []\<rparr>, [PNext 0, CTry, PNext 0, CTry])"

section \<open>The invariant\<close>

fun produced :: "portion_event list \<Rightarrow> nat list" where
  "produced [] = []"
| "produced (Produce v # es) = v # produced es"
| "produced (Consume v # es) = produced es"

fun consumed :: "portion_event list \<Rightarrow> nat list" where
  "consumed [] = []"
| "consumed (Produce v # es) = consumed es"
| "consumed (Consume v # es) = v # consumed es"

lemma produced_snoc [simp]: "produced (es @ [e]) = produced es @ (case e of Produce v \<Rightarrow> [v] | Consume v \<Rightarrow> [])"
  by (induction es rule: produced.induct) (auto split: portion_event.splits)

lemma consumed_snoc [simp]: "consumed (es @ [e]) = consumed es @ (case e of Produce v \<Rightarrow> [] | Consume v \<Rightarrow> [v])"
  by (induction es rule: consumed.induct) (auto split: portion_event.splits)

fun in_section :: "portion_pc \<Rightarrow> bool" where
  "in_section (PAdd i v) = True"
| "in_section (PUnlock i) = True"
| "in_section CTake = True"
| "in_section (CUnlock r) = True"
| "in_section _ = False"

text \<open>A position that is neither counted as empty nor in the buffer.\<close>

fun between :: "portion_pc \<Rightarrow> bool" where
  "between (PLock i v) = True"
| "between (PAdd i v) = True"
| "between (CUnlock (Some v)) = True"
| "between CRelease = True"
| "between _ = False"

definition bb_inv :: "portions \<Rightarrow> portion_pc list \<Rightarrow> bool" where
  "bb_inv s ls \<longleftrightarrow> produced (bb_printed s) = consumed (bb_printed s) @ bb_buffer s \<and>
     int (numberEmptyPositions s) + int (length (bb_buffer s)) + cnt between ls = int bb_kBufferSize \<and>
     cnt in_section ls = of_bool (bufferManipulation s)"

lemma bb_step:
  assumes "produced (bb_printed s) = consumed (bb_printed s) @ bb_buffer s"
    "in_section l \<longrightarrow> bufferManipulation s" "(s', l') \<in> set (bb_thread sp t s l)"
  shows "produced (bb_printed s') = consumed (bb_printed s') @ bb_buffer s' \<and>
    int (numberEmptyPositions s') + int (length (bb_buffer s')) + of_bool (between l') =
      int (numberEmptyPositions s) + int (length (bb_buffer s)) + of_bool (between l) \<and>
    of_bool (bufferManipulation s') = of_bool (bufferManipulation s) - of_bool (in_section l) + (of_bool (in_section l') :: int)"
  using assms
  by (cases l) (auto simp: bb_thread_def take_portion_from_buffer_def add_portion_to_buffer_def neq_Nil_conv
      split: if_splits option.splits)

interpretation portions: thread_inv "bb_thread sp" bb_main bb_inv for sp
proof
  show "bb_inv (fst bb_main) (snd bb_main)" by (simp add: bb_inv_def bb_main_def)
next
  fix s ls i s' l
  assume I: "bb_inv s ls" and i: "i < length ls" and out: "(s', l) \<in> set (bb_thread sp i s (ls ! i))"
  have "in_section (ls ! i) \<longrightarrow> bufferManipulation s"
    using I nobody_holds [of in_section ls "bufferManipulation s" i] i by (auto simp: bb_inv_def)
  with bb_step [OF _ this out] I i show "bb_inv s' (ls[i := l])" by (simp add: bb_inv_def cnt_upd)
qed

section \<open>What holds and what does not\<close>

text \<open>
  Although a consumer goes on when its wait for a portion has timed out, the buffer is first in,
  first out, never holds more than three portions, and at most one thread manipulates it.
\<close>

theorem bounded_buffer_is_fifo:
  assumes "reach (bb_thread sp) bb_main (s, ls)"
  shows "produced (bb_printed s) = consumed (bb_printed s) @ bb_buffer s \<and>
    length (bb_buffer s) + numberEmptyPositions s \<le> 3 \<and> cnt in_section ls \<le> 1"
  using portions.reach_inv [OF assms] cnt_nonneg [of between ls]
  by (simp add: bb_inv_def bb_kBufferSize_def)

theorem bounded_buffer_is_fifo_witness:
  "\<exists>s ls. reach (bb_thread False) bb_main (s, ls) \<and> bb_printed s = [Produce 0, Produce 1, Consume 0] \<and>
     bb_buffer s = [1] \<and> length (bb_buffer s) + numberEmptyPositions s \<le> 3"
proof -
  have "\<exists>s ls. sched (bb_thread False) (replicate 6 (0, 0) @ replicate 6 (2, 0) @ replicate 4 (1, 0)) bb_main =
      Some (s, ls) \<and> bb_printed s = [Produce 0, Produce 1, Consume 0]"
    by (simp add: bb_main_def bb_thread_def bb_kMaxMessagesCount_def bb_kBufferSize_def
        take_portion_from_buffer_def add_portion_to_buffer_def upd_Cons_numeral replicate_unroll)
  then obtain s ls where r: "reach (bb_thread False) bb_main (s, ls)"
    and o: "bb_printed s = [Produce 0, Produce 1, Consume 0]" by (auto dest: sched_reach)
  from bounded_buffer_is_fifo [OF r] o have "bb_buffer s = [1]" "length (bb_buffer s) + numberEmptyPositions s \<le> 3"
    by simp_all
  with r o show ?thesis by (intro exI [of _ s] exI [of _ ls]) simp
qed

text \<open>Both consumers time out before a portion is produced; the producers fill the buffer.\<close>

definition leaving_schedule :: "(nat \<times> nat) list" where
  "leaving_schedule = replicate 4 (1, 0) @ replicate 4 (3, 0) @ replicate 19 (0, 0) @ [(2, 0)]"

text \<open>Both consumers time out and are then overtaken by two portions, whose counts they never take.\<close>

definition overflow_schedule :: "(nat \<times> nat) list" where
  "overflow_schedule = [(1, 0), (3, 0)] @ replicate 12 (0, 0) @ replicate 4 (1, 0) @ replicate 4 (3, 0) @
     replicate 18 (0, 0)"

text \<open>
  The ignored result of \<open>try_acquire_for\<close>, with timeouts only when no portion is queueing:
  the consumers can all return while the producers still have portions, after which the program is
  stuck for ever with a full buffer; and \<open>numberQueueingPortions\<close> can be released beyond the
  maximum of three that its type declares.
\<close>

theorem ignored_timeout:
  "(\<exists>s. reach (bb_thread False) bb_main (s, [PAcquire 3 3, CReturn, PAcquire 0 4, CReturn]) \<and>
      stuck (bb_thread False) (s, [PAcquire 3 3, CReturn, PAcquire 0 4, CReturn]) \<and> bb_buffer s = [0, 1, 2]) \<and>
   (\<exists>s ls. reach (bb_thread False) bb_main (s, ls) \<and> bb_kBufferSize < numberQueueingPortions s)"
proof
  have "\<exists>s. sched (bb_thread False) leaving_schedule bb_main = Some (s, [PAcquire 3 3, CReturn, PAcquire 0 4, CReturn]) \<and>
      bb_buffer s = [0, 1, 2] \<and> numberEmptyPositions s = 0"
    by (simp add: leaving_schedule_def bb_main_def bb_thread_def bb_kMaxMessagesCount_def bb_kBufferSize_def
        take_portion_from_buffer_def add_portion_to_buffer_def upd_Cons_numeral replicate_unroll)
  then obtain s where r: "reach (bb_thread False) bb_main (s, [PAcquire 3 3, CReturn, PAcquire 0 4, CReturn])"
    and s: "bb_buffer s = [0, 1, 2]" "numberEmptyPositions s = 0" by (auto dest: sched_reach)
  from s have "stuck (bb_thread False) (s, [PAcquire 3 3, CReturn, PAcquire 0 4, CReturn])"
    by (simp add: stuck_def bb_thread_def upt_rec)
  with r s show "\<exists>s. reach (bb_thread False) bb_main (s, [PAcquire 3 3, CReturn, PAcquire 0 4, CReturn]) \<and>
      stuck (bb_thread False) (s, [PAcquire 3 3, CReturn, PAcquire 0 4, CReturn]) \<and> bb_buffer s = [0, 1, 2]" by blast
next
  have "\<exists>s ls. sched (bb_thread False) overflow_schedule bb_main = Some (s, ls) \<and> numberQueueingPortions s = 5"
    by (simp add: overflow_schedule_def bb_main_def bb_thread_def bb_kMaxMessagesCount_def bb_kBufferSize_def
        take_portion_from_buffer_def add_portion_to_buffer_def upd_Cons_numeral replicate_unroll)
  then obtain s ls where "reach (bb_thread False) bb_main (s, ls)" "numberQueueingPortions s = 5"
    by (auto dest: sched_reach)
  then show "\<exists>s ls. reach (bb_thread False) bb_main (s, ls) \<and> bb_kBufferSize < numberQueueingPortions s"
    by (intro exI [of _ s] exI [of _ ls]) (simp add: bb_kBufferSize_def)
qed

end
