(* ===== verification/Simplest_Readers_Writers.thy ===== *)
theory Simplest_Readers_Writers
  imports Condition_Variables
begin

text \<open>
  ProducerConsumer/simplest_readers_writers/main.cpp: two threads write numbers into a \<open>std::queue\<close>, two
  read them and wait on a condition variable while there are none, and the main thread sets
  \<open>endSignal\<close> without notifying. Standard output is written with the mutex held.
\<close>

section \<open>The program\<close>

definition simplest_kMaxMessagesCount :: nat where "simplest_kMaxMessagesCount = 10"

datatype line = Write nat | Read nat | ReadDone

record shared_data =
  msgCount :: nat
  endFlag :: bool
  readerCond :: condvar
  dataGuard :: bool
  data_queue :: "nat list"
  lines :: "line list"

datatype simplest_pc =
    WNext nat
  | WLock nat nat
  | WPush nat nat
  | WNotify nat
  | WUnlock nat
  | WDone
  | RdLock
  | RdTest
  | RdBlock
  | RdWait
  | RdTake
  | RdUnlock "nat option"
  | RdDone
  | MSet
  | MJoin

fun simplest_writer :: "shared_data \<Rightarrow> simplest_pc \<Rightarrow> (shared_data \<times> simplest_pc) list" where
  "simplest_writer s (WNext i) =
     [if i < simplest_kMaxMessagesCount then (s\<lparr>msgCount := msgCount s + 1\<rparr>, WLock i (msgCount s))
      else (s, WDone)]"
| "simplest_writer s (WLock i v) = (if dataGuard s then [] else [(s\<lparr>dataGuard := True\<rparr>, WPush i v)])"
| "simplest_writer s (WPush i v) =
     [(s\<lparr>lines := lines s @ [Write v], data_queue := data_queue s @ [v]\<rparr>, WNotify i)]"
| "simplest_writer s (WNotify i) = map (\<lambda>ws. (s\<lparr>readerCond := ws\<rparr>, WUnlock i)) (notify_one (readerCond s))"
| "simplest_writer s (WUnlock i) = [(s\<lparr>dataGuard := False\<rparr>, WNext (i + 1))]"
| "simplest_writer s _ = []"

fun simplest_reader :: "bool \<Rightarrow> nat \<Rightarrow> shared_data \<Rightarrow> simplest_pc \<Rightarrow> (shared_data \<times> simplest_pc) list" where
  "simplest_reader sp t s RdLock = (if dataGuard s then [] else [(s\<lparr>dataGuard := True\<rparr>, RdTest)])"
| "simplest_reader sp t s RdTest = [(s, if data_queue s \<noteq> [] \<or> endFlag s then RdTake else RdBlock)]"
| "simplest_reader sp t s RdBlock = [(s\<lparr>readerCond := readerCond s @ [t], dataGuard := False\<rparr>, RdWait)]"
| "simplest_reader sp t s RdWait =
     (if may_resume sp t (readerCond s) (dataGuard s)
      then [(s\<lparr>dataGuard := True, readerCond := remove1 t (readerCond s)\<rparr>, RdTest)] else [])"
| "simplest_reader sp t s RdTake =
     (case data_queue s of
        v # vs \<Rightarrow> [(s\<lparr>lines := lines s @ [Read v], data_queue := vs\<rparr>, RdUnlock (Some v))]
      | [] \<Rightarrow> [(s\<lparr>lines := lines s @ [ReadDone]\<rparr>, RdUnlock None)])"
| "simplest_reader sp t s (RdUnlock result) =
     [(s\<lparr>dataGuard := False\<rparr>, if result = None then RdDone else RdLock)]"
| "simplest_reader sp t s _ = []"

fun simplest_end :: "shared_data \<Rightarrow> simplest_pc \<Rightarrow> (shared_data \<times> simplest_pc) list" where
  "simplest_end s MSet = [(s\<lparr>endFlag := True\<rparr>, MJoin)]"
| "simplest_end s _ = []"

definition simplest_thread :: "bool \<Rightarrow> (shared_data, simplest_pc) thread" where
  "simplest_thread sp t s pc = simplest_writer s pc @ simplest_reader sp t s pc @ simplest_end s pc"

definition simplest_main :: "(shared_data, simplest_pc) conf" where
  "simplest_main = (\<lparr>msgCount = 0, endFlag = False, readerCond = [], dataGuard = False, data_queue = [], lines = []\<rparr>,
     [WNext 0, RdLock, WNext 0, RdLock, MSet])"

section \<open>The invariant\<close>

fun written :: "line list \<Rightarrow> nat list" where
  "written [] = []"
| "written (Write v # es) = v # written es"
| "written (e # es) = written es"

fun has_read :: "line list \<Rightarrow> nat list" where
  "has_read [] = []"
| "has_read (Read v # es) = v # has_read es"
| "has_read (e # es) = has_read es"

lemma written_snoc [simp]: "written (es @ [e]) = written es @ (case e of Write v \<Rightarrow> [v] | _ \<Rightarrow> [])"
  by (induction es rule: written.induct) (auto split: line.splits)

lemma has_read_snoc [simp]: "has_read (es @ [e]) = has_read es @ (case e of Read v \<Rightarrow> [v] | _ \<Rightarrow> [])"
  by (induction es rule: has_read.induct) (auto split: line.splits)

fun guards :: "simplest_pc \<Rightarrow> bool" where
  "guards (WPush i v) = True"
| "guards (WNotify i) = True"
| "guards (WUnlock i) = True"
| "guards RdTest = True"
| "guards RdBlock = True"
| "guards RdTake = True"
| "guards (RdUnlock r) = True"
| "guards _ = False"

text \<open>A reader stops only after \<open>endSignal\<close>.\<close>

fun stops_late :: "shared_data \<Rightarrow> simplest_pc \<Rightarrow> bool" where
  "stops_late s RdTake = (data_queue s \<noteq> [] \<or> endFlag s)"
| "stops_late s (RdUnlock None) = endFlag s"
| "stops_late s RdDone = endFlag s"
| "stops_late s _ = True"

definition simplest_inv :: "shared_data \<Rightarrow> simplest_pc list \<Rightarrow> bool" where
  "simplest_inv s ls \<longleftrightarrow> written (lines s) = has_read (lines s) @ data_queue s \<and>
     (ReadDone \<in> set (lines s) \<longrightarrow> endFlag s) \<and>
     cnt guards ls = of_bool (dataGuard s) \<and> list_all (stops_late s) ls"

lemma simplest_step:
  assumes "written (lines s) = has_read (lines s) @ data_queue s" "ReadDone \<in> set (lines s) \<longrightarrow> endFlag s"
    "guards l \<longrightarrow> dataGuard s" "stops_late s l" "(s', l') \<in> set (simplest_thread sp t s l)"
  shows "written (lines s') = has_read (lines s') @ data_queue s' \<and> (ReadDone \<in> set (lines s') \<longrightarrow> endFlag s') \<and>
    stops_late s' l' \<and> (endFlag s \<longrightarrow> endFlag s') \<and> (data_queue s' = data_queue s \<or> guards l) \<and>
    of_bool (dataGuard s') = of_bool (dataGuard s) - of_bool (guards l) + (of_bool (guards l') :: int)"
  using assms
  by (cases l) (auto simp: simplest_thread_def may_resume_def split: if_splits list.splits)

lemma stops_late_keep:
  assumes "stops_late s l" "endFlag s \<longrightarrow> endFlag s'" "data_queue s' = data_queue s \<or> \<not> guards l"
  shows "stops_late s' l"
  using assms by (cases "(s, l)" rule: stops_late.cases) auto

interpretation simplest: thread_inv "simplest_thread sp" simplest_main simplest_inv for sp
proof
  show "simplest_inv (fst simplest_main) (snd simplest_main)" by (simp add: simplest_inv_def simplest_main_def)
next
  fix s ls i s' l
  assume I: "simplest_inv s ls" and i: "i < length ls" and out: "(s', l) \<in> set (simplest_thread sp i s (ls ! i))"
  have C: "cnt guards ls = of_bool (dataGuard s)" and K: "list_all (stops_late s) ls"
    and W: "written (lines s) = has_read (lines s) @ data_queue s" "ReadDone \<in> set (lines s) \<longrightarrow> endFlag s"
    using I by (simp_all add: simplest_inv_def)
  have h: "guards (ls ! i) \<longrightarrow> dataGuard s" using nobody_holds [OF C _ i] by blast
  have k: "stops_late s (ls ! i)" using K i by (simp add: list_all_length)
  note D = simplest_step [OF W h k out]
  have "stops_late s' (ls[i := l] ! j)" if "j < length ls" for j
  proof (cases "j = i")
    case True
    with D i show ?thesis by simp
  next
    case False
    have "stops_late s (ls ! j)" using K that by (simp add: list_all_length)
    moreover have "guards (ls ! i) \<Longrightarrow> \<not> guards (ls ! j)"
      using holder_unique [OF C i that] False by blast
    ultimately show ?thesis using D False by (auto intro: stops_late_keep)
  qed
  then have "list_all (stops_late s') (ls[i := l])" by (simp add: list_all_length)
  with D C i show "simplest_inv s' (ls[i := l])" by (simp add: simplest_inv_def cnt_upd)
qed

section \<open>What holds and what does not\<close>

text \<open>
  The numbers are read in the order in which they were written and none is read twice; a
  reader returns without a number only after \<open>endSignal\<close>; and the queue is used by one thread at a time.
\<close>

theorem simplest_readers_fifo:
  assumes "reach (simplest_thread sp) simplest_main (s, ls)"
  shows "written (lines s) = has_read (lines s) @ data_queue s \<and> (RdDone \<in> set ls \<longrightarrow> endFlag s) \<and>
    (ReadDone \<in> set (lines s) \<longrightarrow> endFlag s) \<and> cnt guards ls \<le> 1"
  using simplest.reach_inv [OF assms] by (auto simp: simplest_inv_def list_all_iff)

theorem simplest_readers_fifo_witness:
  "\<exists>s ls. reach (simplest_thread False) simplest_main (s, ls) \<and> lines s = [Write 0, Write 1, Read 0] \<and> data_queue s = [1]"
proof -
  have "\<exists>s ls. sched (simplest_thread False) (replicate 5 (0, 0) @ replicate 5 (2, 0) @ replicate 4 (3, 0)) simplest_main =
      Some (s, ls) \<and> lines s = [Write 0, Write 1, Read 0]"
    by (simp add: simplest_main_def simplest_thread_def simplest_kMaxMessagesCount_def notify_one_def
        upd_Cons_numeral replicate_unroll)
  then obtain s ls where r: "reach (simplest_thread False) simplest_main (s, ls)"
    and o: "lines s = [Write 0, Write 1, Read 0]" by (auto dest: sched_reach)
  from simplest_readers_fifo [OF r] o have "data_queue s = [1]" by simp
  with r o show ?thesis by (intro exI [of _ s] exI [of _ ls]) simp
qed

text \<open>A writer and the first reader take turns; when all is read both readers wait; then the main thread ends.\<close>

definition turns :: "nat \<Rightarrow> (nat \<times> nat) list" where
  "turns w = concat (replicate 10 (replicate 5 (w, 0) @ replicate 4 (1, 0))) @ [(w, 0)]"

definition unnotified_schedule :: "(nat \<times> nat) list" where
  "unnotified_schedule = turns 0 @ turns 2 @ replicate 3 (1, 0) @ replicate 3 (3, 0) @ [(4, 0)]"

text \<open>
  Nobody notifies the readers of \<open>endSignal\<close>: when all numbers have been written and read before
  it is set, both readers wait for ever (unless they wake up spuriously) and the program does not end.
\<close>

theorem simplest_readers_never_end:
  "\<exists>s. reach (simplest_thread False) simplest_main (s, [WDone, RdWait, WDone, RdWait, MJoin]) \<and>
     stuck (simplest_thread False) (s, [WDone, RdWait, WDone, RdWait, MJoin]) \<and> endFlag s \<and>
     has_read (lines s) = [0..<20]"
proof -
  have "\<exists>s. sched (simplest_thread False) unnotified_schedule simplest_main = Some (s, [WDone, RdWait, WDone, RdWait, MJoin]) \<and>
      endFlag s \<and> readerCond s = [1, 3] \<and> has_read (lines s) = [0..<20]"
    by (simp add: unnotified_schedule_def turns_def simplest_main_def simplest_thread_def simplest_kMaxMessagesCount_def
        notify_one_def upd_Cons_numeral replicate_unroll upt_rec)
  then obtain s where r: "reach (simplest_thread False) simplest_main (s, [WDone, RdWait, WDone, RdWait, MJoin])"
    and s: "endFlag s" "readerCond s = [1, 3]" "has_read (lines s) = [0..<20]" by (auto dest: sched_reach)
  from s have "stuck (simplest_thread False) (s, [WDone, RdWait, WDone, RdWait, MJoin])"
    by (simp add: stuck_def simplest_thread_def may_resume_def upt_rec)
  with r s show ?thesis by blast
qed

end
