(* ===== verification/Event_Loop.thy ===== *)
theory Event_Loop
  imports Condition_Variables
begin

text \<open>
  The class \<open>EventLoop\<close> of EventLoop/AccessSerialization, EventLoop/Basic and EventLoop/EventHandlers (the
  three copies have the same code): a buffer of callables behind a mutex and a condition variable, and a
  thread that swaps the buffer out and runs its callables. The programs around it are scripts:
  lists of calls that a thread makes one after the other. \<open>exec\<close> runs a callable on the client's data.
\<close>

section \<open>The class\<close>

text \<open>\<open>Quit\<close> is the callable that the destructor enqueues.\<close>

datatype 't task = Call 't | Quit

text \<open>
  What a thread of a program does: \<open>enqueue\<close>, an action of its own, a join of \<open>n\<close> threads, waiting
  for a future, the join of the loop's thread in the destructor.
\<close>

datatype ('t, 'w) action = Enqueue "'t task" | Direct 't | Join nat | Await 'w | JoinLoop

record ('t, 'g) event_loop =
  m_writeBuffer :: "'t task list"
  m_mutex :: bool
  m_condVar :: condvar
  m_running :: bool
  loop_ended :: bool
  ended :: nat
  client :: 'g

datatype ('t, 'w) el_pc =
    LCheck
  | LLock
  | LTest
  | LBlock
  | LWait
  | LSwap
  | LUnlock "'t task list"
  | LRun "'t task list"
  | LExit
  | Script "('t, 'w) action list"
  | EPush "'t task" "('t, 'w) action list"
  | EUnlock "('t, 'w) action list"
  | ENotify "('t, 'w) action list"
  | SEnd

definition run_task :: "('t \<Rightarrow> 'g \<Rightarrow> 'g) \<Rightarrow> 't task \<Rightarrow> ('t, 'g) event_loop \<Rightarrow> ('t, 'g) event_loop" where
  "run_task exec f s =
     (case f of Call c \<Rightarrow> s\<lparr>client := exec c (client s)\<rparr> | Quit \<Rightarrow> s\<lparr>m_running := False\<rparr>)"

text \<open>\<open>threadFunc\<close>; the argument of \<open>LUnlock\<close> and \<open>LRun\<close> is \<open>readBuffer\<close>.\<close>

fun threadFunc :: "('t \<Rightarrow> 'g \<Rightarrow> 'g) \<Rightarrow> bool \<Rightarrow> nat \<Rightarrow> ('t, 'g) event_loop \<Rightarrow> ('t, 'w) el_pc
    \<Rightarrow> (('t, 'g) event_loop \<times> ('t, 'w) el_pc) list" where
  "threadFunc exec sp t s LCheck = (if m_running s then [(s, LLock)] else [(s\<lparr>loop_ended := True\<rparr>, LExit)])"
| "threadFunc exec sp t s LLock = (if m_mutex s then [] else [(s\<lparr>m_mutex := True\<rparr>, LTest)])"
| "threadFunc exec sp t s LTest = [(s, if m_writeBuffer s \<noteq> [] then LSwap else LBlock)]"
| "threadFunc exec sp t s LBlock = [(s\<lparr>m_condVar := m_condVar s @ [t], m_mutex := False\<rparr>, LWait)]"
| "threadFunc exec sp t s LWait =
     (if may_resume sp t (m_condVar s) (m_mutex s)
      then [(s\<lparr>m_mutex := True, m_condVar := remove1 t (m_condVar s)\<rparr>, LTest)] else [])"
| "threadFunc exec sp t s LSwap = [(s\<lparr>m_writeBuffer := []\<rparr>, LUnlock (m_writeBuffer s))]"
| "threadFunc exec sp t s (LUnlock readBuffer) = [(s\<lparr>m_mutex := False\<rparr>, LRun readBuffer)]"
| "threadFunc exec sp t s (LRun readBuffer) =
     (case readBuffer of [] \<Rightarrow> [(s, LCheck)] | func # fs \<Rightarrow> [(run_task exec func s, LRun fs)])"
| "threadFunc exec sp t s _ = []"

text \<open>\<open>enqueue\<close>: the callable is added with the mutex held, the notification comes after its release.\<close>

fun enqueue :: "('t, 'g) event_loop \<Rightarrow> ('t, 'w) el_pc \<Rightarrow> (('t, 'g) event_loop \<times> ('t, 'w) el_pc) list" where
  "enqueue s (Script (Enqueue f # as)) = (if m_mutex s then [] else [(s\<lparr>m_mutex := True\<rparr>, EPush f as)])"
| "enqueue s (EPush f as) = [(s\<lparr>m_writeBuffer := m_writeBuffer s @ [f]\<rparr>, EUnlock as)]"
| "enqueue s (EUnlock as) = [(s\<lparr>m_mutex := False\<rparr>, ENotify as)]"
| "enqueue s (ENotify as) = map (\<lambda>ws. (s\<lparr>m_condVar := ws\<rparr>, Script as)) (notify_one (m_condVar s))"
| "enqueue s _ = []"

text \<open>The other actions of a script; \<open>ready\<close> tells whether a future has its value.\<close>

fun script_step :: "('t \<Rightarrow> 'g \<Rightarrow> 'g) \<Rightarrow> ('w \<Rightarrow> 'g \<Rightarrow> bool) \<Rightarrow> ('t, 'g) event_loop \<Rightarrow> ('t, 'w) el_pc
    \<Rightarrow> (('t, 'g) event_loop \<times> ('t, 'w) el_pc) list" where
  "script_step exec ready s (Script []) = [(s\<lparr>ended := ended s + 1\<rparr>, SEnd)]"
| "script_step exec ready s (Script (Direct c # as)) = [(s\<lparr>client := exec c (client s)\<rparr>, Script as)]"
| "script_step exec ready s (Script (Join n # as)) = (if n \<le> ended s then [(s, Script as)] else [])"
| "script_step exec ready s (Script (Await w # as)) = (if ready w (client s) then [(s, Script as)] else [])"
| "script_step exec ready s (Script (JoinLoop # as)) = (if loop_ended s then [(s, Script as)] else [])"
| "script_step exec ready s _ = []"

definition el_thread :: "('t \<Rightarrow> 'g \<Rightarrow> 'g) \<Rightarrow> ('w \<Rightarrow> 'g \<Rightarrow> bool) \<Rightarrow> bool
    \<Rightarrow> (('t, 'g) event_loop, ('t, 'w) el_pc) thread" where
  "el_thread exec ready sp t s pc = threadFunc exec sp t s pc @ enqueue s pc @ script_step exec ready s pc"

definition el_init :: "'g \<Rightarrow> ('t, 'w) action list list \<Rightarrow> (('t, 'g) event_loop, ('t, 'w) el_pc) conf" where
  "el_init g0 scripts = (\<lparr>m_writeBuffer = [], m_mutex = False, m_condVar = [], m_running = True,
     loop_ended = False, ended = 0, client = g0\<rparr>, LCheck # map Script scripts)"

section \<open>The invariant of the class\<close>

fun loop_pc :: "('t, 'w) el_pc \<Rightarrow> bool" where
  "loop_pc (Script as) = False"
| "loop_pc (EPush f as) = False"
| "loop_pc (EUnlock as) = False"
| "loop_pc (ENotify as) = False"
| "loop_pc SEnd = False"
| "loop_pc _ = True"

fun has_mutex :: "('t, 'w) el_pc \<Rightarrow> bool" where
  "has_mutex LTest = True"
| "has_mutex LBlock = True"
| "has_mutex LSwap = True"
| "has_mutex (LUnlock rb) = True"
| "has_mutex (EPush f as) = True"
| "has_mutex (EUnlock as) = True"
| "has_mutex _ = False"

text \<open>A thread that has added a callable and has not yet notified.\<close>

fun notifying :: "('t, 'w) el_pc \<Rightarrow> bool" where
  "notifying (EUnlock as) = True"
| "notifying (ENotify as) = True"
| "notifying _ = False"

text \<open>What holds when the thread of the loop is at a place.\<close>

fun loop_at :: "('t, 'g) event_loop \<Rightarrow> ('t, 'w) el_pc \<Rightarrow> bool" where
  "loop_at s LCheck = (m_condVar s = [])"
| "loop_at s LBlock = (m_condVar s = [] \<and> m_running s \<and> m_writeBuffer s = [])"
| "loop_at s LSwap = (m_condVar s = [] \<and> m_running s \<and> m_writeBuffer s \<noteq> [])"
| "loop_at s LWait = (m_running s \<and> m_condVar s \<in> {[], [0]})"
| "loop_at s (LRun rb) = (m_condVar s = [])"
| "loop_at s LExit = (m_condVar s = [] \<and> \<not> m_running s)"
| "loop_at s _ = (m_condVar s = [] \<and> m_running s)"

definition el_inv :: "('t, 'g) event_loop \<Rightarrow> ('t, 'w) el_pc list \<Rightarrow> bool" where
  "el_inv s ls \<longleftrightarrow> (\<exists>L cs. ls = L # cs \<and> loop_pc L \<and> list_all (\<lambda>c. \<not> loop_pc c) cs \<and> loop_at s L \<and>
     loop_ended s = (L = LExit) \<and>
     of_bool (has_mutex L) + cnt has_mutex cs = of_bool (m_mutex s) \<and>
     (m_condVar s \<noteq> [] \<and> m_writeBuffer s \<noteq> [] \<longrightarrow> 0 < cnt notifying cs) \<and>
     int (ended s) = cnt (\<lambda>c. c = SEnd) cs)"

lemma el_inv_init: "el_inv (fst (el_init g0 scripts)) (snd (el_init g0 scripts))"
proof -
  have "cnt has_mutex (map Script scripts) = 0" "cnt notifying (map Script scripts) = 0"
    "cnt (\<lambda>c. c = SEnd) (map Script scripts) = 0" "list_all (\<lambda>c. \<not> loop_pc c) (map Script scripts)"
    by (induction scripts) simp_all
  then show ?thesis by (simp add: el_inv_def el_init_def)
qed

lemma run_task_simps [simp]:
  "m_mutex (run_task exec f s) = m_mutex s" "m_condVar (run_task exec f s) = m_condVar s"
  "m_writeBuffer (run_task exec f s) = m_writeBuffer s" "loop_ended (run_task exec f s) = loop_ended s"
  "ended (run_task exec f s) = ended s"
  by (auto simp: run_task_def split: task.splits)

lemma el_step_loop:
  assumes I: "el_inv s (L # cs)" and out: "(s', L') \<in> set (el_thread exec ready sp 0 s L)"
  shows "el_inv s' (L' # cs)"
proof -
  have h: "has_mutex L \<Longrightarrow> m_mutex s" using I cnt_nonneg [of has_mutex cs] by (auto simp: el_inv_def of_bool_def split: if_splits)
  show ?thesis
  proof (cases L)
    case (LRun rb)
    with I out show ?thesis
      by (cases rb) (auto simp: el_inv_def el_thread_def run_task_def split: task.splits)
  qed (use I out h in \<open>auto simp: el_inv_def el_thread_def may_resume_def split: if_splits\<close>)
qed

lemma not_loop_cases:
  assumes "\<not> loop_pc c"
  obtains as where "c = Script as" | f as where "c = EPush f as" | as where "c = EUnlock as"
    | as where "c = ENotify as" | "c = SEnd"
  using assms by (cases c) auto

lemma loop_at_simps [simp]:
  "loop_at (s\<lparr>m_mutex := b\<rparr>) L = loop_at s L"
  "loop_at (s\<lparr>ended := n\<rparr>) L = loop_at s L"
  "loop_at (s\<lparr>client := g\<rparr>) L = loop_at s L"
  by (cases L; simp)+

lemma loop_at_push: "loop_at s L \<Longrightarrow> \<not> has_mutex L \<Longrightarrow> loop_at (s\<lparr>m_writeBuffer := fs\<rparr>) L"
  by (cases L) simp_all

lemma loop_at_notify: "loop_at s L \<Longrightarrow> ws \<in> set (notify_one (m_condVar s)) \<Longrightarrow> ws = [] \<and> loop_at (s\<lparr>m_condVar := []\<rparr>) L"
  by (cases L) (auto simp: notify_one_def)

lemma el_step_client:
  assumes I: "el_inv s (L # cs)" and i: "i < length cs"
    and out: "(s', l) \<in> set (el_thread exec ready sp t s (cs ! i))"
  shows "el_inv s' (L # cs[i := l])"
proof -
  have at: "loop_pc L" "loop_at s L" "loop_ended s = (L = LExit)"
    and M: "of_bool (has_mutex L) + cnt has_mutex cs = of_bool (m_mutex s)"
    and nl: "list_all (\<lambda>c. \<not> loop_pc c) cs"
    and N: "m_condVar s \<noteq> [] \<and> m_writeBuffer s \<noteq> [] \<longrightarrow> 0 < cnt notifying cs"
    and E: "int (ended s) = cnt (\<lambda>c. c = SEnd) cs"
    using I by (simp_all add: el_inv_def)
  have h: "\<not> has_mutex L \<and> m_mutex s" if "has_mutex (cs ! i)"
    using cnt_pos [of i cs has_mutex] i that M by (auto simp: of_bool_def split: if_splits)
  have nn: "0 \<le> cnt notifying cs" by (rule cnt_nonneg)
  have ci: "\<not> loop_pc (cs ! i)" using nl i by (simp add: list_all_length)
  have "\<not> loop_pc l \<and> loop_at s' L \<and> loop_ended s' = loop_ended s \<and>
    of_bool (m_mutex s') = of_bool (m_mutex s) - of_bool (has_mutex (cs ! i)) + (of_bool (has_mutex l) :: int) \<and>
    (m_condVar s' \<noteq> [] \<and> m_writeBuffer s' \<noteq> [] \<longrightarrow> 0 < cnt notifying (cs[i := l])) \<and>
    int (ended s') = int (ended s) - of_bool (cs ! i = SEnd) + of_bool (l = SEnd)"
    using ci
  proof (cases rule: not_loop_cases)
    case (1 as)
    show ?thesis
    proof (cases as)
      case Nil
      with 1 out at N i show ?thesis by (auto simp: el_thread_def cnt_upd)
    next
      case (Cons a bs)
      with 1 out at N i show ?thesis by (cases a) (auto simp: el_thread_def cnt_upd split: if_splits)
    qed
  next
    case (2 f as)
    with out at h nn i show ?thesis by (auto simp: el_thread_def cnt_upd loop_at_push)
  next
    case (3 as)
    with out at h N i show ?thesis by (auto simp: el_thread_def cnt_upd)
  next
    case (4 as)
    with out obtain ws where ws: "ws \<in> set (notify_one (m_condVar s))" "s' = s\<lparr>m_condVar := ws\<rparr>" "l = Script as"
      by (auto simp: el_thread_def)
    from loop_at_notify [OF at(2) ws(1)] ws 4 at show ?thesis by simp
  next
    case 5
    with out show ?thesis by (simp add: el_thread_def)
  qed
  note D = this
  have "list_all (\<lambda>c. \<not> loop_pc c) (cs[i := l])" using nl D by (intro list_all_upd) simp_all
  with D at M E i show ?thesis by (simp add: el_inv_def cnt_upd)
qed

interpretation event_loop: thread_inv "el_thread exec ready sp" "el_init g0 scripts" el_inv for exec ready sp g0 scripts
proof
  show "el_inv (fst (el_init g0 scripts)) (snd (el_init g0 scripts))" by (rule el_inv_init)
next
  fix s ls i s' l
  assume I: "el_inv s ls" and i: "i < length ls" and out: "(s', l) \<in> set (el_thread exec ready sp i s (ls ! i))"
  obtain L cs where ls: "ls = L # cs" using I by (auto simp: el_inv_def)
  show "el_inv s' (ls[i := l])"
  proof (cases i)
    case 0
    with el_step_loop I out ls show ?thesis by fastforce
  next
    case (Suc n)
    with el_step_client [of s L cs n s' l exec ready sp i] I i out ls show ?thesis by simp
  qed
qed

text \<open>What every callable keeps of the client's data, the program keeps.\<close>

lemma client_keeps:
  assumes r: "reach (el_thread exec ready sp) (el_init g0 scripts) (s, ls)" and "Q g0" and exec: "\<And>c g. Q g \<Longrightarrow> Q (exec c g)"
  shows "Q (client s)"
proof -
  have step: "client s' = client s \<or> (\<exists>c. client s' = exec c (client s))"
    if st: "(s', l') \<in> set (el_thread exec ready sp t s l)" for s s' :: "('a, 'b) event_loop" and l l' and t
  proof (cases l)
    case (LRun rb)
    with st show ?thesis by (auto simp: el_thread_def run_task_def split: list.splits task.splits)
  next
    case (Script as)
    show ?thesis
    proof (cases as)
      case Nil
      with Script st show ?thesis by (auto simp: el_thread_def)
    next
      case (Cons a bs)
      with Script st show ?thesis by (cases a) (auto simp: el_thread_def split: if_splits)
    qed
  qed (use st in \<open>auto simp: el_thread_def split: if_splits\<close>)
  have "Q (client (fst (s, ls)))"
  proof (rule reach_preserves [OF r, where I = "\<lambda>s ls. Q (client s)"])
    show "Q (client (fst (el_init g0 scripts)))" using assms(2) by (simp add: el_init_def)
  next
    fix s ls i s' l'
    assume "Q (client s)" "(s', l') \<in> set (el_thread exec ready sp i s (ls ! i))"
    with step exec show "Q (client s')" by metis
  qed
  then show ?thesis by simp
qed

section \<open>Every callable runs exactly once\<close>

text \<open>
  \<open>val\<close> is a quantity of the client's data that a callable \<open>c\<close> changes by \<open>eff c\<close>, whatever the
  data. Its value, with the effects of all callables that are buffered or still to be enqueued, never
  changes: no callable is lost, none is run twice.
\<close>

fun task_sum :: "('t \<Rightarrow> int) \<Rightarrow> 't task list \<Rightarrow> int" where
  "task_sum eff [] = 0"
| "task_sum eff (Call c # fs) = eff c + task_sum eff fs"
| "task_sum eff (Quit # fs) = task_sum eff fs"

fun script_sum :: "('t \<Rightarrow> int) \<Rightarrow> ('t, 'w) action list \<Rightarrow> int" where
  "script_sum eff [] = 0"
| "script_sum eff (Enqueue f # as) = task_sum eff [f] + script_sum eff as"
| "script_sum eff (Direct c # as) = eff c + script_sum eff as"
| "script_sum eff (a # as) = script_sum eff as"

fun pc_sum :: "('t \<Rightarrow> int) \<Rightarrow> ('t, 'w) el_pc \<Rightarrow> int" where
  "pc_sum eff (LUnlock rb) = task_sum eff rb"
| "pc_sum eff (LRun rb) = task_sum eff rb"
| "pc_sum eff (Script as) = script_sum eff as"
| "pc_sum eff (EPush f as) = task_sum eff [f] + script_sum eff as"
| "pc_sum eff (EUnlock as) = script_sum eff as"
| "pc_sum eff (ENotify as) = script_sum eff as"
| "pc_sum eff _ = 0"

lemma task_sum_append [simp]: "task_sum eff (fs @ gs) = task_sum eff fs + task_sum eff gs"
  by (induction eff fs rule: task_sum.induct) simp_all

locale event_sum =
  fixes exec :: "'t \<Rightarrow> 'g \<Rightarrow> 'g"
    and val :: "'g \<Rightarrow> int"
    and eff :: "'t \<Rightarrow> int"
  assumes val_exec: "val (exec c g) = val g + eff c"
begin

lemma sum_step:
  assumes "(s', l') \<in> set (el_thread exec ready sp t s l)"
  shows "val (client s') + task_sum eff (m_writeBuffer s') + pc_sum eff l' =
    val (client s) + task_sum eff (m_writeBuffer s) + pc_sum eff l"
proof (cases l)
  case (LRun rb)
  show ?thesis
  proof (cases rb)
    case Nil
    with LRun assms show ?thesis by (auto simp: el_thread_def)
  next
    case (Cons f fs)
    with LRun assms val_exec show ?thesis
      by (cases f) (auto simp: el_thread_def run_task_def)
  qed
next
  case (Script as)
  show ?thesis
  proof (cases as)
    case Nil
    with Script assms show ?thesis by (auto simp: el_thread_def)
  next
    case (Cons a bs)
    with Script assms val_exec show ?thesis
      by (cases a) (auto simp: el_thread_def split: if_splits)
  qed
qed (use assms in \<open>auto simp: el_thread_def split: if_splits\<close>)

lemma sum_inv:
  assumes "reach (el_thread exec ready sp) (el_init g0 scripts) (s, ls)"
  shows "val (client s) + task_sum eff (m_writeBuffer s) + total (pc_sum eff) ls =
    val g0 + total (script_sum eff) scripts"
proof -
  let ?I = "\<lambda>s ls. val (client s) + task_sum eff (m_writeBuffer s) + total (pc_sum eff) ls =
    val g0 + total (script_sum eff) scripts"
  have "?I (fst (s, ls)) (snd (s, ls))"
  proof (rule reach_preserves [OF assms])
    have "total (pc_sum eff) (map Script scripts) = total (script_sum eff) scripts"
      by (induction scripts) simp_all
    then show "?I (fst (el_init g0 scripts)) (snd (el_init g0 scripts))" by (simp add: el_init_def)
  next
    fix s ls i s' l
    assume "?I s ls" "i < length ls" "(s', l) \<in> set (el_thread exec ready sp i s (ls ! i))"
    with sum_step show "?I s' (ls[i := l])" by (fastforce simp: total_upd)
  qed
  then show ?thesis by simp
qed

end

section \<open>The callables of one thread run in its order\<close>

text \<open>
  \<open>log\<close> is a list that a callable \<open>c\<close> extends by \<open>out c\<close>. The entries of a thread (those with \<open>P\<close>,
  which no other thread writes) come in the order of its script.
\<close>

fun task_out :: "('t \<Rightarrow> 'x list) \<Rightarrow> 't task \<Rightarrow> 'x list" where
  "task_out out (Call c) = out c"
| "task_out out Quit = []"

fun action_out :: "('t \<Rightarrow> 'x list) \<Rightarrow> ('t, 'w) action \<Rightarrow> 'x list" where
  "action_out out (Enqueue f) = task_out out f"
| "action_out out _ = []"

fun read_out :: "('t \<Rightarrow> 'x list) \<Rightarrow> ('t, 'w) el_pc \<Rightarrow> 'x list" where
  "read_out out (LUnlock rb) = concat (map (task_out out) rb)"
| "read_out out (LRun rb) = concat (map (task_out out) rb)"
| "read_out out _ = []"

fun todo_out :: "('t \<Rightarrow> 'x list) \<Rightarrow> ('t, 'w) el_pc \<Rightarrow> 'x list" where
  "todo_out out (Script as) = concat (map (action_out out) as)"
| "todo_out out (EPush f as) = task_out out f @ concat (map (action_out out) as)"
| "todo_out out (EUnlock as) = concat (map (action_out out) as)"
| "todo_out out (ENotify as) = concat (map (action_out out) as)"
| "todo_out out _ = []"

text \<open>The direct actions of the scripts log nothing.\<close>

definition logs_nothing :: "('t \<Rightarrow> 'x list) \<Rightarrow> ('t, 'w) action list \<Rightarrow> bool" where
  "logs_nothing out as \<longleftrightarrow> list_all (\<lambda>a. case a of Direct c \<Rightarrow> out c = [] | _ \<Rightarrow> True) as"

fun no_direct :: "('t \<Rightarrow> 'x list) \<Rightarrow> ('t, 'w) el_pc \<Rightarrow> bool" where
  "no_direct out (Script as) = logs_nothing out as"
| "no_direct out (EPush f as) = logs_nothing out as"
| "no_direct out (EUnlock as) = logs_nothing out as"
| "no_direct out (ENotify as) = logs_nothing out as"
| "no_direct out _ = True"

locale event_order =
  fixes exec :: "'t \<Rightarrow> 'g \<Rightarrow> 'g"
    and log :: "'g \<Rightarrow> 'x list"
    and out :: "'t \<Rightarrow> 'x list"
  assumes log_exec: "log (exec c g) = log g @ out c"
begin

definition order_inv :: "('x \<Rightarrow> bool) \<Rightarrow> nat \<Rightarrow> 'x list \<Rightarrow> ('t, 'g) event_loop \<Rightarrow> ('t, 'w) el_pc list \<Rightarrow> bool" where
  "order_inv P j xs s ls \<longleftrightarrow> (\<exists>L cs. ls = L # cs \<and> loop_pc L \<and> list_all (\<lambda>c. \<not> loop_pc c) cs \<and> j < length cs \<and>
     list_all (no_direct out) cs \<and> (\<forall>i < length cs. i \<noteq> j \<longrightarrow> filter P (todo_out out (cs ! i)) = []) \<and>
     filter P (log (client s) @ read_out out L @ concat (map (task_out out) (m_writeBuffer s)) @
       todo_out out (cs ! j)) = xs)"

lemma order_step_loop:
  assumes "loop_pc L" "(s', L') \<in> set (el_thread exec ready sp t s L)"
  shows "loop_pc L' \<and> log (client s') @ read_out out L' @ concat (map (task_out out) (m_writeBuffer s')) =
    log (client s) @ read_out out L @ concat (map (task_out out) (m_writeBuffer s))"
proof (cases L)
  case (LRun rb)
  show ?thesis
  proof (cases rb)
    case Nil
    with LRun assms show ?thesis by (auto simp: el_thread_def)
  next
    case (Cons f fs)
    with LRun assms log_exec show ?thesis
      by (cases f) (auto simp: el_thread_def run_task_def)
  qed
qed (use assms in \<open>auto simp: el_thread_def split: if_splits\<close>)

lemma order_step_client:
  assumes "\<not> loop_pc c" "no_direct out c" "(s', c') \<in> set (el_thread exec ready sp t s c)"
  shows "\<not> loop_pc c' \<and> no_direct out c' \<and> log (client s') = log (client s) \<and>
    (\<exists>ys. concat (map (task_out out) (m_writeBuffer s')) = concat (map (task_out out) (m_writeBuffer s)) @ ys \<and>
      todo_out out c = ys @ todo_out out c')"
  using assms(1)
proof (cases rule: not_loop_cases)
  case (1 as)
  show ?thesis
  proof (cases as)
    case Nil
    with 1 assms show ?thesis by (auto simp: el_thread_def)
  next
    case (Cons a bs)
    with 1 assms log_exec show ?thesis by (cases a) (auto simp: el_thread_def logs_nothing_def split: if_splits)
  qed
qed (use assms in \<open>auto simp: el_thread_def\<close>)

lemma order_inv_step:
  assumes I: "order_inv P j xs s ls" and i: "i < length ls"
    and st: "(s', l) \<in> set (el_thread exec ready sp i s (ls ! i))"
  shows "order_inv P j xs s' (ls[i := l])"
proof -
  obtain L cs where ls: "ls = L # cs" and L: "loop_pc L" and cs: "list_all (\<lambda>c. \<not> loop_pc c) cs" "j < length cs"
    "list_all (no_direct out) cs" "\<forall>i < length cs. i \<noteq> j \<longrightarrow> filter P (todo_out out (cs ! i)) = []"
    and xs: "filter P (log (client s) @ read_out out L @ concat (map (task_out out) (m_writeBuffer s)) @
       todo_out out (cs ! j)) = xs"
    using I by (auto simp: order_inv_def)
  show ?thesis
  proof (cases i)
    case 0
    then have D: "loop_pc l \<and> log (client s') @ read_out out l @ concat (map (task_out out) (m_writeBuffer s')) =
        log (client s) @ read_out out L @ concat (map (task_out out) (m_writeBuffer s))"
      using order_step_loop [OF L] st ls by simp
    then have "filter P (log (client s') @ read_out out l @ concat (map (task_out out) (m_writeBuffer s')) @
       todo_out out (cs ! j)) = xs"
      unfolding xs [symmetric] by (simp only: append_assoc [symmetric])
    with D cs 0 ls show ?thesis by (simp add: order_inv_def)
  next
    case (Suc n)
    then have n: "n < length cs" using i ls by simp
    from cs n have "\<not> loop_pc (cs ! n)" "no_direct out (cs ! n)" by (simp_all add: list_all_length)
    from order_step_client [OF this, of s' l ready sp i s] st Suc ls obtain ys where D: "\<not> loop_pc l" "no_direct out l"
      "log (client s') = log (client s)"
      "concat (map (task_out out) (m_writeBuffer s')) = concat (map (task_out out) (m_writeBuffer s)) @ ys"
      "todo_out out (cs ! n) = ys @ todo_out out l" by auto
    have "list_all (\<lambda>c. \<not> loop_pc c) (cs[n := l])" "list_all (no_direct out) (cs[n := l])"
      using cs D by (auto intro!: list_all_upd)
    moreover have "\<forall>i < length (cs[n := l]). i \<noteq> j \<longrightarrow> filter P (todo_out out (cs[n := l] ! i)) = []"
      using cs(4) D(5) n by (auto simp: nth_list_update)
    moreover have "filter P (log (client s') @ read_out out L @ concat (map (task_out out) (m_writeBuffer s')) @
       todo_out out (cs[n := l] ! j)) = xs"
    proof (cases "n = j")
      case True
      with D xs cs(2) show ?thesis by simp
    next
      case False
      then have "filter P ys = []" using cs(4) n D(5) by auto
      with D xs False show ?thesis by simp
    qed
    ultimately show ?thesis using L cs(2) Suc ls unfolding order_inv_def
      by (intro exI [of _ L] exI [of _ "cs[n := l]"]) simp
  qed
qed

text \<open>What thread \<open>j\<close> wrote, read off the log and the callables that have not run yet.\<close>

lemma reach_order:
  assumes r: "reach (el_thread exec ready sp) (el_init g0 scripts) (s, ls)"
    and j: "j < length scripts" "log g0 = []"
    and nd: "list_all (\<lambda>as. no_direct out (Script as)) scripts"
    and others: "\<forall>i < length scripts. i \<noteq> j \<longrightarrow> filter P (todo_out out (Script (scripts ! i))) = []"
  shows "order_inv P j (filter P (todo_out out (Script (scripts ! j)))) s ls"
proof -
  have "order_inv P j (filter P (todo_out out (Script (scripts ! j)))) (fst (s, ls)) (snd (s, ls))"
  proof (rule reach_preserves [OF r])
    have "list_all (\<lambda>c. \<not> loop_pc c) (map Script scripts)" "list_all (no_direct out) (map Script scripts)"
      using nd by (simp_all add: list_all_iff)
    then show "order_inv P j (filter P (todo_out out (Script (scripts ! j))))
        (fst (el_init g0 scripts)) (snd (el_init g0 scripts))"
      using j others by (simp add: order_inv_def el_init_def)
  qed (rule order_inv_step)
  then show ?thesis by simp
qed

end

end
