(* ===== verification/Event_Loop_Ends.thy ===== *)
theory Event_Loop_Ends
  imports Event_Loop
begin

text \<open>
  The programs around an \<open>EventLoop\<close> end: without spurious wakeups every run is finite, and it can only
  stop when the thread of the loop and all threads of the program have returned. No notification
  is lost, although \<open>enqueue\<close> notifies after it has released the mutex.
\<close>

section \<open>Every run is finite\<close>

text \<open>
  An \<open>enqueue\<close> pays for its own steps, for waking the thread of the loop, for one more round of it and
  for the run of the callable.
\<close>

fun action_work :: "('t, 'w) action \<Rightarrow> nat" where
  "action_work (Enqueue f) = 20"
| "action_work _ = 1"

definition script_work :: "('t, 'w) action list \<Rightarrow> nat" where
  "script_work as = sum_list (map action_work as)"

lemma script_work_simps [simp]:
  "script_work [] = 0" "script_work (a # as) = action_work a + script_work as"
  by (simp_all add: script_work_def)

fun el_work :: "('t, 'w) el_pc \<Rightarrow> nat" where
  "el_work LCheck = 6"
| "el_work LLock = 5"
| "el_work LTest = 3"
| "el_work LBlock = 2"
| "el_work LWait = 1"
| "el_work LSwap = 2"
| "el_work (LUnlock rb) = 10 + length rb"
| "el_work (LRun rb) = 9 + length rb"
| "el_work LExit = 0"
| "el_work (Script as) = 1 + script_work as"
| "el_work (EPush f as) = 20 + script_work as"
| "el_work (EUnlock as) = 9 + script_work as"
| "el_work (ENotify as) = 8 + script_work as"
| "el_work SEnd = 0"

text \<open>A thread that has been notified still has the step out of the wait.\<close>

definition notified_work :: "('t, 'g) event_loop \<Rightarrow> ('t, 'w) el_pc list \<Rightarrow> nat" where
  "notified_work s ls = (if m_condVar s = [] \<and> hd ls = LWait then 3 else 0)"

definition el_total :: "('t, 'g) event_loop \<Rightarrow> ('t, 'w) el_pc list \<Rightarrow> nat" where
  "el_total s ls = workload el_work ls + 10 * length (m_writeBuffer s) + notified_work s ls"

lemma loop_work:
  assumes "loop_at s L" "loop_pc L" "(s', L') \<in> set (el_thread exec ready False 0 s L)"
  shows "el_work L' + 10 * length (m_writeBuffer s') + notified_work s' (L' # cs) <
    el_work L + 10 * length (m_writeBuffer s) + notified_work s (L # cs)"
proof (cases L)
  case LSwap
  with assms show ?thesis by (cases "m_writeBuffer s") (auto simp: el_thread_def notified_work_def)
next
  case (LRun rb)
  with assms show ?thesis by (cases rb) (auto simp: el_thread_def notified_work_def)
qed (use assms in \<open>auto simp: el_thread_def notified_work_def may_resume_def split: if_splits\<close>)

lemma client_work:
  assumes "\<not> loop_pc c" "loop_at s L" "(s', c') \<in> set (el_thread exec ready False t s c)"
  shows "el_work c' + 10 * length (m_writeBuffer s') + notified_work s' (L # cs') <
    el_work c + 10 * length (m_writeBuffer s) + notified_work s (L # cs)"
  using assms(1)
proof (cases rule: not_loop_cases)
  case (1 as)
  show ?thesis
  proof (cases as)
    case Nil
    with 1 assms show ?thesis by (auto simp: el_thread_def notified_work_def)
  next
    case (Cons a bs)
    with 1 assms show ?thesis by (cases a) (auto simp: el_thread_def notified_work_def split: if_splits)
  qed
next
  case (4 as)
  with assms show ?thesis
    by (auto simp: el_thread_def notified_work_def notify_one_def split: if_splits)
qed (use assms in \<open>auto simp: el_thread_def notified_work_def\<close>)

lemma el_total_less:
  assumes I: "el_inv s ls" and i: "i < length ls" and out: "(s', l) \<in> set (el_thread exec ready False i s (ls ! i))"
  shows "el_total s' (ls[i := l]) < el_total s ls"
proof -
  obtain L cs where ls: "ls = L # cs" and L: "loop_pc L" "loop_at s L"
    and cs: "list_all (\<lambda>c. \<not> loop_pc c) cs" using I by (auto simp: el_inv_def)
  show ?thesis
  proof (cases i)
    case 0
    with out ls loop_work [OF L(2,1), of s' l exec ready cs] show ?thesis
      by (simp add: el_total_def workload_def)
  next
    case (Suc n)
    with cs i ls have n: "\<not> loop_pc (cs ! n)" "n < length cs" by (simp_all add: list_all_length)
    from out Suc ls have "(s', l) \<in> set (el_thread exec ready False i s (cs ! n))" by simp
    from client_work [OF n(1) L(2) this, of "cs[n := l]" cs] workload_upd [OF n(2), of el_work l] Suc ls
    show ?thesis by (simp add: el_total_def workload_def)
  qed
qed

interpretation event_loop_term: thread_term "el_thread exec ready False" "el_init g0 scripts" el_inv el_total
  for exec ready g0 scripts
  by unfold_locales (rule el_total_less)

section \<open>The end of a program\<close>

text \<open>
  The script of the main thread: it enqueues \<open>Quit\<close> when it has joined the \<open>n\<close> other threads
  (\<open>j\<close>), and nothing after it. The other threads only enqueue.
\<close>

fun silent :: "('t, 'w) action list \<Rightarrow> bool" where
  "silent [] = True"
| "silent (Enqueue f # as) = False"
| "silent (a # as) = silent as"

fun main_script :: "nat \<Rightarrow> bool \<Rightarrow> ('t, 'w) action list \<Rightarrow> bool" where
  "main_script n j [] = True"
| "main_script n j (Join k # as) = (k \<le> n \<and> main_script n (j \<or> k = n) as)"
| "main_script n j (JoinLoop # as) = (silent as \<and> main_script n j as)"
| "main_script n j (Await w # as) = False"
| "main_script n j (Enqueue Quit # as) = (j \<and> silent as \<and> main_script n j as)"
| "main_script n j (a # as) = main_script n j as"

fun plain_script :: "('t, 'w) action list \<Rightarrow> bool" where
  "plain_script [] = True"
| "plain_script (Enqueue (Call c) # as) = plain_script as"
| "plain_script (Direct c # as) = plain_script as"
| "plain_script _ = False"

fun main_pc :: "nat \<Rightarrow> bool \<Rightarrow> ('t, 'w) el_pc \<Rightarrow> bool" where
  "main_pc n j (Script as) = main_script n j as"
| "main_pc n j (EPush f as) = main_script n j (Enqueue f # as)"
| "main_pc n j (EUnlock as) = main_script n j as"
| "main_pc n j (ENotify as) = main_script n j as"
| "main_pc n j SEnd = True"
| "main_pc n j _ = False"

fun plain_pc :: "('t, 'w) el_pc \<Rightarrow> bool" where
  "plain_pc (Script as) = plain_script as"
| "plain_pc (EPush f as) = (f \<noteq> Quit \<and> plain_script as)"
| "plain_pc (EUnlock as) = plain_script as"
| "plain_pc (ENotify as) = plain_script as"
| "plain_pc SEnd = True"
| "plain_pc _ = False"

text \<open>The script of a thread that is still to run, and what has been enqueued and not yet run.\<close>

fun todo :: "('t, 'w) el_pc \<Rightarrow> ('t, 'w) action list" where
  "todo (Script as) = as"
| "todo (EPush f as) = Enqueue f # as"
| "todo (EUnlock as) = as"
| "todo (ENotify as) = as"
| "todo _ = []"

fun reading :: "('t, 'w) el_pc \<Rightarrow> 't task list" where
  "reading (LUnlock rb) = rb"
| "reading (LRun rb) = rb"
| "reading _ = []"

text \<open>
  \<open>Quit\<close> is still in the script of the main thread, or it is the last of the enqueued callables and
  no other will come, or it has run and there is nothing left.
\<close>

definition quit_inv :: "('t, 'w) el_pc \<Rightarrow> ('t, 'w) el_pc list \<Rightarrow> ('t, 'w) el_pc \<Rightarrow> ('t, 'g) event_loop \<Rightarrow> bool" where
  "quit_inv M ws L s \<longleftrightarrow> (let pend = reading L @ m_writeBuffer s in
     m_running s \<and> Quit \<notin> set pend \<and> Enqueue Quit \<in> set (todo M) \<or>
     silent (todo M) \<and> list_all (\<lambda>c. c = SEnd) ws \<and>
       (if m_running s then \<exists>fs. pend = fs @ [Quit] \<and> Quit \<notin> set fs else pend = []))"

definition end_inv :: "nat \<Rightarrow> ('t, 'g) event_loop \<Rightarrow> ('t, 'w) el_pc list \<Rightarrow> bool" where
  "end_inv n s ls \<longleftrightarrow> el_inv s ls \<and> (\<exists>L M ws. ls = L # M # ws \<and> length ws = n \<and> list_all plain_pc ws \<and>
     (\<exists>j. main_pc n j M \<and> (j \<longrightarrow> list_all (\<lambda>c. c = SEnd) ws)) \<and> quit_inv M ws L s)"

lemma silent_no_quit: "silent as \<Longrightarrow> Enqueue f \<notin> set as"
  by (induction as rule: silent.induct) auto

lemma plain_pc_step: "plain_pc l \<Longrightarrow> (s', l') \<in> set (el_thread exec ready sp t s l) \<Longrightarrow> plain_pc l'"
proof (cases l)
  case (Script as)
  assume "plain_pc l" "(s', l') \<in> set (el_thread exec ready sp t s l)"
  with Script show ?thesis
    by (cases as rule: plain_script.cases) (auto simp: el_thread_def split: if_splits)
qed (auto simp: el_thread_def)

lemma quit_inv_loop:
  assumes "quit_inv M ws L s" "loop_pc L" "(s', L') \<in> set (el_thread exec ready sp t s L)"
  shows "quit_inv M ws L' s'"
proof (cases L)
  case (LRun rb)
  show ?thesis
  proof (cases rb)
    case Nil
    with LRun assms show ?thesis by (auto simp: el_thread_def quit_inv_def Let_def)
  next
    case (Cons f fs)
    with LRun assms show ?thesis
      by (cases f) (auto simp: el_thread_def run_task_def quit_inv_def Let_def Cons_eq_append_conv split: if_splits)
  qed
qed (use assms in \<open>auto simp: el_thread_def quit_inv_def Let_def split: if_splits\<close>)

text \<open>The main thread: its script shrinks, a callable that it pushes goes to the end.\<close>

lemma main_step:
  assumes "main_pc n j M" "(s', M') \<in> set (el_thread exec ready sp t s M)"
  shows "\<exists>j'. main_pc n j' M' \<and> (j' \<longrightarrow> j \<or> n \<le> ended s) \<and> m_running s' = m_running s \<and>
    (todo M' = todo M \<and> m_writeBuffer s' = m_writeBuffer s \<or>
     (\<exists>f. todo M = Enqueue f # todo M' \<and> m_writeBuffer s' = m_writeBuffer s @ [f] \<and> (f = Quit \<longrightarrow> j \<and> silent (todo M'))) \<or>
     (\<exists>a. todo M = a # todo M' \<and> a \<notin> range Enqueue \<and> m_writeBuffer s' = m_writeBuffer s))"
proof (cases M)
  case (Script as)
  show ?thesis
  proof (cases as)
    case Nil
    with Script assms show ?thesis by (auto simp: el_thread_def)
  next
    case (Cons a bs)
    show ?thesis
    proof (cases a)
      case (Enqueue f)
      with Script Cons assms show ?thesis by (auto simp: el_thread_def split: if_splits)
    qed (use Script Cons assms in \<open>auto simp: el_thread_def split: if_splits\<close>)
  qed
next
  case (EPush f as)
  with assms show ?thesis by (cases f) (auto simp: el_thread_def)
qed (use assms in \<open>auto simp: el_thread_def\<close>)

lemma quit_inv_main:
  assumes Q: "quit_inv M ws L s" and M: "main_pc n j M" "j \<longrightarrow> list_all (\<lambda>c. c = SEnd) ws"
    and st: "(s', M') \<in> set (el_thread exec ready sp t s M)"
  shows "quit_inv M' ws L s'"
proof -
  from main_step [OF M(1) st] have run: "m_running s' = m_running s" and
    cases: "todo M' = todo M \<and> m_writeBuffer s' = m_writeBuffer s \<or>
     (\<exists>f. todo M = Enqueue f # todo M' \<and> m_writeBuffer s' = m_writeBuffer s @ [f] \<and> (f = Quit \<longrightarrow> j \<and> silent (todo M'))) \<or>
     (\<exists>a. todo M = a # todo M' \<and> a \<notin> range Enqueue \<and> m_writeBuffer s' = m_writeBuffer s)" by blast+
  from cases show ?thesis
  proof (elim disjE exE conjE)
    fix f
    assume f: "todo M = Enqueue f # todo M'" "m_writeBuffer s' = m_writeBuffer s @ [f]"
      "f = Quit \<longrightarrow> j \<and> silent (todo M')"
    then have "m_running s" "Quit \<notin> set (reading L @ m_writeBuffer s)" "Enqueue Quit \<in> set (todo M)"
      using Q by (auto simp: quit_inv_def Let_def)
    with f M(2) run show ?thesis
      by (cases "f = Quit") (auto simp: quit_inv_def Let_def)
  next
    fix a
    assume a: "todo M = a # todo M'" "a \<notin> range Enqueue" "m_writeBuffer s' = m_writeBuffer s"
    then have "silent (todo M) \<Longrightarrow> silent (todo M')" by (cases a) auto
    with a Q run show ?thesis by (auto simp: quit_inv_def Let_def)
  qed (use Q run in \<open>simp_all add: quit_inv_def\<close>)
qed

lemma quit_inv_plain:
  assumes Q: "quit_inv M ws L s" and i: "i < length ws" and p: "plain_pc (ws ! i)"
    and st: "(s', c) \<in> set (el_thread exec ready sp t s (ws ! i))"
  shows "quit_inv M (ws[i := c]) L s'"
proof -
  have "ws ! i \<noteq> SEnd" using st by (auto simp: el_thread_def)
  then have "\<not> list_all (\<lambda>c. c = SEnd) ws" using i by (auto simp: list_all_length)
  then have q: "m_running s" "Quit \<notin> set (reading L @ m_writeBuffer s)" "Enqueue Quit \<in> set (todo M)"
    using Q by (auto simp: quit_inv_def Let_def)
  have "m_running s' = m_running s \<and> Quit \<notin> set (m_writeBuffer s')"
  proof (cases "ws ! i")
    case (Script as)
    with st p q show ?thesis
      by (cases as rule: plain_script.cases) (auto simp: el_thread_def split: if_splits)
  qed (use st p q in \<open>auto simp: el_thread_def\<close>)
  with q show ?thesis by (simp add: quit_inv_def Let_def)
qed

lemma end_inv_step:
  assumes I: "end_inv n s ls" and i: "i < length ls" and out: "(s', l) \<in> set (el_thread exec ready sp i s (ls ! i))"
  shows "end_inv n s' (ls[i := l])"
proof -
  have inv: "el_inv s ls" using I by (simp add: end_inv_def)
  have el: "el_inv s' (ls[i := l])" by (rule event_loop.I_step [OF inv i out])
  obtain L M ws j where ls: "ls = L # M # ws" and n: "length ws = n" and ws: "list_all plain_pc ws"
    and M: "main_pc n j M" "j \<longrightarrow> list_all (\<lambda>c. c = SEnd) ws" and Q: "quit_inv M ws L s"
    using I by (auto simp: end_inv_def)
  have L: "loop_pc L" and E: "int (ended s) = cnt (\<lambda>c. c = SEnd) (M # ws)"
    using inv ls by (auto simp: el_inv_def)
  consider "i = 0" | "i = 1" | k where "i = Suc (Suc k)" by (metis One_nat_def not0_implies_Suc)
  then show ?thesis
  proof cases
    case 1
    with out ls have "quit_inv M ws l s'" by (intro quit_inv_loop [OF Q L]) simp
    with 1 el ls n ws M show ?thesis by (auto simp: end_inv_def)
  next
    case 2
    then have st: "(s', l) \<in> set (el_thread exec ready sp i s M)" using out ls by simp
    then have "M \<noteq> SEnd" by (auto simp: el_thread_def)
    then have all: "list_all (\<lambda>c. c = SEnd) ws" if "n \<le> ended s"
    proof -
      have "int (length (filter (\<lambda>c. c = SEnd) ws)) = int (ended s)" using E \<open>M \<noteq> SEnd\<close> by (simp add: cnt_def)
      then have "length (filter (\<lambda>c. c = SEnd) ws) = length ws"
        using that n length_filter_le [of "\<lambda>c. c = SEnd" ws] by linarith
      then show ?thesis by (metis (mono_tags, lifting) length_filter_less list_all_iff less_irrefl)
    qed
    obtain j' where "main_pc n j' l" "j' \<longrightarrow> j \<or> n \<le> ended s" using main_step [OF M(1) st] by blast
    with all M(2) quit_inv_main [OF Q M st] 2 el ls n ws show ?thesis
      unfolding end_inv_def by (intro conjI exI [of _ L] exI [of _ l] exI [of _ ws] exI [of _ j']) auto
  next
    case (3 k)
    then have k: "k < length ws" and st: "(s', l) \<in> set (el_thread exec ready sp i s (ws ! k))"
      using i out ls by simp_all
    have p: "plain_pc (ws ! k)" using ws k by (simp add: list_all_length)
    have "ws ! k \<noteq> SEnd" using st by (auto simp: el_thread_def)
    then have "\<not> j" using M(2) k by (auto simp: list_all_length)
    with M plain_pc_step [OF p st] quit_inv_plain [OF Q k p st] 3 el ls n ws show ?thesis
      unfolding end_inv_def
      by (intro conjI exI [of _ L] exI [of _ M] exI [of _ "ws[k := l]"] exI [of _ j]) (auto intro: list_all_upd)
  qed
qed

section \<open>No deadlock\<close>

lemma stuck_nobody:
  assumes "el_inv s ls" "stuck (el_thread exec ready False) (s, ls)"
  shows "\<not> m_mutex s"
proof
  assume m: "m_mutex s"
  from assms(1) obtain L cs where ls: "ls = L # cs"
    and "of_bool (has_mutex L) + cnt has_mutex cs = of_bool (m_mutex s)" by (auto simp: el_inv_def)
  with m have "cnt has_mutex ls \<noteq> 0" by simp
  then obtain i where i: "i < length ls" "has_mutex (ls ! i)" by (auto simp: cnt_zero_iff)
  then have "el_thread exec ready False i s (ls ! i) \<noteq> []"
    by (cases "ls ! i") (auto simp: el_thread_def)
  with assms(2) i show False by (simp add: stuck_iff)
qed

lemma stuck_script:
  assumes "el_thread exec ready False t s c = []" "\<not> loop_pc c" "\<not> m_mutex s"
  shows "c = SEnd \<or> (\<exists>k as. c = Script (Join k # as) \<and> ended s < k) \<or> (\<exists>w as. c = Script (Await w # as)) \<or>
    (\<exists>as. c = Script (JoinLoop # as) \<and> \<not> loop_ended s)"
  using assms(2)
proof (cases rule: not_loop_cases)
  case (1 as)
  show ?thesis
  proof (cases as)
    case (Cons a bs)
    with 1 assms show ?thesis by (cases a) (auto simp: el_thread_def split: if_splits)
  qed (use 1 assms in \<open>simp add: el_thread_def\<close>)
next
  case (4 as)
  with assms show ?thesis by (auto simp: el_thread_def notify_one_def split: if_splits)
qed (use assms in \<open>auto simp: el_thread_def\<close>)

lemma stuck_loop:
  assumes "el_thread exec ready False 0 s L = []" "loop_pc L" "loop_at s L" "\<not> m_mutex s"
  shows "L = LExit \<or> L = LWait \<and> m_condVar s = [0]"
proof (cases L)
  case (LRun rb)
  with assms show ?thesis by (cases rb) (auto simp: el_thread_def)
qed (use assms in \<open>auto simp: el_thread_def may_resume_def split: if_splits\<close>)

lemma stuck_plain:
  assumes "plain_pc c" "c = SEnd \<or> (\<exists>k as. c = Script (Join k # as) \<and> P k as) \<or>
    (\<exists>w as. c = Script (Await w # as)) \<or> (\<exists>as. c = Script (JoinLoop # as) \<and> R)"
  shows "c = SEnd"
  using assms by auto

lemma stuck_ended:
  assumes I: "end_inv n s ls" and st: "stuck (el_thread exec ready False) (s, ls)"
  shows "ls = LExit # replicate (n + 1) SEnd \<and> m_writeBuffer s = []"
proof -
  have inv: "el_inv s ls" using I by (simp add: end_inv_def)
  obtain L M ws j where ls: "ls = L # M # ws" and n: "length ws = n" and M: "main_pc n j M"
    and ws: "list_all plain_pc ws" and Q: "quit_inv M ws L s"
    using I by (auto simp: end_inv_def)
  have L: "loop_pc L" "loop_at s L" "loop_ended s = (L = LExit)"
    and nl: "\<not> loop_pc M" "list_all (\<lambda>c. \<not> loop_pc c) ws"
    and N: "m_condVar s \<noteq> [] \<and> m_writeBuffer s \<noteq> [] \<longrightarrow> 0 < cnt notifying (M # ws)"
    and E: "int (ended s) = cnt (\<lambda>c. c = SEnd) (M # ws)"
    using inv ls by (auto simp: el_inv_def)
  have free: "\<not> m_mutex s" by (rule stuck_nobody [OF inv st])
  have none: "el_thread exec ready False i s (ls ! i) = []" if "i < length ls" for i
    using st that by (simp add: stuck_iff)
  have wsEnd: "c = SEnd" if c: "c \<in> set ws" for c
  proof -
    from c obtain k where k: "k < length ws" "ws ! k = c" by (auto simp: in_set_conv_nth)
    then have "el_thread exec ready False (k + 2) s c = []" using none [of "k + 2"] ls by simp
    moreover have "\<not> loop_pc c" "plain_pc c" using c nl ws by (auto simp: list_all_iff)
    ultimately show ?thesis using stuck_plain [OF _ stuck_script [OF _ _ free]] by blast
  qed
  then have wsR: "ws = replicate n SEnd" using n by (intro replicate_eqI) auto
  then have ended: "n \<le> ended s" using E by (cases "M = SEnd") auto
  have "el_thread exec ready False 1 s M = []" using none [of 1] ls by simp
  from stuck_script [OF this nl(1) free] M ended
  have M': "M = SEnd \<or> (\<exists>as. M = Script (JoinLoop # as) \<and> \<not> loop_ended s)" by auto
  then have quiet: "Enqueue Quit \<notin> set (todo M)" "\<not> notifying M" using M by (auto dest: silent_no_quit)
  have "L = LExit"
  proof (rule ccontr)
    assume "L \<noteq> LExit"
    with stuck_loop [of exec ready s L] none [of 0] ls L free have w: "L = LWait" "m_condVar s = [0]" by auto
    then have "m_writeBuffer s = []" using N quiet wsR by auto
    with Q w quiet L(2) show False by (simp add: quit_inv_def)
  qed
  moreover from this have "\<not> m_running s" using L(2) by simp
  then have "m_writeBuffer s = []" using Q by (auto simp: quit_inv_def Let_def)
  ultimately show ?thesis using M' L(3) ls wsR by auto
qed

lemma end_inv_init:
  assumes "main_script (length ss) (ss = []) m" "list_all plain_script ss" "Enqueue Quit \<in> set m"
  shows "end_inv (length ss) (fst (el_init g0 (m # ss))) (snd (el_init g0 (m # ss)))"
proof -
  have "list_all plain_pc (map Script ss)" using assms(2) by (simp add: list_all_iff)
  moreover have "\<exists>j. main_pc (length ss) j (Script m) \<and> (j \<longrightarrow> list_all (\<lambda>c. c = SEnd) (map Script ss))"
    using assms(1) by (intro exI [of _ "ss = []"]) simp
  ultimately show ?thesis
    using el_inv_init [of g0 "m # ss"] assms(3) by (auto simp: end_inv_def el_init_def quit_inv_def)
qed

text \<open>The programs end: all threads have returned, and nothing is buffered, when nothing can move any more.\<close>

lemma el_program_ends:
  assumes "main_script (length ss) (ss = []) m" "list_all plain_script ss" "Enqueue Quit \<in> set m"
    and r: "reach (el_thread exec ready False) (el_init g0 (m # ss)) c"
  shows "\<exists>s. reach (el_thread exec ready False) c (s, LExit # replicate (length ss + 1) SEnd)"
    and "stuck (el_thread exec ready False) c \<Longrightarrow>
      snd c = LExit # replicate (length ss + 1) SEnd \<and> m_writeBuffer (fst c) = []"
proof -
  have inv: "end_inv (length ss) (fst d) (snd d)"
    if "reach (el_thread exec ready False) (el_init g0 (m # ss)) d" for d
  proof (rule reach_preserves [OF that, where I = "end_inv (length ss)"])
    show "end_inv (length ss) (fst (el_init g0 (m # ss))) (snd (el_init g0 (m # ss)))"
      by (rule end_inv_init [OF assms(1-3)])
  qed (rule end_inv_step)
  obtain d where d: "reach (el_thread exec ready False) c d" "stuck (el_thread exec ready False) d"
    using event_loop_term.reach_stuck [OF r] by blast
  have "snd d = LExit # replicate (length ss + 1) SEnd"
    using stuck_ended [OF inv, of d exec ready] reach_trans [OF d(1) r] d(2) by simp
  with d(1) show "\<exists>s. reach (el_thread exec ready False) c (s, LExit # replicate (length ss + 1) SEnd)"
    by (metis prod.collapse)
  show "snd c = LExit # replicate (length ss + 1) SEnd \<and> m_writeBuffer (fst c) = []"
    if "stuck (el_thread exec ready False) c"
    using stuck_ended [OF inv [OF r], of exec ready] that by simp
qed

end
