(* ===== verification/Event_Loop_Programs.thy ===== *)
theory Event_Loop_Programs
  imports Event_Loop_Ends
begin

text \<open>
  The three programs around the class \<open>EventLoop\<close>: EventLoop/AccessSerialization (a bank account that
  is only touched by the thread of the loop), EventLoop/EventHandlers (events that several threads
  emit) and EventLoop/Basic (synchronous and asynchronous calls).
\<close>

section \<open>Calls of the class\<close>

text \<open>\<open>enqueueSync\<close> runs the callable itself when the thread of the loop calls it, and else waits for it.\<close>

definition enqueueSync :: "bool \<Rightarrow> 't \<Rightarrow> 'w \<Rightarrow> ('t, 'w) action list" where
  "enqueueSync in_loop callable result =
     (if in_loop then [Direct callable] else [Enqueue (Call callable), Await result])"

definition enqueueAsync :: "'t \<Rightarrow> ('t, 'w) action list" where
  "enqueueAsync callable = [Enqueue (Call callable)]"

definition el_destructor :: "('t, 'w) action list" where
  "el_destructor = [Enqueue Quit, JoinLoop]"

section \<open>The bank account\<close>

text \<open>
  \<open>ThreadUnsafeAccount\<close>, with a balance of type \<open>long long\<close>, from which an amount of type \<open>unsigned\<close> is taken or to
  which it is added; \<open>balance\<close> is printed or handed to the caller of \<open>enqueueSync\<close>.
\<close>

datatype account_call = Pay "32 word" | Acquire "32 word" | Balance | PrintBalance

record account =
  m_balance :: "64 word"
  answer :: "64 word option"
  cout :: "64 word list"

fun unsafe_account :: "account_call \<Rightarrow> account \<Rightarrow> account" where
  "unsafe_account (Pay amount) a = a\<lparr>m_balance := m_balance a - ucast amount\<rparr>"
| "unsafe_account (Acquire amount) a = a\<lparr>m_balance := m_balance a + ucast amount\<rparr>"
| "unsafe_account Balance a = a\<lparr>answer := Some (m_balance a)\<rparr>"
| "unsafe_account PrintBalance a = a\<lparr>cout := cout a @ [m_balance a]\<rparr>"

text \<open>The payments that have been made are recorded next to the account, for the statements.\<close>

fun payment :: "account_call \<Rightarrow> account_call list" where
  "payment (Pay amount) = [Pay amount]"
| "payment (Acquire amount) = [Acquire amount]"
| "payment _ = []"

definition bank_exec :: "account_call \<Rightarrow> account \<times> account_call list \<Rightarrow> account \<times> account_call list" where
  "bank_exec c g = (unsafe_account c (fst g), snd g @ payment c)"

definition account_ready :: "unit \<Rightarrow> account \<times> account_call list \<Rightarrow> bool" where
  "account_ready _ g \<longleftrightarrow> answer (fst g) \<noteq> None"

text \<open>\<open>ThreadSafeAccount\<close> forwards to the loop.\<close>

definition safe_pay :: "32 word \<Rightarrow> (account_call, unit) action list" where
  "safe_pay amount = [Enqueue (Call (Pay amount))]"

definition safe_acquire :: "32 word \<Rightarrow> (account_call, unit) action list" where
  "safe_acquire amount = [Enqueue (Call (Acquire amount))]"

definition safe_balance :: "(account_call, unit) action list" where
  "safe_balance = enqueueSync False Balance ()"

definition bank_thread :: "bool \<Rightarrow> ((account_call, account \<times> account_call list) event_loop, (account_call, unit) el_pc) thread" where
  "bank_thread = el_thread bank_exec account_ready"

definition buyer :: "32 word list \<Rightarrow> (account_call, unit) action list" where
  "buyer amounts = concat (map safe_pay amounts)"

definition seller :: "32 word list \<Rightarrow> (account_call, unit) action list" where
  "seller amounts = concat (map safe_acquire amounts)"

text \<open>The main thread joins the two and prints the balance of the account itself.\<close>

definition bank_run :: "32 word list \<Rightarrow> 32 word list \<Rightarrow>
    ((account_call, account \<times> account_call list) event_loop, (account_call, unit) el_pc) conf" where
  "bank_run ps qs = el_init (\<lparr>m_balance = 100000, answer = None, cout = []\<rparr>, [])
     [[Join 2, Direct PrintBalance] @ el_destructor, buyer ps, seller qs]"

text \<open>The program: both threads count from 1 to 10.\<close>

definition bank_main :: "((account_call, account \<times> account_call list) event_loop, (account_call, unit) el_pc) conf" where
  "bank_main = bank_run (map of_nat [1..<11]) (map of_nat [1..<11])"

fun account_effect :: "account_call \<Rightarrow> 64 word" where
  "account_effect (Pay amount) = - ucast amount"
| "account_effect (Acquire amount) = ucast amount"
| "account_effect _ = 0"

fun is_pay :: "account_call \<Rightarrow> bool" where
  "is_pay (Pay amount) = True"
| "is_pay _ = False"

fun is_acquire :: "account_call \<Rightarrow> bool" where
  "is_acquire (Acquire amount) = True"
| "is_acquire _ = False"

interpretation bank_order: event_order bank_exec snd payment
  by unfold_locales (simp add: bank_exec_def)

definition bank_ok :: "account \<times> account_call list \<Rightarrow> bool" where
  "bank_ok g \<longleftrightarrow> m_balance (fst g) = 100000 + sum_list (map account_effect (snd g)) \<and>
     list_all (\<lambda>c. is_pay c \<or> is_acquire c) (snd g)"

lemma bank_exec_ok: "bank_ok g \<Longrightarrow> bank_ok (bank_exec c g)"
  by (cases c) (simp_all add: bank_ok_def bank_exec_def)

lemma bank_scripts:
  "main_script 2 False ([Join 2, Direct PrintBalance] @ el_destructor)"
  "Enqueue Quit \<in> set ([Join 2, Direct PrintBalance] @ el_destructor)"
  "list_all plain_script [buyer ps, seller qs]"
proof -
  have "plain_script (buyer ps)" by (induction ps) (simp_all add: buyer_def safe_pay_def)
  moreover have "plain_script (seller qs)" by (induction qs) (simp_all add: seller_def safe_acquire_def)
  ultimately show "list_all plain_script [buyer ps, seller qs]" by simp
qed (simp_all add: el_destructor_def)

lemma bank_outs:
  "todo_out payment (Script (buyer ps)) = map Pay ps"
  "todo_out payment (Script (seller qs)) = map Acquire qs"
  "todo_out payment (Script ([Join 2, Direct PrintBalance] @ el_destructor)) = []"
  "logs_nothing payment (buyer ps)" "logs_nothing payment (seller qs)"
  "logs_nothing payment ([Join 2, Direct PrintBalance] @ el_destructor)"
proof -
  show "todo_out payment (Script (buyer ps)) = map Pay ps" by (induction ps) (simp_all add: buyer_def safe_pay_def)
  show "todo_out payment (Script (seller qs)) = map Acquire qs" by (induction qs) (simp_all add: seller_def safe_acquire_def)
  show "logs_nothing payment (buyer ps)" by (induction ps) (simp_all add: buyer_def safe_pay_def logs_nothing_def)
  show "logs_nothing payment (seller qs)" by (induction qs) (simp_all add: seller_def safe_acquire_def logs_nothing_def)
qed (simp_all add: el_destructor_def logs_nothing_def)

text \<open>The payments of one thread, made or not: \<open>j\<close> is its place among the threads.\<close>

lemma bank_order_inv:
  assumes r: "reach (bank_thread sp) (bank_run ps qs) (s, ls)"
  shows "bank_order.order_inv is_pay 1 (map Pay ps) s ls" and "bank_order.order_inv is_acquire 2 (map Acquire qs) s ls"
proof -
  let ?scripts = "[[Join 2, Direct PrintBalance] @ el_destructor, buyer ps, seller qs]"
  note run = r [unfolded bank_thread_def bank_run_def]
  have nd: "list_all (\<lambda>as. no_direct payment (Script as)) ?scripts" by (simp only: no_direct.simps bank_outs list.pred_inject)
  have P: "filter is_pay (map Pay ps) = map Pay ps" "filter is_pay (map Acquire qs) = []"
    "filter is_acquire (map Acquire qs) = map Acquire qs" "filter is_acquire (map Pay ps) = []"
    by (simp_all add: filter_id_conv filter_empty_conv)
  have others: "\<forall>i < length ?scripts. i \<noteq> 1 \<longrightarrow> filter is_pay (todo_out payment (Script (?scripts ! i))) = []"
    "\<forall>i < length ?scripts. i \<noteq> 2 \<longrightarrow> filter is_acquire (todo_out payment (Script (?scripts ! i))) = []"
    using P bank_outs by (auto simp: less_Suc_eq numeral_2_eq_2 el_destructor_def)
  from bank_order.reach_order [OF run, of 1 is_pay, OF _ _ nd others(1)]
  show "bank_order.order_inv is_pay 1 (map Pay ps) s ls" by (simp add: bank_outs P del: todo_out.simps)
  from bank_order.reach_order [OF run, of 2 is_acquire, OF _ _ nd others(2)]
  show "bank_order.order_inv is_acquire 2 (map Acquire qs) s ls" by (simp add: bank_outs P del: todo_out.simps)
qed

lemma sum_list_split:
  "sum_list (map f xs) = sum_list (map f (filter P xs)) + sum_list (map f (filter (\<lambda>x. \<not> P x) xs))"
  for f :: "'x \<Rightarrow> 'a :: comm_monoid_add"
  by (induction xs) (simp_all add: ac_simps)

lemma bank_sum:
  assumes "bank_ok (a, log)" "filter is_pay log = map Pay ps" "filter is_acquire log = map Acquire qs"
  shows "m_balance a = 100000 - sum_list (map ucast ps) + sum_list (map ucast qs)"
proof -
  have "filter (\<lambda>c. \<not> is_pay c) log = filter is_acquire log"
  proof (rule filter_cong)
    fix c assume "c \<in> set log"
    then have "is_pay c \<or> is_acquire c" using assms(1) by (auto simp: bank_ok_def list_all_iff)
    then show "(\<not> is_pay c) = is_acquire c" by (cases c) simp_all
  qed simp
  then have "sum_list (map account_effect log) = sum_list (map account_effect (map Pay ps)) + sum_list (map account_effect (map Acquire qs))"
    using sum_list_split [of account_effect log is_pay] assms(2,3) by simp
  moreover have "sum_list (map account_effect (map Pay ps)) = - sum_list (map ucast ps)" by (induction ps) simp_all
  moreover have "sum_list (map account_effect (map Acquire qs)) = sum_list (map ucast qs)" by (induction qs) simp_all
  ultimately show ?thesis using assms(1) by (simp add: bank_ok_def)
qed

text \<open>
  Claim C15. The account of EventLoop/AccessSerialization/main.cpp, with any amounts: although it has no lock, its balance is at all times
  that of the payments that have been made. Whatever the interleaving no run is infinite, and a run that cannot go on has
  returned from every thread and made every payment of the buyer and every one of the seller exactly once and in its order.
\<close>

theorem bank_serialised:
  assumes r: "reach (bank_thread False) (bank_run ps qs) c"
  shows "(\<exists>s. reach (bank_thread False) c (s, LExit # replicate 3 SEnd)) \<and>
    \<not> (\<exists>f. f 0 = c \<and> (\<forall>n. istep (bank_thread False) (f n) (f (Suc n)))) \<and>
    (case client (fst c) of (a, made) \<Rightarrow>
      m_balance a = 100000 + sum_list (map account_effect made) \<and>
      (stuck (bank_thread False) c \<longrightarrow> snd c = LExit # replicate 3 SEnd \<and>
        filter is_pay made = map Pay ps \<and> filter is_acquire made = map Acquire qs \<and>
        m_balance a = 100000 - sum_list (map ucast ps) + sum_list (map ucast qs)))"
proof -
  let ?ss = "[buyer ps, seller qs]" and ?m = "[Join 2, Direct PrintBalance] @ el_destructor"
  have m: "main_script (length ?ss) (?ss = []) ?m" using bank_scripts(1) by (simp add: numeral_2_eq_2)
  note ends = el_program_ends [OF m bank_scripts(3,2) r [unfolded bank_thread_def bank_run_def]]
  obtain s ls where c: "c = (s, ls)" by (cases c)
  obtain a made where g: "client s = (a, made)" by (cases "client s")
  have "bank_ok (\<lparr>m_balance = 100000, answer = None, cout = []\<rparr>, [])" by (simp add: bank_ok_def)
  from client_keeps [where Q = bank_ok, OF r [unfolded bank_thread_def bank_run_def c] this bank_exec_ok]
  have ok: "bank_ok (a, made)" by (simp add: g)
  have e: "ls = LExit # replicate 3 SEnd \<and> filter is_pay made = map Pay ps \<and> filter is_acquire made = map Acquire qs"
    if "stuck (bank_thread False) c"
  proof -
    have ls: "ls = LExit # replicate 3 SEnd" and w: "m_writeBuffer s = []"
      using ends(2) that by (simp_all add: bank_thread_def numeral_3_eq_3 c)
    from bank_order_inv [OF r [unfolded c]] show ?thesis
      unfolding bank_order.order_inv_def ls using w by (auto simp: g numeral_3_eq_3 numeral_2_eq_2)
  qed
  have "\<exists>s. reach (bank_thread False) c (s, LExit # replicate 3 SEnd)"
    using ends(1) by (simp add: bank_thread_def numeral_3_eq_3)
  moreover have "\<not> (\<exists>f. f 0 = c \<and> (\<forall>n. istep (bank_thread False) (f n) (f (Suc n))))"
    using event_loop_term.no_infinite_run [of bank_exec account_ready] r
    unfolding bank_thread_def bank_run_def by blast
  ultimately show ?thesis using ok e bank_sum [OF ok, of ps qs] by (simp add: c g bank_ok_def)
qed

theorem bank_serialised_witness:
  "\<exists>s. reach (bank_thread False) bank_main (s, LExit # replicate 3 SEnd) \<and>
     filter is_pay (snd (client s)) = map Pay (map of_nat [1..<11]) \<and> m_balance (fst (client s)) = 100000"
proof -
  obtain s where s: "reach (bank_thread False) bank_main (s, LExit # replicate 3 SEnd)"
    using bank_serialised [OF reach_init] unfolding bank_main_def by blast
  have "stuck (bank_thread False) (s, LExit # replicate 3 SEnd)"
    by (auto simp: stuck_iff bank_thread_def el_thread_def numeral_3_eq_3 less_Suc_eq)
  with bank_serialised [OF s [unfolded bank_main_def]]
  have "filter is_pay (snd (client s)) = map Pay (map of_nat [1..<11])"
    and b: "m_balance (fst (client s)) = 100000 - sum_list (map ucast (map of_nat [1..<11] :: 32 word list))
      + sum_list (map ucast (map of_nat [1..<11] :: 32 word list))"
    by (auto simp only: case_prod_beta fst_conv)
  with s show ?thesis by (intro exI [of _ s]) (simp only: diff_add_cancel simp_thms)
qed

text \<open>Both threads enqueue all their calls, the loop runs the first one, and the main thread prints.\<close>

definition early_schedule :: "(nat \<times> nat) list" where
  "early_schedule = replicate 41 (2, 0) @ replicate 41 (3, 0) @ replicate 6 (0, 0) @ replicate 2 (1, 0)"

text \<open>
  The main thread prints the balance without going through the loop and without waiting for it:
  the printed balance can differ from the final one. Here only the first payment has been made.
\<close>

theorem bank_prints_early:
  "\<exists>s ls. reach (bank_thread False) bank_main (s, ls) \<and> cout (fst (client s)) = [99999]"
proof -
  have "\<exists>s ls. sched (bank_thread False) early_schedule bank_main = Some (s, ls) \<and> cout (fst (client s)) = [99999]"
    by (simp add: early_schedule_def bank_main_def bank_run_def bank_exec_def bank_thread_def el_thread_def el_init_def buyer_def seller_def
        el_destructor_def safe_pay_def safe_acquire_def notify_one_def run_task_def upd_Cons_numeral
        replicate_unroll upt_rec)
  then show ?thesis by (blast dest: sched_reach)
qed

section \<open>Events from several threads\<close>

text \<open>The copies of the class in EventLoop/EventHandlers and EventLoop/Basic are the same functions.\<close>

definition handlers_threadFunc :: "('t \<Rightarrow> 'g \<Rightarrow> 'g) \<Rightarrow> bool \<Rightarrow> nat \<Rightarrow> ('t, 'g) event_loop \<Rightarrow> ('t, 'w) el_pc
    \<Rightarrow> (('t, 'g) event_loop \<times> ('t, 'w) el_pc) list" where
  "handlers_threadFunc = threadFunc"

definition handlers_enqueue :: "('t, 'g) event_loop \<Rightarrow> ('t, 'w) el_pc \<Rightarrow> (('t, 'g) event_loop \<times> ('t, 'w) el_pc) list" where
  "handlers_enqueue = enqueue"

definition handlers_enqueueSync :: "bool \<Rightarrow> 't \<Rightarrow> 'w \<Rightarrow> ('t, 'w) action list" where
  "handlers_enqueueSync = enqueueSync"

definition handlers_enqueueAsync :: "'t \<Rightarrow> ('t, 'w) action list" where
  "handlers_enqueueAsync = enqueueAsync"

definition handlers_destructor :: "('t, 'w) action list" where
  "handlers_destructor = el_destructor"

text \<open>\<open>None\<close> stands for the line end; a message is printed as its size.\<close>

datatype event_call = Message nat | Endl

record console =
  printed :: "nat option list"

fun OnNetworkEvent :: "event_call \<Rightarrow> console \<Rightarrow> console" where
  "OnNetworkEvent (Message n) g = g\<lparr>printed := printed g @ [Some n]\<rparr>"
| "OnNetworkEvent Endl g = g\<lparr>printed := printed g @ [None]\<rparr>"

definition emitNetworkEvent :: "bool \<Rightarrow> nat \<Rightarrow> (event_call, unit) action list" where
  "emitNetworkEvent registered n = (if \<not> registered then [] else [Enqueue (Call (Message n))])"

definition emits :: "nat \<Rightarrow> nat \<Rightarrow> (event_call, unit) action list" where
  "emits a b = concat (map (emitNetworkEvent True) [a..<b])"

definition handlers_thread :: "bool \<Rightarrow> ((event_call, console) event_loop, (event_call, unit) el_pc) thread" where
  "handlers_thread sp t s pc = handlers_threadFunc OnNetworkEvent sp t s pc @ handlers_enqueue s pc @
     script_step OnNetworkEvent (\<lambda>_ _. False) s pc"

definition handlers_main :: "((event_call, console) event_loop, (event_call, unit) el_pc) conf" where
  "handlers_main = el_init \<lparr>printed = []\<rparr>
     [emits 20 30 @ [Join 2, Enqueue (Call Endl)] @ handlers_destructor, emits 0 10, emits 10 20]"

lemma handlers_thread_eq: "handlers_thread = el_thread OnNetworkEvent (\<lambda>_ _. False)"
  by (intro ext) (simp add: handlers_thread_def el_thread_def handlers_threadFunc_def handlers_enqueue_def)

fun event_out :: "event_call \<Rightarrow> nat option list" where
  "event_out (Message n) = [Some n]"
| "event_out Endl = [None]"

interpretation handlers_order: event_order OnNetworkEvent printed event_out
proof
  show "printed (OnNetworkEvent c g) = printed g @ event_out c" for c g by (cases c) simp_all
qed

interpretation handlers_count: event_sum OnNetworkEvent "\<lambda>g. int (length (printed g))" "\<lambda>_. 1"
proof
  show "int (length (printed (OnNetworkEvent c g))) = int (length (printed g)) + 1" for c g by (cases c) simp_all
qed

lemmas handlers_script_defs = handlers_destructor_def el_destructor_def emits_def emitNetworkEvent_def

lemma handlers_scripts:
  "main_script 2 False (emits 20 30 @ [Join 2, Enqueue (Call Endl)] @ handlers_destructor)"
  "Enqueue Quit \<in> set (emits 20 30 @ [Join 2, Enqueue (Call Endl)] @ handlers_destructor)"
  "list_all plain_script [emits 0 10, emits 10 20]"
  "total (script_sum (\<lambda>_. 1)) [emits 20 30 @ [Join 2, Enqueue (Call Endl)] @ handlers_destructor,
     emits 0 10, emits 10 20] = 31"
  by (simp_all add: handlers_script_defs upt_rec)

lemma handlers_outs:
  "todo_out event_out (Script (emits 20 30 @ [Join 2, Enqueue (Call Endl)] @ handlers_destructor)) =
     map Some [20..<30] @ [None]"
  "todo_out event_out (Script (emits a b)) = map Some [a..<b]"
proof -
  have e: "concat (map (action_out event_out) (emits a b)) = map Some [a..<b]" for a b
    by (induction b) (simp_all add: emits_def emitNetworkEvent_def)
  show "todo_out event_out (Script (emits 20 30 @ [Join 2, Enqueue (Call Endl)] @ handlers_destructor)) =
     map Some [20..<30] @ [None]"
    using e [of 20 30] by (simp add: handlers_destructor_def el_destructor_def)
  show "todo_out event_out (Script (emits a b)) = map Some [a..<b]" using e by simp
qed

lemma handlers_no_direct:
  "list_all (\<lambda>as. no_direct event_out (Script as)) [emits 20 30 @ [Join 2, Enqueue (Call Endl)] @ handlers_destructor,
     emits 0 10, emits 10 20]"
  by (simp add: logs_nothing_def handlers_script_defs upt_rec)

lemma all_less_3: "(\<forall>i < (3 :: nat). Q i) \<longleftrightarrow> Q 0 \<and> Q 1 \<and> Q 2"
proof -
  have "i < 3 \<longleftrightarrow> i = 0 \<or> i = 1 \<or> i = 2" for i :: nat by linarith
  then show ?thesis by auto
qed

definition emitted :: "nat option list list" where
  "emitted = [map Some [20..<30] @ [None], map Some [0..<10], map Some [10..<20]]"

text \<open>What one of the threads has emitted, when everything has returned.\<close>

lemma handlers_filter:
  assumes r: "reach (handlers_thread False) handlers_main (s, LExit # replicate 3 SEnd)"
    and e: "m_writeBuffer s = []" and j: "j < 3" and own: "\<forall>x \<in> set (emitted ! j). P x"
    and others: "\<forall>i < 3. i \<noteq> j \<longrightarrow> (\<forall>x \<in> set (emitted ! i). \<not> P x)"
  shows "filter P (printed (client s)) = emitted ! j"
proof -
  let ?scripts = "[emits 20 30 @ [Join 2, Enqueue (Call Endl)] @ handlers_destructor, emits 0 10, emits 10 20]"
  have out: "todo_out event_out (Script (?scripts ! i)) = emitted ! i" if "i < 3" for i
  proof -
    from that consider "i = 0" | "i = Suc 0" | "i = Suc (Suc 0)" by linarith
    then show ?thesis by cases (simp_all only: emitted_def handlers_outs nth_Cons_0 nth_Cons_Suc)
  qed
  have "handlers_order.order_inv P j (filter P (todo_out event_out (Script (?scripts ! j)))) s
      (LExit # replicate 3 SEnd :: (event_call, unit) el_pc list)"
  proof (rule handlers_order.reach_order)
    show "reach (el_thread OnNetworkEvent (\<lambda>_ _. False) False) (el_init \<lparr>printed = []\<rparr> ?scripts)
        (s, LExit # replicate 3 SEnd)"
      using r unfolding handlers_thread_eq handlers_main_def .
    show "list_all (\<lambda>as. no_direct event_out (Script as)) ?scripts" by (rule handlers_no_direct)
    show "\<forall>i < length ?scripts. i \<noteq> j \<longrightarrow> filter P (todo_out event_out (Script (?scripts ! i))) = []"
    proof (intro allI impI)
      fix i assume "i < length ?scripts" "i \<noteq> j"
      then have i: "i < 3" "i \<noteq> j" by simp_all
      show "filter P (todo_out event_out (Script (?scripts ! i))) = []"
        unfolding out [OF i(1)] using others i by (simp add: filter_empty_conv)
    qed
  qed (use j in simp_all)
  then have "filter P (printed (client s)) = filter P (emitted ! j)" using e j
    unfolding handlers_order.order_inv_def out [OF j] by (auto simp: numeral_3_eq_3 less_Suc_eq)
  then show ?thesis using own by (simp add: filter_id_conv)
qed

text \<open>
  EventLoop/EventHandlers/main.cpp ends, and it then has printed the thirty sizes and the line
  end, those of each emitting thread in the order in which that thread emitted them, and the line end
  after the sizes of the main thread.
\<close>

theorem handlers_in_order:
  assumes r: "reach (handlers_thread False) handlers_main c"
  shows "(\<exists>s. reach (handlers_thread False) c (s, LExit # replicate 3 SEnd)) \<and>
    (stuck (handlers_thread False) c \<longrightarrow>
      (let out = printed (client (fst c)) in length out = 31 \<and>
        filter (\<lambda>x. \<exists>n < 10. x = Some n) out = map Some [0..<10] \<and>
        filter (\<lambda>x. \<exists>n < 20. 10 \<le> n \<and> x = Some n) out = map Some [10..<20] \<and>
        filter (\<lambda>x. \<forall>n < 20. x \<noteq> Some n) out = map Some [20..<30] @ [None]))"
proof (intro conjI impI)
  let ?ss = "[emits 0 10, emits 10 20]" and ?m = "emits 20 30 @ [Join 2, Enqueue (Call Endl)] @ handlers_destructor"
  have m: "main_script (length ?ss) (?ss = []) ?m" using handlers_scripts(1) by (simp add: numeral_2_eq_2)
  note ends = el_program_ends [OF m handlers_scripts(3,2) r [unfolded handlers_thread_eq handlers_main_def]]
  from ends(1) show "\<exists>s. reach (handlers_thread False) c (s, LExit # replicate 3 SEnd)"
    by (simp add: handlers_thread_eq numeral_3_eq_3)
  assume "stuck (handlers_thread False) c"
  with ends(2) have e: "snd c = LExit # replicate 3 SEnd" "m_writeBuffer (fst c) = []"
    by (simp_all add: handlers_thread_eq numeral_3_eq_3)
  have rs: "reach (handlers_thread False) handlers_main (fst c, LExit # replicate 3 SEnd)"
    using r e(1) by (metis prod.collapse)
  note F = handlers_filter [OF rs e(2)]
  have "int (length (printed (client (fst c)))) = 31"
    using handlers_count.sum_inv [OF rs [unfolded handlers_thread_eq handlers_main_def]] e(2) handlers_scripts(4)
    by (simp add: numeral_3_eq_3)
  moreover have "filter (\<lambda>x. \<exists>n < 10. x = Some n) (printed (client (fst c))) = map Some [0..<10]"
    using F [of 1 "\<lambda>x. \<exists>n < 10. x = Some n"] by (simp add: emitted_def all_less_3 image_iff)
  moreover have "filter (\<lambda>x. \<exists>n < 20. 10 \<le> n \<and> x = Some n) (printed (client (fst c))) = map Some [10..<20]"
    using F [of 2 "\<lambda>x. \<exists>n < 20. 10 \<le> n \<and> x = Some n"] by (simp add: emitted_def all_less_3 image_iff)
  moreover have "filter (\<lambda>x. \<forall>n < 20. x \<noteq> Some n) (printed (client (fst c))) = map Some [20..<30] @ [None]"
    using F [of 0 "\<lambda>x. \<forall>n < 20. x \<noteq> Some n"] by (simp add: emitted_def all_less_3 image_iff)
  ultimately show "let out = printed (client (fst c)) in length out = 31 \<and>
        filter (\<lambda>x. \<exists>n < 10. x = Some n) out = map Some [0..<10] \<and>
        filter (\<lambda>x. \<exists>n < 20. 10 \<le> n \<and> x = Some n) out = map Some [10..<20] \<and>
        filter (\<lambda>x. \<forall>n < 20. x \<noteq> Some n) out = map Some [20..<30] @ [None]"
    by (simp add: Let_def)
qed

theorem handlers_in_order_witness:
  "\<exists>s. reach (handlers_thread False) handlers_main (s, LExit # replicate 3 SEnd) \<and>
     length (printed (client s)) = 31"
proof -
  obtain s where s: "reach (handlers_thread False) handlers_main (s, LExit # replicate 3 SEnd)"
    using handlers_in_order [OF reach_init] by blast
  have "stuck (handlers_thread False) (s, LExit # replicate 3 SEnd)"
    by (auto simp: stuck_iff handlers_thread_eq el_thread_def numeral_3_eq_3 less_Suc_eq)
  with handlers_in_order [OF s] s show ?thesis by (auto simp: Let_def)
qed

section \<open>Synchronous and asynchronous calls\<close>

definition basic_threadFunc :: "('t \<Rightarrow> 'g \<Rightarrow> 'g) \<Rightarrow> bool \<Rightarrow> nat \<Rightarrow> ('t, 'g) event_loop \<Rightarrow> ('t, 'w) el_pc
    \<Rightarrow> (('t, 'g) event_loop \<times> ('t, 'w) el_pc) list" where
  "basic_threadFunc = threadFunc"

definition basic_enqueue :: "('t, 'g) event_loop \<Rightarrow> ('t, 'w) el_pc \<Rightarrow> (('t, 'g) event_loop \<times> ('t, 'w) el_pc) list" where
  "basic_enqueue = enqueue"

definition basic_enqueueSync :: "bool \<Rightarrow> 't \<Rightarrow> 'w \<Rightarrow> ('t, 'w) action list" where
  "basic_enqueueSync = enqueueSync"

definition basic_enqueueAsync :: "'t \<Rightarrow> ('t, 'w) action list" where
  "basic_enqueueAsync = enqueueAsync"

definition basic_destructor :: "('t, 'w) action list" where
  "basic_destructor = el_destructor"

text \<open>
  The pieces that are written to standard output, in the order of the program text. The left operand
  of \<open><<\<close> is written before the call of \<open>enqueueSync\<close> that follows it.
\<close>

datatype piece = DifferentThread | SyncText | SyncValue int | AsyncText | AsyncValue int | BeforeOrAfter | Last

datatype basic_call = SayDifferent | Sum2 int int | Sum3 int int int | Say piece | SaySync | SayAsync

record basic_state =
  pieces :: "piece list"
  sync_result :: "int option"
  async_result :: "int option"

fun basic_exec :: "basic_call \<Rightarrow> basic_state \<Rightarrow> basic_state" where
  "basic_exec SayDifferent g = g\<lparr>pieces := pieces g @ [DifferentThread]\<rparr>"
| "basic_exec (Sum2 x y) g = g\<lparr>async_result := Some (x + y)\<rparr>"
| "basic_exec (Sum3 x y z) g = g\<lparr>sync_result := Some (x + y + z)\<rparr>"
| "basic_exec (Say p) g = g\<lparr>pieces := pieces g @ [p]\<rparr>"
| "basic_exec SaySync g = g\<lparr>pieces := pieces g @ [SyncValue (the (sync_result g))]\<rparr>"
| "basic_exec SayAsync g = g\<lparr>pieces := pieces g @ [AsyncValue (the (async_result g))]\<rparr>"

fun basic_ready :: "bool \<Rightarrow> basic_state \<Rightarrow> bool" where
  "basic_ready True g = (sync_result g \<noteq> None)"
| "basic_ready False g = (async_result g \<noteq> None)"

definition basic_script :: "(basic_call, bool) action list" where
  "basic_script = [Enqueue (Call SayDifferent)] @ basic_enqueueAsync (Sum2 1 2) @
     [Direct (Say SyncText)] @ basic_enqueueSync False (Sum3 1 2 3) True @ [Direct SaySync] @
     [Direct (Say AsyncText), Await False, Direct SayAsync] @
     [Direct (Say BeforeOrAfter)] @ basic_destructor @ [Direct (Say Last)]"

definition basic_thread :: "bool \<Rightarrow> ((basic_call, basic_state) event_loop, (basic_call, bool) el_pc) thread" where
  "basic_thread sp t s pc = basic_threadFunc basic_exec sp t s pc @ basic_enqueue s pc @
     script_step basic_exec basic_ready s pc"

definition basic_main :: "((basic_call, basic_state) event_loop, (basic_call, bool) el_pc) conf" where
  "basic_main = el_init \<lparr>pieces = [], sync_result = None, async_result = None\<rparr> [basic_script]"

lemma basic_thread_eq: "basic_thread = el_thread basic_exec basic_ready"
  by (intro ext) (simp add: basic_thread_def el_thread_def basic_threadFunc_def basic_enqueue_def)

text \<open>The callables that a script still enqueues, and all callables of the program in their order.\<close>

fun to_enqueue :: "('t, 'w) action list \<Rightarrow> 't task list" where
  "to_enqueue [] = []"
| "to_enqueue (Enqueue f # as) = f # to_enqueue as"
| "to_enqueue (a # as) = to_enqueue as"

definition basic_tasks :: "basic_call task list" where
  "basic_tasks = [Call SayDifferent, Call (Sum2 1 2), Call (Sum3 1 2 3), Quit]"

text \<open>
  After \<open>k\<close> callables and \<open>d\<close> actions of the main thread: the first piece of each of them can come in
  either order, the rest is determined.
\<close>

definition basic_rest :: "nat \<Rightarrow> piece list" where
  "basic_rest d = (if d \<le> 5 then [] else if d = 6 then [SyncValue 6] else if d \<le> 8 then [SyncValue 6, AsyncText]
     else if d = 9 then [SyncValue 6, AsyncText, AsyncValue 3]
     else [SyncValue 6, AsyncText, AsyncValue 3, BeforeOrAfter] @ (if d = 13 then [Last] else []))"

definition basic_pieces :: "nat \<Rightarrow> nat \<Rightarrow> piece list set" where
  "basic_pieces k d = (let dt = (if 1 \<le> k then [DifferentThread] else []) in
     if d \<le> 2 then {dt} else {dt @ [SyncText] @ basic_rest d, [SyncText] @ dt @ basic_rest d})"

definition basic_inv :: "(basic_call, basic_state) event_loop \<Rightarrow> (basic_call, bool) el_pc list \<Rightarrow> bool" where
  "basic_inv s ls \<longleftrightarrow> (\<exists>L M k d. ls = [L, M] \<and> loop_pc L \<and> \<not> loop_pc M \<and> k \<le> 4 \<and> d \<le> 13 \<and>
     todo M = drop d basic_script \<and> reading L @ m_writeBuffer s @ to_enqueue (todo M) = drop k basic_tasks \<and>
     async_result (client s) = (if 2 \<le> k then Some 3 else None) \<and>
     sync_result (client s) = (if 3 \<le> k then Some 6 else None) \<and>
     (5 \<le> d \<longrightarrow> 3 \<le> k) \<and> pieces (client s) \<in> basic_pieces k d)"

lemma basic_step_loop:
  assumes L: "loop_pc L" and k: "k \<le> 4" and pend: "reading L @ m_writeBuffer s @ es = drop k basic_tasks"
    and res: "async_result (client s) = (if 2 \<le> k then Some 3 else None)"
      "sync_result (client s) = (if 3 \<le> k then Some 6 else None)"
    and d: "5 \<le> d \<longrightarrow> 3 \<le> k" "pieces (client s) \<in> basic_pieces k d"
    and st: "(s', L') \<in> set (el_thread basic_exec basic_ready sp t s L)"
  shows "loop_pc L' \<and> (\<exists>k' \<ge> k. k' \<le> 4 \<and> reading L' @ m_writeBuffer s' @ es = drop k' basic_tasks \<and>
     async_result (client s') = (if 2 \<le> k' then Some 3 else None) \<and>
     sync_result (client s') = (if 3 \<le> k' then Some 6 else None) \<and> pieces (client s') \<in> basic_pieces k' d)"
proof (cases L)
  case (LRun rb)
  show ?thesis
  proof (cases rb)
    case Nil
    with LRun assms show ?thesis by (auto simp: el_thread_def)
  next
    case (Cons f fs)
    then have s': "s' = run_task basic_exec f s" "L' = LRun fs" using LRun st by (auto simp: el_thread_def)
    have "drop k basic_tasks = f # fs @ m_writeBuffer s @ es" using pend LRun Cons by simp
    then have f: "k < 4" "f = basic_tasks ! k" "drop (Suc k) basic_tasks = fs @ m_writeBuffer s @ es"
      by (auto simp: basic_tasks_def drop_Cons split: nat.splits)
    from f(1) consider "k = 0" | "k = 1" | "k = 2" | "k = 3" by linarith
    then have "async_result (client s') = (if 2 \<le> Suc k then Some 3 else None) \<and>
     sync_result (client s') = (if 3 \<le> Suc k then Some 6 else None) \<and> pieces (client s') \<in> basic_pieces (Suc k) d"
      using res d f(2)
      by cases (auto simp: s' run_task_def basic_tasks_def basic_pieces_def basic_rest_def Let_def split: if_splits)
    then show ?thesis using f s' by (intro conjI exI [of _ "Suc k"]) auto
  qed
qed (use assms in \<open>auto simp: el_thread_def intro!: exI [of _ k] split: if_splits\<close>)

lemma client_step_cases:
  assumes "\<not> loop_pc M" "(s', M') \<in> set (el_thread exec ready sp t s M)"
  shows "\<not> loop_pc M' \<and>
    (todo M' = todo M \<and> m_writeBuffer s' = m_writeBuffer s \<and> client s' = client s \<or>
     (\<exists>a. todo M = a # todo M' \<and>
       (case a of
          Enqueue f \<Rightarrow> m_writeBuffer s' = m_writeBuffer s @ [f] \<and> client s' = client s
        | Direct c \<Rightarrow> m_writeBuffer s' = m_writeBuffer s \<and> client s' = exec c (client s)
        | Await w \<Rightarrow> ready w (client s) \<and> m_writeBuffer s' = m_writeBuffer s \<and> client s' = client s
        | _ \<Rightarrow> m_writeBuffer s' = m_writeBuffer s \<and> client s' = client s)))"
  using assms(1)
proof (cases rule: not_loop_cases)
  case (1 as)
  show ?thesis
  proof (cases as)
    case Nil
    with 1 assms show ?thesis by (auto simp: el_thread_def)
  next
    case (Cons a bs)
    with 1 assms show ?thesis by (cases a) (auto simp: el_thread_def split: if_splits)
  qed
qed (use assms in \<open>auto simp: el_thread_def\<close>)

lemma basic_script_nth:
  "length basic_script = 13"
  "d < 13 \<Longrightarrow> basic_script ! d = [Enqueue (Call SayDifferent), Enqueue (Call (Sum2 1 2)), Direct (Say SyncText),
     Enqueue (Call (Sum3 1 2 3)), Await True, Direct SaySync, Direct (Say AsyncText), Await False, Direct SayAsync,
     Direct (Say BeforeOrAfter), Enqueue Quit, JoinLoop, Direct (Say Last)] ! d"
  by (simp_all add: basic_script_def basic_enqueueSync_def enqueueSync_def basic_enqueueAsync_def enqueueAsync_def
      basic_destructor_def el_destructor_def)

lemma basic_step_main:
  assumes M: "\<not> loop_pc M" "todo M = drop d basic_script" and d13: "d \<le> 13"
    and pend: "pd @ m_writeBuffer s @ to_enqueue (todo M) = drop k basic_tasks"
    and res: "async_result (client s) = (if 2 \<le> k then Some 3 else None)"
      "sync_result (client s) = (if 3 \<le> k then Some 6 else None)"
    and d: "5 \<le> d \<longrightarrow> 3 \<le> k" "pieces (client s) \<in> basic_pieces k d"
    and st: "(s', M') \<in> set (el_thread basic_exec basic_ready sp t s M)"
  shows "\<not> loop_pc M' \<and> (\<exists>d' \<le> 13. todo M' = drop d' basic_script \<and>
     pd @ m_writeBuffer s' @ to_enqueue (todo M') = drop k basic_tasks \<and>
     async_result (client s') = async_result (client s) \<and> sync_result (client s') = sync_result (client s) \<and>
     (5 \<le> d' \<longrightarrow> 3 \<le> k) \<and> pieces (client s') \<in> basic_pieces k d')"
proof -
  note C = client_step_cases [OF M(1) st]
  show ?thesis
  proof (cases "todo M' = todo M \<and> m_writeBuffer s' = m_writeBuffer s \<and> client s' = client s")
    case True
    with C assms show ?thesis by auto
  next
    case False
    with C obtain a where a: "todo M = a # todo M'" and ca: "case a of
          Enqueue f \<Rightarrow> m_writeBuffer s' = m_writeBuffer s @ [f] \<and> client s' = client s
        | Direct c \<Rightarrow> m_writeBuffer s' = m_writeBuffer s \<and> client s' = basic_exec c (client s)
        | Await w \<Rightarrow> basic_ready w (client s) \<and> m_writeBuffer s' = m_writeBuffer s \<and> client s' = client s
        | _ \<Rightarrow> m_writeBuffer s' = m_writeBuffer s \<and> client s' = client s" by blast
    have d': "d < 13" "a = basic_script ! d" "todo M' = drop (Suc d) basic_script"
    proof -
      show lt: "d < 13" using a M(2) d13 basic_script_nth(1) by (cases "d = 13") auto
      then have "drop d basic_script = basic_script ! d # drop (Suc d) basic_script"
        using basic_script_nth(1) by (simp add: Cons_nth_drop_Suc)
      then show "a = basic_script ! d" "todo M' = drop (Suc d) basic_script" using a M(2) by simp_all
    qed
    have pend': "pd @ m_writeBuffer s' @ to_enqueue (todo M') = drop k basic_tasks"
      using pend a ca by (cases a) simp_all
    from d'(1) consider "d = 0" | "d = 1" | "d = 2" | "d = 3" | "d = 4" | "d = 5" | "d = 6" | "d = 7" | "d = 8"
      | "d = 9" | "d = 10" | "d = 11" | "d = 12" by (auto simp: numeral_eq_Suc less_Suc_eq)
    then have "async_result (client s') = async_result (client s) \<and> sync_result (client s') = sync_result (client s) \<and>
     (5 \<le> Suc d \<longrightarrow> 3 \<le> k) \<and> pieces (client s') \<in> basic_pieces k (Suc d)"
      using ca res d d'(2) [unfolded basic_script_nth(2) [OF d'(1)]]
      by cases (auto simp: basic_pieces_def basic_rest_def Let_def split: if_splits)
    with C pend' d' show ?thesis by (intro conjI exI [of _ "Suc d"]) auto
  qed
qed

interpretation basic: thread_inv "basic_thread sp" basic_main basic_inv for sp
proof
  show "basic_inv (fst basic_main) (snd basic_main)"
    unfolding basic_inv_def
    by (intro exI [of _ LCheck] exI [of _ "Script basic_script"] exI [of _ 0] exI [of _ 0] conjI)
      (simp_all add: basic_main_def el_init_def basic_pieces_def basic_tasks_def, simp_all add: basic_script_def
        basic_enqueueSync_def enqueueSync_def basic_enqueueAsync_def enqueueAsync_def basic_destructor_def el_destructor_def)
next
  fix s ls i s' l
  assume I: "basic_inv s ls" and i: "i < length ls" and out: "(s', l) \<in> set (basic_thread sp i s (ls ! i))"
  obtain L M k d where ls: "ls = [L, M]" and L: "loop_pc L" and M: "\<not> loop_pc M" and b: "k \<le> 4" "d \<le> 13"
    and td: "todo M = drop d basic_script"
    and pend: "reading L @ m_writeBuffer s @ to_enqueue (todo M) = drop k basic_tasks"
    and res: "async_result (client s) = (if 2 \<le> k then Some 3 else None)"
      "sync_result (client s) = (if 3 \<le> k then Some 6 else None)"
    and d: "5 \<le> d \<longrightarrow> 3 \<le> k" "pieces (client s) \<in> basic_pieces k d"
    using I unfolding basic_inv_def by (elim exE conjE) blast
  have "i = 0 \<or> i = 1" using i ls by auto
  then show "basic_inv s' (ls[i := l])"
  proof
    assume i0: "i = 0"
    with out ls have "(s', l) \<in> set (el_thread basic_exec basic_ready sp i s L)" by (simp add: basic_thread_eq)
    from basic_step_loop [OF L b(1) pend res d this] obtain k' where "loop_pc l" "k \<le> k'" "k' \<le> 4"
      "reading l @ m_writeBuffer s' @ to_enqueue (todo M) = drop k' basic_tasks"
      "async_result (client s') = (if 2 \<le> k' then Some 3 else None)"
      "sync_result (client s') = (if 3 \<le> k' then Some 6 else None)" "pieces (client s') \<in> basic_pieces k' d" by blast
    with i0 ls M b td d show ?thesis unfolding basic_inv_def
      by (intro exI [of _ l] exI [of _ M] exI [of _ k'] exI [of _ d]) auto
  next
    assume i1: "i = 1"
    with out ls have "(s', l) \<in> set (el_thread basic_exec basic_ready sp i s M)" by (simp add: basic_thread_eq)
    from basic_step_main [OF M td b(2) pend res d this] obtain d' where "\<not> loop_pc l" "d' \<le> 13"
      "todo l = drop d' basic_script" "reading L @ m_writeBuffer s' @ to_enqueue (todo l) = drop k basic_tasks"
      "async_result (client s') = async_result (client s)" "sync_result (client s') = sync_result (client s)"
      "5 \<le> d' \<longrightarrow> 3 \<le> k" "pieces (client s') \<in> basic_pieces k d'" by blast
    with i1 ls L b res show ?thesis unfolding basic_inv_def
      by (intro exI [of _ L] exI [of _ l] exI [of _ k] exI [of _ d']) auto
  qed
qed

text \<open>
  EventLoop/Basic/main.cpp: when the main thread has returned it has printed the sums 6 and 3 that
  the loop computed and its own texts in their order, and the message of the loop comes before the first
  sum: before or after the text in front of it, but never later, as \<open>enqueueSync\<close> waits for all
  earlier callables.
\<close>

theorem basic_output:
  assumes "reach (basic_thread sp) basic_main (s, ls)" and "SEnd \<in> set ls"
  shows "pieces (client s) \<in> {
    [DifferentThread, SyncText, SyncValue 6, AsyncText, AsyncValue 3, BeforeOrAfter, Last],
    [SyncText, DifferentThread, SyncValue 6, AsyncText, AsyncValue 3, BeforeOrAfter, Last]}"
proof -
  obtain L M k d where ls: "ls = [L, M]" "loop_pc L" and d: "d \<le> 13" "todo M = drop d basic_script"
    and k: "5 \<le> d \<longrightarrow> 3 \<le> k" "pieces (client s) \<in> basic_pieces k d"
    using basic.reach_inv [OF assms(1)] by (auto simp: basic_inv_def)
  have "M = SEnd" using ls assms(2) by (cases L) auto
  then have "d = 13" using d basic_script_nth(1) by simp
  with k show ?thesis by (auto simp: basic_pieces_def basic_rest_def Let_def split: if_splits)
qed

theorem basic_output_witness:
  "\<exists>s ls. reach (basic_thread False) basic_main (s, ls) \<and> SEnd \<in> set ls \<and>
     pieces (client s) = [SyncText, DifferentThread, SyncValue 6, AsyncText, AsyncValue 3, BeforeOrAfter, Last]"
proof -
  have "\<exists>s. sched (basic_thread False) (replicate 13 (1, 0) @ replicate 10 (0, 0) @ replicate 10 (1, 0) @
       replicate 7 (0, 0) @ replicate 3 (1, 0)) basic_main = Some (s, [LExit, SEnd]) \<and>
      hd (pieces (client s)) = SyncText"
    by (simp add: basic_main_def basic_thread_eq el_thread_def el_init_def basic_script_def basic_enqueueSync_def
        enqueueSync_def basic_enqueueAsync_def enqueueAsync_def basic_destructor_def el_destructor_def
        notify_one_def run_task_def upd_Cons_numeral replicate_unroll)
  then obtain s where r: "reach (basic_thread False) basic_main (s, [LExit, SEnd])"
    and h: "hd (pieces (client s)) = SyncText" by (auto dest: sched_reach)
  from basic_output [OF r] h r show ?thesis by fastforce
qed

end
