(* ===== verification/Ring_Buffer.thy ===== *)
theory Ring_Buffer
  imports Conc_Prelude
begin

text \<open>
  ProducerConsumer/spsc_daugaard/v1: a ring of bytes for one writer and one reader. Positions and sizes are
  words of 64 bits; each side has a local state and publishes the sum of its \<open>base\<close> and \<open>pos\<close>.
  The program sends messages of four bytes through a ring of sixteen.
\<close>

unbundle bit_operations_syntax

type_synonym u64 = "64 word"
type_synonym byte = "8 word"

section \<open>Bytes\<close>

text \<open>\<open>Message\<close> is a 32-bit number, stored with its lowest byte first.\<close>

definition encode :: "32 word \<Rightarrow> byte list" where
  "encode v = [ucast v, ucast (drop_bit 8 v), ucast (drop_bit 16 v), ucast (drop_bit 24 v)]"

definition decode :: "byte list \<Rightarrow> 32 word" where
  "decode bs = ucast (bs ! 0) OR push_bit 8 (ucast (bs ! 1)) OR push_bit 16 (ucast (bs ! 2)) OR
     push_bit 24 (ucast (bs ! 3))"

lemma decode_encode [simp]: "decode (encode v) = v"
proof (rule bit_word_eqI)
  fix n assume "n < LENGTH(32)"
  then have "n < 32" by simp
  then show "bit (decode (encode v)) n = bit v n"
    by (cases "n < 8"; cases "n < 16"; cases "n < 24") (auto simp: decode_def encode_def bit_simps)
qed

lemma length_encode [simp]: "length (encode v) = 4"
  by (simp add: encode_def)

definition store_bytes :: "byte list \<Rightarrow> nat \<Rightarrow> byte list \<Rightarrow> byte list" where
  "store_bytes mem p bs = take p mem @ bs @ drop (p + length bs) mem"

definition load_bytes :: "byte list \<Rightarrow> nat \<Rightarrow> nat \<Rightarrow> byte list" where
  "load_bytes mem p n = take n (drop p mem)"

lemma store_bytes_simps:
  assumes "p + length bs \<le> length mem"
  shows "length (store_bytes mem p bs) = length mem"
    and "load_bytes (store_bytes mem p bs) p (length bs) = bs"
    and "p' + n \<le> p \<or> p + length bs \<le> p' \<Longrightarrow>
      load_bytes (store_bytes mem p bs) p' n = load_bytes mem p' n"
proof -
  show "length (store_bytes mem p bs) = length mem" "load_bytes (store_bytes mem p bs) p (length bs) = bs"
    using assms by (simp_all add: store_bytes_def load_bytes_def)
  show "load_bytes (store_bytes mem p bs) p' n = load_bytes mem p' n"
    if "p' + n \<le> p \<or> p + length bs \<le> p'"
    using that assms
    by (auto simp: store_bytes_def load_bytes_def drop_append take_append min_def take_drop)
qed

section \<open>The class\<close>

record local_state =
  pos :: u64
  lend :: u64
  base :: u64
  lsize :: u64

definition LocalState :: local_state where
  "LocalState = \<lparr>pos = 0, lend = 0, base = 0, lsize = 0\<rparr>"

record ring_buffer =
  m_Writer :: local_state
  m_Reader :: local_state
  m_WriterShared :: u64
  m_ReaderShared :: u64
  memory :: "byte list"

definition Reset :: "ring_buffer \<Rightarrow> ring_buffer" where
  "Reset s = s\<lparr>m_Reader := LocalState, m_Writer := LocalState, m_ReaderShared := 0, m_WriterShared := 0\<rparr>"

definition Initialize :: "byte list \<Rightarrow> u64 \<Rightarrow> ring_buffer \<Rightarrow> ring_buffer" where
  "Initialize buffer sz s =
     (let s = Reset s in s\<lparr>memory := buffer, m_Reader := (m_Reader s)\<lparr>lsize := sz\<rparr>,
        m_Writer := (m_Writer s)\<lparr>lsize := sz, lend := sz\<rparr>\<rparr>)"

definition Align :: "u64 \<Rightarrow> u64 \<Rightarrow> u64" where
  "Align p alignment = (p + alignment - 1) AND NOT (alignment - 1)"

text \<open>
  The first part of \<open>PrepareWrite\<close> and \<open>PrepareRead\<close>, up to the loop that waits for space: the position
  (\<open>Inl\<close>), or the position and end for which the loop has to wait (\<open>Inr\<close>), at the start of the
  ring if the end is beyond its size.
\<close>

definition prepare :: "local_state \<Rightarrow> u64 \<Rightarrow> u64 \<Rightarrow> local_state \<times> (u64 + u64 \<times> u64)" where
  "prepare l sz alignment =
     (let p = Align (pos l) alignment; e = p + sz
      in if e > lend l
         then if e > lsize l then (l\<lparr>base := base l + lsize l\<rparr>, Inr (0, e - p)) else (l, Inr (p, e))
         else (l\<lparr>pos := e\<rparr>, Inl p))"

text \<open>A round of the loop of \<open>GetBufferSpaceToWriteTo\<close> and of \<open>GetBufferSpaceToReadFrom\<close>.\<close>

definition GetBufferSpaceToWriteTo :: "local_state \<Rightarrow> u64 \<Rightarrow> u64 \<Rightarrow> local_state option" where
  "GetBufferSpaceToWriteTo l readerPos e =
     (let available = readerPos - base l + lsize l
      in if sint available \<ge> sint e then Some (l\<lparr>lend := min available (lsize l), pos := e\<rparr>) else None)"

definition GetBufferSpaceToReadFrom :: "local_state \<Rightarrow> u64 \<Rightarrow> u64 \<Rightarrow> local_state option" where
  "GetBufferSpaceToReadFrom l writerPos e =
     (let available = writerPos - base l
      in if sint available \<ge> sint e then Some (l\<lparr>lend := min available (lsize l), pos := e\<rparr>) else None)"

definition FinishWrite :: "ring_buffer \<Rightarrow> ring_buffer" where
  "FinishWrite s = s\<lparr>m_WriterShared := base (m_Writer s) + pos (m_Writer s)\<rparr>"

definition FinishRead :: "ring_buffer \<Rightarrow> ring_buffer" where
  "FinishRead s = s\<lparr>m_ReaderShared := base (m_Reader s) + pos (m_Reader s)\<rparr>"

section \<open>The program\<close>

record ring_program =
  ringBuffer :: ring_buffer
  count :: "32 word"
  messagesCount :: "32 word"

text \<open>
  \<open>PSpin\<close> and \<open>CSpin\<close> are the loops that wait, with the position and end they wait for. The consumer
  keeps what it has received. A message is stored and loaded byte by byte: \<open>PStore\<close> has the number of bytes that
  are stored, \<open>CLoad\<close> the bytes that are loaded. The lines that both print, under a mutex of their own, are left out.
\<close>

datatype ring_pc =
    PNext nat
  | PPrepare nat "32 word"
  | PSpin nat "32 word" u64 u64
  | PStore nat "32 word" u64 nat
  | PFinish nat
  | PCount nat
  | PDone
  | CPrepare "32 word list"
  | CSpin "32 word list" u64 u64
  | CLoad "32 word list" u64 "byte list"
  | CCount "32 word list"
  | CFinish "32 word list"
  | CDone "32 word list"

definition kMessageSize :: u64 where "kMessageSize = 4"

fun ring_producer :: "nat \<Rightarrow> ring_program \<Rightarrow> ring_pc \<Rightarrow> (ring_program \<times> ring_pc) list" where
  "ring_producer n g (PNext i) =
     [if i < n then (g\<lparr>messagesCount := messagesCount g + 1\<rparr>, PPrepare i (messagesCount g)) else (g, PDone)]"
| "ring_producer n g (PPrepare i m) =
     (let s = ringBuffer g; (l, r) = prepare (m_Writer s) kMessageSize kMessageSize
      in [(g\<lparr>ringBuffer := s\<lparr>m_Writer := l\<rparr>\<rparr>,
           case r of Inl p \<Rightarrow> PStore i m p 0 | Inr (p, e) \<Rightarrow> PSpin i m p e)])"
| "ring_producer n g (PSpin i m p e) =
     (let s = ringBuffer g in
      case GetBufferSpaceToWriteTo (m_Writer s) (m_ReaderShared s) e of
        None \<Rightarrow> [(g, PSpin i m p e)]
      | Some l \<Rightarrow> [(g\<lparr>ringBuffer := s\<lparr>m_Writer := l\<rparr>\<rparr>, PStore i m p 0)])"
| "ring_producer n g (PStore i m p k) =
     (let s = ringBuffer g in
      [(g\<lparr>ringBuffer := s\<lparr>memory := (memory s)[unat p + k := encode m ! k]\<rparr>\<rparr>,
        if k + 1 < unat kMessageSize then PStore i m p (k + 1) else PFinish i)])"
| "ring_producer n g (PFinish i) = [(g\<lparr>ringBuffer := FinishWrite (ringBuffer g)\<rparr>, PCount i)]"
| "ring_producer n g (PCount i) = [(g\<lparr>count := count g + 1\<rparr>, PNext (i + 1))]"
| "ring_producer n g _ = []"

fun ring_consumer :: "nat \<Rightarrow> ring_program \<Rightarrow> ring_pc \<Rightarrow> (ring_program \<times> ring_pc) list" where
  "ring_consumer n g (CPrepare rc) =
     (if length rc < n
      then let s = ringBuffer g; (l, r) = prepare (m_Reader s) kMessageSize kMessageSize
           in [(g\<lparr>ringBuffer := s\<lparr>m_Reader := l\<rparr>\<rparr>,
                case r of Inl p \<Rightarrow> CLoad rc p [] | Inr (p, e) \<Rightarrow> CSpin rc p e)]
      else [(g, CDone rc)])"
| "ring_consumer n g (CSpin rc p e) =
     (let s = ringBuffer g in
      case GetBufferSpaceToReadFrom (m_Reader s) (m_WriterShared s) e of
        None \<Rightarrow> [(g, CSpin rc p e)]
      | Some l \<Rightarrow> [(g\<lparr>ringBuffer := s\<lparr>m_Reader := l\<rparr>\<rparr>, CLoad rc p [])])"
| "ring_consumer n g (CLoad rc p bs) =
     (let bs' = bs @ [memory (ringBuffer g) ! (unat p + length bs)] in
      [(g, if length bs' < unat kMessageSize then CLoad rc p bs' else CCount (rc @ [decode bs']))])"
| "ring_consumer n g (CCount rc) = [(g\<lparr>count := count g - 1\<rparr>, CFinish rc)]"
| "ring_consumer n g (CFinish rc) = [(g\<lparr>ringBuffer := FinishRead (ringBuffer g)\<rparr>, CPrepare rc)]"
| "ring_consumer n g _ = []"

definition ring_thread :: "nat \<Rightarrow> (ring_program, ring_pc) thread" where
  "ring_thread n t g pc = ring_producer n g pc @ ring_consumer n g pc"

text \<open>The memory of the ring holds any sixteen bytes at the start.\<close>

definition ring_new :: "byte list \<Rightarrow> ring_buffer" where
  "ring_new buffer = Initialize buffer (of_nat (length buffer))
     \<lparr>m_Writer = LocalState, m_Reader = LocalState, m_WriterShared = 0, m_ReaderShared = 0, memory = []\<rparr>"

definition ring_main :: "byte list \<Rightarrow> (ring_program, ring_pc) conf" where
  "ring_main buffer = (\<lparr>ringBuffer = ring_new buffer, count = 0, messagesCount = 0\<rparr>, [PNext 0, CPrepare []])"

section \<open>Local states\<close>

text \<open>
  \<open>at_message l i lim\<close>: the local state between messages \<open>i - 1\<close> and \<open>i\<close>, which may use the
  bytes below \<open>lim\<close> of the unbounded stream. \<open>waits l i p e\<close>: the same side waits for message
  \<open>i\<close>, which will be at \<open>p\<close>.
\<close>

definition at_message :: "local_state \<Rightarrow> nat \<Rightarrow> nat \<Rightarrow> bool" where
  "at_message l i lim \<longleftrightarrow> (\<exists>q r k. r \<le> 4 \<and> k \<le> 16 \<and> i = 4 * q + r \<and> lim = 16 * q + k \<and>
     l = \<lparr>pos = of_nat (4 * r), lend = of_nat k, base = of_nat (16 * q), lsize = 16\<rparr>)"

lemma at_messageI:
  "r \<le> 4 \<Longrightarrow> k \<le> 16 \<Longrightarrow> i = 4 * q + r \<Longrightarrow> lim = 16 * q + k \<Longrightarrow>
    at_message \<lparr>pos = of_nat (4 * r), lend = of_nat k, base = of_nat (16 * q), lsize = 16\<rparr> i lim"
  unfolding at_message_def by blast

definition waits :: "local_state \<Rightarrow> nat \<Rightarrow> u64 \<Rightarrow> u64 \<Rightarrow> bool" where
  "waits l i p e \<longleftrightarrow> base l = of_nat (16 * (i div 4)) \<and> lsize l = 16 \<and>
     p = of_nat (4 * (i mod 4)) \<and> e = of_nat (4 * (i mod 4) + 4)"

lemma Align_message: "r \<le> 4 \<Longrightarrow> Align (of_nat (4 * r)) 4 = of_nat (4 * r)"
proof -
  assume "r \<le> 4"
  then consider "r = 0" | "r = 1" | "r = 2" | "r = 3" | "r = 4" by linarith
  then show ?thesis by cases (simp_all add: Align_def)
qed

lemma of_nat_gr: "a < 2 ^ 63 \<Longrightarrow> b < 2 ^ 63 \<Longrightarrow> (of_nat a > (of_nat b :: u64)) \<longleftrightarrow> a > b"
  by (simp add: word_less_nat_alt unat_of_nat)

lemma sint_of_nat: "a < 2 ^ 63 \<Longrightarrow> sint (of_nat a :: u64) = int a"
  by (simp add: sint_uint unsigned_of_nat take_bit_nat_eq_self signed_take_bit_int_eq_self)

lemma prepare_at:
  assumes a: "at_message l i lim" and p: "prepare l 4 4 = (l', res)"
  shows "case res of Inl p \<Rightarrow> at_message l' (Suc i) lim \<and> p = of_nat (4 * (i mod 4)) \<and> 4 * i + 4 \<le> lim
     | Inr (p, e) \<Rightarrow> waits l' i p e"
proof -
  obtain q r k where r: "r \<le> 4" and k: "k \<le> 16" and i: "i = 4 * q + r" and lim: "lim = 16 * q + k"
    and l: "l = \<lparr>pos = of_nat (4 * r), lend = of_nat k, base = of_nat (16 * q), lsize = 16\<rparr>"
    using a by (auto simp: at_message_def)
  have al: "Align (pos l) 4 = of_nat (4 * r)" using Align_message [OF r] l by simp
  have e: "(of_nat (4 * r) :: u64) + 4 = of_nat (4 * r + 4)" by simp
  have gr: "((of_nat (4 * r + 4) :: u64) > of_nat k) = (4 * r + 4 > k)"
    "((of_nat (4 * r + 4) :: u64) > 16) = (r = 4)"
    using of_nat_gr [of "4 * r + 4" k] of_nat_gr [of "4 * r + 4" 16] r k by auto
  show ?thesis
  proof (cases "4 * r + 4 > k")
    case False
    then have "r < 4" using k by simp
    moreover have "l' = l\<lparr>pos := of_nat (4 * r + 4)\<rparr>" "res = Inl (of_nat (4 * r))"
      using p False gr unfolding prepare_def al e by (simp_all add: l Let_def)
    moreover have "at_message l' (Suc i) lim"
    proof -
      have "l' = \<lparr>pos = of_nat (4 * Suc r), lend = of_nat k, base = of_nat (16 * q), lsize = 16\<rparr>"
        using calculation(2) by (simp add: l algebra_simps)
      moreover have "at_message \<dots> (Suc i) lim"
        by (rule at_messageI) (use \<open>r < 4\<close> k i lim in simp_all)
      ultimately show ?thesis by simp
    qed
    ultimately show ?thesis using False by (simp add: i lim)
  next
    case True
    show ?thesis
    proof (cases "r = 4")
      case r4: True
      have "(of_nat (4 * r + 4) :: u64) - of_nat (4 * r) = 4" by simp
      then have "l' = l\<lparr>base := of_nat (16 * q) + 16\<rparr>" "res = Inr (0, 4)"
        using p True gr r4 unfolding prepare_def al e by (simp_all add: l Let_def)
      then show ?thesis using r4 by (simp add: waits_def l i)
    next
      case False
      then have "l' = l" "res = Inr (of_nat (4 * r), of_nat (4 * r + 4))"
        using p True gr unfolding prepare_def al e by (simp_all add: l Let_def)
      then show ?thesis using False r by (simp add: waits_def l i)
    qed
  qed
qed

definition may_use :: "local_state \<Rightarrow> nat \<Rightarrow> nat \<Rightarrow> bool" where
  "may_use l i bound \<longleftrightarrow> (\<exists>lim \<le> bound. at_message l i lim)"

lemma space_found:
  assumes w: "waits l i p e" and av: "of_nat a - base l = (of_nat (a - 16 * (i div 4)) :: u64)" "16 * (i div 4) \<le> a"
    and a: "a < 2 ^ 62" and ge: "sint (of_nat (a - 16 * (i div 4)) :: u64) \<ge> sint e"
  shows "4 * i + 4 \<le> a \<and> may_use (l\<lparr>lend := min (of_nat (a - 16 * (i div 4))) (lsize l), pos := e\<rparr>) (Suc i) a"
proof -
  let ?q = "i div 4" and ?r = "i mod 4"
  have e: "e = of_nat (4 * ?r + 4)" and l: "base l = of_nat (16 * ?q)" "lsize l = 16"
    using w by (simp_all add: waits_def)
  have "4 * ?r + 4 < 2 ^ 63" by simp
  then have "sint e = int (4 * ?r + 4)" unfolding e by (rule sint_of_nat)
  moreover have "sint (of_nat (a - 16 * ?q) :: u64) = int (a - 16 * ?q)" using a by (intro sint_of_nat) simp
  ultimately have le: "4 * ?r + 4 \<le> a - 16 * ?q" using ge by linarith
  have i: "i = 4 * ?q + ?r" by simp
  have "min (of_nat (a - 16 * ?q)) (16 :: u64) = of_nat (min (a - 16 * ?q) 16)"
    using of_nat_gr [of "a - 16 * ?q" 16] a by (auto simp: min_def not_le [symmetric])
  then have "l\<lparr>lend := min (of_nat (a - 16 * ?q)) (lsize l), pos := e\<rparr> =
      \<lparr>pos = of_nat (4 * Suc ?r), lend = of_nat (min (a - 16 * ?q) 16), base = of_nat (16 * ?q), lsize = 16\<rparr>"
    using l e by (cases l) (simp add: algebra_simps)
  moreover have "at_message \<dots> (Suc i) (16 * ?q + min (a - 16 * ?q) 16)"
    by (rule at_messageI) simp_all
  ultimately have "at_message (l\<lparr>lend := min (of_nat (a - 16 * ?q)) (lsize l), pos := e\<rparr>) (Suc i) (16 * ?q + min (a - 16 * ?q) 16)"
    by simp
  moreover have "16 * ?q + min (a - 16 * ?q) 16 \<le> a" using av(2) by simp
  moreover have "4 * i + 4 \<le> a" using le i av(2) by linarith
  ultimately show ?thesis unfolding may_use_def by blast
qed

section \<open>The invariant\<close>

text \<open>
  \<open>w\<close> messages are published and \<open>r\<close> are given back. \<open>holds s a b\<close>: the messages \<open>a\<close>
  to \<open>b - 1\<close> are in the memory of the ring.
\<close>

definition holds :: "ring_buffer \<Rightarrow> nat \<Rightarrow> nat \<Rightarrow> bool" where
  "holds s a b \<longleftrightarrow> (\<forall>k. a \<le> k \<and> k < b \<longrightarrow> load_bytes (memory s) (4 * (k mod 4)) 4 = encode (of_nat k))"

fun writer_ok :: "nat \<Rightarrow> ring_program \<Rightarrow> ring_pc \<Rightarrow> nat \<Rightarrow> nat \<Rightarrow> bool" where
  "writer_ok n g (PNext i) w r \<longleftrightarrow> w = i \<and> i \<le> n \<and> messagesCount g = of_nat i \<and>
     may_use (m_Writer (ringBuffer g)) i (4 * r + 16)"
| "writer_ok n g (PPrepare i m) w r \<longleftrightarrow> w = i \<and> i < n \<and> messagesCount g = of_nat (Suc i) \<and> m = of_nat i \<and>
     may_use (m_Writer (ringBuffer g)) i (4 * r + 16)"
| "writer_ok n g (PSpin i m p e) w r \<longleftrightarrow> w = i \<and> i < n \<and> messagesCount g = of_nat (Suc i) \<and> m = of_nat i \<and>
     waits (m_Writer (ringBuffer g)) i p e"
| "writer_ok n g (PStore i m p k) w r \<longleftrightarrow> w = i \<and> i < n \<and> messagesCount g = of_nat (Suc i) \<and> m = of_nat i \<and>
     p = of_nat (4 * (i mod 4)) \<and> w < r + 4 \<and> k < 4 \<and>
     load_bytes (memory (ringBuffer g)) (4 * (i mod 4)) k = take k (encode m) \<and> may_use (m_Writer (ringBuffer g)) (Suc i) (4 * r + 16)"
| "writer_ok n g (PFinish i) w r \<longleftrightarrow> w = i \<and> i < n \<and> messagesCount g = of_nat (Suc i) \<and>
     w < r + 4 \<and> may_use (m_Writer (ringBuffer g)) (Suc i) (4 * r + 16)"
| "writer_ok n g (PCount i) w r \<longleftrightarrow> w = Suc i \<and> i < n \<and> messagesCount g = of_nat (Suc i) \<and>
     may_use (m_Writer (ringBuffer g)) (Suc i) (4 * r + 16)"
| "writer_ok n g PDone w r \<longleftrightarrow> w = n"
| "writer_ok n g _ w r \<longleftrightarrow> False"

definition in_order :: "32 word list \<Rightarrow> bool" where
  "in_order rc \<longleftrightarrow> rc = map of_nat [0..<length rc]"

fun reader_ok :: "nat \<Rightarrow> ring_program \<Rightarrow> ring_pc \<Rightarrow> nat \<Rightarrow> nat \<Rightarrow> bool" where
  "reader_ok n g (CPrepare rc) w r \<longleftrightarrow> in_order rc \<and> r = length rc \<and> r \<le> n \<and>
     may_use (m_Reader (ringBuffer g)) r (4 * w)"
| "reader_ok n g (CSpin rc p e) w r \<longleftrightarrow> in_order rc \<and> r = length rc \<and> r < n \<and>
     waits (m_Reader (ringBuffer g)) r p e"
| "reader_ok n g (CLoad rc p bs) w r \<longleftrightarrow> in_order rc \<and> r = length rc \<and> r < n \<and> p = of_nat (4 * (r mod 4)) \<and> r < w \<and>
     length bs < 4 \<and> bs = take (length bs) (encode (of_nat r)) \<and>
     may_use (m_Reader (ringBuffer g)) (Suc r) (4 * w)"
| "reader_ok n g (CCount rc) w r \<longleftrightarrow> in_order rc \<and> Suc r = length rc \<and> r < n \<and> r < w \<and>
     may_use (m_Reader (ringBuffer g)) (Suc r) (4 * w)"
| "reader_ok n g (CFinish rc) w r \<longleftrightarrow> in_order rc \<and> Suc r = length rc \<and> r < n \<and> r < w \<and>
     may_use (m_Reader (ringBuffer g)) (Suc r) (4 * w)"
| "reader_ok n g (CDone rc) w r \<longleftrightarrow> in_order rc \<and> r = length rc \<and> r = n"
| "reader_ok n g _ w r \<longleftrightarrow> False"

definition stored :: "ring_pc \<Rightarrow> nat" where
  "stored pc = (case pc of PFinish i \<Rightarrow> 1 | _ \<Rightarrow> 0)"

definition produced :: "ring_pc \<Rightarrow> nat \<Rightarrow> nat" where
  "produced pc w = (case pc of PCount i \<Rightarrow> i | _ \<Rightarrow> w)"

definition consumed :: "ring_pc \<Rightarrow> nat \<Rightarrow> nat" where
  "consumed pc r = (case pc of CFinish rc \<Rightarrow> Suc r | _ \<Rightarrow> r)"

definition ring_at :: "nat \<Rightarrow> ring_program \<Rightarrow> ring_pc \<Rightarrow> ring_pc \<Rightarrow> nat \<Rightarrow> nat \<Rightarrow> bool" where
  "ring_at n g P C w r \<longleftrightarrow> writer_ok n g P w r \<and> reader_ok n g C w r \<and>
     m_WriterShared (ringBuffer g) = of_nat (4 * w) \<and> m_ReaderShared (ringBuffer g) = of_nat (4 * r) \<and>
     r \<le> w \<and> w \<le> r + 4 \<and> w \<le> n \<and> holds (ringBuffer g) r (w + stored P) \<and>
     length (memory (ringBuffer g)) = 16 \<and> count g = of_nat (produced P w) - of_nat (consumed C r)"

definition ring_inv :: "nat \<Rightarrow> ring_program \<Rightarrow> ring_pc list \<Rightarrow> bool" where
  "ring_inv n g ls \<longleftrightarrow> (\<exists>P C w r. ls = [P, C] \<and> ring_at n g P C w r)"

lemma in_order_append: "in_order rc \<Longrightarrow> in_order (rc @ [of_nat (length rc)])"
  by (simp add: in_order_def)

lemma may_use_mono: "may_use l i a \<Longrightarrow> a \<le> b \<Longrightarrow> may_use l i b"
  unfolding may_use_def by (meson le_trans)

lemma prepare_use:
  assumes "may_use l i bound" and "prepare l 4 4 = (l', res)"
  shows "case res of Inl p \<Rightarrow> may_use l' (Suc i) bound \<and> p = of_nat (4 * (i mod 4)) \<and> 4 * i + 4 \<le> bound
     | Inr (p, e) \<Rightarrow> waits l' i p e"
proof -
  obtain lim where l: "lim \<le> bound" "at_message l i lim" using assms(1) by (auto simp: may_use_def)
  from prepare_at [OF l(2) assms(2)] l(1) show ?thesis
    by (auto simp: may_use_def split: sum.splits intro: le_trans)
qed

lemma base_le: "16 * (i div 4) \<le> 4 * (i :: nat)"
  by simp

lemma write_space:
  assumes w: "waits l w p e" and b: "w \<le> r + 4" "r \<le> w" "w < 2 ^ 31"
  shows "case GetBufferSpaceToWriteTo l (of_nat (4 * r)) e of
      None \<Rightarrow> w = r + 4
    | Some l' \<Rightarrow> w < r + 4 \<and> may_use l' (Suc w) (4 * r + 16) \<and> p = of_nat (4 * (w mod 4))"
proof -
  have base: "base l = of_nat (16 * (w div 4))" and sz: "lsize l = 16" and p: "p = of_nat (4 * (w mod 4))"
    and e: "e = of_nat (4 * (w mod 4) + 4)"
    using w by (simp_all add: waits_def)
  have le: "16 * (w div 4) \<le> 4 * r + 16" using b(1) base_le [of w] by linarith
  have av: "of_nat (4 * r) - base l + lsize l = (of_nat (4 * r + 16 - 16 * (w div 4)) :: u64)"
    unfolding base sz of_nat_diff [OF le] by simp
  have av': "of_nat (4 * r + 16) - base l = (of_nat (4 * r + 16 - 16 * (w div 4)) :: u64)"
    unfolding base of_nat_diff [OF le] by simp
  show ?thesis
  proof (cases "sint (of_nat (4 * r + 16 - 16 * (w div 4)) :: u64) \<ge> sint e")
    case True
    have "4 * r + 16 < 2 ^ 62" using b by simp
    from space_found [OF w av' le this True]
    have "4 * w + 4 \<le> 4 * r + 16 \<and> may_use (l\<lparr>lend := min (of_nat (4 * r + 16 - 16 * (w div 4))) (lsize l), pos := e\<rparr>)
        (Suc w) (4 * r + 16)" .
    moreover have "GetBufferSpaceToWriteTo l (of_nat (4 * r)) e =
        Some (l\<lparr>lend := min (of_nat (4 * r + 16 - 16 * (w div 4))) (lsize l), pos := e\<rparr>)"
      unfolding GetBufferSpaceToWriteTo_def Let_def av using True by simp
    ultimately show ?thesis using p by simp
  next
    case False
    have "4 * (w mod 4) + 4 < 2 ^ 63" by simp
    then have "sint e = int (4 * (w mod 4) + 4)" unfolding e by (rule sint_of_nat)
    moreover have "sint (of_nat (4 * r + 16 - 16 * (w div 4)) :: u64) = int (4 * r + 16 - 16 * (w div 4))"
      using b by (intro sint_of_nat) simp
    ultimately have "4 * r + 16 - 16 * (w div 4) < 4 * (w mod 4) + 4" using False by linarith
    moreover have "4 * (w div 4) + w mod 4 = w" by simp
    ultimately have "w = r + 4" using le b(1) by linarith
    moreover have "GetBufferSpaceToWriteTo l (of_nat (4 * r)) e = None"
      unfolding GetBufferSpaceToWriteTo_def Let_def av using False by simp
    ultimately show ?thesis by simp
  qed
qed

lemma read_space:
  assumes w: "waits l r p e" and b: "w \<le> r + 4" "r \<le> w" "w < 2 ^ 31"
  shows "case GetBufferSpaceToReadFrom l (of_nat (4 * w)) e of
      None \<Rightarrow> w = r
    | Some l' \<Rightarrow> r < w \<and> may_use l' (Suc r) (4 * w) \<and> p = of_nat (4 * (r mod 4))"
proof -
  have base: "base l = of_nat (16 * (r div 4))" and p: "p = of_nat (4 * (r mod 4))"
    and e: "e = of_nat (4 * (r mod 4) + 4)"
    using w by (simp_all add: waits_def)
  have le: "16 * (r div 4) \<le> 4 * w" using b(2) base_le [of r] by linarith
  have av: "of_nat (4 * w) - base l = (of_nat (4 * w - 16 * (r div 4)) :: u64)"
    unfolding base of_nat_diff [OF le] by simp
  show ?thesis
  proof (cases "sint (of_nat (4 * w - 16 * (r div 4)) :: u64) \<ge> sint e")
    case True
    have "4 * w < 2 ^ 62" using b by simp
    from space_found [OF w av le this True]
    have "4 * r + 4 \<le> 4 * w \<and> may_use (l\<lparr>lend := min (of_nat (4 * w - 16 * (r div 4))) (lsize l), pos := e\<rparr>)
        (Suc r) (4 * w)" .
    moreover have "GetBufferSpaceToReadFrom l (of_nat (4 * w)) e =
        Some (l\<lparr>lend := min (of_nat (4 * w - 16 * (r div 4))) (lsize l), pos := e\<rparr>)"
      unfolding GetBufferSpaceToReadFrom_def Let_def av using True by simp
    ultimately show ?thesis using p by simp
  next
    case False
    have "4 * (r mod 4) + 4 < 2 ^ 63" by simp
    then have "sint e = int (4 * (r mod 4) + 4)" unfolding e by (rule sint_of_nat)
    moreover have "sint (of_nat (4 * w - 16 * (r div 4)) :: u64) = int (4 * w - 16 * (r div 4))"
      using b by (intro sint_of_nat) simp
    ultimately have "4 * w - 16 * (r div 4) < 4 * (r mod 4) + 4" using False by linarith
    moreover have "4 * (r div 4) + r mod 4 = r" by simp
    ultimately have "w = r" using le b(2) by linarith
    moreover have "GetBufferSpaceToReadFrom l (of_nat (4 * w)) e = None"
      unfolding GetBufferSpaceToReadFrom_def Let_def av using False by simp
    ultimately show ?thesis by simp
  qed
qed

text \<open>One byte: the bytes around it, and those in front of it with it.\<close>

lemma load_bytes_upd:
  "p' + n \<le> q \<or> q < p' \<Longrightarrow> load_bytes (mem[q := x]) p' n = load_bytes mem p' n"
  by (auto simp: load_bytes_def drop_update_swap take_update_cancel)

lemma load_bytes_0 [simp]: "load_bytes mem p 0 = []"
  by (simp add: load_bytes_def)

lemma load_bytes_Suc: "p + k < length mem \<Longrightarrow> load_bytes mem p (Suc k) = load_bytes mem p k @ [mem ! (p + k)]"
  by (simp add: load_bytes_def take_Suc_conv_app_nth)

lemma slots_apart:
  assumes "r \<le> k" "k < w" "w < r + 4"
  shows "k mod 4 \<noteq> w mod (4 :: nat)"
proof
  assume "k mod 4 = w mod 4"
  then have "w mod 4 = k mod 4" by simp
  then have "4 dvd w - k" using assms mod_eq_dvd_iff_nat [of k w 4] by simp
  then show False using assms by (auto dest: dvd_imp_le)
qed

lemma store_byte:
  assumes "holds s r w" "w < r + 4" "length (memory s) = 16" "k < 4"
    and "load_bytes (memory s) (4 * (w mod 4)) k = take k (encode (of_nat w))"
  defines "s' \<equiv> s\<lparr>memory := (memory s)[4 * (w mod 4) + k := encode (of_nat w) ! k]\<rparr>"
  shows "holds s' r w" and "load_bytes (memory s') (4 * (w mod 4)) (Suc k) = take (Suc k) (encode (of_nat w))"
proof -
  let ?m = "(memory s)[4 * (w mod 4) + k := encode (of_nat w) ! k]"
  have "load_bytes ?m (4 * (j mod 4)) 4 = encode (of_nat j)" if "r \<le> j" "j < w" for j
  proof -
    have "j mod 4 \<noteq> w mod 4" by (rule slots_apart [OF that assms(2)])
    then have "4 * (j mod 4) + 4 \<le> 4 * (w mod 4) + k \<or> 4 * (w mod 4) + k < 4 * (j mod 4)" using assms(4) by linarith
    from load_bytes_upd [OF this] show ?thesis using assms(1) that by (simp add: holds_def)
  qed
  then show "holds s' r w" by (simp add: holds_def s'_def)
  have "w mod 4 < 4" by simp
  then have "4 * (w mod 4) + k < length ?m" using assms(3,4) by simp
  from load_bytes_Suc [OF this] this show "load_bytes (memory s') (4 * (w mod 4)) (Suc k) = take (Suc k) (encode (of_nat w))"
    using load_bytes_upd [of "4 * (w mod 4)" k "4 * (w mod 4) + k" "memory s"] assms(4,5)
    by (simp add: s'_def take_Suc_conv_app_nth)
qed

lemma holds_Suc: "holds s r w \<Longrightarrow> load_bytes (memory s) (4 * (w mod 4)) 4 = encode (of_nat w) \<Longrightarrow> holds s r (Suc w)"
  by (auto simp: holds_def less_Suc_eq)

lemma reader_ok_frame:
  "reader_ok n g C w r \<Longrightarrow> m_Reader (ringBuffer g') = m_Reader (ringBuffer g) \<Longrightarrow> w \<le> w' \<Longrightarrow> reader_ok n g' C w' r"
  by (cases C) (auto intro: may_use_mono)

lemma writer_ok_frame:
  "writer_ok n g P w r \<Longrightarrow> m_Writer (ringBuffer g') = m_Writer (ringBuffer g) \<Longrightarrow>
    messagesCount g' = messagesCount g \<Longrightarrow> memory (ringBuffer g') = memory (ringBuffer g) \<Longrightarrow> r \<le> r' \<Longrightarrow> writer_ok n g' P w r'"
  by (cases P) (auto intro: may_use_mono)

lemma holds_frame: "holds s a b \<Longrightarrow> memory s' = memory s \<Longrightarrow> a \<le> a' \<Longrightarrow> b' \<le> b \<Longrightarrow> holds s' a' b'"
  by (simp add: holds_def)

lemma position_after:
  "at_message l i lim \<Longrightarrow> base l + pos l = of_nat (4 * i)"
  by (auto simp: at_message_def algebra_simps)

lemma position_may_use: "may_use l i bound \<Longrightarrow> base l + pos l = of_nat (4 * i)"
  by (auto simp: may_use_def dest: position_after)

lemma unat_slot: "unat (of_nat (4 * (i mod 4)) :: u64) = 4 * (i mod 4)"
proof -
  have "i mod 4 < 4" by simp
  then have "4 * (i mod 4) < 2 ^ 64" by simp
  then have "take_bit LENGTH(64) (4 * (i mod 4)) = 4 * (i mod 4)" by (intro take_bit_nat_eq_self) simp
  then show ?thesis unfolding unsigned_of_nat by (simp del: of_nat_mult)
qed

lemma writer_step:
  assumes at: "ring_at n g P C w r" and st: "(g', P') \<in> set (ring_producer n g P)" and n: "n < 2 ^ 31"
  shows "\<exists>w' r'. ring_at n g' P' C w' r'"
proof (cases P)
  case (PNext i)
  then have "ring_at n g' P' C w r"
    using at st by (auto simp: ring_at_def stored_def produced_def intro: reader_ok_frame split: if_splits)
  then show ?thesis by blast
next
  case (PPrepare i m)
  obtain l res where pr: "prepare (m_Writer (ringBuffer g)) 4 4 = (l, res)" by fastforce
  have at': "w = i" "i < n" "messagesCount g = of_nat (Suc i)" "m = of_nat i"
    and use: "may_use (m_Writer (ringBuffer g)) i (4 * r + 16)"
    using at PPrepare by (auto simp: ring_at_def)
  have "ring_at n g' P' C w r"
    using at st at' prepare_use [OF use pr] PPrepare
    by (auto simp: ring_at_def stored_def produced_def kMessageSize_def pr Let_def intro: reader_ok_frame holds_frame
        split: sum.splits)
  then show ?thesis by blast
next
  case (PSpin i m p e)
  then have g: "m_ReaderShared (ringBuffer g) = of_nat (4 * r)" "r \<le> w" "w \<le> r + 4" "w \<le> n" "w = i"
    and w: "waits (m_Writer (ringBuffer g)) w p e"
    using at by (auto simp: ring_at_def)
  have "w < 2 ^ 31" using g n by simp
  from write_space [OF w g(3,2) this]
  have "ring_at n g' P' C w r"
    using at st PSpin g
    by (auto simp: ring_at_def stored_def produced_def Let_def intro: reader_ok_frame holds_frame split: option.splits)
  then show ?thesis by blast
next
  case (PStore i m p k)
  then have g: "holds (ringBuffer g) r w" "w < r + 4" "length (memory (ringBuffer g)) = 16" "k < 4"
      "load_bytes (memory (ringBuffer g)) (4 * (w mod 4)) k = take k (encode (of_nat w))"
    and m: "m = of_nat w" "unat p = 4 * (w mod 4)" and i: "i = w"
    using at unat_slot [of w] by (auto simp: ring_at_def stored_def)
  note B = store_byte [OF g]
  have g': "g' = g\<lparr>ringBuffer := (ringBuffer g)\<lparr>memory := (memory (ringBuffer g))[4 * (w mod 4) + k := encode (of_nat w) ! k]\<rparr>\<rparr>"
    and P': "P' = (if k + 1 < 4 then PStore i m p (k + 1) else PFinish i)"
    using st PStore m by (simp_all add: Let_def kMessageSize_def)
  have "reader_ok n g' C w r" using at by (auto simp: ring_at_def g' intro: reader_ok_frame)
  moreover have "holds (ringBuffer g') r (w + stored P')"
  proof (cases "k = 3")
    case True
    then have "load_bytes (memory (ringBuffer g')) (4 * (w mod 4)) 4 = encode (of_nat w)" using B(2) by (simp add: g')
    with holds_Suc [of "ringBuffer g'" r w] B(1) True show ?thesis by (simp add: g' P' stored_def)
  next
    case False
    with B(1) g(4) show ?thesis by (simp add: g' P' stored_def)
  qed
  ultimately have "ring_at n g' P' C w r"
    using at PStore B(2) i m(1) by (auto simp: ring_at_def stored_def produced_def g' P')
  then show ?thesis by blast
next
  case (PFinish i)
  then have p: "base (m_Writer (ringBuffer g)) + pos (m_Writer (ringBuffer g)) = of_nat (4 * Suc i)"
    using at by (auto simp: ring_at_def dest: position_may_use)
  have "ring_at n g' P' C (Suc w) r"
    using at st PFinish p
    by (auto simp: ring_at_def stored_def produced_def FinishWrite_def intro: reader_ok_frame holds_frame)
  then show ?thesis by blast
next
  case (PCount i)
  then have "ring_at n g' P' C w r"
    using at st by (auto simp: ring_at_def stored_def produced_def intro: reader_ok_frame)
  then show ?thesis by blast
qed (use at st in \<open>auto simp: ring_at_def\<close>)

lemma load_byte:
  assumes "holds s r b" "r < b" "k < 4" "length (memory s) = 16"
  shows "memory s ! (4 * (r mod 4) + k) = encode (of_nat r) ! k"
proof -
  have "load_bytes (memory s) (4 * (r mod 4)) 4 = encode (of_nat r)" using assms(1,2) by (simp add: holds_def)
  then have "encode (of_nat r) ! k = load_bytes (memory s) (4 * (r mod 4)) 4 ! k" by simp
  also have "\<dots> = memory s ! (4 * (r mod 4) + k)" using assms(3,4) by (simp add: load_bytes_def)
  finally show ?thesis by simp
qed

lemma reader_step:
  assumes at: "ring_at n g P C w r" and st: "(g', C') \<in> set (ring_consumer n g C)" and n: "n < 2 ^ 31"
  shows "\<exists>w' r'. ring_at n g' P C' w' r'"
proof (cases C)
  case (CPrepare rc)
  obtain l res where pr: "prepare (m_Reader (ringBuffer g)) 4 4 = (l, res)" by fastforce
  have use: "may_use (m_Reader (ringBuffer g)) r (4 * w)" using at CPrepare by (auto simp: ring_at_def)
  have "ring_at n g' P C' w r"
    using at st prepare_use [OF use pr] CPrepare
    by (auto simp: ring_at_def consumed_def kMessageSize_def pr Let_def intro: writer_ok_frame holds_frame
        split: sum.splits if_splits)
  then show ?thesis by blast
next
  case (CSpin rc p e)
  then have g: "m_WriterShared (ringBuffer g) = of_nat (4 * w)" "r \<le> w" "w \<le> r + 4" "w \<le> n" "r = length rc"
    and w: "waits (m_Reader (ringBuffer g)) r p e"
    using at by (auto simp: ring_at_def)
  have "w < 2 ^ 31" using g n by simp
  from read_space [OF w g(3,2) this]
  have "ring_at n g' P C' w r"
    using at st CSpin g
    by (auto simp: ring_at_def consumed_def Let_def intro: writer_ok_frame holds_frame split: option.splits)
  then show ?thesis by blast
next
  case (CLoad rc p bs)
  then have m: "holds (ringBuffer g) r (w + stored P)" "r < w + stored P" "length bs < 4" "length (memory (ringBuffer g)) = 16"
    and p: "unat p = 4 * (r mod 4)" and bs: "bs = take (length bs) (encode (of_nat r))"
    using at unat_slot [of r] by (auto simp: ring_at_def)
  let ?bs = "bs @ [encode (of_nat r) ! length bs]"
  have step: "g' = g" "C' = (if length bs + 1 < 4 then CLoad rc p ?bs else CCount (rc @ [decode ?bs]))"
    using st CLoad load_byte [OF m] p by (simp_all add: Let_def kMessageSize_def)
  have more: "?bs = take (Suc (length bs)) (encode (of_nat r))" using bs m(3) by (simp add: take_Suc_conv_app_nth)
  show ?thesis
  proof (cases "length bs = 3")
    case True
    then have "decode ?bs = of_nat r" unfolding more by simp
    then have "ring_at n g' P C' w r"
      using at CLoad True step by (auto simp: ring_at_def consumed_def intro: in_order_append)
    then show ?thesis by blast
  next
    case False
    then have "ring_at n g' P C' w r"
      using at CLoad m(3) step more by (auto simp: ring_at_def consumed_def)
    then show ?thesis by blast
  qed
next
  case (CCount rc)
  then have "length rc = Suc r" using at by (auto simp: ring_at_def)
  then have "of_nat (length rc) = (1 + of_nat r :: 32 word)" by simp
  then have "ring_at n g' P C' w r"
    using at st CCount by (auto simp: ring_at_def consumed_def intro: writer_ok_frame)
  then show ?thesis by blast
next
  case (CFinish rc)
  then have p: "base (m_Reader (ringBuffer g)) + pos (m_Reader (ringBuffer g)) = of_nat (4 * Suc r)"
    using at by (auto simp: ring_at_def dest: position_may_use)
  have "of_nat (length rc) = (1 + of_nat r :: 32 word)"
    using at CFinish by (auto simp: ring_at_def simp flip: of_nat_Suc)
  moreover have "writer_ok n g' P w (Suc r)"
    by (rule writer_ok_frame [of n g P w r]) (use at st CFinish in \<open>auto simp: ring_at_def FinishRead_def\<close>)
  ultimately have "ring_at n g' P C' w (Suc r)"
    using at st CFinish p
    by (auto simp: ring_at_def consumed_def FinishRead_def intro: holds_frame)
  then show ?thesis by blast
qed (use at st in \<open>auto simp: ring_at_def\<close>)

lemma writer_only: "ring_at n g P C w r \<Longrightarrow> ring_consumer n g P = []"
  by (cases P) (auto simp: ring_at_def)

lemma reader_only: "ring_at n g P C w r \<Longrightarrow> ring_producer n g C = []"
  by (cases C) (auto simp: ring_at_def)

lemma ring_step:
  assumes "ring_inv n g ls" "i < length ls" "(g', l') \<in> set (ring_thread n i g (ls ! i))" "n < 2 ^ 31"
  shows "ring_inv n g' (ls[i := l'])"
proof -
  obtain P C w r where ls: "ls = [P, C]" and at: "ring_at n g P C w r" using assms(1) by (auto simp: ring_inv_def)
  consider "i = 0" "(g', l') \<in> set (ring_producer n g P)" | "i = 1" "(g', l') \<in> set (ring_consumer n g C)"
    using assms(2,3) writer_only [OF at] reader_only [OF at] ls by (cases i) (auto simp: ring_thread_def)
  then show ?thesis
  proof cases
    case 1
    then show ?thesis using writer_step [OF at 1(2) assms(4)] ls by (auto simp: ring_inv_def)
  next
    case 2
    then show ?thesis using reader_step [OF at 2(2) assms(4)] ls by (auto simp: ring_inv_def)
  qed
qed

lemma ring_start:
  assumes "length buffer = 16"
  shows "ring_inv n (fst (ring_main buffer)) (snd (ring_main buffer))"
proof -
  have w: "may_use \<lparr>pos = 0, lend = 16, base = 0, lsize = 16\<rparr> 0 16"
    using at_messageI [of 0 16 0 0] by (auto simp: may_use_def)
  have r: "may_use \<lparr>pos = 0, lend = 0, base = 0, lsize = 16\<rparr> 0 0"
    using at_messageI [of 0 0 0 0] by (auto simp: may_use_def)
  have "ring_at n (fst (ring_main buffer)) (PNext 0) (CPrepare []) 0 0"
    using w r assms
    by (simp add: ring_at_def ring_main_def ring_new_def Initialize_def Reset_def LocalState_def Let_def
        in_order_def holds_def stored_def produced_def consumed_def)
  then show ?thesis by (auto simp: ring_inv_def ring_main_def)
qed

text \<open>The loops count with an \<open>int\<close>: at most \<open>2 ^ 31 - 1\<close> messages.\<close>

interpretation ring: thread_inv "ring_thread n" "ring_main buffer"
  "\<lambda>g ls. n < 2 ^ 31 \<and> length buffer = 16 \<longrightarrow> ring_inv n g ls"
  by unfold_locales (auto intro: ring_start ring_step)

section \<open>What the program does\<close>

text \<open>What the consumer has received.\<close>

fun received :: "ring_pc \<Rightarrow> 32 word list" where
  "received (CPrepare rc) = rc"
| "received (CSpin rc p e) = rc"
| "received (CLoad rc p bs) = rc"
| "received (CCount rc) = rc"
| "received (CFinish rc) = rc"
| "received (CDone rc) = rc"
| "received _ = []"

lemma reader_received: "reader_ok n g C w r \<Longrightarrow> in_order (received C) \<and> length (received C) \<le> n"
  by (cases C) auto

text \<open>
  Claim C7. Whatever the interleaving, and whatever the sixteen bytes of the buffer hold at the start, the
  consumer of v1 receives the messages 0, 1, 2, ... in the order in which they were produced: none is lost,
  repeated or torn, although a message is overwritten every four messages and the positions are words
  that are only compared through a signed difference.
\<close>

theorem ring_received_in_order:
  assumes "length buffer = 16" and "n < 2 ^ 31" and "reach (ring_thread n) (ring_main buffer) (g, [P, C])"
  shows "received C = map of_nat [0..<length (received C)] \<and> length (received C) \<le> n"
proof -
  obtain w r where "ring_at n g P C w r"
    using ring.reach_inv [OF assms(3)] assms(1,2) by (auto simp: ring_inv_def)
  then show ?thesis using reader_received by (auto simp: ring_at_def in_order_def)
qed

text \<open>Which threads can go on: only a finished thread has no step.\<close>

lemma producer_goes_on: "ring_at n g P C w r \<Longrightarrow> P \<noteq> PDone \<Longrightarrow> ring_thread n i g P \<noteq> []"
  by (cases P) (auto simp: ring_thread_def ring_at_def Let_def split: prod.splits option.splits)

lemma consumer_goes_on: "ring_at n g P C w r \<Longrightarrow> \<forall>rc. C \<noteq> CDone rc \<Longrightarrow> ring_thread n i g C \<noteq> []"
  by (cases C) (auto simp: ring_thread_def ring_at_def Let_def split: prod.splits option.splits)

text \<open>
  The program only ends with every message received, the counter back at zero and
  both threads returned.
\<close>

theorem ring_end_complete:
  assumes "length buffer = 16" and "n < 2 ^ 31" and "reach (ring_thread n) (ring_main buffer) (g, ls)"
    and "stuck (ring_thread n) (g, ls)"
  shows "ls = [PDone, CDone (map of_nat [0..<n])] \<and> count g = 0"
proof -
  obtain P C w r where ls: "ls = [P, C]" and at: "ring_at n g P C w r"
    using ring.reach_inv [OF assms(3)] assms(1,2) by (auto simp: ring_inv_def)
  have "ring_thread n 0 g P = []" "ring_thread n 1 g C = []" using assms(4) ls by (auto simp: stuck_iff)
  then have "P = PDone" and "\<exists>rc. C = CDone rc" using producer_goes_on [OF at] consumer_goes_on [OF at] by blast+
  then show ?thesis
    using at ls by (auto simp: ring_at_def in_order_def produced_def consumed_def)
qed

section \<open>A concrete run\<close>

text \<open>
  Five messages: the producer fills the ring with four, finds no space for the fifth, and goes back to the start of
  the buffer when the consumer has read one.
\<close>

definition ring_schedule :: "(nat \<times> nat) list" where
  "ring_schedule = map (\<lambda>i. (i, 0)) (replicate 35 0 @ replicate 9 1 @ replicate 8 0 @ replicate 29 1)"

lemma ring_schedule_run:
  "map_option (\<lambda>(g, ls). (count g, ls)) (sched (ring_thread 5) ring_schedule (ring_main (replicate 16 0))) =
    Some (0, [PDone, CDone [0, 1, 2, 3, 4]])"
  by code_simp

lemma ring_reaches_end:
  "\<exists>g. reach (ring_thread 5) (ring_main (replicate 16 0)) (g, [PDone, CDone [0, 1, 2, 3, 4]]) \<and> count g = 0"
  using ring_schedule_run by (auto dest: sched_reach)

theorem ring_received_in_order_witness:
  "\<exists>g. reach (ring_thread 5) (ring_main (replicate 16 0)) (g, [PDone, CDone [0, 1, 2, 3, 4]]) \<and>
     received (CDone [0, 1, 2, 3, 4]) = map of_nat [0..<5]"
proof -
  obtain g where g: "reach (ring_thread 5) (ring_main (replicate 16 0)) (g, [PDone, CDone [0, 1, 2, 3, 4]])"
    using ring_reaches_end by blast
  have len: "length (received (CDone [0, 1, 2, 3, 4])) = 5" by simp
  have "length (replicate 16 (0 :: byte)) = 16" "(5 :: nat) < 2 ^ 31" by simp_all
  from ring_received_in_order [OF this g, unfolded len] g show ?thesis by blast
qed

theorem ring_end_complete_witness:
  "\<exists>g. reach (ring_thread 5) (ring_main (replicate 16 0)) (g, [PDone, CDone (map of_nat [0..<5])]) \<and> count g = 0"
proof -
  obtain g where g: "reach (ring_thread 5) (ring_main (replicate 16 0)) (g, [PDone, CDone [0, 1, 2, 3, 4]])"
    using ring_reaches_end by blast
  moreover have "stuck (ring_thread 5) (g, [PDone, CDone [0, 1, 2, 3, 4]])"
    by (simp add: stuck_iff less_Suc_eq ring_thread_def numeral_2_eq_2)
  ultimately show ?thesis using ring_end_complete [OF _ _ g] by auto
qed

end
