(* ===== verification/Ring_Buffer_Signals.thy ===== *)
theory Ring_Buffer_Signals
  imports Ring_Buffer
begin

text \<open>
  ProducerConsumer/spsc_daugaard/v2 and v2_std_semaphore: the ring of v1, where a side that finds no space
  asks the other one for a signal and sleeps on a semaphore. Every step of these programs is a step of v1
  or changes nothing v1 can see; no wakeup is lost, no semaphore is released twice, and every run ends.
\<close>

section \<open>The class\<close>

text \<open>
  \<open>writerShouldSignal\<close> and \<open>readerSemaphore\<close> serve a waiting reader, \<open>readerShouldSignal\<close> and
  \<open>writerSemaphore\<close> a waiting writer: the flag is in the shared state of the side that publishes.
\<close>

record signal_ring =
  ring1 :: ring_program
  writerShouldSignal :: bool
  readerShouldSignal :: bool
  writerSemaphore :: nat
  readerSemaphore :: nat

text \<open>
  A round of the waiting loop that finds no space: request a signal, look at the position again, cancel
  the request if it has changed, or wait. The last argument is the position that was loaded.
  \<open>PExchange\<close> and \<open>PSignal\<close> are the end of \<open>FinishWrite\<close>, \<open>CExchange\<close> and \<open>CSignal\<close> that of
  \<open>FinishRead\<close>. Everything else is as in v1.
\<close>

datatype signal_pc =
    Run ring_pc
  | PRequest nat "32 word" u64 u64 u64
  | PRecheck nat "32 word" u64 u64 u64
  | PCancel nat "32 word" u64 u64 u64
  | PWait nat "32 word" u64 u64 u64
  | PExchange nat
  | PSignal nat
  | CRequest "32 word list" u64 u64 u64
  | CRecheck "32 word list" u64 u64 u64
  | CCancel "32 word list" u64 u64 u64
  | CWait "32 word list" u64 u64 u64
  | CExchange "32 word list"
  | CSignal "32 word list"

fun write_round :: "signal_ring \<Rightarrow> signal_pc \<Rightarrow> (signal_ring \<times> signal_pc) list" where
  "write_round g (Run (PSpin i m p e)) =
     (let s = ringBuffer (ring1 g) in
      case GetBufferSpaceToWriteTo (m_Writer s) (m_ReaderShared s) e of
        None \<Rightarrow> [(g, PRequest i m p e (m_ReaderShared s))]
      | Some l \<Rightarrow> [(g\<lparr>ring1 := (ring1 g)\<lparr>ringBuffer := s\<lparr>m_Writer := l\<rparr>\<rparr>\<rparr>, Run (PStore i m p 0))])"
| "write_round g (PRequest i m p e readerPos) = [(g\<lparr>readerShouldSignal := True\<rparr>, PRecheck i m p e readerPos)]"
| "write_round g (PRecheck i m p e readerPos) =
     [(g, if readerPos \<noteq> m_ReaderShared (ringBuffer (ring1 g)) then PCancel i m p e readerPos
          else PWait i m p e readerPos)]"
| "write_round g (PCancel i m p e readerPos) =
     (if readerShouldSignal g then [(g\<lparr>readerShouldSignal := False\<rparr>, Run (PSpin i m p e))]
      else [(g, PWait i m p e readerPos)])"
| "write_round g (PWait i m p e readerPos) =
     (if writerSemaphore g > 0
      then [(g\<lparr>writerSemaphore := writerSemaphore g - 1\<rparr>, Run (PSpin i m p e))] else [])"
| "write_round g _ = []"

fun read_round :: "signal_ring \<Rightarrow> signal_pc \<Rightarrow> (signal_ring \<times> signal_pc) list" where
  "read_round g (Run (CSpin rc p e)) =
     (let s = ringBuffer (ring1 g) in
      case GetBufferSpaceToReadFrom (m_Reader s) (m_WriterShared s) e of
        None \<Rightarrow> [(g, CRequest rc p e (m_WriterShared s))]
      | Some l \<Rightarrow> [(g\<lparr>ring1 := (ring1 g)\<lparr>ringBuffer := s\<lparr>m_Reader := l\<rparr>\<rparr>\<rparr>, Run (CLoad rc p []))])"
| "read_round g (CRequest rc p e writerPos) = [(g\<lparr>writerShouldSignal := True\<rparr>, CRecheck rc p e writerPos)]"
| "read_round g (CRecheck rc p e writerPos) =
     [(g, if writerPos \<noteq> m_WriterShared (ringBuffer (ring1 g)) then CCancel rc p e writerPos
          else CWait rc p e writerPos)]"
| "read_round g (CCancel rc p e writerPos) =
     (if writerShouldSignal g then [(g\<lparr>writerShouldSignal := False\<rparr>, Run (CSpin rc p e))]
      else [(g, CWait rc p e writerPos)])"
| "read_round g (CWait rc p e writerPos) =
     (if readerSemaphore g > 0
      then [(g\<lparr>readerSemaphore := readerSemaphore g - 1\<rparr>, Run (CSpin rc p e))] else [])"
| "read_round g _ = []"

text \<open>
  \<open>release\<close> is the semaphore's operation that gives a signal; it is undefined (\<open>None\<close>) where the
  semaphore cannot hold another one.
\<close>

fun finish_write :: "(nat \<Rightarrow> nat option) \<Rightarrow> signal_ring \<Rightarrow> signal_pc \<Rightarrow> (signal_ring \<times> signal_pc) list" where
  "finish_write release g (Run (PFinish i)) =
     [(g\<lparr>ring1 := (ring1 g)\<lparr>ringBuffer := FinishWrite (ringBuffer (ring1 g))\<rparr>\<rparr>, PExchange i)]"
| "finish_write release g (PExchange i) =
     (if writerShouldSignal g then [(g\<lparr>writerShouldSignal := False\<rparr>, PSignal i)] else [(g, Run (PCount i))])"
| "finish_write release g (PSignal i) =
     (case release (readerSemaphore g) of None \<Rightarrow> [] | Some v \<Rightarrow> [(g\<lparr>readerSemaphore := v\<rparr>, Run (PCount i))])"
| "finish_write release g _ = []"

fun finish_read :: "(nat \<Rightarrow> nat option) \<Rightarrow> signal_ring \<Rightarrow> signal_pc \<Rightarrow> (signal_ring \<times> signal_pc) list" where
  "finish_read release g (Run (CFinish rc)) =
     [(g\<lparr>ring1 := (ring1 g)\<lparr>ringBuffer := FinishRead (ringBuffer (ring1 g))\<rparr>\<rparr>, CExchange rc)]"
| "finish_read release g (CExchange rc) =
     (if readerShouldSignal g then [(g\<lparr>readerShouldSignal := False\<rparr>, CSignal rc)] else [(g, Run (CPrepare rc))])"
| "finish_read release g (CSignal rc) =
     (case release (writerSemaphore g) of None \<Rightarrow> [] | Some v \<Rightarrow> [(g\<lparr>writerSemaphore := v\<rparr>, Run (CPrepare rc))])"
| "finish_read release g _ = []"

text \<open>The steps that v1 has too.\<close>

definition as_v1 :: "(ring_program \<Rightarrow> ring_pc \<Rightarrow> (ring_program \<times> ring_pc) list) \<Rightarrow> signal_ring \<Rightarrow> ring_pc \<Rightarrow>
    (signal_ring \<times> signal_pc) list" where
  "as_v1 f g pc = map (\<lambda>(g1, pc1). (g\<lparr>ring1 := g1\<rparr>, Run pc1)) (f (ring1 g) pc)"

definition signal_producer :: "(nat \<Rightarrow> nat option) \<Rightarrow> nat \<Rightarrow> signal_ring \<Rightarrow> signal_pc \<Rightarrow>
    (signal_ring \<times> signal_pc) list" where
  "signal_producer release n g pc =
     (case pc of
        Run (PSpin i m p e) \<Rightarrow> write_round g pc
      | Run (PFinish i) \<Rightarrow> finish_write release g pc
      | Run pc1 \<Rightarrow> as_v1 (ring_producer n) g pc1
      | _ \<Rightarrow> write_round g pc @ finish_write release g pc)"

definition signal_consumer :: "(nat \<Rightarrow> nat option) \<Rightarrow> nat \<Rightarrow> signal_ring \<Rightarrow> signal_pc \<Rightarrow>
    (signal_ring \<times> signal_pc) list" where
  "signal_consumer release n g pc =
     (case pc of
        Run (CSpin rc p e) \<Rightarrow> read_round g pc
      | Run (CFinish rc) \<Rightarrow> finish_read release g pc
      | Run pc1 \<Rightarrow> as_v1 (ring_consumer n) g pc1
      | _ \<Rightarrow> read_round g pc @ finish_read release g pc)"

definition signal_thread :: "(nat \<Rightarrow> nat option) \<Rightarrow> nat \<Rightarrow> (signal_ring, signal_pc) thread" where
  "signal_thread release n t g pc = signal_producer release n g pc @ signal_consumer release n g pc"

definition signal_main :: "byte list \<Rightarrow> (signal_ring, signal_pc) conf" where
  "signal_main buffer =
     (\<lparr>ring1 = fst (ring_main buffer), writerShouldSignal = False, readerShouldSignal = False,
       writerSemaphore = 0, readerSemaphore = 0\<rparr>, map Run (snd (ring_main buffer)))"

text \<open>\<open>Semaphore::signal\<close> of sema.h counts; \<open>release\<close> of a \<open>binary_semaphore\<close> needs the count to be zero.\<close>

definition semaphore_signal :: "nat \<Rightarrow> nat option" where
  "semaphore_signal c = Some (c + 1)"

definition binary_release :: "nat \<Rightarrow> nat option" where
  "binary_release c = (if c < 1 then Some (c + 1) else None)"

section \<open>Refinement of v1\<close>

fun v1_pc :: "signal_pc \<Rightarrow> ring_pc" where
  "v1_pc (Run pc) = pc"
| "v1_pc (PRequest i m p e rp) = PSpin i m p e"
| "v1_pc (PRecheck i m p e rp) = PSpin i m p e"
| "v1_pc (PCancel i m p e rp) = PSpin i m p e"
| "v1_pc (PWait i m p e rp) = PSpin i m p e"
| "v1_pc (PExchange i) = PCount i"
| "v1_pc (PSignal i) = PCount i"
| "v1_pc (CRequest rc p e wp) = CSpin rc p e"
| "v1_pc (CRecheck rc p e wp) = CSpin rc p e"
| "v1_pc (CCancel rc p e wp) = CSpin rc p e"
| "v1_pc (CWait rc p e wp) = CSpin rc p e"
| "v1_pc (CExchange rc) = CPrepare rc"
| "v1_pc (CSignal rc) = CPrepare rc"

definition v1_conf :: "signal_ring \<Rightarrow> signal_pc list \<Rightarrow> (ring_program, ring_pc) conf" where
  "v1_conf g ls = (ring1 g, map v1_pc ls)"

lemma write_round_v1:
  "(g', l') \<in> set (write_round g l) \<Longrightarrow>
    (ring1 g', v1_pc l') = (ring1 g, v1_pc l) \<or> (ring1 g', v1_pc l') \<in> set (ring_producer n (ring1 g) (v1_pc l))"
  by (induction g l rule: write_round.induct) (auto simp: Let_def split: option.splits if_splits)

lemma read_round_v1:
  "(g', l') \<in> set (read_round g l) \<Longrightarrow>
    (ring1 g', v1_pc l') = (ring1 g, v1_pc l) \<or> (ring1 g', v1_pc l') \<in> set (ring_consumer n (ring1 g) (v1_pc l))"
  by (induction g l rule: read_round.induct) (auto simp: Let_def split: option.splits if_splits)

lemma finish_write_v1:
  "(g', l') \<in> set (finish_write release g l) \<Longrightarrow>
    (ring1 g', v1_pc l') = (ring1 g, v1_pc l) \<or> (ring1 g', v1_pc l') \<in> set (ring_producer n (ring1 g) (v1_pc l))"
  by (induction release g l rule: finish_write.induct) (auto split: option.splits if_splits)

lemma finish_read_v1:
  "(g', l') \<in> set (finish_read release g l) \<Longrightarrow>
    (ring1 g', v1_pc l') = (ring1 g, v1_pc l) \<or> (ring1 g', v1_pc l') \<in> set (ring_consumer n (ring1 g) (v1_pc l))"
  by (induction release g l rule: finish_read.induct) (auto split: option.splits if_splits)

lemma as_v1_step: "(g', l') \<in> set (as_v1 f g pc) \<Longrightarrow>
    (ring1 g', v1_pc l') \<in> set (f (ring1 g) pc) \<and> g' = g\<lparr>ring1 := ring1 g'\<rparr> \<and> l' = Run (v1_pc l')"
  by (auto simp: as_v1_def)

lemma signal_thread_v1:
  assumes "(g', l') \<in> set (signal_thread release n i g l)"
  shows "(ring1 g', v1_pc l') = (ring1 g, v1_pc l) \<or> (ring1 g', v1_pc l') \<in> set (ring_thread n i (ring1 g) (v1_pc l))"
proof -
  consider "(g', l') \<in> set (write_round g l)" | "(g', l') \<in> set (finish_write release g l)"
    | "(g', l') \<in> set (read_round g l)" | "(g', l') \<in> set (finish_read release g l)"
    | pc where "l = Run pc" "(g', l') \<in> set (as_v1 (ring_producer n) g pc @ as_v1 (ring_consumer n) g pc)"
    using assms
    by (auto simp: signal_thread_def signal_producer_def signal_consumer_def split: signal_pc.splits ring_pc.splits)
  then show ?thesis
    by cases (auto simp: ring_thread_def dest: write_round_v1 [where n = n] finish_write_v1 [where n = n]
        read_round_v1 [where n = n] finish_read_v1 [where n = n] as_v1_step)
qed

section \<open>Requests and signals\<close>

text \<open>
  A request of a waiting side is in exactly one place: the flag, the semaphore, or on its way. A side that
  waits while its flag is up has seen the position that is still the published one, unless the other side
  is about to look at the flag.
\<close>

fun asks :: "signal_pc \<Rightarrow> nat" where
  "asks (PRecheck i m p e rp) = 1"
| "asks (PCancel i m p e rp) = 1"
| "asks (PWait i m p e rp) = 1"
| "asks (CRecheck rc p e wp) = 1"
| "asks (CCancel rc p e wp) = 1"
| "asks (CWait rc p e wp) = 1"
| "asks _ = 0"

fun signals :: "signal_pc \<Rightarrow> nat" where
  "signals (PSignal i) = 1"
| "signals (CSignal rc) = 1"
| "signals _ = 0"

fun exchanges :: "signal_pc \<Rightarrow> bool" where
  "exchanges (PExchange i) = True"
| "exchanges (CExchange rc) = True"
| "exchanges _ = False"

abbreviation writer_sees :: "signal_ring \<Rightarrow> u64 \<Rightarrow> u64 \<Rightarrow> local_state option" where
  "writer_sees g rp e \<equiv> GetBufferSpaceToWriteTo (m_Writer (ringBuffer (ring1 g))) rp e"

abbreviation reader_sees :: "signal_ring \<Rightarrow> u64 \<Rightarrow> u64 \<Rightarrow> local_state option" where
  "reader_sees g wp e \<equiv> GetBufferSpaceToReadFrom (m_Reader (ringBuffer (ring1 g))) wp e"

abbreviation read_position :: "signal_ring \<Rightarrow> u64" where
  "read_position g \<equiv> m_ReaderShared (ringBuffer (ring1 g))"

abbreviation write_position :: "signal_ring \<Rightarrow> u64" where
  "write_position g \<equiv> m_WriterShared (ringBuffer (ring1 g))"

fun writer_round :: "signal_ring \<Rightarrow> signal_pc \<Rightarrow> signal_pc \<Rightarrow> bool" where
  "writer_round g (PRequest i m p e rp) C \<longleftrightarrow> writer_sees g rp e = None"
| "writer_round g (PRecheck i m p e rp) C \<longleftrightarrow> writer_sees g rp e = None"
| "writer_round g (PCancel i m p e rp) C \<longleftrightarrow> writer_sees g rp e = None \<and> rp \<noteq> read_position g"
| "writer_round g (PWait i m p e rp) C \<longleftrightarrow> writer_sees g rp e = None \<and>
     (readerShouldSignal g \<longrightarrow> rp = read_position g \<or> exchanges C)"
| "writer_round g _ C \<longleftrightarrow> True"

fun reader_round :: "signal_ring \<Rightarrow> signal_pc \<Rightarrow> signal_pc \<Rightarrow> bool" where
  "reader_round g (CRequest rc p e wp) P \<longleftrightarrow> reader_sees g wp e = None"
| "reader_round g (CRecheck rc p e wp) P \<longleftrightarrow> reader_sees g wp e = None"
| "reader_round g (CCancel rc p e wp) P \<longleftrightarrow> reader_sees g wp e = None \<and> wp \<noteq> write_position g"
| "reader_round g (CWait rc p e wp) P \<longleftrightarrow> reader_sees g wp e = None \<and>
     (writerShouldSignal g \<longrightarrow> wp = write_position g \<or> exchanges P)"
| "reader_round g _ P \<longleftrightarrow> True"

definition requests :: "signal_ring \<Rightarrow> signal_pc \<Rightarrow> signal_pc \<Rightarrow> bool" where
  "requests g P C \<longleftrightarrow>
     of_bool (readerShouldSignal g) + writerSemaphore g + signals C = asks P \<and>
     of_bool (writerShouldSignal g) + readerSemaphore g + signals P = asks C \<and>
     writer_round g P C \<and> reader_round g C P"

definition signal_inv :: "nat \<Rightarrow> signal_ring \<Rightarrow> signal_pc list \<Rightarrow> bool" where
  "signal_inv n g ls \<longleftrightarrow> (\<exists>P C w r. ls = [P, C] \<and> ring_at n (ring1 g) (v1_pc P) (v1_pc C) w r \<and> requests g P C)"

text \<open>A side that sees no space at the published position has the ring full, or empty.\<close>

lemma writer_sees_none:
  assumes "ring_at n (ring1 g) (PSpin i m p e) C w r" "n < 2 ^ 31" "writer_sees g (read_position g) e = None"
  shows "w = r + 4"
proof -
  have "waits (m_Writer (ringBuffer (ring1 g))) w p e" "w \<le> r + 4" "r \<le> w" "w < 2 ^ 31"
    "read_position g = of_nat (4 * r)"
    using assms(1,2) by (auto simp: ring_at_def)
  from write_space [OF this(1-4)] this(5) assms(3) show ?thesis by simp
qed

lemma reader_sees_none:
  assumes "ring_at n (ring1 g) P (CSpin rc p e) w r" "n < 2 ^ 31" "reader_sees g (write_position g) e = None"
  shows "w = r"
proof -
  have "waits (m_Reader (ringBuffer (ring1 g))) r p e" "w \<le> r + 4" "r \<le> w" "w < 2 ^ 31"
    "write_position g = of_nat (4 * w)"
    using assms(1,2) by (auto simp: ring_at_def)
  from read_space [OF this(1-4)] this(5) assms(3) show ?thesis by simp
qed

lemma ring_producer_frame:
  "(g', P') \<in> set (ring_producer n g P) \<Longrightarrow>
    m_Reader (ringBuffer g') = m_Reader (ringBuffer g) \<and>
    m_ReaderShared (ringBuffer g') = m_ReaderShared (ringBuffer g) \<and>
    (m_WriterShared (ringBuffer g') = m_WriterShared (ringBuffer g) \<or> (\<exists>i. P = PFinish i))"
  by (cases P) (auto simp: Let_def FinishWrite_def split: prod.splits option.splits if_splits)

lemma ring_consumer_frame:
  "(g', C') \<in> set (ring_consumer n g C) \<Longrightarrow>
    m_Writer (ringBuffer g') = m_Writer (ringBuffer g) \<and>
    m_WriterShared (ringBuffer g') = m_WriterShared (ringBuffer g) \<and>
    (m_ReaderShared (ringBuffer g') = m_ReaderShared (ringBuffer g) \<or> (\<exists>rc. C = CFinish rc))"
  by (cases C) (auto simp: Let_def FinishRead_def split: prod.splits option.splits if_splits)

text \<open>What a round sees depends on its own local state and on the other side's position and flag only.\<close>

lemma reader_round_frame:
  "reader_round g C P \<Longrightarrow> m_Reader (ringBuffer (ring1 g')) = m_Reader (ringBuffer (ring1 g)) \<Longrightarrow>
    write_position g' = write_position g \<Longrightarrow> writerShouldSignal g' = writerShouldSignal g \<Longrightarrow>
    (exchanges P \<Longrightarrow> exchanges P') \<Longrightarrow> reader_round g' C P'"
  by (cases C) auto

lemma writer_round_frame:
  "writer_round g P C \<Longrightarrow> m_Writer (ringBuffer (ring1 g')) = m_Writer (ringBuffer (ring1 g)) \<Longrightarrow>
    read_position g' = read_position g \<Longrightarrow> readerShouldSignal g' = readerShouldSignal g \<Longrightarrow>
    (exchanges C \<Longrightarrow> exchanges C') \<Longrightarrow> writer_round g' P C'"
  by (cases P) auto

text \<open>A flag that has been taken down settles the other side's round.\<close>

lemma reader_round_taken:
  "reader_round g C P \<Longrightarrow> ring1 g' = ring1 g \<Longrightarrow> \<not> writerShouldSignal g' \<Longrightarrow> reader_round g' C P'"
  by (cases C) auto

lemma writer_round_taken:
  "writer_round g P C \<Longrightarrow> ring1 g' = ring1 g \<Longrightarrow> \<not> readerShouldSignal g' \<Longrightarrow> writer_round g' P C'"
  by (cases P) auto

text \<open>A publication makes the position that a waiting side has seen an old one.\<close>

lemma reader_round_published:
  assumes "reader_round g C P" and "m_Reader (ringBuffer (ring1 g')) = m_Reader (ringBuffer (ring1 g))"
    and "ring_at n (ring1 g') P1 (v1_pc C) w r" "r < w" "n < 2 ^ 31" and "exchanges P'"
  shows "reader_round g' C P'"
  using assms by (cases C) (auto dest: reader_sees_none)

lemma writer_round_published:
  assumes "writer_round g P C" and "m_Writer (ringBuffer (ring1 g')) = m_Writer (ringBuffer (ring1 g))"
    and "ring_at n (ring1 g') (v1_pc P) C1 w r" "w < r + 4" "n < 2 ^ 31" and "exchanges C'"
  shows "writer_round g' P C'"
  using assms by (cases P) (auto dest: writer_sees_none)

lemma write_round_requests:
  assumes "(g', P') \<in> set (write_round g P)" and "requests g P C"
  shows "requests g' P' C"
proof -
  have "reader_round g C P" using assms(2) by (simp add: requests_def)
  moreover have "m_Reader (ringBuffer (ring1 g')) = m_Reader (ringBuffer (ring1 g)) \<and>
      write_position g' = write_position g \<and> writerShouldSignal g' = writerShouldSignal g \<and> \<not> exchanges P"
    using assms(1) by (induction g P rule: write_round.induct) (auto simp: Let_def split: option.splits if_splits)
  ultimately have "reader_round g' C P'" by (blast intro: reader_round_frame)
  then show ?thesis
    using assms by (induction g P rule: write_round.induct)
      (auto simp: requests_def Let_def split: option.splits if_splits)
qed

lemma read_round_requests:
  assumes "(g', C') \<in> set (read_round g C)" and "requests g P C"
  shows "requests g' P C'"
proof -
  have "writer_round g P C" using assms(2) by (simp add: requests_def)
  moreover have "m_Writer (ringBuffer (ring1 g')) = m_Writer (ringBuffer (ring1 g)) \<and>
      read_position g' = read_position g \<and> readerShouldSignal g' = readerShouldSignal g \<and> \<not> exchanges C"
    using assms(1) by (induction g C rule: read_round.induct) (auto simp: Let_def split: option.splits if_splits)
  ultimately have "writer_round g' P C'" by (blast intro: writer_round_frame)
  then show ?thesis
    using assms by (induction g C rule: read_round.induct)
      (auto simp: requests_def Let_def split: option.splits if_splits)
qed

lemma as_v1_producer_requests:
  assumes "(g', P') \<in> set (as_v1 (ring_producer n) g pc)" and "requests g (Run pc) C"
    and "\<forall>i m p e. pc \<noteq> PSpin i m p e" "\<forall>i. pc \<noteq> PFinish i"
  shows "requests g' P' C"
proof -
  obtain g1 pc' where st: "(g1, pc') \<in> set (ring_producer n (ring1 g) pc)" and g': "g' = g\<lparr>ring1 := g1\<rparr>" "P' = Run pc'"
    using assms(1) by (auto simp: as_v1_def)
  have "reader_round g' C P'"
    by (rule reader_round_frame [of g C "Run pc"])
      (use assms(2,4) ring_producer_frame [OF st] g' in \<open>auto simp: requests_def\<close>)
  then show ?thesis using assms(2) g' by (simp add: requests_def)
qed

lemma as_v1_consumer_requests:
  assumes "(g', C') \<in> set (as_v1 (ring_consumer n) g pc)" and "requests g P (Run pc)"
    and "\<forall>rc p e. pc \<noteq> CSpin rc p e" "\<forall>rc. pc \<noteq> CFinish rc"
  shows "requests g' P C'"
proof -
  obtain g1 pc' where st: "(g1, pc') \<in> set (ring_consumer n (ring1 g) pc)" and g': "g' = g\<lparr>ring1 := g1\<rparr>" "C' = Run pc'"
    using assms(1) by (auto simp: as_v1_def)
  have "writer_round g' P C'"
    by (rule writer_round_frame [of g P "Run pc"])
      (use assms(2,4) ring_consumer_frame [OF st] g' in \<open>auto simp: requests_def\<close>)
  then show ?thesis using assms(2) g' by (simp add: requests_def)
qed

text \<open>
  The work that is left: ten units for each step that v1 makes, at most five for a round of waiting, five for
  every signal that can start another round, and four for a round that has seen an old position.
\<close>

fun stage :: "nat \<Rightarrow> ring_pc \<Rightarrow> nat" where
  "stage n (PNext i) = 12 * (n - i) + 1"
| "stage n (PPrepare i m) = 12 * (n - i)"
| "stage n (PSpin i m p e) = 12 * (n - i) - 1"
| "stage n (PStore i m p k) = 12 * (n - i) - (2 + k)"
| "stage n (PFinish i) = 12 * (n - i) - 6"
| "stage n (PCount i) = 12 * (n - i) - 9"
| "stage n PDone = 0"
| "stage n (CPrepare rc) = 12 * (n - length rc) + 1"
| "stage n (CSpin rc p e) = 12 * (n - length rc)"
| "stage n (CLoad rc p bs) = 12 * (n - length rc) - (1 + length bs)"
| "stage n (CCount rc) = 12 * (n - length rc) + 7"
| "stage n (CFinish rc) = 12 * (n - length rc) + 6"
| "stage n (CDone rc) = 0"

fun late :: "signal_pc \<Rightarrow> nat" where
  "late (PExchange i) = 2"
| "late (PSignal i) = 1"
| "late (CExchange rc) = 4"
| "late (CSignal rc) = 3"
| "late _ = 0"

fun round_left :: "signal_pc \<Rightarrow> nat" where
  "round_left (Run (PSpin i m p e)) = 5"
| "round_left (Run (CSpin rc p e)) = 5"
| "round_left (PRequest i m p e rp) = 4"
| "round_left (PRecheck i m p e rp) = 3"
| "round_left (PCancel i m p e rp) = 2"
| "round_left (PWait i m p e rp) = 1"
| "round_left (CRequest rc p e wp) = 4"
| "round_left (CRecheck rc p e wp) = 3"
| "round_left (CCancel rc p e wp) = 2"
| "round_left (CWait rc p e wp) = 1"
| "round_left _ = 0"

fun seen :: "signal_pc \<Rightarrow> u64 option" where
  "seen (PRequest i m p e rp) = Some rp"
| "seen (PRecheck i m p e rp) = Some rp"
| "seen (PCancel i m p e rp) = Some rp"
| "seen (PWait i m p e rp) = Some rp"
| "seen (CRequest rc p e wp) = Some wp"
| "seen (CRecheck rc p e wp) = Some wp"
| "seen (CCancel rc p e wp) = Some wp"
| "seen (CWait rc p e wp) = Some wp"
| "seen _ = None"

definition outdated :: "signal_pc \<Rightarrow> u64 \<Rightarrow> nat" where
  "outdated pc p = (case seen pc of None \<Rightarrow> 0 | Some q \<Rightarrow> if q = p then 0 else 4)"

definition side_work :: "nat \<Rightarrow> signal_pc \<Rightarrow> nat" where
  "side_work n pc = 10 * (stage n (v1_pc pc) + late pc) + round_left pc + 6 * signals pc"

fun signal_work :: "nat \<Rightarrow> signal_ring \<Rightarrow> signal_pc list \<Rightarrow> nat" where
  "signal_work n g [P, C] = side_work n P + side_work n C + 5 * (writerSemaphore g + readerSemaphore g) +
     outdated P (read_position g) + outdated C (write_position g)"
| "signal_work n g _ = 0"

lemma outdated_le: "outdated pc p \<le> 4"
  by (simp add: outdated_def split: option.splits)

lemma outdated_self: "seen pc = None \<or> seen pc = Some p \<Longrightarrow> outdated pc p = 0"
  by (auto simp: outdated_def)

lemma outdated_other: "seen pc = Some q \<Longrightarrow> q \<noteq> p \<Longrightarrow> outdated pc p = 4"
  by (simp add: outdated_def)

text \<open>
  What the protocol needs of a semaphore: it can take one signal when its count is zero. Both semaphores
  of the repository can.
\<close>

locale one_signal =
  fixes release :: "nat \<Rightarrow> nat option"
  assumes release_zero: "release 0 = Some 1"
begin

lemma finish_write_requests:
  assumes st: "(g', P') \<in> set (finish_write release g P)" and req: "requests g P C"
    and at: "ring_at n (ring1 g) (v1_pc P) (v1_pc C) w r" "ring_at n (ring1 g') (v1_pc P') (v1_pc C) w' r'"
    and n: "n < 2 ^ 31"
  shows "requests g' P' C"
proof (cases P)
  case (Run pc)
  with st obtain i where pc: "pc = PFinish i" by (cases pc) auto
  have "w' = Suc i" using st Run pc at(2) by (auto simp: ring_at_def)
  moreover have "r' \<le> w" if "\<not> (\<exists>rc. C = Run rc)"
    using at that by (cases C) (auto simp: ring_at_def)
  ultimately have "r' < w'" if "\<not> (\<exists>rc. C = Run rc)" using at(1) Run pc that by (fastforce simp: ring_at_def)
  moreover have "reader_round g C P" "m_Reader (ringBuffer (ring1 g')) = m_Reader (ringBuffer (ring1 g))" "exchanges P'"
    using req st Run pc by (auto simp: requests_def FinishWrite_def)
  ultimately have "reader_round g' C P'"
    using reader_round_published [OF _ _ at(2) _ n] by (cases "\<exists>rc. C = Run rc") auto
  then show ?thesis using st Run pc req by (cases P) (auto simp: requests_def FinishWrite_def)
next
  case (PExchange i)
  then have "reader_round g' C P'"
    using reader_round_taken [of g C P g' P'] st req by (auto simp: requests_def split: if_splits)
  then show ?thesis using st PExchange req by (auto simp: requests_def split: if_splits)
next
  case (PSignal i)
  then have z: "readerSemaphore g = 0" "\<not> writerShouldSignal g" using req by (cases C; auto simp: requests_def)+
  then have "reader_round g' C P'"
    using reader_round_taken [of g C P g' P'] st req PSignal by (auto simp: requests_def release_zero)
  then show ?thesis using st PSignal req z by (auto simp: requests_def release_zero)
qed (use st in auto)

lemma finish_read_requests:
  assumes st: "(g', C') \<in> set (finish_read release g C)" and req: "requests g P C"
    and at: "ring_at n (ring1 g) (v1_pc P) (v1_pc C) w r" "ring_at n (ring1 g') (v1_pc P) (v1_pc C') w' r'"
    and n: "n < 2 ^ 31"
  shows "requests g' P C'"
proof (cases C)
  case (Run pc)
  with st obtain rc where pc: "pc = CFinish rc" by (cases pc) auto
  have "r' = length rc" "Suc r = length rc" using st Run pc at by (auto simp: ring_at_def)
  moreover have "w' = w" if "\<not> (\<exists>pc. P = Run pc)"
    using at that by (cases P) (auto simp: ring_at_def)
  ultimately have "w' < r' + 4" if "\<not> (\<exists>pc. P = Run pc)" using at(1) that by (fastforce simp: ring_at_def)
  moreover have "writer_round g P C" "m_Writer (ringBuffer (ring1 g')) = m_Writer (ringBuffer (ring1 g))" "exchanges C'"
    using req st Run pc by (auto simp: requests_def FinishRead_def)
  ultimately have "writer_round g' P C'"
    using writer_round_published [OF _ _ at(2) _ n] by (cases "\<exists>pc. P = Run pc") auto
  then show ?thesis using st Run pc req by (auto simp: requests_def FinishRead_def)
next
  case (CExchange rc)
  then have "writer_round g' P C'"
    using writer_round_taken [of g P C g' C'] st req by (auto simp: requests_def split: if_splits)
  then show ?thesis using st CExchange req by (auto simp: requests_def split: if_splits)
next
  case (CSignal rc)
  then have z: "writerSemaphore g = 0" "\<not> readerShouldSignal g" using req by (cases P; auto simp: requests_def)+
  then have "writer_round g' P C'"
    using writer_round_taken [of g P C g' C'] st req CSignal by (auto simp: requests_def release_zero)
  then show ?thesis using st CSignal req z by (auto simp: requests_def release_zero)
qed (use st in auto)

text \<open>Every step uses up some of the work.\<close>

lemma write_round_work:
  assumes "(g', P') \<in> set (write_round g P)" and "requests g P C" and "ring_at n (ring1 g) (v1_pc P) C1 w r"
  shows "signal_work n g' [P', C] < signal_work n g [P, C]"
proof (cases P)
  case (Run pc)
  with assms(1) obtain i m p e where "pc = PSpin i m p e" by (cases pc) auto
  with Run assms(1,3) show ?thesis
    by (auto simp: side_work_def outdated_self Let_def ring_at_def split: option.splits)
next
  case (PCancel i m p e rp)
  with assms show ?thesis
    by (auto simp: side_work_def outdated_self outdated_other requests_def split: if_splits)
next
  case (PWait i m p e rp)
  with assms show ?thesis by (auto simp: side_work_def outdated_self split: if_splits)
qed (use assms in \<open>auto simp: side_work_def outdated_def split: if_splits\<close>)

lemma read_round_work:
  assumes "(g', C') \<in> set (read_round g C)" and "requests g P C" and "ring_at n (ring1 g) P1 (v1_pc C) w r"
  shows "signal_work n g' [P, C'] < signal_work n g [P, C]"
proof (cases C)
  case (Run pc)
  with assms(1) obtain rc p e where "pc = CSpin rc p e" by (cases pc) auto
  with Run assms(1,3) show ?thesis
    by (auto simp: side_work_def outdated_self Let_def ring_at_def split: option.splits)
next
  case (CCancel rc p e wp)
  with assms show ?thesis
    by (auto simp: side_work_def outdated_self outdated_other requests_def split: if_splits)
next
  case (CWait rc p e wp)
  with assms show ?thesis by (auto simp: side_work_def outdated_self split: if_splits)
qed (use assms in \<open>auto simp: side_work_def outdated_def split: if_splits\<close>)

lemma as_v1_producer_work:
  assumes "(g', P') \<in> set (as_v1 (ring_producer n) g pc)" and "ring_at n (ring1 g) pc C1 w r"
    and "\<forall>i m p e. pc \<noteq> PSpin i m p e" "\<forall>i. pc \<noteq> PFinish i"
  shows "signal_work n g' [P', C] < signal_work n g [Run pc, C]"
proof -
  obtain g1 pc' where st: "(g1, pc') \<in> set (ring_producer n (ring1 g) pc)" and g': "g' = g\<lparr>ring1 := g1\<rparr>" "P' = Run pc'"
    using assms(1) by (auto simp: as_v1_def)
  have "10 * stage n pc' + round_left (Run pc') < 10 * stage n pc + round_left (Run pc)"
    using st assms(2-4) by (cases pc) (auto simp: ring_at_def Let_def case_prod_beta split: sum.splits if_splits)
  then show ?thesis using ring_producer_frame [OF st] assms(4) g'
    by (auto simp: side_work_def outdated_self)
qed

lemma as_v1_consumer_work:
  assumes "(g', C') \<in> set (as_v1 (ring_consumer n) g pc)" and "ring_at n (ring1 g) P1 pc w r"
    and "\<forall>rc p e. pc \<noteq> CSpin rc p e" "\<forall>rc. pc \<noteq> CFinish rc"
  shows "signal_work n g' [P, C'] < signal_work n g [P, Run pc]"
proof -
  obtain g1 pc' where st: "(g1, pc') \<in> set (ring_consumer n (ring1 g) pc)" and g': "g' = g\<lparr>ring1 := g1\<rparr>" "C' = Run pc'"
    using assms(1) by (auto simp: as_v1_def)
  have "10 * stage n pc' + round_left (Run pc') < 10 * stage n pc + round_left (Run pc)"
    using st assms(2-4) by (cases pc) (auto simp: ring_at_def Let_def case_prod_beta split: sum.splits if_splits)
  then show ?thesis using ring_consumer_frame [OF st] assms(4) g'
    by (auto simp: side_work_def outdated_self)
qed

lemma finish_write_work:
  assumes "(g', P') \<in> set (finish_write release g P)" and "requests g P C" and "ring_at n (ring1 g) (v1_pc P) C1 w r"
  shows "signal_work n g' [P', C] < signal_work n g [P, C]"
proof (cases P)
  case (Run pc)
  with assms(1) obtain i where "pc = PFinish i" by (cases pc) auto
  then show ?thesis using Run assms outdated_le [of C "write_position g'"]
    by (auto simp: side_work_def ring_at_def outdated_self FinishWrite_def)
next
  case (PSignal i)
  then have "readerSemaphore g = 0" using assms(2) by (cases C) (auto simp: requests_def)
  then show ?thesis using PSignal assms by (auto simp: side_work_def outdated_self release_zero)
qed (use assms in \<open>auto simp: side_work_def outdated_self ring_at_def split: if_splits\<close>)

lemma finish_read_work:
  assumes "(g', C') \<in> set (finish_read release g C)" and "requests g P C" and "ring_at n (ring1 g) P1 (v1_pc C) w r"
  shows "signal_work n g' [P, C'] < signal_work n g [P, C]"
proof (cases C)
  case (Run pc)
  with assms(1) obtain rc where "pc = CFinish rc" by (cases pc) auto
  then show ?thesis using Run assms outdated_le [of P "read_position g'"]
    by (auto simp: side_work_def ring_at_def outdated_self FinishRead_def)
next
  case (CSignal rc)
  then have "writerSemaphore g = 0" using assms(2) by (cases P) (auto simp: requests_def)
  then show ?thesis using CSignal assms by (auto simp: side_work_def outdated_self release_zero)
qed (use assms in \<open>auto simp: side_work_def outdated_self ring_at_def split: if_splits\<close>)

lemma signal_step:
  assumes inv: "signal_inv n g ls" and i: "i < length ls"
    and st: "(g', l') \<in> set (signal_thread release n i g (ls ! i))" and n: "n < 2 ^ 31"
  shows "signal_inv n g' (ls[i := l']) \<and> signal_work n g' (ls[i := l']) < signal_work n g ls"
proof -
  obtain P C w r where ls: "ls = [P, C]" and at: "ring_at n (ring1 g) (v1_pc P) (v1_pc C) w r"
    and req: "requests g P C"
    using inv by (auto simp: signal_inv_def)
  have inv1: "ring_inv n (ring1 g) (map v1_pc ls)" using ls at by (auto simp: ring_inv_def)
  have same: "(map v1_pc ls)[i := v1_pc (ls ! i)] = map v1_pc ls" using i by (simp flip: map_update)
  have "ring_inv n (ring1 g') ((map v1_pc ls)[i := v1_pc l'])"
    using signal_thread_v1 [OF st]
  proof
    assume "(ring1 g', v1_pc l') = (ring1 g, v1_pc (ls ! i))"
    then show ?thesis using inv1 same by simp
  next
    assume "(ring1 g', v1_pc l') \<in> set (ring_thread n i (ring1 g) (v1_pc (ls ! i)))"
    then show ?thesis using ring_step [OF inv1 _ _ n] i by simp
  qed
  then obtain P' C' w' r' where ls': "ls[i := l'] = [P', C']"
    and at': "ring_at n (ring1 g') (v1_pc P') (v1_pc C') w' r'"
    using ls i by (cases i) (auto simp: ring_inv_def less_Suc_eq)
  have "requests g' P' C' \<and> signal_work n g' [P', C'] < signal_work n g [P, C]"
  proof (cases i)
    case 0
    then have i0: "C' = C" "l' = P'" "(g', P') \<in> set (signal_thread release n i g P)" using ls ls' st by auto
    have "signal_consumer release n g P = []"
      using at by (auto simp: signal_consumer_def as_v1_def ring_at_def split: signal_pc.splits ring_pc.splits)
    then have "(g', P') \<in> set (signal_producer release n g P)" using i0(3) by (simp add: signal_thread_def)
    then show ?thesis
      using write_round_requests [OF _ req] finish_write_requests [OF _ req at] at' n
        as_v1_producer_requests [of g' P' n g _ C] req
        write_round_work [OF _ req at] finish_write_work [OF _ req at] as_v1_producer_work [of g' P' n g _ "v1_pc C" w r C] at
      unfolding i0(1)
      by (cases P) (auto simp: signal_producer_def split: ring_pc.splits)
  next
    case (Suc j)
    then have i1: "P' = P" "l' = C'" "(g', C') \<in> set (signal_thread release n i g C)" using ls ls' st i by auto
    have "signal_producer release n g C = []"
      using at by (auto simp: signal_producer_def as_v1_def ring_at_def split: signal_pc.splits ring_pc.splits)
    then have "(g', C') \<in> set (signal_consumer release n g C)" using i1(3) by (simp add: signal_thread_def)
    then show ?thesis
      using read_round_requests [OF _ req] finish_read_requests [OF _ req at] at' n
        as_v1_consumer_requests [of g' C' n g _ P] req
        read_round_work [OF _ req at] finish_read_work [OF _ req at] as_v1_consumer_work [of g' C' n g _ "v1_pc P" w r P] at
      unfolding i1(1)
      by (cases C) (auto simp: signal_consumer_def split: ring_pc.splits)
  qed
  then show ?thesis using ls ls' at' by (auto simp: signal_inv_def)
qed

end

lemma signal_start: "length buffer = 16 \<Longrightarrow> signal_inv n (fst (signal_main buffer)) (snd (signal_main buffer))"
  using ring_start [of buffer n]
  by (auto simp: signal_inv_def ring_inv_def signal_main_def ring_main_def requests_def)

text \<open>The program, for a number of messages and an initial content of the buffer.\<close>

locale signal_program = one_signal +
  fixes n :: nat
    and buffer :: "byte list"
  assumes sixteen_bytes: "length buffer = 16"
    and int_messages: "n < 2 ^ 31"

sublocale signal_program \<subseteq> runs: thread_term "signal_thread release n" "signal_main buffer" "signal_inv n" "signal_work n"
  using signal_step int_messages signal_start [OF sixteen_bytes] by unfold_locales blast+

sublocale signal_program \<subseteq> refines: thread_sim "signal_thread release n" "signal_main buffer" "signal_inv n"
  v1_conf "istep (ring_thread n)"
proof unfold_locales
  fix g ls i g' l'
  assume i: "i < length ls" and st: "(g', l') \<in> set (signal_thread release n i g (ls ! i))"
  from signal_thread_v1 [OF st] show "v1_conf g' (ls[i := l']) = v1_conf g ls \<or>
      istep (ring_thread n) (v1_conf g ls) (v1_conf g' (ls[i := l']))"
  proof
    assume same: "(ring1 g', v1_pc l') = (ring1 g, v1_pc (ls ! i))"
    have "(map v1_pc ls)[i := v1_pc (ls ! i)] = map v1_pc ls" using i by (simp flip: map_update)
    with same show ?thesis by (simp add: v1_conf_def map_update)
  next
    assume "(ring1 g', v1_pc l') \<in> set (ring_thread n i (ring1 g) (v1_pc (ls ! i)))"
    then have "istep (ring_thread n) (ring1 g, map v1_pc ls) (ring1 g', (map v1_pc ls)[i := v1_pc l'])"
      using i by (intro istepI) simp_all
    then show ?thesis by (simp add: v1_conf_def map_update)
  qed
qed

lemma steps_reach: "(istep T)\<^sup>*\<^sup>* c0 c \<Longrightarrow> reach T c0 c"
  by (induction rule: rtranclp_induct) (auto intro: reach.intros)

lemma v1_conf_start: "v1_conf (fst (signal_main buffer)) (snd (signal_main buffer)) = ring_main buffer"
  by (simp add: v1_conf_def signal_main_def ring_main_def)

context signal_program
begin

lemma run_of_v1: "reach (signal_thread release n) (signal_main buffer) (g, ls) \<Longrightarrow>
    reach (ring_thread n) (ring_main buffer) (v1_conf g ls)"
  using refines.reach_sim [of "(g, ls)"] steps_reach by (fastforce simp: v1_conf_start)

text \<open>A side that cannot go on has returned, or sleeps while the ring is full or empty for it.\<close>

lemma producer_blocked:
  assumes at: "ring_at n (ring1 g) (v1_pc P) (v1_pc C) w r" and req: "requests g P C"
    and no: "signal_thread release n i g P = []"
  shows "P = Run PDone \<or> (\<exists>i m p e rp. P = PWait i m p e rp \<and> writerSemaphore g = 0)"
proof (cases P)
  case (Run pc)
  then show ?thesis using at no producer_goes_on [of n "ring1 g" pc "v1_pc C" w r 0]
    by (cases pc) (auto simp: ring_thread_def signal_thread_def signal_producer_def signal_consumer_def as_v1_def Let_def
        ring_at_def split: option.splits)
next
  case (PSignal k)
  then have "readerSemaphore g = 0" using req by (cases C) (auto simp: requests_def)
  then show ?thesis using no PSignal by (auto simp: signal_thread_def signal_producer_def release_zero)
qed (use no at in \<open>auto simp: ring_at_def signal_thread_def signal_producer_def split: if_splits\<close>)

lemma consumer_blocked:
  assumes at: "ring_at n (ring1 g) (v1_pc P) (v1_pc C) w r" and req: "requests g P C"
    and no: "signal_thread release n i g C = []"
  shows "(\<exists>rc. C = Run (CDone rc)) \<or> (\<exists>rc p e wp. C = CWait rc p e wp \<and> readerSemaphore g = 0)"
proof (cases C)
  case (Run pc)
  then show ?thesis using at no consumer_goes_on [of n "ring1 g" "v1_pc P" pc w r 0]
    by (cases pc) (auto simp: ring_thread_def signal_thread_def signal_producer_def signal_consumer_def as_v1_def Let_def
        ring_at_def split: option.splits)
next
  case (CSignal k)
  then have "writerSemaphore g = 0" using req by (cases P) (auto simp: requests_def)
  then show ?thesis using no CSignal by (auto simp: signal_thread_def signal_consumer_def release_zero)
qed (use no at in \<open>auto simp: ring_at_def signal_thread_def signal_consumer_def split: if_splits\<close>)

lemma producer_waits:
  assumes at: "ring_at n (ring1 g) (v1_pc P) (v1_pc C) w r" and req: "requests g P C"
    and P: "P = PWait i m p e rp" "writerSemaphore g = 0" and C: "signals C = 0" "\<not> exchanges C"
  shows "w = r + 4"
proof -
  have "rp = read_position g" "writer_sees g rp e = None" using req P C by (auto simp: requests_def)
  then show ?thesis using writer_sees_none [of n g i m p e "v1_pc C" w r] at P(1) int_messages by simp
qed

lemma consumer_waits:
  assumes at: "ring_at n (ring1 g) (v1_pc P) (v1_pc C) w r" and req: "requests g P C"
    and C: "C = CWait rc p e wp" "readerSemaphore g = 0" and P: "signals P = 0" "\<not> exchanges P"
  shows "w = r"
proof -
  have "wp = write_position g" "reader_sees g wp e = None" using req P C by (auto simp: requests_def)
  then show ?thesis using reader_sees_none [of n g "v1_pc P" rc p e w r] at C(1) int_messages by simp
qed

lemma blocked_end:
  assumes run: "reach (signal_thread release n) (signal_main buffer) (g, ls)"
    and no: "stuck (signal_thread release n) (g, ls)"
  shows "ls = [Run PDone, Run (CDone (map of_nat [0..<n]))] \<and> count (ring1 g) = 0 \<and>
    \<not> writerShouldSignal g \<and> \<not> readerShouldSignal g \<and> writerSemaphore g = 0 \<and> readerSemaphore g = 0"
proof -
  obtain P C w r where ls: "ls = [P, C]" and at: "ring_at n (ring1 g) (v1_pc P) (v1_pc C) w r"
    and req: "requests g P C"
    using runs.reach_inv [OF run] by (auto simp: signal_inv_def)
  have b: "r \<le> w" "w \<le> n" using at by (auto simp: ring_at_def)
  have no': "signal_thread release n 0 g P = []" "signal_thread release n 1 g C = []"
    using no ls by (auto simp: stuck_iff)
  note P = producer_blocked [OF at req no'(1)] and C = consumer_blocked [OF at req no'(2)]
  have quiet: "signals P = 0" "\<not> exchanges P" "signals C = 0" "\<not> exchanges C" using P C by auto
  have "P = Run PDone"
  proof (rule ccontr)
    assume "P \<noteq> Run PDone"
    then have w: "w = r + 4" using P producer_waits [OF at req _ _ quiet(3,4)] by blast
    moreover have "r = n \<or> w = r" using C consumer_waits [OF at req _ _ quiet(1,2)] at by (auto simp: ring_at_def)
    ultimately show False using b by simp
  qed
  moreover have "\<exists>rc. C = Run (CDone rc)"
  proof (rule ccontr)
    assume "\<nexists>rc. C = Run (CDone rc)"
    then have "w = r" "r < n" using C consumer_waits [OF at req _ _ quiet(1,2)] at by (auto simp: ring_at_def)
    then show False using \<open>P = Run PDone\<close> at by (simp add: ring_at_def)
  qed
  ultimately show ?thesis
    using at req ls by (auto simp: ring_at_def requests_def in_order_def produced_def consumed_def)
qed

lemma ends: "reach (signal_thread release n) (signal_main buffer) c \<Longrightarrow>
    \<exists>g. reach (signal_thread release n) c (g, [Run PDone, Run (CDone (map of_nat [0..<n]))]) \<and> count (ring1 g) = 0"
proof -
  assume c: "reach (signal_thread release n) (signal_main buffer) c"
  from runs.reach_stuck [OF this] obtain g ls
    where "reach (signal_thread release n) c (g, ls)" "stuck (signal_thread release n) (g, ls)" by force
  then show ?thesis using blocked_end [OF reach_trans [OF _ c]] by blast
qed

lemma ends_only: "reach (signal_thread release n) (signal_main buffer) c \<Longrightarrow>
    (\<exists>g. reach (signal_thread release n) c (g, [Run PDone, Run (CDone (map of_nat [0..<n]))]) \<and> count (ring1 g) = 0) \<and>
    (\<forall>f. f 0 = c \<longrightarrow> \<not> (\<forall>k. istep (signal_thread release n) (f k) (f (Suc k))))"
  using ends runs.no_infinite_run by blast

lemma semaphores_small: "reach (signal_thread release n) (signal_main buffer) (g, ls) \<Longrightarrow>
    writerSemaphore g \<le> 1 \<and> readerSemaphore g \<le> 1 \<and>
    (\<forall>i < length ls. \<forall>k rc. (ls ! i = PSignal k \<longrightarrow> readerSemaphore g = 0) \<and>
      (ls ! i = CSignal rc \<longrightarrow> writerSemaphore g = 0))"
proof -
  assume "reach (signal_thread release n) (signal_main buffer) (g, ls)"
  from runs.reach_inv [OF this] obtain P C w r where ls: "ls = [P, C]" and req: "requests g P C"
    and at: "ring_at n (ring1 g) (v1_pc P) (v1_pc C) w r"
    by (auto simp: signal_inv_def)
  have le: "asks P \<le> 1" "asks C \<le> 1" by (cases P; simp; fail)+ (cases C; simp)
  have "P \<noteq> CSignal rc" "C \<noteq> PSignal k" for rc k using at by (auto simp: ring_at_def)
  moreover have "P = PSignal k \<Longrightarrow> readerSemaphore g = 0" "C = CSignal rc \<Longrightarrow> writerSemaphore g = 0" for k rc
    using req le by (auto simp: requests_def)
  moreover have "writerSemaphore g \<le> 1" "readerSemaphore g \<le> 1" using req le by (auto simp: requests_def)
  ultimately show ?thesis by (auto simp: ls less_Suc_eq)
qed

end

text \<open>The two programs: \<open>Semaphore\<close> of sema.h in v2, \<open>std::binary_semaphore\<close> in v2_std_semaphore.\<close>

definition ring_kMaxMessages :: nat where "ring_kMaxMessages = 10"

text \<open>The class and the program of v2_std_semaphore are those of v2 with the other semaphore.\<close>

definition std_producer :: "nat \<Rightarrow> signal_ring \<Rightarrow> signal_pc \<Rightarrow> (signal_ring \<times> signal_pc) list" where
  "std_producer = signal_producer binary_release"

definition std_consumer :: "nat \<Rightarrow> signal_ring \<Rightarrow> signal_pc \<Rightarrow> (signal_ring \<times> signal_pc) list" where
  "std_consumer = signal_consumer binary_release"

definition std_signal_thread :: "nat \<Rightarrow> (signal_ring, signal_pc) thread" where
  "std_signal_thread n t g pc = std_producer n g pc @ std_consumer n g pc"

lemma std_signal_thread_eq: "std_signal_thread = signal_thread binary_release"
  by (intro ext) (simp add: std_signal_thread_def signal_thread_def std_producer_def std_consumer_def)

definition std_signal_main :: "byte list \<Rightarrow> (signal_ring, signal_pc) conf" where
  "std_signal_main buffer = signal_main buffer"

interpretation counting: one_signal semaphore_signal
  by unfold_locales (simp add: semaphore_signal_def)

interpretation binary: one_signal binary_release
  by unfold_locales (simp add: binary_release_def)

interpretation v2: signal_program semaphore_signal ring_kMaxMessages "replicate 16 0"
  by unfold_locales (simp_all add: ring_kMaxMessages_def)

interpretation v2_std: signal_program binary_release ring_kMaxMessages "replicate 16 0"
  by unfold_locales (simp_all add: ring_kMaxMessages_def)

lemma counting_program: "length buffer = 16 \<Longrightarrow> n < 2 ^ 31 \<Longrightarrow> signal_program semaphore_signal n buffer"
  by unfold_locales simp_all

lemma binary_program: "length buffer = 16 \<Longrightarrow> n < 2 ^ 31 \<Longrightarrow> signal_program binary_release n buffer"
  by unfold_locales simp_all

section \<open>What the programs do\<close>

text \<open>
  Claim C9. v2 is a refinement of v1: seen without flags and semaphores, every configuration that it reaches is one
  that v1 reaches. So everything its consumer has received is what was produced, in order.
\<close>

theorem signal_ring_refines:
  assumes "length buffer = 16" and "n < 2 ^ 31"
    and "reach (signal_thread semaphore_signal n) (signal_main buffer) (g, [P, C])"
  shows "reach (ring_thread n) (ring_main buffer) (v1_conf g [P, C]) \<and>
    received (v1_pc C) = map of_nat [0..<length (received (v1_pc C))]"
proof -
  have "reach (ring_thread n) (ring_main buffer) (v1_conf g [P, C])"
    by (rule signal_program.run_of_v1 [OF counting_program [OF assms(1,2)] assms(3)])
  moreover from ring.reach_inv [OF this [unfolded v1_conf_def]] assms(1,2)
  have "in_order (received (v1_pc C))" using reader_received by (fastforce simp: ring_inv_def ring_at_def)
  ultimately show ?thesis by (simp add: in_order_def)
qed

text \<open>
  Claim C8. No wakeup is lost in v2: no run goes on for ever, and from wherever a run is, it can only end with both
  threads returned and all the messages received in order.
\<close>

theorem signal_ring_ends:
  assumes "length buffer = 16" and "n < 2 ^ 31"
    and "reach (signal_thread semaphore_signal n) (signal_main buffer) c"
  shows "(\<exists>g. reach (signal_thread semaphore_signal n) c (g, [Run PDone, Run (CDone (map of_nat [0..<n]))]) \<and>
      count (ring1 g) = 0) \<and>
    (\<forall>f. f 0 = c \<longrightarrow> \<not> (\<forall>k. istep (signal_thread semaphore_signal n) (f k) (f (Suc k))))"
  by (rule signal_program.ends_only [OF counting_program [OF assms(1,2)] assms(3)])

text \<open>
  v2_std_semaphore never gives its binary semaphores a signal they cannot hold: each is released
  only when its count is zero, so its counter stays within the maximum of one; and from wherever a run is,
  it can end with all messages received.
\<close>

theorem binary_semaphores_hold:
  assumes "length buffer = 16" and "n < 2 ^ 31"
    and "reach (std_signal_thread n) (std_signal_main buffer) (g, ls)"
  shows "writerSemaphore g \<le> 1 \<and> readerSemaphore g \<le> 1 \<and>
    (\<forall>i < length ls. \<forall>k rc. (ls ! i = PSignal k \<longrightarrow> binary_release (readerSemaphore g) \<noteq> None) \<and>
      (ls ! i = CSignal rc \<longrightarrow> binary_release (writerSemaphore g) \<noteq> None)) \<and>
    (\<exists>g'. reach (std_signal_thread n) (g, ls) (g', [Run PDone, Run (CDone (map of_nat [0..<n]))]))"
proof -
  have r: "reach (signal_thread binary_release n) (signal_main buffer) (g, ls)"
    using assms(3) by (simp add: std_signal_thread_eq std_signal_main_def)
  note P = binary_program [OF assms(1,2)]
  show ?thesis
    using signal_program.semaphores_small [OF P r] signal_program.ends [OF P r]
    by (auto simp: binary_release_def std_signal_thread_eq)
qed

section \<open>Concrete runs\<close>

text \<open>A run of v2 with one message: the consumer asks for a signal, sleeps and is woken.\<close>

definition signal_schedule :: "(nat \<times> nat) list" where
  "signal_schedule = map (\<lambda>i. (i, 0)) ([1, 1, 1, 1] @ replicate 11 0 @ replicate 10 1)"

lemma signal_schedule_run:
  "map_option snd (sched (signal_thread semaphore_signal 1) signal_schedule (signal_main (replicate 16 0))) =
    Some [Run PDone, Run (CDone [0])]"
  by code_simp

lemma signal_reaches_end:
  "\<exists>g. reach (signal_thread semaphore_signal 1) (signal_main (replicate 16 0)) (g, [Run PDone, Run (CDone [0])])"
  using signal_schedule_run by (auto dest: sched_reach)

lemma counting_reaches_signal:
  "\<exists>g. reach (signal_thread semaphore_signal 1) (signal_main (replicate 16 0)) (g, [PSignal 0, CWait [] 0 4 0])"
proof -
  have "map_option snd (sched (signal_thread semaphore_signal 1) (take 12 signal_schedule) (signal_main (replicate 16 0))) =
    Some [PSignal 0, CWait [] 0 4 0]"
    by code_simp
  then show ?thesis by (auto dest: sched_reach)
qed

lemma binary_reaches_signal:
  "\<exists>g. reach (std_signal_thread 1) (std_signal_main (replicate 16 0)) (g, [PSignal 0, CWait [] 0 4 0])"
proof -
  have "map_option snd (sched (std_signal_thread 1) (take 12 signal_schedule) (std_signal_main (replicate 16 0))) =
    Some [PSignal 0, CWait [] 0 4 0]"
    by code_simp
  then show ?thesis by (auto dest: sched_reach)
qed

theorem signal_ring_refines_witness:
  "\<exists>g. reach (ring_thread 1) (ring_main (replicate 16 0)) (v1_conf g [Run PDone, Run (CDone [0])]) \<and>
    received (CDone [0]) = [0]"
proof -
  obtain g where "reach (signal_thread semaphore_signal 1) (signal_main (replicate 16 0)) (g, [Run PDone, Run (CDone [0])])"
    using signal_reaches_end by blast
  from signal_ring_refines [OF _ _ this] show ?thesis by auto
qed

theorem signal_ring_ends_witness:
  "\<exists>g g'. reach (signal_thread semaphore_signal 1) (signal_main (replicate 16 0)) (g, [PSignal 0, CWait [] 0 4 0]) \<and>
     reach (signal_thread semaphore_signal 1) (g, [PSignal 0, CWait [] 0 4 0])
       (g', [Run PDone, Run (CDone (map of_nat [0..<1]))]) \<and> count (ring1 g') = 0"
proof -
  obtain g where r: "reach (signal_thread semaphore_signal 1) (signal_main (replicate 16 0)) (g, [PSignal 0, CWait [] 0 4 0])"
    using counting_reaches_signal by blast
  from signal_ring_ends [OF _ _ r] obtain g' where
    "reach (signal_thread semaphore_signal 1) (g, [PSignal 0, CWait [] 0 4 0]) (g', [Run PDone, Run (CDone (map of_nat [0..<1]))])"
    "count (ring1 g') = 0" by auto
  with r show ?thesis by blast
qed

theorem binary_semaphores_hold_witness:
  "\<exists>g. reach (std_signal_thread 1) (std_signal_main (replicate 16 0)) (g, [PSignal 0, CWait [] 0 4 0]) \<and>
    binary_release (readerSemaphore g) \<noteq> None"
proof -
  obtain g where r: "reach (std_signal_thread 1) (std_signal_main (replicate 16 0)) (g, [PSignal 0, CWait [] 0 4 0])"
    using binary_reaches_signal by blast
  have "binary_release (readerSemaphore g) \<noteq> None"
    using binary_semaphores_hold [OF _ _ r] by (auto dest: spec [of _ 0])
  with r show ?thesis by blast
qed

end
