(* ===== verification/Ring_Arrays.thy ===== *)
theory Ring_Arrays
  imports Ring_Buffer
begin

text \<open>
  ProducerConsumer/spsc_daugaard/v1/RingBuffer_v1.hpp, called by one thread: single elements and arrays of any type that is stored
  as \<open>sz\<close> bytes by \<open>enc\<close> and loaded by \<open>dec\<close>, at any alignment. When there is no space or nothing to read the class waits for
  the other side, forever if there is none: \<open>None\<close>.
\<close>

section \<open>Calls of one thread\<close>

definition PrepareWrite :: "u64 \<Rightarrow> u64 \<Rightarrow> ring_buffer \<Rightarrow> (u64 \<times> ring_buffer) option" where
  "PrepareWrite sz alignment s =
     (let (l, r) = prepare (m_Writer s) sz alignment
      in case r of
           Inl p \<Rightarrow> Some (p, s\<lparr>m_Writer := l\<rparr>)
         | Inr (p, e) \<Rightarrow> map_option (\<lambda>l. (p, s\<lparr>m_Writer := l\<rparr>)) (GetBufferSpaceToWriteTo l (m_ReaderShared s) e))"

definition PrepareRead :: "u64 \<Rightarrow> u64 \<Rightarrow> ring_buffer \<Rightarrow> (u64 \<times> ring_buffer) option" where
  "PrepareRead sz alignment s =
     (let (l, r) = prepare (m_Reader s) sz alignment
      in case r of
           Inl p \<Rightarrow> Some (p, s\<lparr>m_Reader := l\<rparr>)
         | Inr (p, e) \<Rightarrow> map_option (\<lambda>l. (p, s\<lparr>m_Reader := l\<rparr>)) (GetBufferSpaceToReadFrom l (m_WriterShared s) e))"

fun store_array :: "('a \<Rightarrow> byte list) \<Rightarrow> byte list \<Rightarrow> nat \<Rightarrow> 'a list \<Rightarrow> byte list" where
  "store_array enc mem p [] = mem"
| "store_array enc mem p (v # vs) = store_array enc (store_bytes mem p (enc v)) (p + length (enc v)) vs"

definition WriteArray :: "('a \<Rightarrow> byte list) \<Rightarrow> nat \<Rightarrow> nat \<Rightarrow> 'a list \<Rightarrow> ring_buffer \<Rightarrow> ring_buffer option" where
  "WriteArray enc sz alignment values s =
     map_option (\<lambda>(dest, s). s\<lparr>memory := store_array enc (memory s) (unat dest) values\<rparr>)
       (PrepareWrite (of_nat (sz * length values)) (of_nat alignment) s)"

definition ReadArray :: "(byte list \<Rightarrow> 'a) \<Rightarrow> nat \<Rightarrow> nat \<Rightarrow> nat \<Rightarrow> ring_buffer \<Rightarrow> ('a list \<times> ring_buffer) option" where
  "ReadArray dec sz alignment n s =
     map_option (\<lambda>(src, s). (map (\<lambda>i. dec (load_bytes (memory s) (unat src + i * sz) sz)) [0..<n], s))
       (PrepareRead (of_nat (sz * n)) (of_nat alignment) s)"

definition WriteElement :: "('a \<Rightarrow> byte list) \<Rightarrow> nat \<Rightarrow> nat \<Rightarrow> 'a \<Rightarrow> ring_buffer \<Rightarrow> ring_buffer option" where
  "WriteElement enc sz alignment v s =
     map_option (\<lambda>(dest, s). s\<lparr>memory := store_bytes (memory s) (unat dest) (enc v)\<rparr>)
       (PrepareWrite (of_nat sz) (of_nat alignment) s)"

definition ReadElement :: "(byte list \<Rightarrow> 'a) \<Rightarrow> nat \<Rightarrow> nat \<Rightarrow> ring_buffer \<Rightarrow> ('a \<times> ring_buffer) option" where
  "ReadElement dec sz alignment s =
     map_option (\<lambda>(src, s). (dec (load_bytes (memory s) (unat src) sz), s))
       (PrepareRead (of_nat sz) (of_nat alignment) s)"

text \<open>An element is an array of one.\<close>

lemma WriteElement_array: "WriteElement enc sz al v = WriteArray enc sz al [v]"
  by (simp add: WriteElement_def WriteArray_def fun_eq_iff)

lemma ReadElement_array: "ReadElement dec sz al s = map_option (\<lambda>(vs, s). (hd vs, s)) (ReadArray dec sz al 1 s)"
  by (simp add: ReadElement_def ReadArray_def option.map_comp comp_def case_prod_unfold)

section \<open>Memory\<close>

lemma store_array_bytes:
  assumes "list_all (\<lambda>v. length (enc v) = sz) vs" "p + sz * length vs \<le> length mem"
  shows "length (store_array enc mem p vs) = length mem \<and>
    (\<forall>p' n. p' + n \<le> p \<longrightarrow> load_bytes (store_array enc mem p vs) p' n = load_bytes mem p' n) \<and>
    (\<forall>i < length vs. load_bytes (store_array enc mem p vs) (p + i * sz) sz = enc (vs ! i))"
  using assms
proof (induction enc mem p vs rule: store_array.induct)
  case (1 enc mem p)
  then show ?case by simp
next
  case (2 enc mem p v vs)
  let ?m = "store_bytes mem p (enc v)" and ?r = "store_array enc mem p (v # vs)"
  have e: "length (enc v) = sz" and fit: "p + length (enc v) \<le> length mem" using "2.prems" by simp_all
  note S = store_bytes_simps [OF fit]
  have "p + length (enc v) + sz * length vs \<le> length ?m" using "2.prems" e S(1) by simp
  with "2.IH" "2.prems"(1) have len: "length ?r = length ?m"
    and low: "\<And>p' n. p' + n \<le> p + sz \<Longrightarrow> load_bytes ?r p' n = load_bytes ?m p' n"
    and vals: "\<And>i. i < length vs \<Longrightarrow> load_bytes ?r (p + sz + i * sz) sz = enc (vs ! i)"
    using e by auto
  have "load_bytes ?r (p + i * sz) sz = enc ((v # vs) ! i)" if "i < length (v # vs)" for i
  proof (cases i)
    case 0
    with low [of p sz] S(2) e show ?thesis by simp
  next
    case (Suc j)
    with vals [of j] that show ?thesis by (simp add: add.assoc)
  qed
  moreover have "load_bytes ?r p' n = load_bytes mem p' n" if "p' + n \<le> p" for p' n
    using low [of p' n] S(3) [of p' n] that by simp
  ultimately show ?case using len S(1) by simp
qed

section \<open>Alignment\<close>

lemma unat_small: "a < 2 ^ 63 \<Longrightarrow> unat (of_nat a :: u64) = a"
  by (simp add: unat_of_nat)

text \<open>The aligned position is not below the given one and less than an alignment above it.\<close>

lemma Align_bounds:
  assumes "0 < al" "x < 2 ^ 62" "al < 2 ^ 62"
  shows "x \<le> unat (Align (of_nat x) (of_nat al))" "unat (Align (of_nat x) (of_nat al)) < x + al"
proof -
  let ?y = "of_nat (x + (al - 1)) :: u64" and ?m = "of_nat (al - 1) :: u64"
  have m: "(of_nat al :: u64) - 1 = ?m" using assms(1) by (simp add: of_nat_diff)
  then have y: "(of_nat x :: u64) + of_nat al - 1 = ?y" by (metis add_diff_eq of_nat_add)
  have "NOT ?y AND (?y AND ?m) = 0" by (rule bit_word_eqI) (simp add: bit_simps)
  then have "?y - (?y AND ?m) = ?y AND NOT (?y AND ?m)" by (rule disjunctive_diff_eq_and_not)
  also have "\<dots> = ?y AND NOT ?m" by (rule bit_word_eqI) (auto simp: bit_simps)
  finally have a: "Align (of_nat x) (of_nat al) = ?y - (?y AND ?m)" by (simp add: Align_def y m)
  have "?y AND ?m \<le> ?y" "?y AND ?m \<le> ?m" by (simp_all add: word_and_le1 word_and_le2)
  then have le: "unat (?y AND ?m) \<le> unat ?y" "unat (?y AND ?m) \<le> unat ?m" by (simp_all add: word_le_nat_alt)
  have u: "unat ?y = x + (al - 1)" "unat ?m = al - 1"
    using assms by (intro unat_small; simp)+
  have "unat (Align (of_nat x) (of_nat al)) = unat ?y - unat (?y AND ?m)"
    unfolding a using le(1) by (simp add: unat_sub word_le_nat_alt)
  with le u assms(1) show "x \<le> unat (Align (of_nat x) (of_nat al))" "unat (Align (of_nat x) (of_nat al)) < x + al"
    by linarith+
qed

section \<open>An idle ring\<close>

text \<open>
  Everything that has been written has been read: both sides are at position \<open>x\<close> of the same turn \<open>b\<close> of a ring of \<open>N\<close> bytes.
  \<open>we\<close> and \<open>re\<close> are the ends that they have seen.
\<close>

definition ring_at :: "nat \<Rightarrow> u64 \<Rightarrow> nat \<Rightarrow> nat \<Rightarrow> nat \<Rightarrow> ring_buffer \<Rightarrow> bool" where
  "ring_at N b x we re s \<longleftrightarrow> N < 2 ^ 60 \<and> length (memory s) = N \<and> x \<le> N \<and> we \<le> N \<and> re \<le> x \<and>
     m_Writer s = \<lparr>pos = of_nat x, lend = of_nat we, base = b, lsize = of_nat N\<rparr> \<and>
     m_Reader s = \<lparr>pos = of_nat x, lend = of_nat re, base = b, lsize = of_nat N\<rparr> \<and>
     m_WriterShared s = b + of_nat x \<and> m_ReaderShared s = b + of_nat x"

definition ring_idle :: "nat \<Rightarrow> ring_buffer \<Rightarrow> bool" where
  "ring_idle N s \<longleftrightarrow> (\<exists>b x we re. ring_at N b x we re s)"

text \<open>
  Whether there is room for \<open>len\<close> bytes: after the position, or else before it, at the start of the next turn. It is not
  enough that the ring is empty.
\<close>

definition ring_has_room :: "nat \<Rightarrow> nat \<Rightarrow> nat \<Rightarrow> ring_buffer \<Rightarrow> bool" where
  "ring_has_room N len al s \<longleftrightarrow> unat (Align (pos (m_Writer s)) (of_nat al)) + len \<le> N \<or> len \<le> unat (pos (m_Writer s))"

lemma ring_idle_new:
  assumes "length buffer < 2 ^ 60"
  shows "ring_idle (length buffer) (ring_new buffer)"
proof -
  have "ring_at (length buffer) 0 0 (length buffer) 0 (ring_new buffer)"
    using assms by (simp add: ring_at_def ring_new_def Initialize_def Reset_def LocalState_def Let_def)
  then show ?thesis unfolding ring_idle_def by blast
qed

lemma prepare_nat:
  assumes "p = Align (of_nat x) (of_nat al)" "unat p + len < 2 ^ 63" "le < 2 ^ 63" "N < 2 ^ 63" "len < 2 ^ 63"
  shows "prepare \<lparr>pos = of_nat x, lend = of_nat le, base = b, lsize = of_nat N\<rparr> (of_nat len) (of_nat al) =
     (if unat p + len > le
      then if unat p + len > N
        then (\<lparr>pos = of_nat x, lend = of_nat le, base = b + of_nat N, lsize = of_nat N\<rparr>, Inr (0, of_nat len))
        else (\<lparr>pos = of_nat x, lend = of_nat le, base = b, lsize = of_nat N\<rparr>, Inr (p, of_nat (unat p + len)))
      else (\<lparr>pos = of_nat (unat p + len), lend = of_nat le, base = b, lsize = of_nat N\<rparr>, Inl p))"
proof -
  have e: "p + of_nat len = of_nat (unat p + len)" by simp
  have g: "(of_nat (unat p + len) > (of_nat le :: u64)) = (unat p + len > le)"
    "(of_nat (unat p + len) > (of_nat N :: u64)) = (unat p + len > N)"
    using assms by (intro of_nat_gr; simp)+
  have "of_nat (unat p + len) - p = of_nat len" by simp
  then show ?thesis unfolding prepare_def Let_def local_state.simps assms(1) [symmetric] e g by simp
qed

lemma available_write:
  assumes "k < 2 ^ 62" "len < 2 ^ 62" "N < 2 ^ 62" "l = \<lparr>pos = q, lend = we, base = b', lsize = of_nat N\<rparr>" "rp - b' + of_nat N = of_nat k"
  shows "GetBufferSpaceToWriteTo l rp (of_nat len) =
     (if len \<le> k then Some \<lparr>pos = of_nat len, lend = of_nat (min k N), base = b', lsize = of_nat N\<rparr> else None)"
proof -
  have "(of_nat k :: u64) \<le> of_nat N \<longleftrightarrow> k \<le> N" using of_nat_gr [of k N] assms by (simp add: linorder_not_less [symmetric])
  then have "min (of_nat k) (of_nat N :: u64) = of_nat (min k N)" by (simp add: min_def)
  then show ?thesis using assms by (simp add: GetBufferSpaceToWriteTo_def sint_of_nat Let_def)
qed

lemma available_read:
  assumes "k < 2 ^ 62" "len < 2 ^ 62" "N < 2 ^ 62" "l = \<lparr>pos = q, lend = re, base = b', lsize = of_nat N\<rparr>" "wp - b' = of_nat k"
  shows "GetBufferSpaceToReadFrom l wp (of_nat len) =
     (if len \<le> k then Some \<lparr>pos = of_nat len, lend = of_nat (min k N), base = b', lsize = of_nat N\<rparr> else None)"
proof -
  have "(of_nat k :: u64) \<le> of_nat N \<longleftrightarrow> k \<le> N" using of_nat_gr [of k N] assms by (simp add: linorder_not_less [symmetric])
  then have "min (of_nat k) (of_nat N :: u64) = of_nat (min k N)" by (simp add: min_def)
  then show ?thesis using assms by (simp add: GetBufferSpaceToReadFrom_def sint_of_nat Let_def)
qed

text \<open>Where the next \<open>len\<close> bytes go: the position, the turn, the end.\<close>

definition place :: "nat \<Rightarrow> u64 \<Rightarrow> nat \<Rightarrow> nat \<Rightarrow> nat \<Rightarrow> u64 \<times> u64 \<times> nat" where
  "place N b x al len =
     (let p = Align (of_nat x) (of_nat al)
      in if unat p + len \<le> N then (p, b, unat p + len) else (0, b + of_nat N, len))"

lemma idle_write:
  assumes I: "ring_at N b x we re s" and al: "0 < al" "al \<le> N" and len: "0 < len" "len \<le> N"
    and pl: "place N b x al len = (p, b', e)"
  shows "if ring_has_room N len al s
    then \<exists>we'. we' \<le> N \<and> PrepareWrite (of_nat len) (of_nat al) s =
      Some (p, s\<lparr>m_Writer := \<lparr>pos = of_nat e, lend = of_nat we', base = b', lsize = of_nat N\<rparr>\<rparr>)
    else PrepareWrite (of_nat len) (of_nat al) s = None"
proof -
  let ?q = "Align (of_nat x) (of_nat al) :: u64"
  have N: "N < 2 ^ 60" and x: "x \<le> N" "we \<le> N"
    and W: "m_Writer s = \<lparr>pos = of_nat x, lend = of_nat we, base = b, lsize = of_nat N\<rparr>"
    and R: "m_ReaderShared s = b + of_nat x" using I by (auto simp: ring_at_def)
  have q: "x \<le> unat ?q" "unat ?q < x + al" using Align_bounds [of al x] al x N by simp_all
  have ux: "unat (of_nat x :: u64) = x" using N x by (intro unat_small) simp
  note P = prepare_nat [OF refl, of x al len we N b]
  have small: "unat ?q + len < 2 ^ 63" "we < 2 ^ 63" "N < 2 ^ 63" "len < 2 ^ 63" using q x al len N by simp_all
  have room: "ring_has_room N len al s \<longleftrightarrow> unat ?q + len \<le> N \<or> len \<le> x" by (simp add: ring_has_room_def W ux)
  have lt: "x + N < 2 ^ 62" "len < 2 ^ 62" "N < 2 ^ 62" "x < 2 ^ 62" "unat ?q + len < 2 ^ 62" using q x al len N by simp_all
  have a1: "b + of_nat x - (b + of_nat N) + of_nat N = (of_nat x :: u64)" "b + of_nat x - b + of_nat N = (of_nat (x + N) :: u64)" by simp_all
  show ?thesis
  proof (cases "unat ?q + len \<le> N")
    case True
    then have pl': "p = ?q" "b' = b" "e = unat ?q + len" using pl by (auto simp: place_def Let_def)
    have "\<not> N < unat ?q + len" "unat ?q + len \<le> x + N" using True by simp_all
    then show ?thesis using True x room
      by (auto simp: PrepareWrite_def W P [OF small] pl' R available_write [OF lt(1,5,3) refl a1(2)] min_def simp del: of_nat_add)
  next
    case False
    then have pl': "p = 0" "b' = b + of_nat N" "e = len" using pl by (auto simp: place_def Let_def)
    have g: "N < unat ?q + len" "we < unat ?q + len" using False x by simp_all
    show ?thesis using False x room
      by (auto simp: PrepareWrite_def W P [OF small] g pl' R available_write [OF lt(4,2,3) refl a1(1)] min_def)
  qed
qed

lemma written_read:
  assumes I: "ring_at N b x we re s" and al: "0 < al" "al \<le> N" and len: "0 < len" "len \<le> N"
    and pl: "place N b x al len = (p, b', e)" and t: "m_Reader t = m_Reader s" "m_WriterShared t = b' + of_nat e"
  shows "PrepareRead (of_nat len) (of_nat al) t =
      Some (p, t\<lparr>m_Reader := \<lparr>pos = of_nat e, lend = of_nat e, base = b', lsize = of_nat N\<rparr>\<rparr>) \<and>
    e \<le> N \<and> unat p + len = e"
proof -
  let ?q = "Align (of_nat x) (of_nat al) :: u64"
  have N: "N < 2 ^ 60" and x: "x \<le> N" "re \<le> x"
    and R: "m_Reader t = \<lparr>pos = of_nat x, lend = of_nat re, base = b, lsize = of_nat N\<rparr>" using I t by (auto simp: ring_at_def)
  have q: "x \<le> unat ?q" "unat ?q < x + al" using Align_bounds [of al x] al x N by simp_all
  note P = prepare_nat [OF refl, of x al len re N b]
  have small: "unat ?q + len < 2 ^ 63" "re < 2 ^ 63" "N < 2 ^ 63" "len < 2 ^ 63" using q x al len N by simp_all
  have re: "re < unat ?q + len" using x q len by linarith
  have lt: "len < 2 ^ 62" "N < 2 ^ 62" "unat ?q + len < 2 ^ 62" using q x al len N by simp_all
  have a: "b + of_nat N + of_nat len - (b + of_nat N) = (of_nat len :: u64)" "b + of_nat (unat ?q + len) - b = (of_nat (unat ?q + len) :: u64)"
    by simp_all
  show ?thesis
  proof (cases "unat ?q + len \<le> N")
    case True
    then have pl': "p = ?q" "b' = b" "e = unat ?q + len" using pl by (auto simp: place_def Let_def)
    have "\<not> N < unat ?q + len" using True by simp
    then show ?thesis using True
      by (simp add: PrepareRead_def R P [OF small] re t(2) pl' available_read [OF lt(3,3,2) refl a(2)] del: of_nat_add)
  next
    case False
    then have pl': "p = 0" "b' = b + of_nat N" "e = len" using pl by (auto simp: place_def Let_def)
    have g: "N < unat ?q + len" using False by simp
    show ?thesis using len
      by (simp add: PrepareRead_def R P [OF small] re g t(2) pl' available_read [OF lt(1,1,2) refl a(1)] del: of_nat_add)
  qed
qed

section \<open>Arrays come back\<close>

text \<open>
  Claim C17. On an idle ring at any position, \<open>WriteArray\<close> of \<open>n\<close> elements, \<open>FinishWrite\<close>, \<open>ReadArray\<close> of \<open>n\<close> elements and \<open>FinishRead\<close>
  give back the array and leave the ring idle, for every type of elements and every alignment, if there is room after the
  position or before it; otherwise \<open>WriteArray\<close> waits for a reader that has nothing to read.
\<close>

theorem ring_array_round_trip:
  assumes idle: "ring_idle N s" and al: "0 < al" "al \<le> N"
    and codec: "list_all (\<lambda>v. length (enc v) = sz \<and> dec (enc v) = v) vs"
    and len: "0 < sz * length vs" "sz * length vs \<le> N"
  shows "if ring_has_room N (sz * length vs) al s
    then \<exists>s1 s2. WriteArray enc sz al vs s = Some s1 \<and> ReadArray dec sz al (length vs) (FinishWrite s1) = Some (vs, s2) \<and>
      ring_idle N (FinishRead s2)
    else WriteArray enc sz al vs s = None"
proof -
  obtain b x we re where I: "ring_at N b x we re s" using idle by (auto simp: ring_idle_def)
  obtain p b' e where pl: "place N b x al (sz * length vs) = (p, b', e)" by (metis prod.collapse)
  note W = idle_write [OF I al len pl]
  show ?thesis
  proof (cases "ring_has_room N (sz * length vs) al s")
    case False
    with W show ?thesis by (simp add: WriteArray_def)
  next
    case True
    then obtain we' where we: "we' \<le> N" and w: "PrepareWrite (of_nat (sz * length vs)) (of_nat al) s =
        Some (p, s\<lparr>m_Writer := \<lparr>pos = of_nat e, lend = of_nat we', base = b', lsize = of_nat N\<rparr>\<rparr>)"
      using W by auto
    let ?s1 = "s\<lparr>m_Writer := \<lparr>pos = of_nat e, lend = of_nat we', base = b', lsize = of_nat N\<rparr>,
      memory := store_array enc (memory s) (unat p) vs\<rparr>"
    have s1: "WriteArray enc sz al vs s = Some ?s1" unfolding WriteArray_def w by simp
    have R: "PrepareRead (of_nat (sz * length vs)) (of_nat al) (FinishWrite ?s1) =
        Some (p, (FinishWrite ?s1)\<lparr>m_Reader := \<lparr>pos = of_nat e, lend = of_nat e, base = b', lsize = of_nat N\<rparr>\<rparr>)"
      and e: "e \<le> N" "unat p + sz * length vs = e"
      using written_read [OF I al len pl, of "FinishWrite ?s1"] by (simp_all add: FinishWrite_def)
    have N: "N < 2 ^ 60" "length (memory s) = N" using I by (simp_all add: ring_at_def)
    have lens: "list_all (\<lambda>v. length (enc v) = sz) vs" using codec by (simp add: list_all_iff)
    have "unat p + sz * length vs \<le> length (memory s)" using e N by simp
    note M = store_array_bytes [OF lens this]
    let ?s2 = "(FinishWrite ?s1)\<lparr>m_Reader := \<lparr>pos = of_nat e, lend = of_nat e, base = b', lsize = of_nat N\<rparr>\<rparr>"
    have "map (\<lambda>i. dec (load_bytes (memory ?s2) (unat p + i * sz) sz)) [0..<length vs] = map ((!) vs) [0..<length vs]"
      using M codec by (intro map_cong refl) (simp add: FinishWrite_def list_all_length)
    then have "ReadArray dec sz al (length vs) (FinishWrite ?s1) = Some (vs, ?s2)"
      unfolding ReadArray_def R by (simp add: map_nth)
    moreover have "ring_at N b' e we' e (FinishRead ?s2)"
      using M e N we by (simp add: ring_at_def FinishRead_def FinishWrite_def)
    ultimately show ?thesis using True s1 by (auto simp: ring_idle_def)
  qed
qed

text \<open>Two messages in a new ring of sixteen bytes.\<close>

theorem ring_array_round_trip_witness:
  "\<exists>s1 s2. WriteArray encode 4 4 [7, 8] (ring_new (replicate 16 0)) = Some s1 \<and>
     ReadArray decode 4 4 2 (FinishWrite s1) = Some ([7, 8], s2) \<and> ring_idle 16 (FinishRead s2)"
proof -
  have idle: "ring_idle 16 (ring_new (replicate 16 0))" using ring_idle_new [of "replicate 16 0"] by simp
  have "list_all (\<lambda>v. length (encode v) = 4 \<and> decode (encode v) = v) [7, 8]" by simp
  from ring_array_round_trip [OF idle _ _ this, of 4]
  have "if ring_has_room 16 8 4 (ring_new (replicate 16 0))
    then \<exists>s1 s2. WriteArray encode 4 4 [7, 8] (ring_new (replicate 16 0)) = Some s1 \<and>
      ReadArray decode 4 4 2 (FinishWrite s1) = Some ([7, 8], s2) \<and> ring_idle 16 (FinishRead s2)
    else WriteArray encode 4 4 [7, 8] (ring_new (replicate 16 0)) = None" by (simp add: numeral_2_eq_2 split del: if_split cong del: if_weak_cong)
  moreover have "ring_has_room 16 8 4 (ring_new (replicate 16 0))"
    by (simp add: ring_has_room_def ring_new_def Initialize_def Reset_def LocalState_def Align_def Let_def)
  ultimately show ?thesis by simp
qed

end
