(* ===== verification/Light_Semaphore.thy ===== *)
theory Light_Semaphore
  imports Conc_Prelude
begin

text \<open>
  ProducerConsumer/spsc_daugaard/v2/sema.h: \<open>LightweightSemaphore\<close>, which counts in an atomic and only
  goes to the semaphore of the system when it has to. Any number of threads make any calls. The count is an \<open>int\<close> of 32
  bits that wraps in \<open>fetch_add\<close> and \<open>fetch_sub\<close>; comparisons read it with its sign. What the semaphore
  promises, it promises within the range of the count, and the last lemma shows what happens beyond it.
\<close>

section \<open>The class\<close>

type_synonym c_int = "32 word"

record light_semaphore =
  m_count :: c_int
  m_sema :: nat

datatype sema_call = Wait | TryWait | Signal c_int

text \<open>
  A thread between two calls (\<open>Idle\<close>), in \<open>tryWait\<close> after its load (\<open>Try\<close>), in the loop of
  \<open>waitWithPartialSpinning\<close> with the rounds left (\<open>Spin\<close>, \<open>SpinCas\<close> after the load), before its
  \<open>fetch_sub\<close>, in \<open>m_sema.wait()\<close>, in \<open>m_sema.signal\<close> with so many posts left.
\<close>

datatype sema_pc =
    Idle
  | Try c_int
  | Spin nat
  | SpinCas nat c_int
  | FetchSub
  | Sleep
  | Posts nat

text \<open>A thread with the calls that are left, how often it has got the semaphore, and what it has signalled.\<close>

record sema_user =
  at :: sema_pc
  calls :: "sema_call list"
  passed :: nat
  signalled :: int

definition next_call :: "sema_user \<Rightarrow> sema_user" where
  "next_call u = u\<lparr>at := Idle, calls := tl (calls u)\<rparr>"

definition pass :: "sema_user \<Rightarrow> sema_user" where
  "pass u = next_call (u\<lparr>passed := passed u + 1\<rparr>)"

text \<open>\<open>wait\<close> goes on where \<open>tryWait\<close> returns false.\<close>

definition try_failed :: "nat \<Rightarrow> sema_user \<Rightarrow> sema_user" where
  "try_failed spins u = (case calls u of Wait # cs \<Rightarrow> u\<lparr>at := Spin spins\<rparr> | _ \<Rightarrow> next_call u)"

definition tryWait_load :: "nat \<Rightarrow> light_semaphore \<Rightarrow> sema_user \<Rightarrow> light_semaphore \<times> sema_user" where
  "tryWait_load spins s u =
     (let oldCount = m_count s in (s, if sint oldCount > 0 then u\<lparr>at := Try oldCount\<rparr> else try_failed spins u))"

definition tryWait_cas :: "nat \<Rightarrow> light_semaphore \<Rightarrow> c_int \<Rightarrow> sema_user \<Rightarrow> light_semaphore \<times> sema_user" where
  "tryWait_cas spins s oldCount u =
     (if m_count s = oldCount then (s\<lparr>m_count := oldCount - 1\<rparr>, pass u) else (s, try_failed spins u))"

fun waitWithPartialSpinning :: "light_semaphore \<Rightarrow> sema_user \<Rightarrow> sema_pc \<Rightarrow> (light_semaphore \<times> sema_user) list" where
  "waitWithPartialSpinning s u (Spin 0) = [(s, u\<lparr>at := FetchSub\<rparr>)]"
| "waitWithPartialSpinning s u (Spin (Suc spin)) =
     [(s, u\<lparr>at := if sint (m_count s) > 0 then SpinCas spin (m_count s) else Spin spin\<rparr>)]"
| "waitWithPartialSpinning s u (SpinCas spin oldCount) =
     [if m_count s = oldCount then (s\<lparr>m_count := oldCount - 1\<rparr>, pass u) else (s, u\<lparr>at := Spin spin\<rparr>)]"
| "waitWithPartialSpinning s u FetchSub =
     (let oldCount = m_count s
      in [(s\<lparr>m_count := oldCount - 1\<rparr>, if sint oldCount \<le> 0 then u\<lparr>at := Sleep\<rparr> else pass u)])"
| "waitWithPartialSpinning s u Sleep = (if m_sema s > 0 then [(s\<lparr>m_sema := m_sema s - 1\<rparr>, pass u)] else [])"
| "waitWithPartialSpinning s u _ = []"

definition light_signal :: "light_semaphore \<Rightarrow> c_int \<Rightarrow> sema_user \<Rightarrow> light_semaphore \<times> sema_user" where
  "light_signal s c u =
     (let oldCount = m_count s;
          toRelease = (if sint (- oldCount) < sint c then - oldCount else c);
          u = u\<lparr>signalled := signalled u + sint c\<rparr>
      in (s\<lparr>m_count := oldCount + c\<rparr>, if sint toRelease > 0 then u\<lparr>at := Posts (nat (sint toRelease))\<rparr> else next_call u))"

text \<open>\<open>Semaphore::signal(int count)\<close> posts one by one.\<close>

definition post :: "light_semaphore \<Rightarrow> nat \<Rightarrow> sema_user \<Rightarrow> light_semaphore \<times> sema_user" where
  "post s left u =
     (case left of 0 \<Rightarrow> (s, next_call u) | Suc left \<Rightarrow> (s\<lparr>m_sema := m_sema s + 1\<rparr>, u\<lparr>at := Posts left\<rparr>))"

definition light_thread :: "nat \<Rightarrow> (light_semaphore, sema_user) thread" where
  "light_thread spins t s u =
     (case at u of
        Idle \<Rightarrow> (case calls u of [] \<Rightarrow> [] | Signal c # cs \<Rightarrow> [light_signal s c u] | _ \<Rightarrow> [tryWait_load spins s u])
      | Try oldCount \<Rightarrow> [tryWait_cas spins s oldCount u]
      | Posts left \<Rightarrow> [post s left u]
      | pc \<Rightarrow> waitWithPartialSpinning s u pc)"

definition user :: "sema_call list \<Rightarrow> sema_user" where
  "user cs = \<lparr>at = Idle, calls = cs, passed = 0, signalled = 0\<rparr>"

definition light_init :: "c_int \<Rightarrow> sema_call list list \<Rightarrow> (light_semaphore, sema_user) conf" where
  "light_init initialCount css = (\<lparr>m_count = initialCount, m_sema = 0\<rparr>, map user css)"

section \<open>It counts\<close>

definition sleeps :: "sema_user \<Rightarrow> int" where
  "sleeps u = of_bool (at u = Sleep)"

definition posts_left :: "sema_user \<Rightarrow> int" where
  "posts_left u = (case at u of Posts k \<Rightarrow> int k | _ \<Rightarrow> 0)"

text \<open>What is in the semaphore: signals less the passes.\<close>

definition light_value :: "c_int \<Rightarrow> sema_user list \<Rightarrow> int" where
  "light_value initialCount us = sint initialCount + total signalled us - total (\<lambda>u. int (passed u)) us"

text \<open>A compare-and-swap is only made with a count that was positive.\<close>

definition cas_positive :: "sema_user \<Rightarrow> bool" where
  "cas_positive u \<longleftrightarrow> (case at u of Try oldCount \<Rightarrow> sint oldCount > 0 | SpinCas spin oldCount \<Rightarrow> sint oldCount > 0 | _ \<Rightarrow> True)"

text \<open>What a thread will still add to the count, with the calls that it has not begun.\<close>

definition call_amount :: "sema_call \<Rightarrow> int" where
  "call_amount c = (case c of Signal k \<Rightarrow> sint k | _ \<Rightarrow> 0)"

definition calls_left :: "sema_user \<Rightarrow> sema_call list" where
  "calls_left u = (case at u of Idle \<Rightarrow> calls u | _ \<Rightarrow> tl (calls u))"

definition to_signal :: "sema_user \<Rightarrow> int" where
  "to_signal u = sum_list (map call_amount (calls_left u))"

definition adds :: "sema_user \<Rightarrow> bool" where
  "adds u \<longleftrightarrow> list_all (\<lambda>c. 0 \<le> call_amount c) (calls_left u)"

text \<open>
  The range: no negative amounts, and neither the initial count with all signals nor the number of threads leaves the
  range of an \<open>int\<close>.
\<close>

definition light_range :: "c_int \<Rightarrow> sema_call list list \<Rightarrow> bool" where
  "light_range initialCount css \<longleftrightarrow> 0 \<le> sint initialCount \<and> list_all (list_all (\<lambda>c. 0 \<le> call_amount c)) css \<and>
     sint initialCount + sum_list (map (\<lambda>cs. sum_list (map call_amount cs)) css) < 2 ^ 31 \<and> length css < 2 ^ 31"

definition light_inv :: "c_int \<Rightarrow> light_semaphore \<Rightarrow> sema_user list \<Rightarrow> bool" where
  "light_inv initialCount s us \<longleftrightarrow> list_all (\<lambda>u. cas_positive u \<and> adds u) us \<and>
     total sleeps us = int (m_sema s) + total posts_left us + max 0 (- sint (m_count s)) \<and>
     light_value initialCount us = sint (m_count s) + total sleeps us \<and>
     sint initialCount + total signalled us + total to_signal us < 2 ^ 31 \<and> length us < 2 ^ 31"

definition call_work :: "nat \<Rightarrow> sema_call \<Rightarrow> nat" where
  "call_work spins c = (case c of Signal k \<Rightarrow> nat (sint k) + 2 | _ \<Rightarrow> 2 * spins + 5)"

definition pc_work :: "nat \<Rightarrow> sema_user \<Rightarrow> nat" where
  "pc_work spins u = (case at u of Idle \<Rightarrow> (case calls u of [] \<Rightarrow> 0 | c # cs \<Rightarrow> call_work spins c)
     | Try _ \<Rightarrow> 2 * spins + 4 | Spin k \<Rightarrow> 2 * k + 3 | SpinCas k _ \<Rightarrow> 2 * k + 4 | FetchSub \<Rightarrow> 2 | Sleep \<Rightarrow> 1
     | Posts k \<Rightarrow> k + 1)"

definition user_work :: "nat \<Rightarrow> sema_user \<Rightarrow> nat" where
  "user_work spins u = pc_work spins u + sum_list (map (call_work spins) (tl (calls u)))"

lemmas light_defs = tryWait_load_def tryWait_cas_def light_signal_def post_def pass_def
  next_call_def try_failed_def Let_def

text \<open>A call that returns leaves the work of the following ones.\<close>

lemma next_call_simps [simp]:
  "at (next_call u) = Idle" "passed (next_call u) = passed u" "signalled (next_call u) = signalled u"
  "user_work spins (next_call u) = sum_list (map (call_work spins) (tl (calls u)))"
  by (simp_all add: next_call_def user_work_def pc_work_def split: list.splits)

lemma amounts_nonneg: "list_all (\<lambda>c. 0 \<le> call_amount c) cs \<Longrightarrow> 0 \<le> sum_list (map call_amount cs)"
  by (induction cs) simp_all

text \<open>What one action of a thread changes.\<close>

definition light_change :: "nat \<Rightarrow> light_semaphore \<Rightarrow> sema_user \<Rightarrow> light_semaphore \<Rightarrow> sema_user \<Rightarrow> bool" where
  "light_change spins s u s' u' \<longleftrightarrow> cas_positive u' \<and> adds u' \<and>
     sleeps u' - sleeps u = int (m_sema s') - int (m_sema s) + posts_left u' - posts_left u +
       max 0 (- sint (m_count s')) - max 0 (- sint (m_count s)) \<and>
     signalled u' - signalled u - (int (passed u') - int (passed u)) =
       sint (m_count s') - sint (m_count s) + sleeps u' - sleeps u \<and>
     signalled u' + to_signal u' = signalled u + to_signal u \<and>
     user_work spins u' < user_work spins u"

text \<open>The arithmetic of the count, where it stays in its range.\<close>

lemma sint_in_range:
  fixes m c :: c_int
  shows "- (2 ^ 31) \<le> sint m + sint c \<Longrightarrow> sint m + sint c < 2 ^ 31 \<Longrightarrow> sint (m + c) = sint m + sint c"
    and "- (2 ^ 31) \<le> sint m - sint c \<Longrightarrow> sint m - sint c < 2 ^ 31 \<Longrightarrow> sint (m - c) = sint m - sint c"
  by (simp_all add: sint_word_add sint_word_diff signed_take_bit_int_eq_self)

lemma sint_less_one: "- (2 ^ 31) < sint (m :: c_int) \<Longrightarrow> sint (m - 1) = sint m - 1"
  using sint_in_range(2) [of m 1] sint_lt [of m] by simp

lemma sint_negated: "- (2 ^ 31) < sint (m :: c_int) \<Longrightarrow> sint (- m) = - sint m"
  using sint_in_range(2) [of 0 m] sint_lt [of m] by simp

lemmas light_measures = light_change_def sleeps_def posts_left_def cas_positive_def adds_def to_signal_def calls_left_def
  user_work_def pc_work_def call_work_def call_amount_def

lemma signal_action:
  assumes u: "at u = Idle" "calls u = Signal c # cs" "adds u" and m: "- (2 ^ 31) < sint (m_count s)"
    and c: "sint (m_count s) + sint c < 2 ^ 31" and st: "(s', u') = light_signal s c u"
  shows "light_change spins s u s' u'"
proof -
  have nn: "0 \<le> sint c" using u by (simp add: adds_def calls_left_def call_amount_def)
  have sum: "sint (m_count s + c) = sint (m_count s) + sint c" using m nn c by (intro sint_in_range(1)) simp_all
  note neg = sint_negated [OF m]
  show ?thesis
    using u st nn by (auto simp: light_defs light_measures sum neg max_def split: list.splits)
qed

lemma light_action:
  assumes "cas_positive u" and "adds u" and st: "(s', u') \<in> set (light_thread spins i s u)"
    and m: "- (2 ^ 31) < sint (m_count s)" and c: "sint (m_count s) + to_signal u < 2 ^ 31"
  shows "light_change spins s u s' u'"
proof (cases "at u")
  case Idle
  then show ?thesis
  proof (cases "calls u")
    case Nil
    with Idle assms show ?thesis by (simp add: light_thread_def)
  next
    case (Cons x cs)
    show ?thesis
    proof (cases x)
      case (Signal k)
      have "0 \<le> sum_list (map call_amount cs)" using assms(2) Idle Cons by (simp add: adds_def calls_left_def amounts_nonneg)
      then have "sint (m_count s) + sint k < 2 ^ 31"
        using c Idle Cons Signal by (simp add: to_signal_def calls_left_def call_amount_def)
      with signal_action [of u k cs s] Idle Cons Signal assms(2) m st show ?thesis by (auto simp: light_thread_def)
    qed (use Idle Cons assms in \<open>auto simp: light_thread_def light_defs light_measures split: if_splits list.splits\<close>)
  qed
next
  case (Spin k)
  with assms show ?thesis
    by (cases k) (auto simp: light_thread_def light_measures split: if_splits)
next
  case (Posts k)
  with assms show ?thesis
    by (cases k) (auto simp: light_thread_def light_defs light_measures split: list.splits)
qed (use assms in \<open>auto simp: light_thread_def light_defs light_measures sint_less_one [OF m] max_def
      split: if_splits list.splits sema_call.splits\<close>)

text \<open>Within its range, the count is between the number of threads that sleep and the value.\<close>

lemma total_nonneg: "(\<And>u. u \<in> set us \<Longrightarrow> 0 \<le> f u) \<Longrightarrow> 0 \<le> total f us"
  by (induction us) (simp_all add: add_nonneg_nonneg)

lemma total_member: "i < length us \<Longrightarrow> (\<And>u. u \<in> set us \<Longrightarrow> 0 \<le> f u) \<Longrightarrow> f (us ! i) \<le> total f us"
proof (induction us arbitrary: i)
  case Nil
  then show ?case by simp
next
  case (Cons u us)
  have "0 \<le> total f us" "0 \<le> f u" using Cons.prems(2) by (simp_all add: total_nonneg)
  show ?case
  proof (cases i)
    case 0
    with \<open>0 \<le> total f us\<close> show ?thesis by simp
  next
    case (Suc j)
    with Cons have "f (us ! j) \<le> total f us" by simp
    with Suc \<open>0 \<le> f u\<close> show ?thesis by simp
  qed
qed

lemma sleeps_nonneg: "0 \<le> sleeps u" and posts_nonneg: "0 \<le> posts_left u"
  by (auto simp: sleeps_def posts_left_def split: sema_pc.splits)

lemma to_signal_nonneg: "adds u \<Longrightarrow> 0 \<le> to_signal u"
  by (simp add: adds_def to_signal_def amounts_nonneg)

lemma value_nonneg:
  assumes "light_inv c0 s us"
  shows "0 \<le> light_value c0 us"
proof -
  have "0 \<le> total posts_left us" by (rule total_nonneg, rule posts_nonneg)
  with assms show ?thesis by (auto simp: light_inv_def max_def split: if_splits)
qed

lemma light_bounds:
  assumes inv: "light_inv c0 s us" and i: "i < length us"
  shows "- (2 ^ 31) < sint (m_count s)" and "sint (m_count s) + to_signal (us ! i) < 2 ^ 31"
proof -
  have users: "list_all (\<lambda>u. cas_positive u \<and> adds u) us" using inv by (simp add: light_inv_def)
  have le: "total sleeps us \<le> int (length us) * 1 \<and> 0 \<le> total sleeps us"
    using total_bounds [of us sleeps 1] by (auto simp: sleeps_def)
  then show "- (2 ^ 31) < sint (m_count s)"
    using value_nonneg [OF inv] inv by (simp add: light_inv_def)
  have "to_signal (us ! i) \<le> total to_signal us"
    using users by (intro total_member i to_signal_nonneg) (simp add: list_all_iff)
  moreover have "0 \<le> total (\<lambda>u. int (passed u)) us" by (rule total_nonneg) simp
  ultimately show "sint (m_count s) + to_signal (us ! i) < 2 ^ 31"
    using inv le by (simp add: light_inv_def light_value_def)
qed

lemma light_step:
  assumes inv: "light_inv c0 s us" and i: "i < length us" and st: "(s', u') \<in> set (light_thread spins i s (us ! i))"
  shows "light_inv c0 s' (us[i := u']) \<and>
    workload (user_work spins) (us[i := u']) < workload (user_work spins) us"
proof -
  have "cas_positive (us ! i)" "adds (us ! i)" using inv i by (simp_all add: light_inv_def list_all_length)
  from light_action [OF this st light_bounds [OF inv i]] have C: "light_change spins s (us ! i) s' u'" .
  then have "list_all (\<lambda>u. cas_positive u \<and> adds u) (us[i := u'])"
    using inv by (intro list_all_upd) (simp_all add: light_inv_def light_change_def)
  then show ?thesis
    using inv i C workload_less [of i us "user_work spins" u' 0 0]
    by (auto simp: light_inv_def light_value_def light_change_def counting)
qed

lemma light_start:
  assumes "light_range c0 css"
  shows "light_inv c0 (fst (light_init c0 css)) (snd (light_init c0 css))"
proof -
  have z: "total f (map user css) = 0" if "\<And>cs. f (user cs) = 0" for f
    using that by (induction css) auto
  have "total to_signal (map user css) = sum_list (map (\<lambda>cs. sum_list (map call_amount cs)) css)"
    by (induction css) (simp_all add: to_signal_def calls_left_def user_def)
  with z [of sleeps] z [of posts_left] z [of signalled] z [of "\<lambda>u. int (passed u)"] assms
  show ?thesis
    by (simp add: light_range_def light_inv_def light_value_def light_init_def user_def cas_positive_def adds_def calls_left_def
        sleeps_def posts_left_def list.pred_map list_all_iff)
qed

text \<open>The program, for a spin count, an initial count and calls within the range.\<close>

locale light_program =
  fixes spins :: nat
    and c0 :: c_int
    and css :: "sema_call list list"
  assumes in_range: "light_range c0 css"

sublocale light_program \<subseteq> light: thread_term "light_thread spins" "light_init c0 css" "light_inv c0"
  "\<lambda>s us. workload (user_work spins) us"
  using light_step light_start [OF in_range] by unfold_locales blast+

context light_program
begin

lemma reached: "reach (light_thread spins) (light_init c0 css) (s, us) \<Longrightarrow> light_inv c0 s us"
  by (rule light.reach_inv)

lemma finite_runs: "reach (light_thread spins) (light_init c0 css) (s, us) \<Longrightarrow>
    \<forall>f. f 0 = (s, us) \<longrightarrow> \<not> (\<forall>k. istep (light_thread spins) (f k) (f (Suc k)))"
  using light.no_infinite_run by metis

end

interpretation light_example: light_program 1 0 "[[Wait], [Signal 2, TryWait]]"
  by unfold_locales (simp add: light_range_def call_amount_def)

lemma total_zero: "total f us = 0 \<Longrightarrow> (\<And>u. 0 \<le> f u) \<Longrightarrow> i < length us \<Longrightarrow> f (us ! i) = 0"
proof (induction us arbitrary: i)
  case Nil
  then show ?case by simp
next
  case (Cons u us)
  then have "0 \<le> f u" "0 \<le> total f us" "f u + total f us = 0" by (simp_all add: total_nonneg)
  then have "f u = 0 \<and> total f us = 0" by linarith
  with Cons show ?case by (cases i) auto
qed

lemma light_blocked:
  assumes "light_thread spins i s u = []"
  shows "at u = Idle \<and> calls u = [] \<or> at u = Sleep \<and> m_sema s = 0"
proof (cases "at u")
  case (Spin k)
  with assms show ?thesis by (cases k) (auto simp: light_thread_def)
qed (use assms in \<open>auto simp: light_thread_def Let_def split: list.splits sema_call.splits if_splits\<close>)

text \<open>
  Claim C39. \<open>LightweightSemaphore\<close> is a counting semaphore, for any threads and calls within the range of its
  32-bit count: the waits that
  have passed never outnumber the initial count and the signals, no run is infinite, and when nothing can
  go on, every thread has made all its calls or sleeps in a \<open>wait\<close> although everything signalled has
  been taken: no wakeup is lost between the atomic count and the semaphore of the system.
\<close>

theorem light_semaphore_counts:
  assumes "light_range c0 css" and "reach (light_thread spins) (light_init c0 css) (s, us)"
  shows "0 \<le> light_value c0 us \<and> (\<forall>f. f 0 = (s, us) \<longrightarrow> \<not> (\<forall>k. istep (light_thread spins) (f k) (f (Suc k)))) \<and>
    (stuck (light_thread spins) (s, us) \<longrightarrow>
      (\<forall>i < length us. at (us ! i) = Idle \<and> calls (us ! i) = [] \<or> at (us ! i) = Sleep \<and> light_value c0 us = 0))"
proof (intro conjI)
  have P: "light_program c0 css" using assms(1) by unfold_locales
  have inv: "light_inv c0 s us" by (rule light_program.reached [OF P assms(2)])
  have nn: "0 \<le> total sleeps us" "0 \<le> total posts_left us"
    by (rule total_nonneg, rule sleeps_nonneg posts_nonneg)+
  show "0 \<le> light_value c0 us" by (rule value_nonneg [OF inv])
  show "\<forall>f. f 0 = (s, us) \<longrightarrow> \<not> (\<forall>k. istep (light_thread spins) (f k) (f (Suc k)))"
    by (rule light_program.finite_runs [OF P assms(2)])
  show "stuck (light_thread spins) (s, us) \<longrightarrow>
      (\<forall>i < length us. at (us ! i) = Idle \<and> calls (us ! i) = [] \<or> at (us ! i) = Sleep \<and> light_value c0 us = 0)"
  proof (intro impI allI)
    fix i assume st: "stuck (light_thread spins) (s, us)" and i: "i < length us"
    have blocked: "at u = Idle \<and> calls u = [] \<or> at u = Sleep \<and> m_sema s = 0" if "u \<in> set us" for u
      using st light_blocked that by (fastforce simp: stuck_iff in_set_conv_nth)
    then have "total posts_left us = int (length us) * 0" by (intro total_const) (fastforce dest: blocked simp: posts_left_def)
    then have "light_value c0 us = 0" if "at (us ! i) = Sleep"
      using inv blocked [of "us ! i"] that i cnt_nonneg total_zero [of sleeps us i] sleeps_nonneg nn
      by (auto simp: light_inv_def sleeps_def max_def split: if_splits)
    then show "at (us ! i) = Idle \<and> calls (us ! i) = [] \<or> at (us ! i) = Sleep \<and> light_value c0 us = 0"
      using blocked [of "us ! i"] i by auto
  qed
qed

theorem light_semaphore_counts_witness:
  "\<exists>s us. light_range 0 [[Wait], [Signal 2, TryWait]] \<and>
    reach (light_thread 1) (light_init 0 [[Wait], [Signal 2, TryWait]]) (s, us) \<and> m_sema s = 1 \<and>
    sint (m_count s) = 1 \<and> 0 \<le> light_value 0 us"
proof -
  have "map_option (\<lambda>(s, us). (m_sema s, sint (m_count s))) (sched (light_thread 1) (map (\<lambda>i. (i, 0)) [0, 0, 0, 0, 1, 1])
      (light_init 0 [[Wait], [Signal 2, TryWait]])) = Some (1, 1)"
    by code_simp
  from sched_observe [OF this] obtain s us where
    r: "reach (light_thread 1) (light_init 0 [[Wait], [Signal 2, TryWait]]) (s, us)" "m_sema s = 1" "sint (m_count s) = 1" by auto
  note R = light_example.in_range
  from light_semaphore_counts [OF R r(1)] R r show ?thesis by blast
qed

text \<open>
  Beyond the range it does not: a signal on top of the greatest count makes the count negative, and a wait then sleeps
  although \<open>2 ^ 31\<close> signals have not been taken.
\<close>

lemma light_semaphore_overflows:
  "\<exists>s us. reach (light_thread 1) (light_init 2147483647 [[Signal 1], [Wait]]) (s, us) \<and>
     stuck (light_thread 1) (s, us) \<and> map at us = [Idle, Sleep] \<and> light_value 2147483647 us = 2 ^ 31"
proof -
  have "map_option (\<lambda>(s, us). (stuck (light_thread 1) (s, us), map at us, light_value 2147483647 us))
      (sched (light_thread 1) (map (\<lambda>i. (i, 0)) [0, 1, 1, 1, 1]) (light_init 2147483647 [[Signal 1], [Wait]])) =
      Some (True, [Idle, Sleep], 2 ^ 31)"
    by code_simp
  from sched_observe [OF this] show ?thesis by auto
qed

end
