(* ===== verification/Monitor_Object.thy ===== *)
theory Monitor_Object
  imports Condition_Variables "HOL-Library.Multiset"
begin

text \<open>
  MonitorObject/Cpp11 and MonitorObject/Cpp20: a queue that inherits a mutex and a condition variable from
  \<open>Monitor\<close>. \<open>Monitor::wait\<close> locks, waits and unlocks again on return, so \<open>get\<close> takes the mutex a second
  time before it takes an element.
\<close>

section \<open>The classes\<close>

record monitor_object =
  monitMutex :: bool
  monitCond :: condvar
  myQueue :: "int list"

text \<open>
  \<open>add\<close>: \<open>AddLock\<close> to \<open>AddNotify\<close>. \<open>get\<close>: the places of \<open>wait\<close> (\<open>GetWait\<close> to \<open>GetLeave\<close>), the
  second lock, the access to the queue, the unlock. \<open>GetBroken\<close>: \<open>front\<close> of an empty queue, which is undefined.
\<close>

datatype object_pc =
    AddLock int
  | AddPush int
  | AddUnlock
  | AddNotify
  | AddDone
  | GetWait
  | GetTest
  | GetBlock
  | GetSleep
  | GetLeave
  | GetLock
  | GetTake
  | GetUnlock int
  | GetDone int
  | GetBroken

fun object_add :: "monitor_object \<Rightarrow> object_pc \<Rightarrow> (monitor_object \<times> object_pc) list" where
  "object_add s (AddLock val) = (if monitMutex s then [] else [(s\<lparr>monitMutex := True\<rparr>, AddPush val)])"
| "object_add s (AddPush val) = [(s\<lparr>myQueue := myQueue s @ [val]\<rparr>, AddUnlock)]"
| "object_add s AddUnlock = [(s\<lparr>monitMutex := False\<rparr>, AddNotify)]"
| "object_add s AddNotify = map (\<lambda>ws. (s\<lparr>monitCond := ws\<rparr>, AddDone)) (notify_one (monitCond s))"
| "object_add s _ = []"

fun object_wait :: "bool \<Rightarrow> nat \<Rightarrow> monitor_object \<Rightarrow> object_pc \<Rightarrow> (monitor_object \<times> object_pc) list" where
  "object_wait sp t s GetWait = (if monitMutex s then [] else [(s\<lparr>monitMutex := True\<rparr>, GetTest)])"
| "object_wait sp t s GetTest = [(s, if myQueue s \<noteq> [] then GetLeave else GetBlock)]"
| "object_wait sp t s GetBlock = [(s\<lparr>monitCond := monitCond s @ [t], monitMutex := False\<rparr>, GetSleep)]"
| "object_wait sp t s GetSleep =
     (if may_resume sp t (monitCond s) (monitMutex s)
      then [(s\<lparr>monitMutex := True, monitCond := remove1 t (monitCond s)\<rparr>, GetTest)] else [])"
| "object_wait sp t s GetLeave = [(s\<lparr>monitMutex := False\<rparr>, GetLock)]"
| "object_wait sp t s _ = []"

fun object_get :: "monitor_object \<Rightarrow> object_pc \<Rightarrow> (monitor_object \<times> object_pc) list" where
  "object_get s GetLock = (if monitMutex s then [] else [(s\<lparr>monitMutex := True\<rparr>, GetTake)])"
| "object_get s GetTake =
     (case myQueue s of [] \<Rightarrow> [(s, GetBroken)] | val # vals \<Rightarrow> [(s\<lparr>myQueue := vals\<rparr>, GetUnlock val)])"
| "object_get s (GetUnlock val) = [(s\<lparr>monitMutex := False\<rparr>, GetDone val)]"
| "object_get s _ = []"

definition object_thread :: "bool \<Rightarrow> (monitor_object, object_pc) thread" where
  "object_thread sp t s pc = object_add s pc @ object_wait sp t s pc @ object_get s pc"

text \<open>\<open>main\<close> has ten threads that add a throw of the dice and ten that get one.\<close>

definition object_main :: "int list \<Rightarrow> nat \<Rightarrow> (monitor_object, object_pc) conf" where
  "object_main vals getters =
     (\<lparr>monitMutex = False, monitCond = [], myQueue = []\<rparr>, replicate getters GetWait @ map AddLock vals)"

text \<open>
  The classes of the program for C++20 only differ in the concept that \<open>wait\<close> asks of its argument; \<open>main\<close>
  starts the getting threads first, which has no influence on the interleavings.
\<close>

definition object20_thread :: "bool \<Rightarrow> (monitor_object, object_pc) thread" where
  "object20_thread sp = object_thread sp"

definition object20_main :: "int list \<Rightarrow> nat \<Rightarrow> (monitor_object, object_pc) conf" where
  "object20_main vals getters =
     (\<lparr>monitMutex = False, monitCond = [], myQueue = []\<rparr>, replicate getters GetWait @ map AddLock vals)"

section \<open>Nothing is lost\<close>

fun held :: "object_pc \<Rightarrow> int multiset" where
  "held (AddLock val) = {#val#}"
| "held (AddPush val) = {#val#}"
| "held (GetUnlock val) = {#val#}"
| "held (GetDone val) = {#val#}"
| "held _ = {#}"

definition object_inv :: "int list \<Rightarrow> monitor_object \<Rightarrow> object_pc list \<Rightarrow> bool" where
  "object_inv vals s ls \<longleftrightarrow> sum_list (map held ls) + mset (myQueue s) = mset vals"

lemma object_step_held:
  "(s', l') \<in> set (object_thread sp i s l) \<Longrightarrow> held l' + mset (myQueue s') = held l + mset (myQueue s)"
  by (cases l) (auto simp: object_thread_def split: if_splits list.splits)

lemma object_start: "object_inv vals (fst (object_main vals n)) (snd (object_main vals n))"
proof -
  have "sum_list (map held (replicate n GetWait)) = {#}" by (induction n) simp_all
  moreover have "sum_list (map held (map AddLock vals)) = mset vals" by (induction vals) simp_all
  ultimately show ?thesis by (simp add: object_inv_def object_main_def)
qed

interpretation object: thread_inv "object_thread sp" "object_main vals n" "object_inv vals" for sp vals n
proof
  fix s ls i s' l'
  assume I: "object_inv vals s ls" and i: "i < length ls" and st: "(s', l') \<in> set (object_thread sp i s (ls ! i))"
  show "object_inv vals s' (ls[i := l'])"
    using I sum_conserved [OF i object_step_held [OF st]] by (simp add: object_inv_def)
qed (rule object_start)

section \<open>One getter\<close>

text \<open>With one getter, in first position: what it has seen in the queue stays there.\<close>

fun adding :: "object_pc \<Rightarrow> bool" where
  "adding (AddLock v) = True"
| "adding (AddPush v) = True"
| "adding AddUnlock = True"
| "adding AddNotify = True"
| "adding AddDone = True"
| "adding _ = False"

fun seen_element :: "monitor_object \<Rightarrow> object_pc \<Rightarrow> bool" where
  "seen_element s GetLeave = (myQueue s \<noteq> [])"
| "seen_element s GetLock = (myQueue s \<noteq> [])"
| "seen_element s GetTake = (myQueue s \<noteq> [])"
| "seen_element s GetBroken = False"
| "seen_element s l = (\<not> adding l)"

definition one_getter :: "monitor_object \<Rightarrow> object_pc list \<Rightarrow> bool" where
  "one_getter s ls \<longleftrightarrow> (\<exists>g as. ls = g # as \<and> seen_element s g \<and> list_all adding as)"

lemma getter_step:
  "seen_element s g \<Longrightarrow> (s', g') \<in> set (object_thread sp i s g) \<Longrightarrow> seen_element s' g'"
  by (cases g) (auto simp: object_thread_def split: if_splits list.splits)

lemma adder_step:
  "adding a \<Longrightarrow> (s', a') \<in> set (object_thread sp i s a) \<Longrightarrow>
    adding a' \<and> (myQueue s \<noteq> [] \<longrightarrow> myQueue s' \<noteq> [])"
  by (cases a) (auto simp: object_thread_def split: if_splits)

lemma seen_element_keep:
  "seen_element s g \<Longrightarrow> (myQueue s \<noteq> [] \<longrightarrow> myQueue s' \<noteq> []) \<Longrightarrow> seen_element s' g"
  by (cases g) auto

interpretation single_getter: thread_inv "object_thread sp" "object_main vals 1" one_getter for sp vals
proof
  show "one_getter (fst (object_main vals 1)) (snd (object_main vals 1))"
    by (simp add: one_getter_def object_main_def list_all_iff)
next
  fix s ls i s' l'
  assume "one_getter s ls" and i: "i < length ls" and st: "(s', l') \<in> set (object_thread sp i s (ls ! i))"
  then obtain g as where ls: "ls = g # as" "seen_element s g" "list_all adding as" by (auto simp: one_getter_def)
  show "one_getter s' (ls[i := l'])"
  proof (cases i)
    case 0
    with ls st getter_step show ?thesis by (auto simp: one_getter_def)
  next
    case (Suc j)
    then have j: "j < length as" "adding (as ! j)" "(s', l') \<in> set (object_thread sp i s (as ! j))"
      using i ls st by (simp_all add: list_all_length)
    from adder_step [OF j(2,3)] seen_element_keep [OF ls(2)] ls(1,3) Suc show ?thesis
      by (auto simp: one_getter_def intro: list_all_upd)
  qed
qed

section \<open>What the monitor object promises\<close>

text \<open>
  For any number of adding and getting threads: the values that are still to be added, those in the
  queue and those that have been got are the values of the adding threads. None is lost or got twice.
\<close>

theorem monitor_object_conserves:
  assumes "reach (object_thread sp) (object_main vals getters) (s, ls)"
  shows "sum_list (map held ls) + mset (myQueue s) = mset vals"
  using object.reach_inv [OF assms] by (simp add: object_inv_def)

text \<open>
  With a single getting thread, \<open>get\<close> never takes the front of an empty queue, although it gives the
  mutex back between its test and its access.
\<close>

theorem monitor_object_one_getter:
  assumes "reach (object_thread sp) (object_main vals 1) (s, ls)"
  shows "GetBroken \<notin> set ls"
proof -
  obtain g as where "ls = g # as" "seen_element s g" "list_all adding as"
    using single_getter.reach_inv [OF assms] by (auto simp: one_getter_def)
  then show ?thesis by (cases g) (auto simp: list_all_iff)
qed

text \<open>
  Two getters see the one element that is in the queue: each tests, gives the mutex back, and then takes the
  front.
\<close>

definition both_schedule :: "(nat \<times> nat) list" where
  "both_schedule = map (\<lambda>i. (i, 0)) (replicate 3 10 @ replicate 3 0 @ replicate 3 1 @ replicate 3 0 @ replicate 2 1)"

text \<open>
  Claim C34. With the ten adding and ten getting threads of \<open>main\<close>, the test and the access of \<open>get\<close> being two
  critical sections, a getter can take the front of an empty queue, which is undefined behaviour.
\<close>

theorem monitor_object_takes_from_empty:
  assumes "length vals = 10"
  shows "(\<exists>s ls. reach (object_thread False) (object_main vals 10) (s, ls) \<and> GetBroken \<in> set ls \<and> myQueue s = []) \<and>
    (\<exists>s ls. reach (object20_thread False) (object20_main vals 10) (s, ls) \<and> GetBroken \<in> set ls \<and> myQueue s = [])"
proof -
  obtain v vs where v: "vals = v # vs" using assms by (cases vals) auto
  have "\<exists>s ls. sched (object_thread False) both_schedule (object_main vals 10) = Some (s, ls) \<and>
      GetBroken \<in> set ls \<and> myQueue s = []"
    by (simp add: both_schedule_def object_main_def object_thread_def v upd_Cons_numeral replicate_unroll nth_append)
  then have "\<exists>s ls. reach (object_thread False) (object_main vals 10) (s, ls) \<and> GetBroken \<in> set ls \<and> myQueue s = []"
    by (auto dest: sched_reach)
  then show ?thesis by (simp add: object20_thread_def object20_main_def object_main_def)
qed

theorem monitor_object_takes_from_empty_witness:
  "\<exists>s ls. reach (object_thread False) (object_main [1, 2, 3, 4, 5, 6, 1, 2, 3, 4] 10) (s, ls) \<and>
    GetBroken \<in> set ls \<and> myQueue s = []"
  using monitor_object_takes_from_empty [of "[1, 2, 3, 4, 5, 6, 1, 2, 3, 4]"] by simp

text \<open>A run in which one adder and one getter go through.\<close>

lemma monitor_object_run:
  "\<exists>s. reach (object_thread False) (object_main [4] 1) (s, [GetDone 4, AddDone])"
proof -
  have "\<exists>s. sched (object_thread False) (map (\<lambda>i. (i, 0)) (replicate 3 0 @ replicate 4 1 @ replicate 6 0)) (object_main [4] 1) =
      Some (s, [GetDone 4, AddDone])"
    by (simp add: object_main_def object_thread_def notify_one_def may_resume_def upd_Cons_numeral replicate_unroll)
  then show ?thesis by (auto dest: sched_reach)
qed

theorem monitor_object_conserves_witness:
  "\<exists>s. reach (object_thread False) (object_main [4] 1) (s, [GetDone 4, AddDone]) \<and>
    sum_list (map held [GetDone 4, AddDone]) + mset (myQueue s) = mset [4]"
  using monitor_object_run monitor_object_conserves by blast

theorem monitor_object_one_getter_witness:
  "GetBroken \<notin> set [GetDone 4, AddDone]"
  using monitor_object_run monitor_object_one_getter by blast

end
