(* ===== verification/Hazard_Stack.thy ===== *)
theory Hazard_Stack
  imports Conc_Prelude
begin

text \<open>
  LockFree/HazardPointerStack/main.cpp: a lock-free stack that deletes its nodes. Addresses are indices of
  a heap whose cells can be freed and used again, so a stale pointer can be dereferenced and an old head
  can come back. The theory holds the program; its proofs are in \<open>Hazard_Safety\<close>.
\<close>

section \<open>Memory\<close>

text \<open>A node is its data and its next pointer; a freed cell is \<open>None\<close>. \<open>new\<close> returns any free cell or a new one.\<close>

type_synonym node_heap = "(int \<times> nat option) option list"

definition cell_at :: "'a option list \<Rightarrow> nat \<Rightarrow> 'a option" where
  "cell_at h a = (if a < length h then h ! a else None)"

definition free_cells :: "'a option list \<Rightarrow> nat list" where
  "free_cells h = [a \<leftarrow> [0..<length h]. h ! a = None] @ [length h]"

definition put :: "'a option list \<Rightarrow> nat \<Rightarrow> 'a option \<Rightarrow> 'a option list" where
  "put h a x = (if a < length h then h[a := x] else h @ [x])"

section \<open>The classes\<close>

definition MaxHazardPointers :: nat where "MaxHazardPointers = 50"

text \<open>
  \<open>slots\<close> are the hazard pointers, each with the id of its thread and its pointer. A \<open>RetiredNode\<close> is
  the address of its cell and the address of its node; \<open>RetiredNodes\<close> is the list that starts at the
  pointer of that name, and two such pointers are equal if the lists have the same first cell.
\<close>

type_synonym retired_node = "nat \<times> nat"

record hazard_stack =
  heap :: node_heap
  head :: "nat option"
  slots :: "(nat option \<times> nat option) list"
  RetiredNodes :: "retired_node list"
  cells :: "unit option list"

datatype hp_call = HPush int | HTopAndPop

datatype hp_result = HPushed | HPopped int | HEmpty | HNoSlot

text \<open>Where \<open>addToRetiredNodes\<close> returns to: \<open>topAndPop\<close>, or the loop of \<open>deleteUnusedNodes\<close>.\<close>

datatype retire_return = ToSweep int | ToLoop "retired_node list" int

datatype hp_pc =
    Idle
  | PushLoad nat
  | PushCas nat
  | Acquire nat
  | PopLoad
  | PopSet "nat option"
  | PopReload "nat option"
  | PopTest "nat option"
  | PopCas nat "nat option"
  | PopClear nat
  | PopData nat
  | PopScan nat int nat
  | PopRetire nat int
  | PopFree nat int
  | RetireLoad retired_node retire_return
  | RetireCas retired_node "nat option" retire_return
  | SweepTake int
  | SweepAt "retired_node list" int
  | SweepScan retired_node "retired_node list" int nat
  | SweepDelete retired_node "retired_node list" int
  | ExitPointer
  | ExitId
  | Ended
  | Broken

text \<open>A thread: its calls, its place, its \<open>thread_local\<close> hazard pointer and the results of its calls.\<close>

record hp_thread =
  hcalls :: "hp_call list"
  hpc :: hp_pc
  slot :: "nat option"
  hresults :: "hp_result list"

definition goto :: "hp_thread \<Rightarrow> hp_pc \<Rightarrow> hp_thread" where
  "goto l pc = l\<lparr>hpc := pc\<rparr>"

definition returns :: "hp_thread \<Rightarrow> hp_result \<Rightarrow> hp_thread" where
  "returns l r = l\<lparr>hcalls := tl (hcalls l), hpc := Idle, hresults := hresults l @ [r]\<rparr>"

text \<open>An exception ends the task of the thread; it is stored in the future.\<close>

definition throws :: "hp_thread \<Rightarrow> hp_result \<Rightarrow> hp_thread" where
  "throws l r = l\<lparr>hcalls := [], hpc := Idle, hresults := hresults l @ [r]\<rparr>"

type_synonym hp_out = "(hazard_stack \<times> hp_thread) list"

definition first_cell :: "retired_node list \<Rightarrow> nat option" where
  "first_cell rs = (case rs of [] \<Rightarrow> None | (c, a) # _ \<Rightarrow> Some c)"

text \<open>\<open>push\<close>. The compare-exchange writes the head into \<open>newMyNode->next\<close> when it fails.\<close>

definition link_node :: "hazard_stack \<Rightarrow> nat \<Rightarrow> hp_thread \<Rightarrow> hp_out" where
  "link_node s a l =
     (case cell_at (heap s) a of
        None \<Rightarrow> [(s, goto l Broken)]
      | Some (d, n) \<Rightarrow> [(s\<lparr>heap := put (heap s) a (Some (d, head s))\<rparr>, goto l (PushCas a))])"

fun hp_push :: "hazard_stack \<Rightarrow> hp_thread \<Rightarrow> hp_pc \<Rightarrow> hp_out" where
  "hp_push s l Idle =
     (case hcalls l of
        HPush val # _ \<Rightarrow>
          map (\<lambda>a. (s\<lparr>heap := put (heap s) a (Some (val, None))\<rparr>, goto l (PushLoad a))) (free_cells (heap s))
      | _ \<Rightarrow> [])"
| "hp_push s l (PushLoad a) = link_node s a l"
| "hp_push s l (PushCas a) =
     (case cell_at (heap s) a of
        None \<Rightarrow> [(s, goto l Broken)]
      | Some (d, n) \<Rightarrow>
          if head s = n then [(s\<lparr>head := Some a\<rparr>, returns l HPushed)] else link_node s a l)"
| "hp_push s l _ = []"

text \<open>\<open>getHazardPointer\<close>: the first call of a thread takes a free slot.\<close>

fun getHazardPointer :: "nat \<Rightarrow> hazard_stack \<Rightarrow> hp_thread \<Rightarrow> hp_pc \<Rightarrow> hp_out" where
  "getHazardPointer t s l Idle =
     (case hcalls l of
        HTopAndPop # _ \<Rightarrow> [(s, goto l (if slot l = None then Acquire 0 else PopLoad))]
      | _ \<Rightarrow> [])"
| "getHazardPointer t s l (Acquire i) =
     (if i < MaxHazardPointers
      then if fst (slots s ! i) = None
           then [(s\<lparr>slots := (slots s)[i := (Some t, snd (slots s ! i))]\<rparr>, goto (l\<lparr>slot := Some i\<rparr>) PopLoad)]
           else [(s, goto l (Acquire (i + 1)))]
      else [(s, throws l HNoSlot)])"
| "getHazardPointer t s l _ = []"

definition set_hazard :: "hazard_stack \<Rightarrow> hp_thread \<Rightarrow> nat option \<Rightarrow> hazard_stack" where
  "set_hazard s l p = (let i = the (slot l) in s\<lparr>slots := (slots s)[i := (fst (slots s ! i), p)]\<rparr>)"

text \<open>One round of the loop of \<open>isInUse\<close>.\<close>

definition in_slot :: "hazard_stack \<Rightarrow> nat \<Rightarrow> nat \<Rightarrow> bool" where
  "in_slot s i a \<longleftrightarrow> snd (slots s ! i) = Some a"

fun topAndPop :: "hazard_stack \<Rightarrow> hp_thread \<Rightarrow> hp_pc \<Rightarrow> hp_out" where
  "topAndPop s l PopLoad = [(s, goto l (PopSet (head s)))]"
| "topAndPop s l (PopSet oldHead) = [(set_hazard s l oldHead, goto l (PopReload oldHead))]"
| "topAndPop s l (PopReload tempMyNode) =
     [(s, goto l (if head s \<noteq> tempMyNode then PopSet (head s) else PopTest (head s)))]"
| "topAndPop s l (PopTest None) = [(s, throws l HEmpty)]"
| "topAndPop s l (PopTest (Some a)) =
     (case cell_at (heap s) a of None \<Rightarrow> [(s, goto l Broken)] | Some (d, n) \<Rightarrow> [(s, goto l (PopCas a n))])"
| "topAndPop s l (PopCas a n) =
     (if head s = Some a then [(s\<lparr>head := n\<rparr>, goto l (PopClear a))] else [(s, goto l (PopSet (head s)))])"
| "topAndPop s l (PopClear a) = [(set_hazard s l None, goto l (PopData a))]"
| "topAndPop s l (PopData a) =
     (case cell_at (heap s) a of None \<Rightarrow> [(s, goto l Broken)] | Some (d, n) \<Rightarrow> [(s, goto l (PopScan a d 0))])"
| "topAndPop s l (PopScan a res i) =
     [(s, goto l (if i < MaxHazardPointers
                  then if in_slot s i a then PopRetire a res else PopScan a res (i + 1)
                  else PopFree a res))]"
| "topAndPop s l (PopRetire a res) =
     map (\<lambda>c. (s\<lparr>cells := put (cells s) c (Some ())\<rparr>, goto l (RetireLoad (c, a) (ToSweep res)))) (free_cells (cells s))"
| "topAndPop s l (PopFree a res) =
     (case cell_at (heap s) a of
        None \<Rightarrow> [(s, goto l Broken)]
      | Some _ \<Rightarrow> [(s\<lparr>heap := put (heap s) a None\<rparr>, goto l (SweepTake res))])"
| "topAndPop s l _ = []"

definition retire_return_pc :: "retire_return \<Rightarrow> hp_pc" where
  "retire_return_pc k = (case k of ToSweep res \<Rightarrow> SweepTake res | ToLoop rs res \<Rightarrow> SweepAt rs res)"

fun addToRetiredNodes :: "hazard_stack \<Rightarrow> hp_thread \<Rightarrow> hp_pc \<Rightarrow> hp_out" where
  "addToRetiredNodes s l (RetireLoad r k) = [(s, goto l (RetireCas r (first_cell (RetiredNodes s)) k))]"
| "addToRetiredNodes s l (RetireCas r nxt k) =
     (if first_cell (RetiredNodes s) = nxt
      then [(s\<lparr>RetiredNodes := r # RetiredNodes s\<rparr>, goto l (retire_return_pc k))]
      else [(s, goto l (RetireCas r (first_cell (RetiredNodes s)) k))])"
| "addToRetiredNodes s l _ = []"

text \<open>\<open>delete current\<close> deletes the node and then the cell.\<close>

fun deleteUnusedNodes :: "hazard_stack \<Rightarrow> hp_thread \<Rightarrow> hp_pc \<Rightarrow> hp_out" where
  "deleteUnusedNodes s l (SweepTake res) = [(s\<lparr>RetiredNodes := []\<rparr>, goto l (SweepAt (RetiredNodes s) res))]"
| "deleteUnusedNodes s l (SweepAt [] res) = [(s, returns l (HPopped res))]"
| "deleteUnusedNodes s l (SweepAt (r # rs) res) = [(s, goto l (SweepScan r rs res 0))]"
| "deleteUnusedNodes s l (SweepScan r rs res i) =
     [(s, goto l (if i < MaxHazardPointers
                  then if in_slot s i (snd r) then RetireLoad r (ToLoop rs res) else SweepScan r rs res (i + 1)
                  else SweepDelete r rs res))]"
| "deleteUnusedNodes s l (SweepDelete r rs res) =
     (if cell_at (heap s) (snd r) = None \<or> cell_at (cells s) (fst r) = None then [(s, goto l Broken)]
      else [(s\<lparr>heap := put (heap s) (snd r) None, cells := put (cells s) (fst r) None\<rparr>, goto l (SweepAt rs res))])"
| "deleteUnusedNodes s l _ = []"

text \<open>A thread that ends runs the destructor of its \<open>HazardPointerOwner\<close>, if it has one.\<close>

fun owner_destructor :: "hazard_stack \<Rightarrow> hp_thread \<Rightarrow> hp_pc \<Rightarrow> hp_out" where
  "owner_destructor s l Idle =
     (if hcalls l = [] then [(s, goto l (if slot l = None then Ended else ExitPointer))] else [])"
| "owner_destructor s l ExitPointer = [(set_hazard s l None, goto l ExitId)]"
| "owner_destructor s l ExitId =
     (let i = the (slot l)
      in [(s\<lparr>slots := (slots s)[i := (None, snd (slots s ! i))]\<rparr>, goto (l\<lparr>slot := None\<rparr>) Ended)])"
| "owner_destructor s l _ = []"

definition hazard_thread :: "(hazard_stack, hp_thread) thread" where
  "hazard_thread t s l =
     hp_push s l (hpc l) @ getHazardPointer t s l (hpc l) @ topAndPop s l (hpc l) @
     addToRetiredNodes s l (hpc l) @ deleteUnusedNodes s l (hpc l) @ owner_destructor s l (hpc l)"

definition hp_task :: "hp_call list \<Rightarrow> hp_thread" where
  "hp_task cs = \<lparr>hcalls = cs, hpc = Idle, slot = None, hresults = []\<rparr>"

definition hazard_init :: "hp_call list list \<Rightarrow> (hazard_stack, hp_thread) conf" where
  "hazard_init css =
     (\<lparr>heap = [], head = None, slots = replicate MaxHazardPointers (None, None), RetiredNodes = [], cells = []\<rparr>,
      map hp_task css)"

definition hazard_main :: "(hazard_stack, hp_thread) conf" where
  "hazard_main = hazard_init [[HPush 2011], [HPush 2014], [HPush 2017], [HTopAndPop], [HTopAndPop], [HTopAndPop]]"

end
