(* ===== verification/Hazard_Safety.thy ===== *)
theory Hazard_Safety
  imports Hazard_Stack
begin

text \<open>
  The proofs for the stack with hazard pointers: every cell has one owner, and a node that a thread has
  published as its hazard and has then seen at the head of the stack is not deleted before the thread is
  done with it. So no deleted node is ever used, and nothing is deleted twice.
\<close>

section \<open>Cells\<close>

lemma cell_at_put [simp]:
  "a \<le> length h \<Longrightarrow> cell_at (put h a x) b = (if b = a then x else cell_at h b)"
  by (auto simp: cell_at_def put_def nth_append nth_list_update)

lemma free_cellsD: "a \<in> set (free_cells h) \<Longrightarrow> cell_at h a = None \<and> a \<le> length h"
  by (auto simp: free_cells_def cell_at_def)

lemma cell_at_le: "cell_at h a = Some x \<Longrightarrow> a \<le> length h"
  by (auto simp: cell_at_def split: if_splits)

fun chain :: "node_heap \<Rightarrow> nat option \<Rightarrow> nat list \<Rightarrow> bool" where
  "chain h p [] \<longleftrightarrow> p = None"
| "chain h p (a # as) \<longleftrightarrow> p = Some a \<and> (\<exists>d n. cell_at h a = Some (d, n) \<and> chain h n as)"

lemma chain_frame: "\<forall>a \<in> set as. cell_at h' a = cell_at h a \<Longrightarrow> chain h' p as = chain h p as"
  by (induction h p as rule: chain.induct) auto

section \<open>Owners\<close>

text \<open>The nodes and the retired cells that only this thread can reach, and the node it is going to push.\<close>

fun after_retire :: "retire_return \<Rightarrow> retired_node list" where
  "after_retire (ToSweep res) = []"
| "after_retire (ToLoop rs res) = rs"

fun own_retired :: "hp_pc \<Rightarrow> retired_node list" where
  "own_retired (RetireLoad r k) = r # after_retire k"
| "own_retired (RetireCas r nxt k) = r # after_retire k"
| "own_retired (SweepAt rs res) = rs"
| "own_retired (SweepScan r rs res i) = r # rs"
| "own_retired (SweepDelete r rs res) = r # rs"
| "own_retired _ = []"

fun pushing :: "hp_pc \<Rightarrow> nat option" where
  "pushing (PushLoad a) = Some a"
| "pushing (PushCas a) = Some a"
| "pushing _ = None"

fun taken :: "hp_pc \<Rightarrow> nat option" where
  "taken (PopClear a) = Some a"
| "taken (PopData a) = Some a"
| "taken (PopScan a res i) = Some a"
| "taken (PopRetire a res) = Some a"
| "taken (PopFree a res) = Some a"
| "taken _ = None"

definition own_nodes :: "hp_pc \<Rightarrow> nat \<Rightarrow> int" where
  "own_nodes pc a = of_bool (pushing pc = Some a) + of_bool (taken pc = Some a) +
     int (count_list (map snd (own_retired pc)) a)"

definition own_cells :: "hp_pc \<Rightarrow> nat \<Rightarrow> int" where
  "own_cells pc c = int (count_list (map fst (own_retired pc)) c)"

definition shared_nodes :: "nat list \<Rightarrow> hazard_stack \<Rightarrow> nat \<Rightarrow> int" where
  "shared_nodes as s a = int (count_list as a) + int (count_list (map snd (RetiredNodes s)) a)"

definition shared_cells :: "hazard_stack \<Rightarrow> nat \<Rightarrow> int" where
  "shared_cells s c = int (count_list (map fst (RetiredNodes s)) c)"

definition live :: "hazard_stack \<Rightarrow> nat \<Rightarrow> bool" where
  "live s a \<longleftrightarrow> cell_at (heap s) a \<noteq> None"

definition live_cell :: "hazard_stack \<Rightarrow> nat \<Rightarrow> bool" where
  "live_cell s c \<longleftrightarrow> cell_at (cells s) c \<noteq> None"

text \<open>
  \<open>validated pc\<close>: the node that the thread may dereference because of its hazard pointer. \<open>scans pc\<close>: the
  node whose hazards are looked for, and the first slot that has not been looked at.
\<close>

fun validated :: "hp_pc \<Rightarrow> nat option" where
  "validated (PopTest p) = p"
| "validated (PopCas a n) = Some a"
| "validated _ = None"

fun scans :: "hp_pc \<Rightarrow> (nat \<times> nat) option" where
  "scans (PopScan a res i) = Some (a, i)"
| "scans (PopFree a res) = Some (a, MaxHazardPointers)"
| "scans (SweepScan r rs res i) = Some (snd r, i)"
| "scans (SweepDelete r rs res) = Some (snd r, MaxHazardPointers)"
| "scans _ = None"

fun uses_slot :: "hp_pc \<Rightarrow> bool" where
  "uses_slot PopLoad = True"
| "uses_slot (PopSet p) = True"
| "uses_slot (PopReload p) = True"
| "uses_slot (PopTest p) = True"
| "uses_slot (PopCas a n) = True"
| "uses_slot (PopClear a) = True"
| "uses_slot ExitPointer = True"
| "uses_slot ExitId = True"
| "uses_slot _ = False"

definition thread_ok :: "hazard_stack \<Rightarrow> nat \<Rightarrow> hp_thread \<Rightarrow> bool" where
  "thread_ok s t l \<longleftrightarrow> hpc l \<noteq> Broken \<and>
     (\<forall>i. slot l = Some i \<longrightarrow> i < MaxHazardPointers \<and> fst (slots s ! i) = Some t) \<and>
     (uses_slot (hpc l) \<longrightarrow> slot l \<noteq> None) \<and>
     (\<forall>p. hpc l = PopReload p \<longrightarrow> snd (slots s ! the (slot l)) = p) \<and>
     (\<forall>a. validated (hpc l) = Some a \<longrightarrow> snd (slots s ! the (slot l)) = Some a \<and> live s a) \<and>
     (\<forall>a n. hpc l = PopCas a n \<longrightarrow> (\<exists>d. cell_at (heap s) a = Some (d, n)))"

text \<open>What a thread with a validated node needs of another thread.\<close>

definition apart :: "hp_thread \<Rightarrow> hp_thread \<Rightarrow> bool" where
  "apart l k \<longleftrightarrow> (\<forall>a. validated (hpc l) = Some a \<longrightarrow> pushing (hpc k) \<noteq> Some a \<and>
     (\<forall>i. scans (hpc k) = Some (a, i) \<longrightarrow> i \<le> the (slot l)))"

definition hazard_inv :: "hazard_stack \<Rightarrow> hp_thread list \<Rightarrow> bool" where
  "hazard_inv s ls \<longleftrightarrow> length (slots s) = MaxHazardPointers \<and>
     (\<exists>as. chain (heap s) (head s) as \<and>
       (\<forall>a. total (\<lambda>l. own_nodes (hpc l) a) ls + shared_nodes as s a = of_bool (live s a))) \<and>
     (\<forall>c. total (\<lambda>l. own_cells (hpc l) c) ls + shared_cells s c = of_bool (live_cell s c)) \<and>
     (\<forall>t < length ls. thread_ok s t (ls ! t)) \<and>
     (\<forall>t < length ls. \<forall>u < length ls. apart (ls ! t) (ls ! u))"

section \<open>One step and its own thread\<close>

text \<open>The part of the ownership that a thread can see: what it owns is live, not shared, and owned once.\<close>

definition owner_ok :: "nat list \<Rightarrow> hazard_stack \<Rightarrow> hp_pc \<Rightarrow> bool" where
  "owner_ok as s pc \<longleftrightarrow> (\<forall>a. own_nodes pc a + shared_nodes as s a \<le> of_bool (live s a)) \<and>
     (\<forall>c. own_cells pc c + shared_cells s c \<le> of_bool (live_cell s c))"

definition node_balance :: "nat list \<Rightarrow> hazard_stack \<Rightarrow> hp_pc \<Rightarrow> nat \<Rightarrow> int" where
  "node_balance as s pc a = own_nodes pc a + shared_nodes as s a - of_bool (live s a)"

definition cell_balance :: "hazard_stack \<Rightarrow> hp_pc \<Rightarrow> nat \<Rightarrow> int" where
  "cell_balance s pc c = own_cells pc c + shared_cells s c - of_bool (live_cell s c)"

lemmas balance_defs = node_balance_def cell_balance_def own_nodes_def own_cells_def shared_nodes_def shared_cells_def

lemma count_pos: "x \<in> set xs \<Longrightarrow> 0 < count_list xs x"
  using count_list_0_iff [of xs x] by (metis gr0I)

lemma owned_live: "owner_ok as s pc \<Longrightarrow> own_nodes pc a \<ge> 1 \<Longrightarrow> live s a \<and> a \<notin> set as"
proof -
  assume "owner_ok as s pc" "own_nodes pc a \<ge> 1"
  then have "1 + shared_nodes as s a \<le> of_bool (live s a)" unfolding owner_ok_def by (meson add_right_mono order_trans)
  moreover have "int (count_list as a) \<le> shared_nodes as s a" by (simp add: shared_nodes_def)
  ultimately have "live s a" "count_list as a = 0" by (cases "live s a"; simp)+
  then show ?thesis by (simp add: count_list_0_iff)
qed

lemma owned_live_cell: "owner_ok as s pc \<Longrightarrow> own_cells pc c \<ge> 1 \<Longrightarrow> live_cell s c"
proof -
  assume "owner_ok as s pc" "own_cells pc c \<ge> 1"
  then have "1 + shared_cells s c \<le> of_bool (live_cell s c)" unfolding owner_ok_def by (meson add_right_mono order_trans)
  moreover have "0 \<le> shared_cells s c" by (simp add: shared_cells_def)
  ultimately show ?thesis by (cases "live_cell s c") simp_all
qed

lemma own_pushing: "pushing pc = Some a \<Longrightarrow> own_nodes pc a \<ge> 1"
  and own_taken: "taken pc = Some a \<Longrightarrow> own_nodes pc a \<ge> 1"
  by (simp_all add: own_nodes_def)

lemma own_retired_node: "r \<in> set (own_retired pc) \<Longrightarrow> own_nodes pc (snd r) \<ge> 1 \<and> own_cells pc (fst r) \<ge> 1"
  using count_pos [of "snd r" "map snd (own_retired pc)"] count_pos [of "fst r" "map fst (own_retired pc)"]
  by (auto simp: own_nodes_def own_cells_def)

lemma chain_live: "chain h p as \<Longrightarrow> a \<in> set as \<Longrightarrow> cell_at h a \<noteq> None"
  by (induction h p as rule: chain.induct) auto

definition own_step :: "nat list \<Rightarrow> hazard_stack \<Rightarrow> hp_thread \<Rightarrow> hazard_stack \<Rightarrow> hp_thread \<Rightarrow> bool" where
  "own_step as s l s' l' \<longleftrightarrow> hpc l' \<noteq> Broken \<and> (\<exists>as'. chain (heap s') (head s') as' \<and>
     (\<forall>a. node_balance as' s' (hpc l') a = node_balance as s (hpc l) a) \<and>
     (\<forall>c. cell_balance s' (hpc l') c = cell_balance s (hpc l) c))"

text \<open>A step that leaves the stack as it is.\<close>

lemma own_stepI:
  assumes "chain (heap s) (head s) as" "head s' = head s" "\<forall>a \<in> set as. cell_at (heap s') a = cell_at (heap s) a"
    and "hpc l' \<noteq> Broken" "\<And>a. node_balance as s' (hpc l') a = node_balance as s (hpc l) a"
    and "\<And>c. cell_balance s' (hpc l') c = cell_balance s (hpc l) c"
  shows "own_step as s l s' l'"
  using assms chain_frame [of as "heap s'" "heap s" "head s"] by (auto simp: own_step_def)

lemma goto_simps [simp]:
  "hpc (goto l pc) = pc" "slot (goto l pc) = slot l" "hpc (returns l r) = Idle" "slot (returns l r) = slot l"
  "hpc (throws l r) = Idle" "slot (throws l r) = slot l"
  by (simp_all add: goto_def returns_def throws_def)

lemma set_hazard_simps [simp]:
  "heap (set_hazard s l p) = heap s" "head (set_hazard s l p) = head s" "cells (set_hazard s l p) = cells s"
  "RetiredNodes (set_hazard s l p) = RetiredNodes s"
  by (simp_all add: set_hazard_def Let_def)

lemma link_own_step:
  assumes ch: "chain (heap s) (head s) as" and own: "owner_ok as s (hpc l)" and p: "pushing (hpc l) = Some a"
    and st: "(s', l') \<in> set (link_node s a l)"
  shows "own_step as s l s' l'"
proof -
  from owned_live [OF own own_pushing [OF p]] have lv: "live s a" "a \<notin> set as" by blast+
  then obtain d n where c: "cell_at (heap s) a = Some (d, n)" by (auto simp: live_def)
  have s': "s' = s\<lparr>heap := put (heap s) a (Some (d, head s))\<rparr>" "l' = goto l (PushCas a)"
    using st c by (auto simp: link_node_def)
  note le = cell_at_le [OF c]
  have lv': "live s' = live s" using le c by (auto simp: live_def s' fun_eq_iff)
  show ?thesis
  proof (rule own_stepI [OF ch])
    show "node_balance as s' (hpc l') b = node_balance as s (hpc l) b" for b
      using p lv' by (cases "hpc l") (auto simp: balance_defs s')
  qed (use s' le lv p in \<open>cases "hpc l"; auto simp: balance_defs live_cell_def\<close>)+
qed

lemma push_own_step:
  assumes ch: "chain (heap s) (head s) as" and own: "owner_ok as s (hpc l)"
    and st: "(s', l') \<in> set (hp_push s l (hpc l))"
  shows "own_step as s l s' l'"
proof (cases "hpc l")
  case Idle
  with st obtain val cs a where a: "a \<in> set (free_cells (heap s))"
    and s': "s' = s\<lparr>heap := put (heap s) a (Some (val, None))\<rparr>" "l' = goto l (PushLoad a)"
    by (auto split: list.splits hp_call.splits)
  note f = free_cellsD [OF a]
  then have "a \<notin> set as" using chain_live [OF ch, of a] by auto
  with f Idle show ?thesis
    by (intro own_stepI [OF ch]) (auto simp: s' balance_defs live_def live_cell_def)
next
  case (PushLoad a)
  with st link_own_step [OF ch own] show ?thesis by auto
next
  case (PushCas a)
  from owned_live [OF own own_pushing] PushCas have lv: "live s a" by simp
  then obtain d n where c: "cell_at (heap s) a = Some (d, n)" by (auto simp: live_def)
  show ?thesis
  proof (cases "head s = n")
    case True
    with st PushCas c have s': "s' = s\<lparr>head := Some a\<rparr>" "l' = returns l HPushed" by auto
    have "chain (heap s') (head s') (a # as)" using ch c True by (simp add: s')
    moreover have "node_balance (a # as) s' (hpc l') b = node_balance as s (hpc l) b" for b
      using PushCas by (simp add: s' balance_defs live_def)
    moreover have "cell_balance s' (hpc l') b = cell_balance s (hpc l) b" for b
      using PushCas by (simp add: s' balance_defs live_cell_def)
    ultimately show ?thesis unfolding own_step_def
      by (intro conjI exI [of _ "a # as"] allI) (simp_all add: s')
  next
    case False
    with st PushCas c link_own_step [OF ch own] show ?thesis by auto
  qed
qed (use st in auto)

lemma own_same:
  assumes "chain (heap s) (head s) as" "heap s' = heap s" "head s' = head s" "cells s' = cells s"
    "RetiredNodes s' = RetiredNodes s"
    and "hpc l' \<noteq> Broken" "pushing (hpc l') = pushing (hpc l)" "taken (hpc l') = taken (hpc l)"
      "own_retired (hpc l') = own_retired (hpc l)"
  shows "own_step as s l s' l'"
  using assms by (intro own_stepI) (simp_all add: balance_defs live_def live_cell_def)

lemma get_own_step:
  assumes "chain (heap s) (head s) as" and "(s', l') \<in> set (getHazardPointer t s l (hpc l))"
  shows "own_step as s l s' l'"
  using assms by (cases "hpc l") (auto intro!: own_same split: list.splits hp_call.splits if_splits)

lemma destructor_own_step:
  assumes "chain (heap s) (head s) as" and "(s', l') \<in> set (owner_destructor s l (hpc l))"
  shows "own_step as s l s' l'"
  using assms by (cases "hpc l") (auto intro!: own_same simp: Let_def split: if_splits)

text \<open>Deleting a node that the thread owns.\<close>

lemma free_node:
  assumes ch: "chain (heap s) (head s) as" and own: "owner_ok as s (hpc l)" "own_nodes (hpc l) a \<ge> 1"
  shows "\<exists>d n. cell_at (heap s) a = Some (d, n)" "\<forall>b \<in> set as. cell_at (put (heap s) a None) b = cell_at (heap s) b"
    "cell_at (put (heap s) a None) b = (if b = a then None else cell_at (heap s) b)"
proof -
  from owned_live [OF own] obtain d n where c: "cell_at (heap s) a = Some (d, n)" "a \<notin> set as" by (auto simp: live_def)
  then show "\<exists>d n. cell_at (heap s) a = Some (d, n)" by blast
  show "\<forall>b \<in> set as. cell_at (put (heap s) a None) b = cell_at (heap s) b"
    "cell_at (put (heap s) a None) b = (if b = a then None else cell_at (heap s) b)"
    using cell_at_le [OF c(1)] c(2) by auto
qed

lemma pop_own_step:
  assumes ch: "chain (heap s) (head s) as" and own: "owner_ok as s (hpc l)" and ok: "thread_ok s t l"
    and st: "(s', l') \<in> set (topAndPop s l (hpc l))"
  shows "own_step as s l s' l'"
proof (cases "hpc l")
  case (PopTest p)
  show ?thesis
  proof (cases p)
    case None
    with PopTest st show ?thesis by (auto intro!: own_same ch)
  next
    case (Some a)
    then have "live s a" using ok PopTest by (auto simp: thread_ok_def)
    with PopTest Some st show ?thesis by (auto simp: live_def intro!: own_same ch)
  qed
next
  case (PopCas a n)
  show ?thesis
  proof (cases "head s = Some a")
    case True
    obtain d where c: "cell_at (heap s) a = Some (d, n)" using ok PopCas by (auto simp: thread_ok_def)
    obtain bs where as: "as = a # bs" "chain (heap s) n bs" using ch True c by (cases as) auto
    have s': "s' = s\<lparr>head := n\<rparr>" "l' = goto l (PopClear a)" using st PopCas True by auto
    have "node_balance bs s' (hpc l') b = node_balance as s (hpc l) b" for b
      using PopCas by (simp add: s' as balance_defs live_def)
    moreover have "cell_balance s' (hpc l') b = cell_balance s (hpc l) b" for b
      using PopCas by (simp add: s' balance_defs live_cell_def)
    ultimately show ?thesis using as(2) unfolding own_step_def by (auto simp: s')
  next
    case False
    with PopCas st show ?thesis by (auto intro!: own_same ch)
  qed
next
  case (PopData a)
  from free_node [OF ch own own_taken] PopData obtain d n where "cell_at (heap s) a = Some (d, n)" by auto
  with PopData st show ?thesis by (auto intro!: own_same ch)
next
  case (PopRetire a res)
  with st obtain c where c: "c \<in> set (free_cells (cells s))"
    and s': "s' = s\<lparr>cells := put (cells s) c (Some ())\<rparr>" "l' = goto l (RetireLoad (c, a) (ToSweep res))"
    by auto
  show ?thesis using free_cellsD [OF c] PopRetire
    by (intro own_stepI [OF ch]) (auto simp: s' balance_defs live_def live_cell_def)
next
  case (PopFree a res)
  have o: "own_nodes (hpc l) a \<ge> 1" using PopFree by (simp add: own_taken)
  note f = free_node [OF ch own o]
  have s': "s' = s\<lparr>heap := put (heap s) a None\<rparr>" "l' = goto l (SweepTake res)" using st PopFree f(1) by auto
  show ?thesis using PopFree f
    by (intro own_stepI [OF ch]) (auto simp: s' balance_defs live_def live_cell_def)
qed (use st in \<open>auto intro!: own_same ch\<close>)

lemma retire_own_step:
  assumes ch: "chain (heap s) (head s) as" and st: "(s', l') \<in> set (addToRetiredNodes s l (hpc l))"
  shows "own_step as s l s' l'"
proof (cases "hpc l")
  case (RetireCas r nxt k)
  show ?thesis
  proof (cases "first_cell (RetiredNodes s) = nxt")
    case True
    with RetireCas st have s': "s' = s\<lparr>RetiredNodes := r # RetiredNodes s\<rparr>" "l' = goto l (retire_return_pc k)" by auto
    have pc: "own_retired (retire_return_pc k) = after_retire k" "pushing (retire_return_pc k) = None"
      "taken (retire_return_pc k) = None" "retire_return_pc k \<noteq> Broken"
      by (cases k; simp add: retire_return_pc_def)+
    show ?thesis using RetireCas pc
      by (intro own_stepI [OF ch]) (simp_all add: s' balance_defs live_def live_cell_def)
  next
    case False
    with RetireCas st show ?thesis by (auto intro!: own_same ch)
  qed
qed (use st in \<open>auto intro!: own_same ch\<close>)

lemma sweep_own_step:
  assumes ch: "chain (heap s) (head s) as" and own: "owner_ok as s (hpc l)"
    and st: "(s', l') \<in> set (deleteUnusedNodes s l (hpc l))"
  shows "own_step as s l s' l'"
proof (cases "hpc l")
  case (SweepTake res)
  with st show ?thesis
    by (intro own_stepI [OF ch]) (auto simp: balance_defs live_def live_cell_def)
next
  case (SweepAt rs res)
  with st show ?thesis by (cases rs) (auto intro!: own_same ch)
next
  case (SweepDelete r rs res)
  have o: "own_nodes (hpc l) (snd r) \<ge> 1" "own_cells (hpc l) (fst r) \<ge> 1"
    using own_retired_node [of r "hpc l"] SweepDelete by auto
  note f = free_node [OF ch own o(1)]
  obtain u where u: "cell_at (cells s) (fst r) = Some u"
    using owned_live_cell [OF own o(2)] by (auto simp: live_cell_def)
  have s': "s' = s\<lparr>heap := put (heap s) (snd r) None, cells := put (cells s) (fst r) None\<rparr>" "l' = goto l (SweepAt rs res)"
    using st SweepDelete f(1) u by auto
  show ?thesis using SweepDelete f u cell_at_le [OF u]
    by (intro own_stepI [OF ch]) (auto simp: s' balance_defs live_def live_cell_def)
qed (use st in \<open>auto intro!: own_same ch\<close>)

lemma hazard_own_step:
  assumes "chain (heap s) (head s) as" "owner_ok as s (hpc l)" "thread_ok s t l"
    "(s', l') \<in> set (hazard_thread t s l)"
  shows "own_step as s l s' l'"
  using assms push_own_step get_own_step pop_own_step retire_own_step sweep_own_step destructor_own_step
  by (fastforce simp: hazard_thread_def)

section \<open>One step and the other threads\<close>

lemma free_cells_live: "a \<in> set (free_cells (heap s)) \<Longrightarrow> \<not> live s a"
  by (auto simp: live_def dest: free_cellsD)

text \<open>What a step changes: slots of its own thread or free ones; cells that were free, that it was going
  to push, or for which it has looked through all the slots.\<close>

definition slot_change :: "hazard_stack \<Rightarrow> hp_thread \<Rightarrow> hazard_stack \<Rightarrow> bool" where
  "slot_change s l s' \<longleftrightarrow> length (slots s') = length (slots s) \<and>
     (\<forall>i. slots s' ! i = slots s ! i \<or> slot l = Some i \<or> fst (slots s ! i) = None)"

definition cell_change :: "hazard_stack \<Rightarrow> hp_pc \<Rightarrow> hazard_stack \<Rightarrow> bool" where
  "cell_change s pc s' \<longleftrightarrow> (\<forall>a. cell_at (heap s') a = cell_at (heap s) a \<or> \<not> live s a \<or> pushing pc = Some a \<or>
     scans pc = Some (a, MaxHazardPointers))"

lemma same_slots: "slots s' = slots s \<Longrightarrow> slot_change s l s'"
  by (simp add: slot_change_def)

lemma one_slot:
  assumes "slots s' = (slots s)[y := v]" "slot l = Some y \<or> fst (slots s ! y) = None"
  shows "slot_change s l s'"
proof -
  have "slots s' ! i = slots s ! i \<or> y = i" for i using assms(1) by (cases "y = i") auto
  with assms show ?thesis unfolding slot_change_def by fastforce
qed

lemma set_hazard_change: "slot l \<noteq> None \<Longrightarrow> slot_change s l (set_hazard s l p)"
  by (rule one_slot [where y = "the (slot l)"]) (auto simp: set_hazard_def Let_def)

lemma hazard_slot_change:
  assumes "thread_ok s t l" "(s', l') \<in> set (hazard_thread t s l)"
  shows "slot_change s l s'"
proof -
  have u: "uses_slot (hpc l) \<Longrightarrow> slot l \<noteq> None" using assms(1) by (simp add: thread_ok_def)
  show ?thesis
  proof (cases "hpc l")
    case (Acquire i)
    with assms(2) show ?thesis
      by (auto simp: hazard_thread_def split: if_splits intro: same_slots one_slot [where y = i])
  next
    case (PopTest p)
    with assms(2) show ?thesis
      by (cases p) (auto simp: hazard_thread_def split: option.splits intro!: same_slots)
  next
    case (SweepAt rs res)
    with assms(2) show ?thesis by (cases rs) (auto simp: hazard_thread_def intro!: same_slots)
  next
    case ExitId
    with assms(2) u show ?thesis
      by (auto simp: hazard_thread_def Let_def intro: one_slot [where y = "the (slot l)"])
  qed (use assms(2) u in \<open>auto simp: hazard_thread_def link_node_def Let_def set_hazard_change
        split: list.splits hp_call.splits option.splits prod.splits if_splits intro!: same_slots\<close>)
qed

lemma hazard_cell_change:
  assumes "(s', l') \<in> set (hazard_thread t s l)"
  shows "cell_change s (hpc l) s'"
proof (cases "hpc l")
  case Idle
  then show ?thesis using assms
    by (auto simp: hazard_thread_def cell_change_def live_def split: list.splits hp_call.splits if_splits dest: free_cellsD)
next
  case (PushLoad a)
  then show ?thesis using assms
    by (auto simp: hazard_thread_def link_node_def cell_change_def split: option.splits dest!: cell_at_le)
next
  case (PushCas a)
  then show ?thesis using assms
    by (auto simp: hazard_thread_def link_node_def cell_change_def split: option.splits if_splits dest!: cell_at_le)
next
  case (PopFree a res)
  then show ?thesis using assms
    by (auto simp: hazard_thread_def cell_change_def split: option.splits dest!: cell_at_le)
next
  case (SweepAt rs res)
  then show ?thesis using assms by (cases rs) (auto simp: hazard_thread_def cell_change_def)
next
  case (SweepDelete r rs res)
  then show ?thesis using assms
    by (auto simp: hazard_thread_def cell_change_def split: if_splits dest!: cell_at_le)
next
  case (PopTest p)
  then show ?thesis using assms by (cases p) (auto simp: hazard_thread_def cell_change_def split: option.splits)
qed (use assms in \<open>auto simp: hazard_thread_def cell_change_def Let_def split: option.splits if_splits\<close>)

lemma other_thread_ok:
  assumes ok: "thread_ok s u k" "thread_ok s t l" and tu: "t \<noteq> u" and ap: "apart k l"
    and sl: "slot_change s l s'" and ce: "cell_change s (hpc l) s'"
  shows "thread_ok s' u k"
proof -
  have slot: "slots s' ! i = slots s ! i" if "slot k = Some i" for i
    using that ok tu sl by (auto simp: thread_ok_def slot_change_def)
  have cell: "cell_at (heap s') a = cell_at (heap s) a" if va: "validated (hpc k) = Some a" for a
  proof -
    obtain i where "slot k = Some i" "i < MaxHazardPointers" using va ok(1)
      by (cases "hpc k") (auto simp: thread_ok_def)
    then show ?thesis
      using va ok(1) ap ce by (auto simp: cell_change_def apart_def thread_ok_def)
  qed
  have slot': "slots s' ! the (slot k) = slots s ! the (slot k)" if "uses_slot (hpc k)"
    using that slot ok(1) by (auto simp: thread_ok_def)
  have v: "uses_slot (hpc k)" if "validated (hpc k) = Some a" for a
    using that by (cases "hpc k") auto
  show ?thesis
    using ok(1) slot slot' cell v
    by (auto simp: thread_ok_def live_def)
qed

lemma set_hazard_slots:
  "slot l = Some i \<Longrightarrow> i < length (slots s) \<Longrightarrow>
    slots (set_hazard s l p) ! i = (fst (slots s ! i), p) \<and> slots (set_hazard s l p) = (slots s)[i := (fst (slots s ! i), p)]"
  by (simp add: set_hazard_def Let_def)

text \<open>A step of a thread keeps what it knows about itself.\<close>

lemma own_thread_ok:
  assumes ok: "thread_ok s t l" and st: "(s', l') \<in> set (hazard_thread t s l)" and ch: "chain (heap s) (head s) as"
    and len: "length (slots s) = MaxHazardPointers" and br: "hpc l' \<noteq> Broken"
  shows "thread_ok s' t l'"
proof -
  have slot: "uses_slot (hpc l) \<Longrightarrow> \<exists>i < length (slots s). slot l = Some i" using ok len by (auto simp: thread_ok_def)
  have live_head: "head s = Some a \<Longrightarrow> live s a" for a using ch by (cases as) (auto simp: live_def)
  show ?thesis
  proof (cases "hpc l")
    case (PopSet p)
    with slot obtain i where "i < length (slots s)" "slot l = Some i" by auto
    with PopSet st ok show ?thesis
      by (auto simp: hazard_thread_def thread_ok_def set_hazard_slots)
  next
    case (PopReload p)
    with slot obtain i where "i < length (slots s)" "slot l = Some i" by auto
    with PopReload st ok live_head show ?thesis
      by (auto simp: hazard_thread_def thread_ok_def split: if_splits)
  next
    case (PopTest p)
    with slot obtain i where "i < length (slots s)" "slot l = Some i" by auto
    with PopTest st ok br show ?thesis
      by (cases p) (auto simp: hazard_thread_def thread_ok_def split: option.splits)
  next
    case (SweepAt rs res)
    with st ok show ?thesis by (cases rs) (auto simp: hazard_thread_def thread_ok_def)
  next
    case (PopClear a)
    with slot obtain i where "i < length (slots s)" "slot l = Some i" by auto
    with PopClear st ok show ?thesis
      by (auto simp: hazard_thread_def thread_ok_def set_hazard_slots)
  next
    case ExitPointer
    with slot obtain i where "i < length (slots s)" "slot l = Some i" by auto
    with ExitPointer st ok show ?thesis
      by (auto simp: hazard_thread_def thread_ok_def set_hazard_slots)
  next
    case (RetireCas r nxt k)
    with st ok show ?thesis
      by (cases k) (auto simp: hazard_thread_def thread_ok_def retire_return_pc_def split: if_splits)
  qed (use st ok br len in \<open>auto simp: hazard_thread_def thread_ok_def link_node_def Let_def
        split: list.splits hp_call.splits option.splits if_splits\<close>)
qed

text \<open>And keeps apart from the other threads: as the one that is scanned for, and as the one that scans.\<close>

lemma scanned_owned: "scans pc = Some (a, i) \<Longrightarrow> own_nodes pc a \<ge> 1"
  by (cases pc) (auto simp: own_taken intro: own_retired_node [THEN conjunct1])

lemma apart_validated:
  assumes ap: "apart l k" and st: "(s', l') \<in> set (hazard_thread t s l)" and ok: "thread_ok s t l"
    and ch: "chain (heap s) (head s) as" and own: "owner_ok as s (hpc k)"
  shows "apart l' k"
proof -
  have head: "\<not> own_nodes (hpc k) a \<ge> 1" if "head s = Some a" for a
    using owned_live [OF own, of a] ch that by (cases as) auto
  have "(validated (hpc l') = validated (hpc l) \<and> slot l' = slot l) \<or> validated (hpc l') = None \<or> validated (hpc l') = head s"
    using st
  proof (cases "hpc l")
    case (PopTest p)
    with st show ?thesis by (cases p) (auto simp: hazard_thread_def split: option.splits)
  next
    case (SweepAt rs res)
    with st show ?thesis by (cases rs) (auto simp: hazard_thread_def)
  next
    case (RetireCas r nxt k)
    with st show ?thesis by (cases k) (auto simp: hazard_thread_def retire_return_pc_def split: if_splits)
  qed (auto simp: hazard_thread_def link_node_def Let_def split: list.splits hp_call.splits option.splits if_splits)
  then show ?thesis
    using ap head own_pushing [of "hpc k"] scanned_owned [of "hpc k"] by (fastforce simp: apart_def)
qed

lemma apart_scans:
  assumes ap: "apart k l" and st: "(s', l') \<in> set (hazard_thread t s l)" and ok: "thread_ok s u k"
  shows "apart k l'"
proof (cases "validated (hpc k)")
  case None
  then show ?thesis by (simp add: apart_def)
next
  case (Some a)
  then have k: "snd (slots s ! the (slot k)) = Some a" "live s a" "the (slot k) < MaxHazardPointers"
    using ok by (cases "hpc k"; auto simp: thread_ok_def)+
  have l: "pushing (hpc l) \<noteq> Some a" "\<And>i. scans (hpc l) = Some (a, i) \<Longrightarrow> i \<le> the (slot k)"
    using ap Some by (auto simp: apart_def)
  have "pushing (hpc l') \<noteq> Some a"
  proof (cases "hpc l")
    case Idle
    then show ?thesis using st k(2) free_cells_live
      by (auto simp: hazard_thread_def split: list.splits hp_call.splits if_splits)
  next
    case (PopTest p)
    with st show ?thesis by (cases p) (auto simp: hazard_thread_def split: option.splits)
  next
    case (SweepAt rs res)
    with st show ?thesis by (cases rs) (auto simp: hazard_thread_def)
  next
    case (RetireCas r nxt k)
    with st show ?thesis by (cases k) (auto simp: hazard_thread_def retire_return_pc_def split: if_splits)
  qed (use st l(1) in \<open>auto simp: hazard_thread_def link_node_def Let_def split: option.splits if_splits\<close>)
  moreover have "i \<le> the (slot k)" if "scans (hpc l') = Some (a, i)" for i
    using that
  proof (cases "hpc l")
    case (PopScan b res j)
    have "j = the (slot k) \<Longrightarrow> b = a \<Longrightarrow> in_slot s j b" using k by (simp add: in_slot_def)
    then show ?thesis using that st l(2) k(3) PopScan
      by (cases "j = the (slot k)") (fastforce simp: hazard_thread_def split: if_splits)+
  next
    case (SweepScan r rs res j)
    have "j = the (slot k) \<Longrightarrow> snd r = a \<Longrightarrow> in_slot s j (snd r)" using k by (simp add: in_slot_def)
    then show ?thesis using that st l(2) k(3) SweepScan
      by (cases "j = the (slot k)") (fastforce simp: hazard_thread_def split: if_splits)+
  next
    case (PopTest p)
    with st that show ?thesis by (cases p) (auto simp: hazard_thread_def split: option.splits)
  next
    case (SweepAt rs res)
    with st that show ?thesis by (cases rs) (auto simp: hazard_thread_def)
  next
    case (RetireCas r nxt k)
    with st that show ?thesis by (cases k) (auto simp: hazard_thread_def retire_return_pc_def split: if_splits)
  qed (use st that in \<open>auto simp: hazard_thread_def link_node_def Let_def
        split: list.splits hp_call.splits option.splits if_splits\<close>)
  ultimately show ?thesis using Some by (simp add: apart_def)
qed

lemma apart_self: "apart l l"
  by (cases "hpc l") (auto simp: apart_def)

section \<open>The invariant\<close>

lemma total_ge: "i < length ls \<Longrightarrow> (\<And>l. 0 \<le> f l) \<Longrightarrow> f (ls ! i) \<le> total f ls"
proof (induction ls arbitrary: i)
  case Nil
  then show ?case by simp
next
  case (Cons x xs)
  have "0 \<le> f x" "0 \<le> total f xs" using Cons.prems(2) total_mono [of "\<lambda>_. 0" f xs] by (simp_all add: total_def)
  then show ?case using Cons by (cases i) (simp, fastforce)
qed

definition owners :: "nat list \<Rightarrow> hazard_stack \<Rightarrow> hp_thread list \<Rightarrow> bool" where
  "owners as s ls \<longleftrightarrow> chain (heap s) (head s) as \<and>
     (\<forall>a. total (\<lambda>l. own_nodes (hpc l) a) ls + shared_nodes as s a = of_bool (live s a)) \<and>
     (\<forall>c. total (\<lambda>l. own_cells (hpc l) c) ls + shared_cells s c = of_bool (live_cell s c))"

lemma hazard_inv_owners: "hazard_inv s ls \<longleftrightarrow> length (slots s) = MaxHazardPointers \<and> (\<exists>as. owners as s ls) \<and>
    (\<forall>t < length ls. thread_ok s t (ls ! t)) \<and> (\<forall>t < length ls. \<forall>u < length ls. apart (ls ! t) (ls ! u))"
  by (auto simp: hazard_inv_def owners_def)

lemma owners_ok: "owners as s ls \<Longrightarrow> t < length ls \<Longrightarrow> owner_ok as s (hpc (ls ! t))"
proof -
  assume o: "owners as s ls" and t: "t < length ls"
  have "own_nodes (hpc (ls ! t)) a \<le> total (\<lambda>l. own_nodes (hpc l) a) ls"
    "own_cells (hpc (ls ! t)) a \<le> total (\<lambda>l. own_cells (hpc l) a) ls" for a
    using total_ge [OF t, of "\<lambda>l. own_nodes (hpc l) a"] total_ge [OF t, of "\<lambda>l. own_cells (hpc l) a"]
    by (simp_all add: own_nodes_def own_cells_def)
  then show ?thesis using o unfolding owner_ok_def owners_def by (metis add_right_mono)
qed

lemma owners_step:
  assumes o: "owners as s ls" and t: "t < length ls" and st: "own_step as s (ls ! t) s' l'"
  shows "\<exists>as'. owners as' s' (ls[t := l'])"
proof -
  obtain as' where as': "chain (heap s') (head s') as'"
    "\<And>a. node_balance as' s' (hpc l') a = node_balance as s (hpc (ls ! t)) a"
    "\<And>c. cell_balance s' (hpc l') c = cell_balance s (hpc (ls ! t)) c"
    using st by (auto simp: own_step_def)
  have "owners as' s' (ls[t := l'])"
    unfolding owners_def
  proof (intro conjI allI)
    show "total (\<lambda>l. own_nodes (hpc l) a) (ls[t := l']) + shared_nodes as' s' a = of_bool (live s' a)" for a
      using as'(2) [of a] t o [unfolded owners_def, THEN conjunct2, THEN conjunct1, rule_format, of a]
        total_upd [OF t, of "\<lambda>l. own_nodes (hpc l) a" l']
      unfolding node_balance_def by linarith
    show "total (\<lambda>l. own_cells (hpc l) c) (ls[t := l']) + shared_cells s' c = of_bool (live_cell s' c)" for c
      using as'(3) [of c] t o [unfolded owners_def, THEN conjunct2, THEN conjunct2, rule_format, of c]
        total_upd [OF t, of "\<lambda>l. own_cells (hpc l) c" l']
      unfolding cell_balance_def by linarith
  qed (rule as')
  then show ?thesis ..
qed

lemma hazard_step:
  assumes I: "hazard_inv s ls" and t: "t < length ls" and st: "(s', l') \<in> set (hazard_thread t s (ls ! t))"
  shows "hazard_inv s' (ls[t := l'])"
proof -
  obtain as where o: "owners as s ls" using I by (auto simp: hazard_inv_owners)
  then have ch: "chain (heap s) (head s) as" by (simp add: owners_def)
  have len: "length (slots s) = MaxHazardPointers" and ok: "\<And>u. u < length ls \<Longrightarrow> thread_ok s u (ls ! u)"
    and ap: "\<And>u v. u < length ls \<Longrightarrow> v < length ls \<Longrightarrow> apart (ls ! u) (ls ! v)"
    using I by (simp_all add: hazard_inv_owners)
  have os: "own_step as s (ls ! t) s' l'" by (rule hazard_own_step [OF ch owners_ok [OF o t] ok [OF t] st])
  then have br: "hpc l' \<noteq> Broken" by (simp add: own_step_def)
  note sl = hazard_slot_change [OF ok [OF t] st] and ce = hazard_cell_change [OF st]
  note own = own_thread_ok [OF ok [OF t] st ch len br]
  have "thread_ok s' u (ls[t := l'] ! u)" if "u < length ls" for u
    using own other_thread_ok [OF ok [OF that] ok [OF t] _ ap [OF that t] sl ce] t by (cases "u = t") auto
  moreover have "apart (ls[t := l'] ! u) (ls[t := l'] ! v)" if "u < length ls" "v < length ls" for u v
    using that t apart_self [of l'] ap [OF that] apart_validated [OF ap [OF t that(2)] st ok [OF t] ch owners_ok [OF o that(2)]]
      apart_scans [OF ap [OF that(1) t] st ok [OF that(1)]]
    by (cases "u = t"; cases "v = t") auto
  moreover have "\<exists>as'. owners as' s' (ls[t := l'])" by (rule owners_step [OF o t os])
  moreover have "length (slots s') = MaxHazardPointers" using sl len by (simp add: slot_change_def)
  ultimately show ?thesis unfolding hazard_inv_owners by simp
qed

lemma hazard_start: "hazard_inv (fst (hazard_init css)) (snd (hazard_init css))"
proof -
  have z: "total f (map hp_task css) = 0" if "\<And>cs. f (hp_task cs) = 0" for f
    using that by (induction css) auto
  have "owners [] (fst (hazard_init css)) (snd (hazard_init css))"
    by (simp add: owners_def hazard_init_def z hp_task_def own_nodes_def own_cells_def shared_nodes_def shared_cells_def
        live_def live_cell_def cell_at_def)
  then show ?thesis
    by (auto simp: hazard_inv_owners hazard_init_def hp_task_def thread_ok_def apart_def MaxHazardPointers_def)
qed

interpretation hazard: thread_inv hazard_thread "hazard_init css" hazard_inv for css
  using hazard_start hazard_step by unfold_locales

text \<open>
  Claim C2. Whatever the threads call and however they are interleaved, no thread of the stack with hazard
  pointers ever uses a deleted node or deletes anything twice, although addresses are used again; and what
  is in use is reachable: every live node is in the stack, retired, or held by exactly one thread.
\<close>

theorem hazard_memory_safe:
  assumes "reach hazard_thread (hazard_init css) (s, ls)"
  shows "(\<forall>l \<in> set ls. hpc l \<noteq> Broken) \<and>
    (\<exists>as. chain (heap s) (head s) as \<and>
      (\<forall>a. total (\<lambda>l. own_nodes (hpc l) a) ls + int (count_list as a) +
        int (count_list (map snd (RetiredNodes s)) a) = of_bool (live s a)))"
proof -
  have I: "hazard_inv s ls" by (rule hazard.reach_inv [OF assms])
  then have "\<forall>l \<in> set ls. hpc l \<noteq> Broken" by (auto simp: hazard_inv_owners thread_ok_def in_set_conv_nth)
  moreover from I have "\<exists>as. chain (heap s) (head s) as \<and>
      (\<forall>a. total (\<lambda>l. own_nodes (hpc l) a) ls + int (count_list as a) +
        int (count_list (map snd (RetiredNodes s)) a) = of_bool (live s a))"
    unfolding hazard_inv_owners owners_def shared_nodes_def by (metis add.assoc)
  ultimately show ?thesis by blast
qed

end
