(* ===== verification/Hazard_Linearizable.thy ===== *)
theory Hazard_Linearizable
  imports Hazard_Safety
begin

text \<open>
  The stack with hazard pointers refines a stack whose operations are atomic: a push takes effect at its
  successful compare-exchange, a pop at its own, and a pop that throws at the load that found the head null.
\<close>

section \<open>The atomic stack\<close>

type_synonym atomic_task = "hp_call list \<times> hp_result list"

inductive atomic_step :: "int list \<times> atomic_task list \<Rightarrow> int list \<times> atomic_task list \<Rightarrow> bool" where
  atomic_push: "t < length ts \<Longrightarrow> ts ! t = (HPush v # cs, rs) \<Longrightarrow>
    atomic_step (xs, ts) (v # xs, ts[t := (cs, rs @ [HPushed])])"
| atomic_pop: "t < length ts \<Longrightarrow> ts ! t = (HTopAndPop # cs, rs) \<Longrightarrow>
    atomic_step (v # xs, ts) (xs, ts[t := (cs, rs @ [HPopped v])])"
| atomic_empty: "t < length ts \<Longrightarrow> ts ! t = (HTopAndPop # cs, rs) \<Longrightarrow>
    atomic_step ([], ts) ([], ts[t := ([], rs @ [HEmpty])])"
| atomic_no_slot: "t < length ts \<Longrightarrow> ts ! t = (HTopAndPop # cs, rs) \<Longrightarrow>
    atomic_step (xs, ts) (xs, ts[t := ([], rs @ [HNoSlot])])"

section \<open>The abstraction\<close>

text \<open>The values of the stack, read from the heap.\<close>

fun read_values :: "nat \<Rightarrow> node_heap \<Rightarrow> nat option \<Rightarrow> int list" where
  "read_values (Suc k) h (Some a) = (case cell_at h a of None \<Rightarrow> [] | Some (d, n) \<Rightarrow> d # read_values k h n)"
| "read_values _ h _ = []"

definition hp_contents :: "hazard_stack \<Rightarrow> int list" where
  "hp_contents s = read_values (length (heap s)) (heap s) (head s)"

definition data_at :: "hazard_stack \<Rightarrow> nat \<Rightarrow> int" where
  "data_at s a = fst (the (cell_at (heap s) a))"

fun retire_result :: "retire_return \<Rightarrow> int" where
  "retire_result (ToSweep res) = res"
| "retire_result (ToLoop rs res) = res"

text \<open>The value that a pop will return, once it has taken its node.\<close>

fun pending :: "hazard_stack \<Rightarrow> hp_pc \<Rightarrow> int option" where
  "pending s (PopClear a) = Some (data_at s a)"
| "pending s (PopData a) = Some (data_at s a)"
| "pending s (PopScan a res i) = Some res"
| "pending s (PopRetire a res) = Some res"
| "pending s (PopFree a res) = Some res"
| "pending s (RetireLoad r k) = Some (retire_result k)"
| "pending s (RetireCas r nxt k) = Some (retire_result k)"
| "pending s (SweepTake res) = Some res"
| "pending s (SweepAt rs res) = Some res"
| "pending s (SweepScan r rs res i) = Some res"
| "pending s (SweepDelete r rs res) = Some res"
| "pending s _ = None"

definition abs_task :: "hazard_stack \<Rightarrow> hp_thread \<Rightarrow> atomic_task" where
  "abs_task s l =
     (case pending s (hpc l) of
        Some v \<Rightarrow> (tl (hcalls l), hresults l @ [HPopped v])
      | None \<Rightarrow> if hpc l = PopTest None then ([], hresults l @ [HEmpty]) else (hcalls l, hresults l))"

definition abs_stack :: "hazard_stack \<Rightarrow> hp_thread list \<Rightarrow> int list \<times> atomic_task list" where
  "abs_stack s ls = (hp_contents s, map (abs_task s) ls)"

lemma read_values_chain: "chain h p as \<Longrightarrow> length as \<le> k \<Longrightarrow> read_values k h p = map (\<lambda>a. fst (the (cell_at h a))) as"
proof (induction k arbitrary: p as)
  case 0
  then show ?case by simp
next
  case (Suc k)
  then show ?case by (cases as) auto
qed

lemma chain_range: "chain h p as \<Longrightarrow> set as \<subseteq> {..<length h}"
  by (induction h p as rule: chain.induct) (auto simp: cell_at_def split: if_splits)

lemma owners_distinct: "owners as s ls \<Longrightarrow> distinct as"
proof -
  assume o: "owners as s ls"
  have "count_list as a \<le> 1" for a
  proof -
    have "0 \<le> total (\<lambda>l. own_nodes (hpc l) a) ls"
      using total_mono [of "\<lambda>_. 0" "\<lambda>l. own_nodes (hpc l) a" ls] by (simp add: total_def own_nodes_def)
    moreover have "total (\<lambda>l. own_nodes (hpc l) a) ls + shared_nodes as s a = of_bool (live s a)"
      using o by (simp add: owners_def)
    moreover have "of_bool (live s a) \<le> (1 :: int)" by simp
    ultimately have "shared_nodes as s a \<le> 1" by linarith
    then show ?thesis by (simp add: shared_nodes_def)
  qed
  then show ?thesis
  proof (induction as)
    case (Cons x xs)
    have "count_list (x # xs) x \<le> 1" by (rule Cons.prems)
    then have "x \<notin> set xs" by (simp add: count_list_0_iff)
    moreover have "count_list xs a \<le> 1" for a using Cons.prems [of a] by (simp split: if_splits)
    ultimately show ?case using Cons.IH by simp
  qed simp
qed

lemma contents_chain:
  assumes "owners as s ls"
  shows "hp_contents s = map (data_at s) as"
proof -
  have ch: "chain (heap s) (head s) as" using assms by (simp add: owners_def)
  have "length as \<le> length (heap s)"
    using card_mono [OF _ chain_range [OF ch]] distinct_card [OF owners_distinct [OF assms]] by simp
  from read_values_chain [OF ch this] show ?thesis by (simp add: hp_contents_def data_at_def [abs_def])
qed

text \<open>What a thread knows about the call it is making.\<close>

definition call_ok :: "hazard_stack \<Rightarrow> hp_thread \<Rightarrow> bool" where
  "call_ok s l \<longleftrightarrow> (case pushing (hpc l) of
      Some a \<Rightarrow> \<exists>cs. hcalls l = HPush (data_at s a) # cs
    | None \<Rightarrow> hpc l \<noteq> Idle \<and> hpc l \<notin> {ExitPointer, ExitId, Ended, Broken} \<longrightarrow> (\<exists>cs. hcalls l = HTopAndPop # cs))"

text \<open>A node that a thread owns is not changed by the others.\<close>

lemma total_two:
  assumes "i < length ls" "j < length ls" "i \<noteq> j" "\<And>l. 0 \<le> f l"
  shows "f (ls ! i) + f (ls ! j) \<le> total f ls"
  using assms(1-3)
proof (induction ls arbitrary: i j)
  case (Cons x xs)
  have "0 \<le> f x" by (rule assms(4))
  then show ?case
    using Cons total_ge [of _ xs f] assms(4) by (cases i; cases j) (auto intro: add_increasing)
qed simp

lemma owned_by_one:
  assumes o: "owners as s ls" and tu: "t < length ls" "u < length ls" "t \<noteq> u" and k: "own_nodes (hpc (ls ! u)) a \<ge> 1"
  shows "\<not> own_nodes (hpc (ls ! t)) a \<ge> 1"
proof
  assume "own_nodes (hpc (ls ! t)) a \<ge> 1"
  then have "2 \<le> total (\<lambda>l. own_nodes (hpc l) a) ls"
    using total_two [OF tu, of "\<lambda>l. own_nodes (hpc l) a"] k by (simp add: own_nodes_def)
  moreover have "total (\<lambda>l. own_nodes (hpc l) a) ls + shared_nodes as s a = of_bool (live s a)"
    using o by (simp add: owners_def)
  moreover have "0 \<le> shared_nodes as s a" by (simp add: shared_nodes_def)
  moreover have "of_bool (live s a) \<le> (1 :: int)" by simp
  ultimately show False by linarith
qed

lemma owned_unchanged:
  assumes "owners as s ls" "t < length ls" "u < length ls" "t \<noteq> u" "own_nodes (hpc (ls ! u)) a \<ge> 1"
    and "cell_change s (hpc (ls ! t)) s'"
  shows "cell_at (heap s') a = cell_at (heap s) a"
  using owned_by_one [OF assms(1-5)] owned_live [OF owners_ok [OF assms(1,3)] assms(5)] assms(6)
    own_pushing scanned_owned by (fastforce simp: cell_change_def)

lemma stacked_unchanged:
  assumes "owners as s ls" "t < length ls" "a \<in> set as" "cell_change s (hpc (ls ! t)) s'"
  shows "cell_at (heap s') a = cell_at (heap s) a"
proof -
  have "\<not> own_nodes (hpc (ls ! t)) a \<ge> 1" using owned_live [OF owners_ok [OF assms(1,2)]] assms(3) by blast
  moreover have "live s a" using assms(1,3) chain_live [of "heap s" "head s" as a] by (simp add: owners_def live_def)
  ultimately show ?thesis using assms(4) own_pushing scanned_owned by (fastforce simp: cell_change_def)
qed

lemma chain_unique: "chain h p as \<Longrightarrow> chain h p bs \<Longrightarrow> as = bs"
proof (induction h p as arbitrary: bs rule: chain.induct)
  case (1 h p)
  then show ?case by (cases bs) auto
next
  case (2 h p a as)
  then show ?case by (cases bs) auto
qed

lemma contents_same:
  assumes o: "owners as s ls" and t: "t < length ls" and o': "owners as' s' ls'"
    and hd: "head s' = head s" and ce: "cell_change s (hpc (ls ! t)) s'"
  shows "hp_contents s' = hp_contents s"
proof -
  have same: "\<forall>a \<in> set as. cell_at (heap s') a = cell_at (heap s) a" using stacked_unchanged [OF o t _ ce] by blast
  then have "chain (heap s') (head s') as" using o hd chain_frame [OF same] by (simp add: owners_def)
  then have "as' = as" using o' chain_unique by (auto simp: owners_def)
  then show ?thesis using contents_chain [OF o] contents_chain [OF o'] same by (simp add: data_at_def)
qed

lemma contents_head:
  assumes o: "owners as s ls" and o': "owners as' (s\<lparr>head := p\<rparr>) ls'" and ch: "chain (heap s) p bs"
  shows "hp_contents (s\<lparr>head := p\<rparr>) = map (data_at s) bs"
proof -
  have "as' = bs" using o' ch chain_unique by (fastforce simp: owners_def)
  then show ?thesis using contents_chain [OF o'] by (simp add: data_at_def)
qed

section \<open>The simulation\<close>

lemma task_simps [simp]:
  "hcalls (goto l pc) = hcalls l" "hresults (goto l pc) = hresults l"
  "hcalls (returns l r) = tl (hcalls l)" "hresults (returns l r) = hresults l @ [r]"
  "hcalls (throws l r) = []" "hresults (throws l r) = hresults l @ [r]"
  by (simp_all add: goto_def returns_def throws_def)

text \<open>The three kinds of steps: those that keep the head, a push and a pop.\<close>

lemma hazard_kinds:
  assumes "(s', l') \<in> set (hazard_thread t s l)" and "hpc l' \<noteq> Broken"
  obtains (stay) "head s' = head s" "hresults l' \<noteq> hresults l @ [HPushed]" "\<And>a. hpc l' \<noteq> PopClear a"
  | (push) a d where "hpc l = PushCas a" "cell_at (heap s) a = Some (d, head s)" "s' = s\<lparr>head := Some a\<rparr>"
      "l' = returns l HPushed"
  | (pop) a n where "hpc l = PopCas a n" "head s = Some a" "s' = s\<lparr>head := n\<rparr>" "l' = goto l (PopClear a)"
proof (cases "hpc l")
  case (PushCas a)
  with assms obtain d n where c: "cell_at (heap s) a = Some (d, n)"
    by (auto simp: hazard_thread_def link_node_def split: option.splits)
  show ?thesis
  proof (cases "head s = n")
    case True
    with c PushCas assms show ?thesis by (intro push) (auto simp: hazard_thread_def)
  next
    case False
    with c PushCas assms show ?thesis by (intro stay) (auto simp: hazard_thread_def link_node_def)
  qed
next
  case (PopCas a n)
  with assms show ?thesis using that by (auto simp: hazard_thread_def split: if_splits)
next
  case (PopTest p)
  with assms show ?thesis using that by (cases p) (auto simp: hazard_thread_def split: option.splits)
next
  case (SweepAt rs res)
  with assms show ?thesis using that by (cases rs) (auto simp: hazard_thread_def)
next
  case (RetireCas r nxt k)
  with assms show ?thesis using that by (cases k) (auto simp: hazard_thread_def retire_return_pc_def split: if_splits)
qed (use assms that in \<open>auto simp: hazard_thread_def link_node_def Let_def
      split: list.splits hp_call.splits option.splits if_splits\<close>)

lemma stay_task:
  assumes st: "(s', l') \<in> set (hazard_thread t s l)" and hd: "head s' = head s" and br: "hpc l' \<noteq> Broken"
    and ok: "call_ok s l" "thread_ok s t l" and nopush: "hresults l' \<noteq> hresults l @ [HPushed]"
    and nopop: "\<And>a. hpc l' \<noteq> PopClear a"
  shows "abs_task s' l' = abs_task s l \<or>
    (\<exists>cs. abs_task s l = (HTopAndPop # cs, hresults l) \<and>
      (abs_task s' l' = ([], hresults l @ [HNoSlot]) \<or> head s = None \<and> abs_task s' l' = ([], hresults l @ [HEmpty])))"
proof (cases "hpc l")
  case (PopTest p)
  with st br show ?thesis by (cases p) (auto simp: hazard_thread_def abs_task_def split: option.splits)
next
  case (SweepAt rs res)
  with st show ?thesis by (cases rs) (auto simp: hazard_thread_def abs_task_def)
next
  case (RetireCas r nxt k)
  with st show ?thesis by (cases k) (auto simp: hazard_thread_def abs_task_def retire_return_pc_def split: if_splits)
next
  case (PopData a)
  with st br show ?thesis by (auto simp: hazard_thread_def abs_task_def data_at_def split: option.splits)
next
  case (PopReload p)
  with st ok show ?thesis by (cases p) (auto simp: hazard_thread_def abs_task_def call_ok_def split: if_splits)
next
  case (PopClear a)
  with st show ?thesis by (auto simp: hazard_thread_def abs_task_def data_at_def)
next
  case (Acquire i)
  with st ok show ?thesis by (auto simp: hazard_thread_def abs_task_def call_ok_def split: if_splits)
next
  case (PushCas a)
  with st br nopush show ?thesis
    by (auto simp: hazard_thread_def link_node_def abs_task_def split: option.splits if_splits)
next
  case (PopCas a n)
  with st nopop show ?thesis by (auto simp: hazard_thread_def abs_task_def split: if_splits)
qed (use st br in \<open>auto simp: hazard_thread_def link_node_def abs_task_def Let_def
      split: list.splits hp_call.splits option.splits if_splits\<close>)

text \<open>The call that a thread is making.\<close>

lemma own_call_ok:
  assumes ok: "call_ok s l" and st: "(s', l') \<in> set (hazard_thread t s l)" and br: "hpc l' \<noteq> Broken"
  shows "call_ok s' l'"
proof (cases "hpc l")
  case Idle
  show ?thesis
  proof (cases "hcalls l")
    case Nil
    with Idle st show ?thesis by (auto simp: hazard_thread_def call_ok_def split: if_splits)
  next
    case (Cons c cs)
    with Idle st show ?thesis
      by (cases c) (auto simp: hazard_thread_def call_ok_def data_at_def dest!: free_cellsD split: if_splits)
  qed
next
  case (PushLoad a)
  with st br ok show ?thesis
    by (auto simp: hazard_thread_def link_node_def call_ok_def data_at_def split: option.splits dest: cell_at_le)
next
  case (PushCas a)
  with st br ok show ?thesis
    by (auto simp: hazard_thread_def link_node_def call_ok_def data_at_def split: option.splits if_splits dest: cell_at_le)
next
  case (PopTest p)
  with st br ok show ?thesis by (cases p) (auto simp: hazard_thread_def call_ok_def split: option.splits)
next
  case (SweepAt rs res)
  with st ok show ?thesis by (cases rs) (auto simp: hazard_thread_def call_ok_def)
next
  case (RetireCas r nxt k)
  with st ok show ?thesis by (cases k) (auto simp: hazard_thread_def call_ok_def retire_return_pc_def split: if_splits)
qed (use st br ok in \<open>auto simp: hazard_thread_def call_ok_def Let_def split: option.splits if_splits\<close>)

definition lin_inv :: "hazard_stack \<Rightarrow> hp_thread list \<Rightarrow> bool" where
  "lin_inv s ls \<longleftrightarrow> hazard_inv s ls \<and> (\<forall>t < length ls. call_ok s (ls ! t))"

text \<open>What a step of another thread leaves as it is.\<close>

lemma other_task:
  assumes o: "owners as s ls" and tu: "t < length ls" "u < length ls" "t \<noteq> u" and ce: "cell_change s (hpc (ls ! t)) s'"
  shows "abs_task s' (ls ! u) = abs_task s (ls ! u) \<and> (call_ok s (ls ! u) \<longrightarrow> call_ok s' (ls ! u))"
proof -
  have "data_at s' a = data_at s a" if "taken (hpc (ls ! u)) = Some a \<or> pushing (hpc (ls ! u)) = Some a" for a
    using owned_unchanged [OF o tu _ ce, of a] own_taken own_pushing that by (auto simp: data_at_def)
  then show ?thesis by (cases "hpc (ls ! u)") (auto simp: abs_task_def call_ok_def)
qed

lemma hazard_abs_step:
  assumes I: "lin_inv s ls" and t: "t < length ls" and st: "(s', l') \<in> set (hazard_thread t s (ls ! t))"
  shows "lin_inv s' (ls[t := l']) \<and> (abs_stack s' (ls[t := l']) = abs_stack s ls \<or>
    atomic_step (abs_stack s ls) (abs_stack s' (ls[t := l'])))"
proof -
  have H: "hazard_inv s ls" and C: "\<And>u. u < length ls \<Longrightarrow> call_ok s (ls ! u)" using I by (simp_all add: lin_inv_def)
  then obtain as where o: "owners as s ls" and ok: "thread_ok s t (ls ! t)" using t by (auto simp: hazard_inv_owners)
  have H': "hazard_inv s' (ls[t := l'])" by (rule hazard_step [OF H t st])
  then obtain as' where o': "owners as' s' (ls[t := l'])" and br: "hpc l' \<noteq> Broken"
    using t by (auto simp: hazard_inv_owners thread_ok_def)
  note ce = hazard_cell_change [OF st]
  have other: "abs_task s' (ls ! u) = abs_task s (ls ! u) \<and> call_ok s' (ls ! u)" if "u < length ls" "u \<noteq> t" for u
    using other_task [OF o t that(1) _ ce] that C by auto
  then have "call_ok s' (ls[t := l'] ! u)" if "u < length ls" for u
    using that own_call_ok [OF C [OF t] st br] t by (cases "u = t") auto
  with H' have "lin_inv s' (ls[t := l'])" by (simp add: lin_inv_def)
  moreover have tasks: "map (abs_task s') (ls[t := l']) = (map (abs_task s) ls)[t := abs_task s' l']"
  proof (rule nth_equalityI)
    fix u assume "u < length (map (abs_task s') (ls[t := l']))"
    then show "map (abs_task s') (ls[t := l']) ! u = (map (abs_task s) ls)[t := abs_task s' l'] ! u"
      using other [of u] by (cases "u = t") auto
  qed simp
  have "abs_stack s' (ls[t := l']) = abs_stack s ls \<or> atomic_step (abs_stack s ls) (abs_stack s' (ls[t := l']))"
  proof (cases rule: hazard_kinds [OF st br])
    case stay: 1
    have c: "hp_contents s' = hp_contents s" by (rule contents_same [OF o t o' stay(1) ce])
    have empty: "head s = None \<Longrightarrow> hp_contents s = []" by (simp add: hp_contents_def)
    have same: "(map (abs_task s) ls)[t := abs_task s (ls ! t)] = map (abs_task s) ls"
      using t by (simp flip: map_update)
    consider "abs_task s' l' = abs_task s (ls ! t)"
      | cs where "abs_task s (ls ! t) = (HTopAndPop # cs, hresults (ls ! t))"
          "abs_task s' l' = ([], hresults (ls ! t) @ [HNoSlot])"
      | cs where "abs_task s (ls ! t) = (HTopAndPop # cs, hresults (ls ! t))" "head s = None"
          "abs_task s' l' = ([], hresults (ls ! t) @ [HEmpty])"
      using stay_task [OF st stay(1) br C [OF t] ok stay(2,3)] by blast
    then show ?thesis
    proof cases
      case 1
      then show ?thesis by (simp add: abs_stack_def tasks c same)
    next
      case (2 cs)
      then show ?thesis using t atomic_no_slot [of t "map (abs_task s) ls" cs "hresults (ls ! t)" "hp_contents s"]
        by (simp add: abs_stack_def tasks c)
    next
      case (3 cs)
      then show ?thesis using t atomic_empty [of t "map (abs_task s) ls" cs "hresults (ls ! t)"] empty
        by (simp add: abs_stack_def tasks c)
    qed
  next
    case push: (2 a d)
    have ch: "chain (heap s) (head s) as" using o by (simp add: owners_def)
    then have "hp_contents s' = map (data_at s) (a # as)"
      using contents_head [OF o, where p = "Some a" and ls' = "ls[t := l']" and bs = "a # as"] o' push ch by simp
    then have c: "hp_contents s' = data_at s a # hp_contents s" using contents_chain [OF o] by simp
    obtain cs where cs: "hcalls (ls ! t) = HPush (data_at s a) # cs" using C [OF t] push(1) by (auto simp: call_ok_def)
    then have "map (abs_task s) ls ! t = (HPush (data_at s a) # cs, hresults (ls ! t))"
      "abs_task s' l' = (cs, hresults (ls ! t) @ [HPushed])"
      using t push by (simp_all add: abs_task_def)
    then show ?thesis using t by (auto simp: abs_stack_def tasks c intro: atomic_push)
  next
    case pop: (3 a n)
    obtain bs where as: "as = a # bs" "chain (heap s) n bs"
      using o pop(2) ok pop(1) by (cases as) (auto simp: owners_def thread_ok_def)
    then have "hp_contents s' = map (data_at s) bs"
      using contents_head [OF o, where p = n and ls' = "ls[t := l']" and bs = bs] o' pop by simp
    then have c: "hp_contents s = data_at s a # hp_contents s'" using contents_chain [OF o] as by simp
    obtain cs where cs: "hcalls (ls ! t) = HTopAndPop # cs" using C [OF t] pop(1) by (auto simp: call_ok_def)
    then have "map (abs_task s) ls ! t = (HTopAndPop # cs, hresults (ls ! t))"
      "abs_task s' l' = (cs, hresults (ls ! t) @ [HPopped (data_at s a)])"
      using t pop by (simp_all add: abs_task_def data_at_def)
    then show ?thesis using t by (auto simp: abs_stack_def tasks c intro: atomic_pop)
  qed
  ultimately show ?thesis by blast
qed

lemma lin_start: "lin_inv (fst (hazard_init css)) (snd (hazard_init css))"
  using hazard_start by (auto simp: lin_inv_def hazard_init_def hp_task_def call_ok_def)

interpretation linearizable: thread_sim hazard_thread "hazard_init css" lin_inv abs_stack atomic_step for css
  using lin_start hazard_abs_step by unfold_locales blast+

text \<open>
  Claim C3. The stack with hazard pointers is linearizable: seen as its values and the results of the calls
  that have taken effect, every run is a run of the stack with atomic operations, from the empty stack.
\<close>

theorem hazard_linearizable:
  assumes "reach hazard_thread (hazard_init css) (s, ls)"
  shows "atomic_step\<^sup>*\<^sup>* ([], map (\<lambda>cs. (cs, [])) css) (hp_contents s, map (abs_task s) ls)"
  using linearizable.reach_sim [OF assms]
  by (simp add: abs_stack_def hazard_init_def hp_contents_def hp_task_def abs_task_def comp_def)

section \<open>Concrete runs\<close>

text \<open>
  One thread pushes; another takes the node, looks through the fifty slots, deletes the node and ends.
\<close>

definition hazard_schedule :: "(nat \<times> nat) list" where
  "hazard_schedule = map (\<lambda>i. (i, 0)) (replicate 3 0 @ replicate 66 1)"

lemma hazard_schedule_run:
  "map_option (\<lambda>(s, ls). (heap s, map (\<lambda>l. (hpc l, hresults l)) ls))
     (sched hazard_thread hazard_schedule (hazard_init [[HPush 7], [HTopAndPop]])) =
   Some ([None], [(Idle, [HPushed]), (Ended, [HPopped 7])])"
  by code_simp

lemma hazard_reaches:
  "\<exists>s ls. reach hazard_thread (hazard_init [[HPush 7], [HTopAndPop]]) (s, ls) \<and> heap s = [None] \<and>
     map (\<lambda>l. (hpc l, hresults l)) ls = [(Idle, [HPushed]), (Ended, [HPopped 7])]"
proof -
  obtain c where c: "sched hazard_thread hazard_schedule (hazard_init [[HPush 7], [HTopAndPop]]) = Some c"
    "heap (fst c) = [None] \<and> map (\<lambda>l. (hpc l, hresults l)) (snd c) = [(Idle, [HPushed]), (Ended, [HPopped 7])]"
    using hazard_schedule_run by (cases "sched hazard_thread hazard_schedule (hazard_init [[HPush 7], [HTopAndPop]])") auto
  from sched_reach [OF c(1)] c(2) show ?thesis by (intro exI [of _ "fst c"] exI [of _ "snd c"]) simp
qed

theorem hazard_memory_safe_witness:
  "\<exists>s ls. reach hazard_thread (hazard_init [[HPush 7], [HTopAndPop]]) (s, ls) \<and> heap s = [None] \<and>
     (\<forall>l \<in> set ls. hpc l \<noteq> Broken)"
  using hazard_reaches hazard_memory_safe by blast

theorem hazard_linearizable_witness:
  "\<exists>s ls. reach hazard_thread (hazard_init [[HPush 7], [HTopAndPop]]) (s, ls) \<and>
     atomic_step\<^sup>*\<^sup>* ([], [([HPush 7], []), ([HTopAndPop], [])]) (hp_contents s, map (abs_task s) ls)"
proof -
  obtain s ls where r: "reach hazard_thread (hazard_init [[HPush 7], [HTopAndPop]]) (s, ls)"
    using hazard_reaches by blast
  from hazard_linearizable [OF r] r show ?thesis by auto
qed

end
