(* ===== verification/Channel.thy ===== *)
theory Channel
  imports Fifo_Interface Condition_Variables
begin

text \<open>
  ProducerConsumer/producer_consumer_channel: the class \<open>Channel\<close> in channel.hpp and channel.tpp. Its member functions
  hold the mutex of the channel from their first line to their return, apart from the waits, so a step
  is what a thread does between taking the mutex and giving it back, in a return or in a wait.
\<close>

section \<open>The class\<close>

text \<open>\<open>history\<close> is what the proofs record; the functions do not read it. \<open>selectors\<close> are the registered selectors.\<close>

record channel =
  queue :: "nat list"
  closed :: bool
  capacity :: nat
  waitingReceivers :: "64 word"
  cv_send :: condvar
  cv_recv :: condvar
  selectors :: "nat list"
  history :: "nat fifo_event list"

definition new_channel :: "nat \<Rightarrow> channel" where
  "new_channel cap = \<lparr>queue = [], closed = False, capacity = cap, waitingReceivers = 0, cv_send = [], cv_recv = [],
     selectors = [], history = []\<rparr>"

datatype chan_result = Sent | SendThrows | TrySent bool | Received "nat option" | Closed | IsClosed bool

text \<open>A section ends with the result of the call, or with the thread in the wait (\<open>None\<close>).\<close>

type_synonym chan_section = "chan_result option \<times> channel"

definition push_value :: "nat \<Rightarrow> channel \<Rightarrow> channel" where
  "push_value v s = s\<lparr>queue := queue s @ [v], history := history s @ [Accepted v]\<rparr>"

definition notify_recv :: "channel \<Rightarrow> channel list" where
  "notify_recv s = map (\<lambda>ws. s\<lparr>cv_recv := ws\<rparr>) (notify_one (cv_recv s))"

definition notify_send :: "channel \<Rightarrow> channel list" where
  "notify_send s = map (\<lambda>ws. s\<lparr>cv_send := ws\<rparr>) (notify_one (cv_send s))"

text \<open>\<open>send\<close> from its entry, or after a wakeup: the tests of \<open>closed\<close> before and after the wait throw.\<close>

definition send_section :: "nat \<Rightarrow> nat \<Rightarrow> channel \<Rightarrow> chan_section list" where
  "send_section t v s =
     (if closed s then [(Some SendThrows, s)]
      else if capacity s = 0
      then if waitingReceivers s > 0
           then map (Pair (Some Sent)) (notify_recv (push_value v (s\<lparr>waitingReceivers := waitingReceivers s - 1\<rparr>)))
           else [(None, s\<lparr>cv_send := cv_send s @ [t]\<rparr>)]
      else if length (queue s) < capacity s
           then map (Pair (Some Sent)) (notify_recv (push_value v s))
           else [(None, s\<lparr>cv_send := cv_send s @ [t]\<rparr>)])"

definition try_send :: "nat \<Rightarrow> channel \<Rightarrow> chan_section list" where
  "try_send v s =
     (if closed s \<or> capacity s \<noteq> 0 \<and> length (queue s) \<ge> capacity s then [(Some (TrySent False), s)]
      else map (Pair (Some (TrySent True))) (notify_recv (push_value v s)))"

text \<open>The front of the queue, which is not empty.\<close>

definition pop_value :: "(nat option \<Rightarrow> chan_result) \<Rightarrow> channel \<Rightarrow> chan_section list" where
  "pop_value r s =
     (case queue s of
        [] \<Rightarrow> [(Some (r None), s)]
      | v # q \<Rightarrow> map (Pair (Some (r (Some v)))) (notify_send (s\<lparr>queue := q, history := history s @ [Taken v]\<rparr>)))"

text \<open>\<open>receive\<close> from the test of its wait.\<close>

definition receive_section :: "nat \<Rightarrow> channel \<Rightarrow> chan_section list" where
  "receive_section t s =
     (if queue s \<noteq> [] \<or> closed s
      then let s = (if capacity s = 0 then s\<lparr>waitingReceivers := waitingReceivers s - 1\<rparr> else s)
           in pop_value Received s
      else [(None, s\<lparr>cv_recv := cv_recv s @ [t]\<rparr>)])"

definition receive_entry :: "nat \<Rightarrow> channel \<Rightarrow> chan_section list" where
  "receive_entry t s =
     (if capacity s = 0
      then concat (map (receive_section t) (notify_send (s\<lparr>waitingReceivers := waitingReceivers s + 1\<rparr>)))
      else receive_section t s)"

definition try_receive :: "channel \<Rightarrow> chan_section list" where
  "try_receive s = pop_value Received s"

definition close_channel :: "channel \<Rightarrow> channel" where
  "close_channel s = s\<lparr>closed := True, cv_send := notify_all (cv_send s), cv_recv := notify_all (cv_recv s)\<rparr>"

definition is_closed :: "channel \<Rightarrow> bool" where
  "is_closed s = closed s"

definition is_empty :: "channel \<Rightarrow> bool" where
  "is_empty s \<longleftrightarrow> queue s = []"

definition chan_size :: "channel \<Rightarrow> nat" where
  "chan_size s = length (queue s)"

definition register_selector :: "nat \<Rightarrow> channel \<Rightarrow> channel" where
  "register_selector sel s = s\<lparr>selectors := selectors s @ [sel]\<rparr>"

definition unregister_selector :: "nat \<Rightarrow> channel \<Rightarrow> channel" where
  "unregister_selector sel s = s\<lparr>selectors := removeAll sel (selectors s)\<rparr>"

section \<open>Any threads\<close>

text \<open>\<open>async_send\<close> and \<open>async_receive\<close> are the same calls, made by a thread of their own.\<close>

datatype chan_call = Send nat | TrySend nat | Receive | TryReceive | Close | AskClosed

datatype chan_place = Ready | SendWait nat | RecvWait

record chan_user =
  ccalls :: "chan_call list"
  cplace :: chan_place
  cresults :: "chan_result list"

definition section_end :: "chan_place \<Rightarrow> chan_user \<Rightarrow> chan_section \<Rightarrow> channel \<times> chan_user" where
  "section_end w u x =
     (snd x, case fst x of
        None \<Rightarrow> u\<lparr>cplace := w\<rparr>
      | Some r \<Rightarrow> \<lparr>ccalls = tl (ccalls u), cplace = Ready, cresults = cresults u @ [r]\<rparr>)"

definition chan_thread :: "bool \<Rightarrow> (channel, chan_user) thread" where
  "chan_thread sp t s u =
     (case cplace u of
        SendWait v \<Rightarrow>
          if sp \<or> t \<notin> set (cv_send s)
          then map (section_end (SendWait v) u) (send_section t v (s\<lparr>cv_send := remove1 t (cv_send s)\<rparr>)) else []
      | RecvWait \<Rightarrow>
          if sp \<or> t \<notin> set (cv_recv s)
          then map (section_end RecvWait u) (receive_section t (s\<lparr>cv_recv := remove1 t (cv_recv s)\<rparr>)) else []
      | Ready \<Rightarrow>
          (case ccalls u of
             [] \<Rightarrow> []
           | Send v # _ \<Rightarrow> map (section_end (SendWait v) u) (send_section t v s)
           | TrySend v # _ \<Rightarrow> map (section_end Ready u) (try_send v s)
           | Receive # _ \<Rightarrow> map (section_end RecvWait u) (receive_entry t s)
           | TryReceive # _ \<Rightarrow> map (section_end Ready u) (try_receive s)
           | Close # _ \<Rightarrow> [section_end Ready u (Some Closed, close_channel s)]
           | AskClosed # _ \<Rightarrow> [section_end Ready u (Some (IsClosed (is_closed s)), s)]))"

definition chan_init :: "nat \<Rightarrow> chan_call list list \<Rightarrow> (channel, chan_user) conf" where
  "chan_init cap css = (new_channel cap, map (\<lambda>cs. \<lparr>ccalls = cs, cplace = Ready, cresults = []\<rparr>) css)"

section \<open>What a section does to the queue\<close>

definition chan_change :: "channel \<Rightarrow> channel \<Rightarrow> bool" where
  "chan_change s s' \<longleftrightarrow> capacity s' = capacity s \<and>
     fifo_change (capacity s) (queue s) (history s) (queue s') (history s')"

lemma send_change: "(r, s') \<in> set (send_section t v s) \<Longrightarrow> chan_change s s'"
  by (auto simp: send_section_def notify_recv_def push_value_def chan_change_def fifo_change_def split: if_splits)

lemma try_send_change: "(r, s') \<in> set (try_send v s) \<Longrightarrow> chan_change s s'"
  by (auto simp: try_send_def notify_recv_def push_value_def chan_change_def fifo_change_def split: if_splits)

lemma pop_change: "(r, s') \<in> set (pop_value f s) \<Longrightarrow> chan_change s s'"
  by (auto simp: pop_value_def notify_send_def chan_change_def fifo_change_def split: list.splits)

lemma receive_change: "(r, s') \<in> set (receive_section t s) \<Longrightarrow> chan_change s s'"
  by (auto simp: receive_section_def Let_def chan_change_def fifo_change_def split: if_splits dest!: pop_change)

lemma receive_entry_change: "(r, s') \<in> set (receive_entry t s) \<Longrightarrow> chan_change s s'"
  by (auto simp: receive_entry_def notify_send_def chan_change_def split: if_splits dest!: receive_change)

lemma chan_thread_change:
  assumes "(s', u') \<in> set (chan_thread sp t s u)"
  shows "chan_change s s'"
proof -
  have "chan_change s s" "chan_change s (close_channel s)"
    by (simp_all add: chan_change_def fifo_change_def close_channel_def)
  note changes = this send_change try_send_change receive_change receive_entry_change pop_change
  show ?thesis
  proof (cases "cplace u")
    case Ready
    show ?thesis
    proof (cases "ccalls u")
      case Nil
      with Ready assms show ?thesis by (simp add: chan_thread_def)
    next
      case (Cons c cs)
      with Ready assms show ?thesis using changes
        by (cases c) (auto simp: chan_thread_def section_end_def try_receive_def)
    qed
  next
    case (SendWait v)
    then obtain r where "(r, s') \<in> set (send_section t v (s\<lparr>cv_send := remove1 t (cv_send s)\<rparr>))"
      using assms by (auto simp: chan_thread_def section_end_def split: if_splits)
    from send_change [OF this] show ?thesis by (simp add: chan_change_def)
  next
    case RecvWait
    then obtain r where "(r, s') \<in> set (receive_section t (s\<lparr>cv_recv := remove1 t (cv_recv s)\<rparr>))"
      using assms by (auto simp: chan_thread_def section_end_def split: if_splits)
    from receive_change [OF this] show ?thesis by (simp add: chan_change_def)
  qed
qed

interpretation chan: fifo_threads "chan_thread sp" "chan_init cap css" queue history capacity for sp cap css
  by unfold_locales (auto simp: chan_init_def new_channel_def dest!: chan_thread_change simp: chan_change_def)

section \<open>The program\<close>

text \<open>
  A producer numbers its messages with the shared counter and tries to send them; a message that is refused
  is dropped, unless the channel is closed, when the producer returns. A consumer receives until it gets
  nothing. The main thread closes the channel when it has slept.
\<close>

definition chan_kMaxMessagesCount :: nat where "chan_kMaxMessagesCount = 10"
definition chan_kBufferSize :: nat where "chan_kBufferSize = 3"

record chan_program =
  buffer :: channel
  messagesCount :: nat

datatype prog_pc =
    Produce nat
  | TrySending nat nat
  | AskIfClosed nat
  | Consume
  | ConsumeWait
  | SleepThenClose
  | Returned

definition chan_producer :: "chan_program \<Rightarrow> prog_pc \<Rightarrow> (chan_program \<times> prog_pc) list" where
  "chan_producer g pc =
     (case pc of
        Produce i \<Rightarrow>
          [if i < chan_kMaxMessagesCount then (g\<lparr>messagesCount := messagesCount g + 1\<rparr>, TrySending i (messagesCount g))
           else (g, Returned)]
      | TrySending i portion \<Rightarrow>
          map (\<lambda>(r, s). (g\<lparr>buffer := s\<rparr>, if r = Some (TrySent True) then Produce (i + 1) else AskIfClosed i))
            (try_send portion (buffer g))
      | AskIfClosed i \<Rightarrow> [(g, if is_closed (buffer g) then Returned else Produce (i + 1))]
      | _ \<Rightarrow> [])"

definition consumer_end :: "chan_program \<Rightarrow> chan_section \<Rightarrow> chan_program \<times> prog_pc" where
  "consumer_end g x =
     (g\<lparr>buffer := snd x\<rparr>,
      case fst x of None \<Rightarrow> ConsumeWait | Some r \<Rightarrow> if r = Received None then Returned else Consume)"

definition chan_consumer :: "bool \<Rightarrow> nat \<Rightarrow> chan_program \<Rightarrow> prog_pc \<Rightarrow> (chan_program \<times> prog_pc) list" where
  "chan_consumer sp t g pc =
     (let s = buffer g in case pc of
        Consume \<Rightarrow> map (consumer_end g) (receive_entry t s)
      | ConsumeWait \<Rightarrow>
          if sp \<or> t \<notin> set (cv_recv s)
          then map (consumer_end g) (receive_section t (s\<lparr>cv_recv := remove1 t (cv_recv s)\<rparr>)) else []
      | _ \<Rightarrow> [])"

definition chan_closer :: "chan_program \<Rightarrow> prog_pc \<Rightarrow> (chan_program \<times> prog_pc) list" where
  "chan_closer g pc = (if pc = SleepThenClose then [(g\<lparr>buffer := close_channel (buffer g)\<rparr>, Returned)] else [])"

definition chan_program_thread :: "bool \<Rightarrow> (chan_program, prog_pc) thread" where
  "chan_program_thread sp t g pc = chan_producer g pc @ chan_consumer sp t g pc @ chan_closer g pc"

definition chan_main :: "(chan_program, prog_pc) conf" where
  "chan_main = (\<lparr>buffer = new_channel chan_kBufferSize, messagesCount = 0\<rparr>,
     [Produce 0, Consume, Produce 0, Consume, SleepThenClose])"

lemma chan_program_change:
  assumes "(g', pc') \<in> set (chan_program_thread sp t g pc)"
  shows "chan_change (buffer g) (buffer g')"
proof -
  have same: "chan_change s s" "chan_change s (close_channel s)" for s
    by (simp_all add: chan_change_def fifo_change_def close_channel_def)
  have wake: "chan_change (s\<lparr>cv_recv := ws\<rparr>) s' \<Longrightarrow> chan_change s s'" for s s' ws by (simp add: chan_change_def)
  show ?thesis
    using assms same
    by (cases pc) (auto simp: chan_program_thread_def chan_producer_def chan_consumer_def chan_closer_def consumer_end_def
        Let_def split: if_splits dest!: try_send_change receive_entry_change receive_change dest: wake)
qed

interpretation chan_prog: fifo_threads "chan_program_thread sp" chan_main "\<lambda>g. queue (buffer g)" "\<lambda>g. history (buffer g)"
  "\<lambda>g. capacity (buffer g)" for sp
  by unfold_locales (auto simp: chan_main_def new_channel_def dest!: chan_program_change simp: chan_change_def)

section \<open>The program ends\<close>

text \<open>A thread in the list of \<open>cv_recv\<close> is in its wait, and a closed channel has nobody waiting.\<close>

definition chan_inv :: "chan_program \<Rightarrow> prog_pc list \<Rightarrow> bool" where
  "chan_inv g ls \<longleftrightarrow> length ls = 5 \<and> capacity (buffer g) = 3 \<and> distinct (cv_recv (buffer g)) \<and>
     (\<forall>t \<in> set (cv_recv (buffer g)). t < 5 \<and> ls ! t = ConsumeWait) \<and>
     (closed (buffer g) \<longrightarrow> cv_recv (buffer g) = []) \<and> (SleepThenClose \<in> set ls \<or> closed (buffer g))"

fun prog_work :: "prog_pc \<Rightarrow> nat" where
  "prog_work (Produce i) = 30 * (10 - i) + 10"
| "prog_work (TrySending i m) = 30 * (10 - i)"
| "prog_work (AskIfClosed i) = 30 * (10 - i) - 10"
| "prog_work Consume = 3"
| "prog_work ConsumeWait = 2"
| "prog_work SleepThenClose = 20"
| "prog_work Returned = 0"

definition chan_work :: "chan_program \<Rightarrow> nat" where
  "chan_work g = 4 * length (queue (buffer g)) + (5 - length (cv_recv (buffer g)))"

definition msg_ok :: "prog_pc \<Rightarrow> bool" where
  "msg_ok pc \<longleftrightarrow> (case pc of TrySending i m \<Rightarrow> i < 10 | AskIfClosed i \<Rightarrow> i < 10 | _ \<Rightarrow> True)"

lemma waiting_bound:
  assumes "chan_inv g ls"
  shows "length (cv_recv (buffer g)) \<le> 5"
proof -
  have "set (cv_recv (buffer g)) \<subseteq> {..<5}" using assms by (auto simp: chan_inv_def)
  then have "card (set (cv_recv (buffer g))) \<le> 5" using card_mono [of "{..<5 :: nat}"] by fastforce
  then show ?thesis using assms by (simp add: chan_inv_def distinct_card)
qed

text \<open>
  What a step of thread \<open>t\<close> does to the wait list and to the work: it wakes some, or it takes a value, or it
  goes to sleep itself.
\<close>

definition chan_effect :: "nat \<Rightarrow> chan_program \<Rightarrow> prog_pc \<Rightarrow> chan_program \<Rightarrow> prog_pc \<Rightarrow> bool" where
  "chan_effect t g pc g' pc' \<longleftrightarrow> capacity (buffer g') = capacity (buffer g) \<and> msg_ok pc' \<and>
     (closed (buffer g) \<longrightarrow> closed (buffer g')) \<and> (pc = SleepThenClose \<longrightarrow> closed (buffer g')) \<and>
     (closed (buffer g') \<longrightarrow> closed (buffer g) \<or> cv_recv (buffer g') = []) \<and>
     (cv_recv (buffer g') = cv_recv (buffer g) \<and> (pc = ConsumeWait \<longrightarrow> t \<notin> set (cv_recv (buffer g))) \<and>
        (pc' = ConsumeWait \<longrightarrow> pc = ConsumeWait) \<and>
        prog_work pc' + 4 * length (queue (buffer g')) < prog_work pc + 4 * length (queue (buffer g)) \<or>
      (\<exists>v. cv_recv (buffer g') = remove1 v (cv_recv (buffer g))) \<and> pc \<noteq> ConsumeWait \<and> pc' \<noteq> ConsumeWait \<and>
        prog_work pc' + 4 * length (queue (buffer g')) + 1 < prog_work pc + 4 * length (queue (buffer g)) \<or>
      cv_recv (buffer g') = [] \<and> pc \<noteq> ConsumeWait \<and> pc' \<noteq> ConsumeWait \<and>
        prog_work pc' + 4 * length (queue (buffer g')) + 5 < prog_work pc + 4 * length (queue (buffer g)) \<or>
      \<not> closed (buffer g') \<and> cv_recv (buffer g') = cv_recv (buffer g) @ [t] \<and> pc' = ConsumeWait \<and>
        (pc = Consume \<or> pc = ConsumeWait \<and> t \<notin> set (cv_recv (buffer g))) \<and> queue (buffer g') = queue (buffer g))"

lemma chan_step_effect:
  assumes "(g', pc') \<in> set (chan_program_thread False t g pc)" and "capacity (buffer g) = 3" and "msg_ok pc"
    and "pc = Consume \<longrightarrow> t \<notin> set (cv_recv (buffer g))"
  shows "chan_effect t g pc g' pc'"
  using assms
    by (cases pc) (auto simp: chan_program_thread_def chan_producer_def chan_consumer_def chan_closer_def consumer_end_def
      chan_effect_def try_send_def receive_entry_def receive_section_def pop_value_def push_value_def notify_recv_def
      notify_send_def notify_one_def notify_all_def close_channel_def is_closed_def msg_ok_def chan_kMaxMessagesCount_def
      Let_def remove1_idem split: if_splits list.splits)


lemma chan_prog_step:
  assumes I: "chan_inv g ls \<and> list_all msg_ok ls" and t: "t < length ls"
    and st: "(g', pc') \<in> set (chan_program_thread False t g (ls ! t))"
  shows "(chan_inv g' (ls[t := pc']) \<and> list_all msg_ok (ls[t := pc'])) \<and>
    workload prog_work (ls[t := pc']) + chan_work g' < workload prog_work ls + chan_work g"
proof -
  let ?cv = "cv_recv (buffer g)" and ?cv' = "cv_recv (buffer g')"
  have inv: "length ls = 5" "capacity (buffer g) = 3" "distinct ?cv" "\<forall>u \<in> set ?cv. u < 5 \<and> ls ! u = ConsumeWait"
    "closed (buffer g) \<longrightarrow> ?cv = []" "SleepThenClose \<in> set ls \<or> closed (buffer g)"
    using I by (simp_all add: chan_inv_def)
  have out: "ls ! t \<noteq> ConsumeWait \<Longrightarrow> t \<notin> set ?cv" using inv(4) by blast
  have "msg_ok (ls ! t)" using I t by (simp add: list_all_length)
  from chan_step_effect [OF st inv(2) this] out have e: "chan_effect t g (ls ! t) g' pc'" by auto
  have le: "length ?cv \<le> 5" using waiting_bound I by blast
  have keep: "\<forall>u \<in> set xs. u < 5 \<and> ls[t := pc'] ! u = ConsumeWait" if "set xs \<subseteq> set ?cv" "t \<notin> set ?cv" for xs
    using that inv(4) by (metis nth_list_update_neq subsetD)
  let ?q = "4 * length (queue (buffer g))" and ?q' = "4 * length (queue (buffer g'))"
  have noting: "t \<notin> set ?cv" using e out unfolding chan_effect_def by fastforce
  consider (same) "?cv' = ?cv" "prog_work pc' + ?q' < prog_work (ls ! t) + ?q"
    | (woken) v where "?cv' = remove1 v ?cv" "prog_work pc' + ?q' + 1 < prog_work (ls ! t) + ?q"
    | (all) "?cv' = []" "prog_work pc' + ?q' + 5 < prog_work (ls ! t) + ?q"
    | (sleeps) "?cv' = ?cv @ [t]" "pc' = ConsumeWait" "prog_work (ls ! t) \<ge> 2" "?q' = ?q"
    using e unfolding chan_effect_def by fastforce
  note effects = this
  have cv: "distinct ?cv' \<and> (\<forall>u \<in> set ?cv'. u < 5 \<and> ls[t := pc'] ! u = ConsumeWait)"
  proof (cases rule: effects)
    case same
    then show ?thesis using keep [of ?cv] noting inv(3) by simp
  next
    case (woken v)
    then show ?thesis using keep [of "remove1 v ?cv"] noting inv(3) by (simp add: set_remove1_subset distinct_remove1)
  next
    case sleeps
    then show ?thesis using keep [of ?cv] noting inv(1,3) t by auto
  qed simp
  have sc: "SleepThenClose \<in> set (ls[t := pc']) \<or> closed (buffer g')"
  proof (cases "closed (buffer g) \<or> ls ! t = SleepThenClose")
    case True
    with e show ?thesis by (auto simp: chan_effect_def)
  next
    case False
    then obtain u where "u < length ls" "ls ! u = SleepThenClose" "u \<noteq> t"
      using inv(6) by (metis in_set_conv_nth)
    then show ?thesis by (metis length_list_update nth_list_update_neq nth_mem)
  qed
  have "chan_inv g' (ls[t := pc'])"
    using e cv sc inv by (auto simp: chan_inv_def chan_effect_def)
  moreover have "list_all msg_ok (ls[t := pc'])" using I e by (auto simp: chan_effect_def intro: list_all_upd)
  moreover have "prog_work pc' + chan_work g' < prog_work (ls ! t) + chan_work g"
  proof -
    have le': "length ?cv' \<le> 5" using waiting_bound [OF \<open>chan_inv g' (ls[t := pc'])\<close>] .
    show ?thesis
    proof (cases rule: effects)
      case (woken v)
      have "length ?cv \<le> length ?cv' + 1" using woken(1) by (auto simp: length_remove1)
      with woken(2) le show ?thesis by (simp add: chan_work_def)
    next
      case sleeps
      then show ?thesis using le le' by (simp add: chan_work_def)
    qed (use le in \<open>simp_all add: chan_work_def\<close>)
  qed
  ultimately show ?thesis using workload_less [OF t] by blast
qed

interpretation chan_runs: thread_term "chan_program_thread False" chan_main "\<lambda>g ls. chan_inv g ls \<and> list_all msg_ok ls"
  "\<lambda>g ls. workload prog_work ls + chan_work g"
proof
  show "chan_inv (fst chan_main) (snd chan_main) \<and> list_all msg_ok (snd chan_main)"
    by (simp add: chan_inv_def chan_main_def new_channel_def chan_kBufferSize_def msg_ok_def)
qed (use chan_prog_step in blast)+

text \<open>A thread that cannot go on has returned or sleeps in a wait of which the channel knows.\<close>

lemma chan_blocked:
  assumes "chan_program_thread False t g pc = []" "capacity (buffer g) = 3"
  shows "pc = Returned \<or> pc = ConsumeWait \<and> t \<in> set (cv_recv (buffer g))"
  using assms
  by (cases pc) (auto simp: chan_program_thread_def chan_producer_def chan_consumer_def chan_closer_def
      try_send_def receive_entry_def receive_section_def pop_value_def notify_recv_def notify_send_def notify_one_def
      Let_def split: if_splits list.splits)

section \<open>What the channel promises\<close>

text \<open>
  Claim C30. For any threads that make any calls: what has been received, followed by the queue, is what has been
  sent, in the same order, and a buffered channel never holds more than its capacity.
\<close>

theorem channel_is_fifo:
  assumes "reach (chan_thread sp) (chan_init cap css) (s, us)"
  shows "accepted (history s) = taken_out (history s) @ queue s \<and> (cap = 0 \<or> length (queue s) \<le> cap)"
  using chan.fifo_order [OF assms] by (simp add: chan_init_def new_channel_def)

text \<open>
  A closed channel takes no value: sending throws, trying to send fails, and a receiver never blocks: it
  gets what is left, in order, and then nothing.
\<close>

theorem closed_channel_drains:
  assumes "closed s" and "(r, s') \<in> set (receive_entry t s)"
  shows "send_section t v s = [(Some SendThrows, s)] \<and> try_send v s = [(Some (TrySent False), s)] \<and> closed s' \<and>
    r = Some (Received (case queue s of [] \<Rightarrow> None | x # q \<Rightarrow> Some x)) \<and> queue s' = tl (queue s)"
proof -
  have "closed s' \<and> r = Some (Received (case queue s of [] \<Rightarrow> None | x # q \<Rightarrow> Some x)) \<and> queue s' = tl (queue s)"
    using assms
    by (cases "queue s") (auto simp: receive_entry_def receive_section_def pop_value_def notify_send_def Let_def split: if_splits)
  then show ?thesis using assms(1) by (simp add: send_section_def try_send_def)
qed

theorem closed_channel_drains_witness:
  "receive_entry 0 (close_channel ((new_channel 3)\<lparr>queue := [4, 5]\<rparr>)) \<noteq> [] \<and>
   (\<forall>x \<in> set (receive_entry 0 (close_channel ((new_channel 3)\<lparr>queue := [4, 5]\<rparr>))).
     fst x = Some (Received (Some 4)) \<and> queue (snd x) = [5])"
proof -
  have "closed (close_channel ((new_channel 3)\<lparr>queue := [4, 5]\<rparr>))" by (simp add: close_channel_def)
  from closed_channel_drains [OF this] have "\<forall>x \<in> set (receive_entry 0 (close_channel ((new_channel 3)\<lparr>queue := [4, 5]\<rparr>))).
     fst x = Some (Received (Some 4)) \<and> queue (snd x) = [5]"
    by (auto simp: close_channel_def)
  then show ?thesis
    by (simp add: receive_entry_def receive_section_def pop_value_def close_channel_def new_channel_def notify_send_def
        notify_one_def Let_def)
qed

text \<open>
  Without spurious wakeups the program has no infinite run, and when nothing can go on, all five
  threads have returned: nobody sleeps through the closing of the channel.
\<close>

theorem channel_program_ends:
  assumes "reach (chan_program_thread False) chan_main (g, ls)"
  shows "(\<forall>f. f 0 = (g, ls) \<longrightarrow> \<not> (\<forall>k. istep (chan_program_thread False) (f k) (f (Suc k)))) \<and>
    (stuck (chan_program_thread False) (g, ls) \<longrightarrow> ls = replicate 5 Returned \<and> closed (buffer g))"
proof -
  have I: "chan_inv g ls" using chan_runs.reach_inv [OF assms] by blast
  have "ls = replicate 5 Returned \<and> closed (buffer g)" if st: "stuck (chan_program_thread False) (g, ls)"
  proof -
    have b: "ls ! t = Returned \<or> ls ! t = ConsumeWait \<and> t \<in> set (cv_recv (buffer g))" if "t < length ls" for t
      using st that chan_blocked [of t g "ls ! t"] I by (auto simp: stuck_iff chan_inv_def)
    have "SleepThenClose \<notin> set ls"
    proof
      assume "SleepThenClose \<in> set ls"
      then obtain t where "t < length ls" "ls ! t = SleepThenClose" by (auto simp: in_set_conv_nth)
      with b [of t] show False by simp
    qed
    then have "closed (buffer g)" "cv_recv (buffer g) = []" using I by (auto simp: chan_inv_def)
    moreover have "ls = replicate 5 Returned"
    proof (rule nth_equalityI)
      show "length ls = length (replicate 5 Returned)" using I by (simp add: chan_inv_def)
      fix t assume t: "t < length ls"
      then have "t < 5" using I by (simp add: chan_inv_def)
      then show "ls ! t = replicate 5 Returned ! t" using b [OF t] \<open>cv_recv (buffer g) = []\<close> by simp
    qed
    ultimately show ?thesis by blast
  qed
  moreover have "\<forall>f. f 0 = (g, ls) \<longrightarrow> \<not> (\<forall>k. istep (chan_program_thread False) (f k) (f (Suc k)))"
    using chan_runs.no_infinite_run assms by metis
  ultimately show ?thesis by blast
qed

text \<open>
  A run in which the first producer sends three messages and finds the channel full for seven, and the others are not
  heard of before the channel is closed.
\<close>

definition drop_schedule :: "(nat \<times> nat) list" where
  "drop_schedule = replicate (3 * 2 + 7 * 3 + 1) (0, 0) @ [(4, 0)] @ replicate 4 (1, 0) @ [(3, 0)] @ replicate 3 (2, 0)"

lemma drop_run:
  "\<exists>g. reach (chan_program_thread False) chan_main (g, replicate 5 Returned) \<and> messagesCount g = 11 \<and>
     taken_out (history (buffer g)) = [0, 1, 2]"
proof -
  have "map_option (\<lambda>(g, ls). (ls, messagesCount g, taken_out (history (buffer g))))
      (sched (chan_program_thread False) drop_schedule chan_main) = Some (replicate 5 Returned, 11, [0, 1, 2])"
    by code_simp
  from sched_observe [OF this] show ?thesis by auto
qed

text \<open>
  The program can lose messages although it waits two seconds before it closes the channel: a producer does
  not look whether a message was refused because the channel was full. Here eleven are produced and three consumed.
\<close>

theorem channel_program_drops:
  "\<exists>g. reach (chan_program_thread False) chan_main (g, replicate 5 Returned) \<and> messagesCount g = 11 \<and>
     taken_out (history (buffer g)) = [0, 1, 2]"
  by (rule drop_run)

theorem channel_program_ends_witness:
  "\<exists>g. reach (chan_program_thread False) chan_main (g, replicate 5 Returned) \<and>
     (\<forall>f. f 0 = (g, replicate 5 Returned) \<longrightarrow> \<not> (\<forall>k. istep (chan_program_thread False) (f k) (f (Suc k))))"
proof -
  have "\<exists>g. reach (chan_program_thread False) chan_main (g, replicate 5 Returned)"
    using drop_run by blast
  then show ?thesis using channel_program_ends by blast
qed

text \<open>
  The count of waiting receivers of an unbuffered channel is decremented twice for one receiver, by the sender
  and by the receiver itself: after one exchange it is \<open>2 ^ 64 - 1\<close>, and from then on \<open>send\<close> returns although nobody
  receives.
\<close>

theorem unbuffered_count_wraps:
  "\<exists>s us. reach (chan_thread False) (chan_init 0 [[Receive], [Send 1, Send 2, Send 3]]) (s, us) \<and>
     waitingReceivers s = - 3 \<and> map cresults us = [[Received (Some 1)], [Sent, Sent, Sent]] \<and> queue s = [2, 3]"
proof -
  have "map_option (\<lambda>(s, us). (waitingReceivers s, map cresults us, queue s))
      (sched (chan_thread False) (map (\<lambda>i. (i, 0)) [0, 1, 0, 1, 1]) (chan_init 0 [[Receive], [Send 1, Send 2, Send 3]])) =
      Some (- 3, [[Received (Some 1)], [Sent, Sent, Sent]], [2, 3])"
    by code_simp
  from sched_observe [OF this] show ?thesis by auto
qed

theorem channel_is_fifo_witness:
  "\<exists>s us. reach (chan_thread False) (chan_init 3 [[Send 1, Send 2], [Receive]]) (s, us) \<and>
     accepted (history s) = [1, 2] \<and> queue s = [2] \<and> taken_out (history s) = [1]"
proof -
  have "\<exists>s us. sched (chan_thread False) (map (\<lambda>i. (i, 0)) [1, 0, 0, 1]) (chan_init 3 [[Send 1, Send 2], [Receive]]) =
      Some (s, us) \<and> accepted (history s) = [1, 2] \<and> queue s = [2]"
    by (simp add: chan_init_def chan_thread_def section_end_def send_section_def receive_entry_def receive_section_def
        pop_value_def push_value_def notify_recv_def notify_send_def notify_one_def new_channel_def Let_def)
  then obtain s us where r: "reach (chan_thread False) (chan_init 3 [[Send 1, Send 2], [Receive]]) (s, us)"
    and h: "accepted (history s) = [1, 2]" "queue s = [2]" by (auto dest: sched_reach)
  from channel_is_fifo [OF r] h have "taken_out (history s) = [1]" by simp
  with r h show ?thesis by (intro exI [of _ s] exI [of _ us]) simp
qed

end
