(* ===== verification/Selector.thy ===== *)
theory Selector
  imports Channel
begin

text \<open>
  ProducerConsumer/producer_consumer_channel/selector.hpp and selector.cpp: a selector waits until one of the channels
  that are registered with it has data, and calls a callback. The channels are numbered; what the callbacks
  are given is recorded.
\<close>

section \<open>The class\<close>

text \<open>\<open>sleeping\<close>: the thread in \<open>select\<close> is in its wait and has not been notified.\<close>

record selector =
  chans :: "channel list"
  channels :: "nat list"
  stop_flag :: bool
  sleeping :: bool
  delivered :: "(nat \<times> nat) list"

definition set_chan :: "nat \<Rightarrow> channel \<Rightarrow> selector \<Rightarrow> selector" where
  "set_chan c ch w = w\<lparr>chans := (chans w)[c := ch]\<rparr>"

definition notify_selector :: "selector \<Rightarrow> selector" where
  "notify_selector w = w\<lparr>sleeping := False\<rparr>"

definition stop_selector :: "selector \<Rightarrow> selector" where
  "stop_selector w = notify_selector (w\<lparr>stop_flag := True\<rparr>)"

definition add_receive :: "nat \<Rightarrow> selector \<Rightarrow> selector" where
  "add_receive c w = (let w = set_chan c (register_selector 0 (chans w ! c)) w in w\<lparr>channels := channels w @ [c]\<rparr>)"

text \<open>
  The functions in the list are called by \<open>any_of\<close>, which stops when one returns true, and by the loop that
  erases those that return true. \<open>dropped\<close> and \<open>kept\<close> are of the loop. A call tests \<open>is_closed\<close>, then unregisters
  or receives: these are calls of the channel, each a critical section of its own.
\<close>

datatype sel_pass = AnyOf | Erasing "nat list"

datatype sel_call = SSend nat | SClose

datatype sel_pc =
    SelAdd "nat list"
  | SelLoop
  | SelPred
  | CallClosed sel_pass "nat list"
  | CallUnregister sel_pass "nat list"
  | CallReceive sel_pass "nat list"
  | SelWait
  | SelDone
  | Sender "(nat \<times> sel_call) list"
  | SenderWait "(nat \<times> sel_call) list"
  | Stopper
  | Stopped

text \<open>The function for \<open>c\<close> has returned, true for a channel that is done with.\<close>

definition call_returns :: "bool \<Rightarrow> selector \<Rightarrow> sel_pass \<Rightarrow> nat list \<Rightarrow> sel_pc" where
  "call_returns b w p cs =
     (case p of
        AnyOf \<Rightarrow> CallClosed (if b then Erasing [] else AnyOf) (if b then channels w else tl cs)
      | Erasing kept \<Rightarrow> CallClosed (Erasing (if b then kept else kept @ [hd cs])) (tl cs))"

definition call_closed :: "selector \<Rightarrow> sel_pass \<Rightarrow> nat list \<Rightarrow> (selector \<times> sel_pc) list" where
  "call_closed w p cs =
     (case cs of
        [] \<Rightarrow>
          (case p of
             AnyOf \<Rightarrow> [(w\<lparr>sleeping := True\<rparr>, SelWait)]
           | Erasing kept \<Rightarrow> [(w\<lparr>channels := kept\<rparr>, if kept = [] then SelDone else SelLoop)])
      | c # _ \<Rightarrow> [(w, if is_closed (chans w ! c) then CallUnregister p cs else CallReceive p cs)])"

definition call_receive :: "selector \<Rightarrow> sel_pass \<Rightarrow> nat list \<Rightarrow> (selector \<times> sel_pc) list" where
  "call_receive w p cs =
     (let c = hd cs in
      map (\<lambda>(r, ch).
          (case r of Some (Received (Some v)) \<Rightarrow> (set_chan c ch w)\<lparr>delivered := delivered w @ [(c, v)]\<rparr>
           | _ \<Rightarrow> set_chan c ch w, call_returns False w p cs))
        (try_receive (chans w ! c)))"

text \<open>A thread that adds channels and selects. The predicate of the wait begins with the test of the stop flag.\<close>

definition select :: "bool \<Rightarrow> selector \<Rightarrow> sel_pc \<Rightarrow> (selector \<times> sel_pc) list" where
  "select sp w pc =
     (case pc of
        SelAdd cs \<Rightarrow> (case cs of [] \<Rightarrow> [(w, SelLoop)] | c # cs' \<Rightarrow> [(add_receive c w, SelAdd cs')])
      | SelLoop \<Rightarrow> [(w, if stop_flag w then SelDone else SelPred)]
      | SelPred \<Rightarrow> [(w, CallClosed (if stop_flag w then Erasing [] else AnyOf) (channels w))]
      | CallClosed p cs \<Rightarrow> call_closed w p cs
      | CallUnregister p cs \<Rightarrow>
          [(set_chan (hd cs) (unregister_selector 0 (chans w ! hd cs)) w, call_returns True w p cs)]
      | CallReceive p cs \<Rightarrow> call_receive w p cs
      | SelWait \<Rightarrow> if sp \<or> \<not> sleeping w then [(w\<lparr>sleeping := False\<rparr>, SelPred)] else []
      | _ \<Rightarrow> [])"

text \<open>Threads that send and close, and one that stops the selector.\<close>

definition notify_registered :: "channel \<Rightarrow> selector \<Rightarrow> selector" where
  "notify_registered ch w = (if 0 \<in> set (selectors ch) then notify_selector w else w)"

definition sender_end :: "nat \<Rightarrow> selector \<Rightarrow> (nat \<times> sel_call) list \<Rightarrow> chan_section \<Rightarrow> selector \<times> sel_pc" where
  "sender_end c w cs x =
     (case fst x of
        None \<Rightarrow> (set_chan c (snd x) w, SenderWait cs)
      | Some SendThrows \<Rightarrow> (set_chan c (snd x) w, Sender [])
      | Some r \<Rightarrow> (notify_registered (snd x) (set_chan c (snd x) w), Sender (tl cs)))"

text \<open>A notified sender returns from its wait and tests again; spurious wakeups are left to \<open>sp\<close>.\<close>

definition channel_user :: "bool \<Rightarrow> nat \<Rightarrow> selector \<Rightarrow> sel_pc \<Rightarrow> (selector \<times> sel_pc) list" where
  "channel_user sp t w pc =
     (case pc of
        Sender ((c, SSend v) # cs) \<Rightarrow> map (sender_end c w ((c, SSend v) # cs)) (send_section t v (chans w ! c))
      | Sender ((c, SClose) # cs) \<Rightarrow> [sender_end c w ((c, SClose) # cs) (Some Closed, close_channel (chans w ! c))]
      | SenderWait ((c, SSend v) # cs) \<Rightarrow>
          let ch = chans w ! c in
          if sp \<or> t \<notin> set (cv_send ch)
          then map (sender_end c w ((c, SSend v) # cs)) (send_section t v (ch\<lparr>cv_send := remove1 t (cv_send ch)\<rparr>)) else []
      | Stopper \<Rightarrow> [(stop_selector w, Stopped)]
      | _ \<Rightarrow> [])"

definition selector_thread :: "bool \<Rightarrow> (selector, sel_pc) thread" where
  "selector_thread sp t w pc = select sp w pc @ channel_user sp t w pc"

definition selector_init :: "nat list \<Rightarrow> sel_pc list \<Rightarrow> (selector, sel_pc) conf" where
  "selector_init caps pcs =
     (\<lparr>chans = map new_channel caps, channels = [], stop_flag = False, sleeping = False, delivered = []\<rparr>, pcs)"

section \<open>What is delivered\<close>

text \<open>The values that the callback of a channel has been given.\<close>

definition delivered_from :: "nat \<Rightarrow> selector \<Rightarrow> nat list" where
  "delivered_from c w = map snd [x \<leftarrow> delivered w. fst x = c]"

definition deliveries_ok :: "selector \<Rightarrow> bool" where
  "deliveries_ok w \<longleftrightarrow> (\<forall>c < length (chans w). delivered_from c w = taken_out (history (chans w ! c)) \<and>
     accepted (history (chans w ! c)) = taken_out (history (chans w ! c)) @ queue (chans w ! c))"

definition chan_step :: "channel \<Rightarrow> channel \<Rightarrow> bool" where
  "chan_step s s' \<longleftrightarrow> taken_out (history s') = taken_out (history s) \<and>
     (accepted (history s) = taken_out (history s) @ queue s \<longrightarrow> accepted (history s') = taken_out (history s') @ queue s')"

lemma nth_upd: "xs[i := x] ! j = (if i = j \<and> j < length xs then x else xs ! j)"
  by (cases "i < length xs") (auto simp: list_update_beyond nth_list_update)

lemma set_chan_ok: "deliveries_ok w \<Longrightarrow> chan_step (chans w ! c) ch \<Longrightarrow> deliveries_ok (set_chan c ch w)"
  by (auto simp: deliveries_ok_def delivered_from_def set_chan_def chan_step_def nth_upd)

lemma deliveries_simps [simp]:
  "deliveries_ok (w\<lparr>channels := cs\<rparr>) = deliveries_ok w"
  "deliveries_ok (w\<lparr>sleeping := b\<rparr>) = deliveries_ok w"
  "deliveries_ok (w\<lparr>stop_flag := b\<rparr>) = deliveries_ok w"
  by (simp_all add: deliveries_ok_def delivered_from_def)

lemma call_receive_ok:
  "(w', pc') \<in> set (call_receive w p cs) \<Longrightarrow> deliveries_ok w \<Longrightarrow> deliveries_ok w'"
  by (auto simp: call_receive_def deliveries_ok_def delivered_from_def set_chan_def try_receive_def pop_value_def
      notify_send_def nth_upd Let_def split: list.splits)

lemma send_step: "(r, s') \<in> set (send_section t v s) \<Longrightarrow> chan_step s s'"
  by (auto simp: send_section_def notify_recv_def push_value_def chan_step_def split: if_splits)

lemma sender_end_ok:
  "x \<in> set (send_section t v s) \<Longrightarrow> chan_step (chans w ! c) s \<Longrightarrow> deliveries_ok w \<Longrightarrow>
    deliveries_ok (fst (sender_end c w cs x))"
proof -
  assume x: "x \<in> set (send_section t v s)" and s: "chan_step (chans w ! c) s" and w: "deliveries_ok w"
  from x have "chan_step s (snd x)" using send_step [of "fst x" "snd x"] by simp
  with s have "chan_step (chans w ! c) (snd x)" by (auto simp: chan_step_def)
  from set_chan_ok [OF w this] show ?thesis
    by (auto simp: sender_end_def notify_registered_def notify_selector_def split: option.splits chan_result.splits)
qed

lemma same_history: "history s' = history s \<Longrightarrow> queue s' = queue s \<Longrightarrow> chan_step s s'"
  by (simp add: chan_step_def)

lemma sender_ends_ok:
  assumes "(w', pc') \<in> sender_end c w cs ` set (send_section t v s)" "chan_step (chans w ! c) s" "deliveries_ok w"
  shows "deliveries_ok w'"
proof -
  from assms(1) obtain x where "(w', pc') = sender_end c w cs x" and x: "x \<in> set (send_section t v s)" by (rule imageE)
  then have "w' = fst (sender_end c w cs x)" by (metis fst_conv)
  with sender_end_ok [OF x assms(2,3)] show ?thesis by simp
qed

lemma select_ok:
  assumes "(w', pc') \<in> set (select sp w pc)" "deliveries_ok w"
  shows "deliveries_ok w'"
  using assms
  by (cases pc) (auto simp: select_def call_closed_def add_receive_def Let_def register_selector_def unregister_selector_def
      split: list.splits sel_pass.splits if_splits intro!: set_chan_ok same_history dest: call_receive_ok)

lemma user_ok:
  assumes "(w', pc') \<in> set (channel_user sp t w pc)" "deliveries_ok w"
  shows "deliveries_ok w'"
proof (cases pc)
  case (Sender cs)
  show ?thesis
  proof (cases cs)
    case Nil
    with assms Sender show ?thesis by (simp add: channel_user_def)
  next
    case (Cons x cs')
    obtain c a where x: "x = (c, a)" by (cases x)
    show ?thesis
    proof (cases a)
      case (SSend v)
      with assms Sender Cons x have "(w', pc') \<in> sender_end c w cs ` set (send_section t v (chans w ! c))"
        by (simp add: channel_user_def)
      from sender_ends_ok [OF this same_history assms(2)] show ?thesis by simp
    next
      case SClose
      with assms Sender Cons x set_chan_ok [OF assms(2) same_history, of "close_channel (chans w ! c)" c] show ?thesis
        by (simp add: channel_user_def sender_end_def notify_registered_def notify_selector_def close_channel_def)
    qed
  qed
next
  case (SenderWait cs)
  show ?thesis
  proof (cases cs)
    case Nil
    with assms SenderWait show ?thesis by (simp add: channel_user_def)
  next
    case (Cons x cs')
    obtain c a where x: "x = (c, a)" by (cases x)
    let ?ch = "(chans w ! c)\<lparr>cv_send := remove1 t (cv_send (chans w ! c))\<rparr>"
    show ?thesis
    proof (cases a)
      case (SSend v)
      with assms SenderWait Cons x have "(w', pc') \<in> sender_end c w cs ` set (send_section t v ?ch)"
        by (simp add: channel_user_def Let_def split: if_splits)
      from sender_ends_ok [OF this same_history assms(2)] show ?thesis by simp
    next
      case SClose
      with assms SenderWait Cons x show ?thesis by (simp add: channel_user_def)
    qed
  qed
qed (use assms in \<open>simp_all add: channel_user_def stop_selector_def notify_selector_def\<close>)

interpretation sel: thread_inv "selector_thread sp" "selector_init caps pcs" "\<lambda>w ls. deliveries_ok w" for sp caps pcs
proof
  show "deliveries_ok (fst (selector_init caps pcs))"
    by (simp add: selector_init_def deliveries_ok_def delivered_from_def new_channel_def)
qed (auto simp: selector_thread_def dest: select_ok user_ok)

text \<open>
  Claim C31. Whatever threads select, send, close and stop, the callback of a channel is given what the channel accepted, in
  that order, without a gap and without a repetition; the rest is in the queue of the channel.
\<close>

theorem selector_delivers_in_order:
  "reach (selector_thread sp) (selector_init caps pcs) (w, ls) \<Longrightarrow> c < length (chans w) \<Longrightarrow>
    accepted (history (chans w ! c)) = delivered_from c w @ queue (chans w ! c)"
  using sel.reach_inv [of sp caps pcs w ls] by (simp add: deliveries_ok_def)

text \<open>
  \<open>select\<close> can fall asleep for good while a channel has data: the predicate of its wait takes a value and
  delivers it, but returns false, and looks at each channel once.
\<close>

theorem select_sleeps_on_data:
  "\<exists>w ls. reach (selector_thread False) (selector_init [3] [SelAdd [0], Sender [(0, SSend 1), (0, SSend 2)]]) (w, ls) \<and>
     stuck (selector_thread False) (w, ls) \<and> ls = [SelWait, Sender []] \<and> map queue (chans w) = [[2]] \<and>
     delivered w = [(0, 1)]"
proof -
  have "map_option (\<lambda>(w, ls). (stuck (selector_thread False) (w, ls), ls, map queue (chans w), delivered w))
      (sched (selector_thread False) (map (\<lambda>i. (i, 0)) [0, 0, 1, 1, 0, 0, 0, 0, 0])
        (selector_init [3] [SelAdd [0], Sender [(0, SSend 1), (0, SSend 2)]])) =
      Some (True, [SelWait, Sender []], [[2]], [(0, 1)])"
    by code_simp
  from sched_observe [OF this] show ?thesis by auto
qed

text \<open>
  A channel that is closed before it is looked at is unregistered with the data it still has: \<open>select\<close> returns and
  the callback is never called.
\<close>

theorem select_forgets_closed_channel:
  "\<exists>w ls. reach (selector_thread False) (selector_init [3] [SelAdd [0], Sender [(0, SSend 1), (0, SClose)]]) (w, ls) \<and>
     ls = [SelDone, Sender []] \<and> map queue (chans w) = [[1]] \<and> delivered w = []"
proof -
  have "map_option (\<lambda>(w, ls). (ls, map queue (chans w), delivered w))
      (sched (selector_thread False) (map (\<lambda>i. (i, 0)) [0, 0, 1, 1, 0, 0, 0, 0, 0, 0, 0])
        (selector_init [3] [SelAdd [0], Sender [(0, SSend 1), (0, SClose)]])) =
      Some ([SelDone, Sender []], [[1]], [])"
    by code_simp
  from sched_observe [OF this] show ?thesis by auto
qed

theorem selector_delivers_in_order_witness:
  "\<exists>w ls. reach (selector_thread False) (selector_init [3] [SelAdd [0], Sender [(0, SSend 1), (0, SSend 2)]]) (w, ls) \<and>
     accepted (history (chans w ! 0)) = [1, 2] \<and> delivered_from 0 w = [1]"
proof -
  have "map_option (\<lambda>(w, ls). (length (chans w), map queue (chans w), accepted (history (chans w ! 0))))
      (sched (selector_thread False) (map (\<lambda>i. (i, 0)) [0, 0, 1, 1, 0, 0, 0, 0, 0])
        (selector_init [3] [SelAdd [0], Sender [(0, SSend 1), (0, SSend 2)]])) =
      Some (1, [[2]], [1, 2])"
    by code_simp
  from sched_observe [OF this] obtain w ls where
    r: "reach (selector_thread False) (selector_init [3] [SelAdd [0], Sender [(0, SSend 1), (0, SSend 2)]]) (w, ls)"
    and w: "length (chans w) = 1" "map queue (chans w) = [[2]]" "accepted (history (chans w ! 0)) = [1, 2]" by auto
  from w(1,2) have "queue (chans w ! 0) = [2]" by (cases "chans w") auto
  with selector_delivers_in_order [OF r, of 0] w have "delivered_from 0 w = [1]" by simp
  with r w(3) show ?thesis by blast
qed

end
