(* ===== verification/Open_MP.thy ===== *)
theory Open_MP
  imports Conc_Prelude "HOL-Library.Multiset"
begin

text \<open>
  The programs in OpenMP/. A parallel region is a team of threads; a worksharing loop deals its iterations out to
  them in any way, so what a thread has to do is a list of iterations, and the theorems are about every team and every way
  to deal. A step is a thread's next access to the shared variables. A program continues when all
  threads of the team have reached the end of the region. The data of the programs are small constants, so no sum
  leaves the range of \<open>int\<close>.
\<close>

section \<open>Teams\<close>

definition worksharing :: "nat \<Rightarrow> nat list list \<Rightarrow> bool" where
  "worksharing n shares \<longleftrightarrow> mset (concat shares) = mset [0..<n]"

lemma worksharing_sum:
  fixes f :: "nat \<Rightarrow> 'a :: comm_monoid_add"
  assumes "worksharing n shares"
  shows "sum_list (map (\<lambda>is. sum_list (map f is)) shares) = sum_list (map f [0..<n])"
proof -
  have "sum_list (map (\<lambda>is. sum_list (map f is)) shares) = sum_list (map f (concat shares))" by (induction shares) auto
  also have "\<dots> = sum_mset (image_mset f (mset (concat shares)))" by (simp flip: sum_mset_sum_list)
  also have "\<dots> = sum_mset (image_mset f (mset [0..<n]))" using assms unfolding worksharing_def by simp
  also have "\<dots> = sum_list (map f [0..<n])" by (simp only: sum_mset_sum_list flip: mset_map)
  finally show ?thesis .
qed

lemma worksharing_all:
  "worksharing n shares \<Longrightarrow> (\<forall>is \<in> set shares. \<forall>i \<in> set is. P i) \<longleftrightarrow> (\<forall>i < n. P i)"
proof -
  assume "worksharing n shares"
  then have "set (concat shares) = {0..<n}"
    using mset_eq_setD [of "concat shares" "[0..<n]"] by (simp add: worksharing_def)
  then show ?thesis by (auto simp: set_eq_iff)
qed

lemma worksharing_distinct: "worksharing n shares \<Longrightarrow> distinct (concat shares)"
  using mset_eq_imp_distinct_iff [of "concat shares" "[0..<n]"] by (simp add: worksharing_def)

text \<open>A condition that each thread and the shared state contribute to.\<close>

lemma conjoined:
  assumes "i < length ls" and "(Q l' \<and> A') = (Q (ls ! i) \<and> A)"
  shows "((\<forall>l \<in> set (ls[i := l']). Q l) \<and> A') = ((\<forall>l \<in> set ls. Q l) \<and> A)"
  using assms
proof (induction ls arbitrary: i)
  case Nil
  then show ?case by simp
next
  case (Cons x xs)
  then show ?case by (cases i) auto
qed

section \<open>ReductionJoin, ReductionSum, Reductions\<close>

definition omp_a :: "int list" where
  "omp_a = [1, 2, 3, 4, 5, 6, 7, 8, 9, 10, 11, 12]"

definition omp_b :: "int list" where
  "omp_b = [10, 20, 30, 40, 50, 60, 70, 80, 90, 100, 110, 120]"

lemma omp_arrays [simp]: "length omp_a = 12" "length omp_b = 12" "sum_list omp_a = 78"
  by (simp_all add: omp_a_def omp_b_def)

lemma shares_7_5: "worksharing 12 [[0..<7], [7..<12]]"
  by code_simp

text \<open>
  A thread adds the elements of its iterations to a private sum, which it adds to the shared one. This is what the
  clause \<open>reduction(+ : sum)\<close> stands for.
\<close>

datatype join_pc = Summing "nat list" int | Joined

fun join_step :: "int list \<Rightarrow> (int, join_pc) thread" where
  "join_step a t s (Summing [] sum_priv) = [(s + sum_priv, Joined)]"
| "join_step a t s (Summing (i # is) sum_priv) = [(s, Summing is (sum_priv + a ! i))]"
| "join_step a t s Joined = []"

definition join_init :: "int \<Rightarrow> nat list list \<Rightarrow> (int, join_pc) conf" where
  "join_init s shares = (s, map (\<lambda>is. Summing is 0) shares)"

text \<open>Reductions/main.cpp adds every element to the shared sum, with \<open>omp atomic\<close>.\<close>

fun atomic_step :: "int list \<Rightarrow> (int, nat list) thread" where
  "atomic_step a t s [] = []"
| "atomic_step a t s (i # is) = [(s + a ! i, is)]"

fun join_part :: "int list \<Rightarrow> join_pc \<Rightarrow> int" where
  "join_part a (Summing is p) = p + sum_list (map (\<lambda>i. a ! i) is)"
| "join_part a Joined = 0"

fun join_work :: "join_pc \<Rightarrow> nat" where
  "join_work (Summing is p) = Suc (length is)"
| "join_work Joined = 0"

lemma join_effect:
  "(s', l') \<in> set (join_step a t s l) \<Longrightarrow> join_work l' < join_work l \<and> join_part a l' + s' = join_part a l + s"
  by (induction a t s l rule: join_step.induct) auto

lemma atomic_effect:
  "(s', l') \<in> set (atomic_step a t s l) \<Longrightarrow> length l' < length l \<and>
    sum_list (map (\<lambda>i. a ! i) l') + s' = sum_list (map (\<lambda>i. a ! i) l) + s"
  by (induction a t s l rule: atomic_step.induct) auto

interpretation joins: thread_term "join_step a" "join_init s0 shares" "\<lambda>_ _. True" "\<lambda>_. workload join_work" for a s0 shares
proof
  fix g ls i g' l' assume i: "i < length ls" and st: "(g', l') \<in> set (join_step a i g (ls ! i))"
  with join_effect [OF st] workload_upd [OF i, of join_work l'] show "workload join_work (ls[i := l']) < workload join_work ls" by simp
qed simp_all

interpretation join_sum: team_sum "join_step a" "join_init s0 shares" "\<lambda>_ _. True" "join_part a" id for a s0 shares
  by unfold_locales (simp add: join_effect)

interpretation atomics: thread_term "atomic_step a" "(s0, shares)" "\<lambda>_ _. True" "\<lambda>_. workload length" for a s0 shares
proof
  fix g ls i g' l' assume i: "i < length ls" and st: "(g', l') \<in> set (atomic_step a i g (ls ! i))"
  with atomic_effect [OF st] workload_upd [OF i, of length l'] show "workload length (ls[i := l']) < workload length ls" by simp
qed simp_all

interpretation atomic_sum: team_sum "atomic_step a" "(s0, shares)" "\<lambda>_ _. True" "\<lambda>is. sum_list (map (\<lambda>i. a ! i) is)" id
  for a s0 shares
  by unfold_locales (simp only: id_apply atomic_effect)

lemma join_stuck: "stuck (join_step a) (g, ls) \<Longrightarrow> l \<in> set ls \<Longrightarrow> l = Joined"
  by (auto simp: stuck_iff in_set_conv_nth) (metis join_pc.exhaust join_step.simps(1,2) list.distinct(1) neq_Nil_conv)

lemma join_result:
  "worksharing (length a) shares \<Longrightarrow> always_ends (join_step a) (join_init s0 shares) (\<lambda>sum _. sum = s0 + sum_list a)"
proof (rule joins.always_endsI)
  fix g ls
  assume w: "worksharing (length a) shares" and r: "reach (join_step a) (join_init s0 shares) (g, ls)"
    and st: "stuck (join_step a) (g, ls)"
  have "\<forall>l \<in> set ls. join_part a l = 0" using join_stuck [OF st] by force
  from join_sum.collected [OF r this]
  have "g = sum_list (map (\<lambda>is. sum_list (map (\<lambda>i. a ! i) is)) shares) + s0"
    by (simp add: join_init_def comp_def)
  then show "g = s0 + sum_list a" using worksharing_sum [OF w, of "\<lambda>i. a ! i"] by (simp add: map_nth)
qed

lemma atomic_result:
  "worksharing (length a) shares \<Longrightarrow> always_ends (atomic_step a) (s0, shares) (\<lambda>sum _. sum = s0 + sum_list a)"
proof (rule atomics.always_endsI)
  fix g ls
  assume w: "worksharing (length a) shares" and r: "reach (atomic_step a) (s0, shares) (g, ls)"
    and st: "stuck (atomic_step a) (g, ls)"
  have "l = []" if "l \<in> set ls" for l
    using st that by (auto simp: stuck_iff in_set_conv_nth) (metis atomic_step.simps(2) list.distinct(1) neq_Nil_conv)
  then have "\<forall>l \<in> set ls. sum_list (map (\<lambda>i. a ! i) l) = 0" by force
  from atomic_sum.collected [OF r this] show "g = s0 + sum_list a"
    using worksharing_sum [OF w, of "\<lambda>i. a ! i"] by (simp add: map_nth)
qed

text \<open>
  The three programs that sum up 1 to 12 end and print 78, 178 and 78, whatever the number of threads and however
  the iterations are dealt out.
\<close>

theorem reductions_print:
  "worksharing 12 shares \<Longrightarrow>
     always_ends (join_step omp_a) (join_init 0 shares) (\<lambda>sum _. sum = 78) \<and>
     always_ends (join_step omp_a) (join_init 100 shares) (\<lambda>sum _. sum = 178) \<and>
     always_ends (atomic_step omp_a) (0, shares) (\<lambda>sum _. sum = 78)"
  using join_result [of omp_a shares 0] join_result [of omp_a shares 100] atomic_result [of omp_a shares 0]
  by simp

theorem reductions_print_witness:
  "always_ends (join_step omp_a) (join_init 0 [[0..<7], [7..<12]]) (\<lambda>sum _. sum = 78)"
  using reductions_print [OF shares_7_5] by simp

section \<open>Reduction\<close>

text \<open>\<open>reduction(min : min)\<close>: the private variables begin with the largest \<open>int\<close>.\<close>

definition INT_MAX :: int where "INT_MAX = 2 ^ 31 - 1"

datatype min_pc = Scanning "nat list" int | Merged

fun min_step :: "int list \<Rightarrow> (int, min_pc) thread" where
  "min_step a t m (Scanning [] p) = [(min m p, Merged)]"
| "min_step a t m (Scanning (i # is) p) = [(m, Scanning is (if a ! i < p then a ! i else p))]"
| "min_step a t m Merged = []"

definition min_init :: "int \<Rightarrow> nat list list \<Rightarrow> (int, min_pc) conf" where
  "min_init m shares = (m, map (\<lambda>is. Scanning is INT_MAX) shares)"

text \<open>The lower bounds of what is still to be compared stay the same.\<close>

fun min_bound :: "int list \<Rightarrow> int \<Rightarrow> min_pc \<Rightarrow> bool" where
  "min_bound a k (Scanning is p) = (k \<le> p \<and> (\<forall>i \<in> set is. k \<le> a ! i))"
| "min_bound a k Merged = True"

fun min_work :: "min_pc \<Rightarrow> nat" where
  "min_work (Scanning is p) = Suc (length is)"
| "min_work Merged = 0"

lemma min_effect:
  "(m', l') \<in> set (min_step a t m l) \<Longrightarrow> min_work l' < min_work l \<and> (min_bound a k l' \<and> k \<le> m') = (min_bound a k l \<and> k \<le> m)"
  by (induction a t m l rule: min_step.induct) auto

definition min_inv :: "int list \<Rightarrow> (int, min_pc) conf \<Rightarrow> int \<Rightarrow> min_pc list \<Rightarrow> bool" where
  "min_inv a c m ls \<longleftrightarrow> (\<forall>k. ((\<forall>l \<in> set ls. min_bound a k l) \<and> k \<le> m) = ((\<forall>l \<in> set (snd c). min_bound a k l) \<and> k \<le> fst c))"

interpretation mins: thread_term "min_step a" "min_init m0 shares" "min_inv a (min_init m0 shares)" "\<lambda>_. workload min_work"
  for a m0 shares
proof
  show "min_inv a (min_init m0 shares) (fst (min_init m0 shares)) (snd (min_init m0 shares))" by (simp add: min_inv_def)
next
  fix m ls i m' l'
  assume I: "min_inv a (min_init m0 shares) m ls" and i: "i < length ls" and st: "(m', l') \<in> set (min_step a i m (ls ! i))"
  have "((\<forall>l \<in> set (ls[i := l']). min_bound a k l) \<and> k \<le> m') = ((\<forall>l \<in> set ls. min_bound a k l) \<and> k \<le> m)" for k
    by (rule conjoined [OF i]) (use min_effect [OF st] in blast)
  with I show "min_inv a (min_init m0 shares) m' (ls[i := l'])" by (simp add: min_inv_def)
  from min_effect [OF st, of 0] workload_upd [OF i, of min_work l'] show "workload min_work (ls[i := l']) < workload min_work ls" by simp
qed

lemma min_stuck: "stuck (min_step a) (g, ls) \<Longrightarrow> l \<in> set ls \<Longrightarrow> l = Merged"
  by (auto simp: stuck_iff in_set_conv_nth) (metis min_pc.exhaust min_step.simps(1,2) list.distinct(1) neq_Nil_conv)

lemma min_result:
  assumes w: "worksharing (length a) shares" and m0: "m0 \<le> INT_MAX"
  shows "always_ends (min_step a) (min_init m0 shares) (\<lambda>m _. m = Min (insert m0 (set a)))"
proof (rule mins.always_endsI)
  fix m ls
  assume I: "min_inv a (min_init m0 shares) m ls" and st: "stuck (min_step a) (m, ls)"
  have "\<forall>l \<in> set ls. min_bound a k l" for k using min_stuck [OF st] by force
  with I have low: "k \<le> m \<longleftrightarrow> (\<forall>is \<in> set shares. \<forall>i \<in> set is. k \<le> a ! i) \<and> (shares \<noteq> [] \<longrightarrow> k \<le> INT_MAX) \<and> k \<le> m0" for k
    unfolding min_inv_def min_init_def by (cases shares) auto
  have "k \<le> m \<longleftrightarrow> (\<forall>x \<in> insert m0 (set a). k \<le> x)" for k
  proof -
    have "(\<forall>is \<in> set shares. \<forall>i \<in> set is. k \<le> a ! i) \<longleftrightarrow> (\<forall>x \<in> set a. k \<le> x)"
      unfolding worksharing_all [OF w] by (simp add: all_set_conv_all_nth)
    with low [of k] m0 show ?thesis by auto
  qed
  then have "k \<le> m \<longleftrightarrow> k \<le> Min (insert m0 (set a))" for k by simp
  then show "m = Min (insert m0 (set a))" by (meson order.antisym order.refl)
qed

section \<open>ForLoop and PrivateVariables\<close>

text \<open>\<open>c[i] = a[i] + b[i]\<close> for the iterations of the thread.\<close>

fun add_step :: "int list \<Rightarrow> int list \<Rightarrow> (int list, nat list) thread" where
  "add_step a b t c [] = []"
| "add_step a b t c (i # is) = [(c[i := a ! i + b ! i], is)]"

text \<open>PrivateVariables/main.cpp computes the share of a thread from its number and the size of the team.\<close>

definition private_share :: "nat \<Rightarrow> nat \<Rightarrow> nat \<Rightarrow> nat list" where
  "private_share n num_threads t =
     (let chunk_size = n div num_threads;
          i_start = chunk_size * t;
          i_end = chunk_size * (t + 1);
          i_end = (if i_end = chunk_size * num_threads then n else i_end)
      in [i_start..<i_end])"

definition private_shares :: "nat \<Rightarrow> nat \<Rightarrow> nat list list" where
  "private_shares n num_threads = map (private_share n num_threads) [0..<num_threads]"

definition add_inv :: "int list \<Rightarrow> int list \<Rightarrow> nat \<Rightarrow> nat list list \<Rightarrow> int list \<Rightarrow> nat list list \<Rightarrow> bool" where
  "add_inv a b n shares c ls \<longleftrightarrow> length c = n \<and>
     (\<forall>i < n. (\<exists>is \<in> set shares. i \<in> set is) \<longrightarrow> c ! i = a ! i + b ! i \<or> (\<exists>is \<in> set ls. i \<in> set is))"

interpretation adds: thread_term "add_step a b" "(replicate n 0, shares)" "add_inv a b n shares" "\<lambda>_. workload length"
  for a b n shares
proof
  show "add_inv a b n shares (fst (replicate n 0, shares)) (snd (replicate n 0, shares))" by (simp add: add_inv_def)
next
  fix c ls t c' l'
  assume I: "add_inv a b n shares c ls" and t: "t < length ls" and st: "(c', l') \<in> set (add_step a b t c (ls ! t))"
  from st obtain j where j: "ls ! t = j # l'" "c' = c[j := a ! j + b ! j]" by (cases "ls ! t") auto
  have "c' ! i = a ! i + b ! i \<or> (\<exists>is \<in> set (ls[t := l']). i \<in> set is)"
    if i: "i < n" "\<exists>is \<in> set shares. i \<in> set is" for i
  proof (cases "c ! i = a ! i + b ! i \<or> i = j")
    case True
    then have "c[j := a ! j + b ! j] ! i = a ! i + b ! i" using I i by (cases "i = j") (auto simp: add_inv_def)
    with j show ?thesis by simp
  next
    case False
    with I i obtain x where "x \<in> set ls" "i \<in> set x" unfolding add_inv_def by blast
    then obtain u where u: "u < length ls" "i \<in> set (ls ! u)" by (metis in_set_conv_nth)
    with False j have "i \<in> set (ls[t := l'] ! u)" by (cases "u = t") auto
    with u(1) show ?thesis by (metis length_list_update nth_mem)
  qed
  with I j show "add_inv a b n shares c' (ls[t := l'])" by (auto simp: add_inv_def)
  from workload_upd [OF t, of length l'] j show "workload length (ls[t := l']) < workload length ls" by simp
qed

text \<open>Whatever the shares are: if they cover the array, the array is computed.\<close>

lemma add_result:
  assumes cover: "\<forall>i < n. \<exists>is \<in> set shares. i \<in> set is" and len: "length a = n" "length b = n"
  shows "always_ends (add_step a b) (replicate n 0, shares) (\<lambda>c _. c = map2 (+) a b)"
proof (rule adds.always_endsI)
  fix c ls
  assume I: "add_inv a b n shares c ls" and st: "stuck (add_step a b) (c, ls)"
  have "l = []" if "l \<in> set ls" for l
    using st that by (auto simp: stuck_iff in_set_conv_nth) (metis add_step.simps(2) list.distinct(1) neq_Nil_conv)
  then have "\<not> (\<exists>is \<in> set ls. i \<in> set is)" for i by force
  with I cover have "length c = n" "\<forall>i < n. c ! i = a ! i + b ! i" unfolding add_inv_def by blast+
  with len show "c = map2 (+) a b" by (intro nth_equalityI) auto
qed

lemma private_share_chunk:
  "private_share n T t = (if n div T = 0 then [0..<n] else if t + 1 = T then [n div T * t..<n] else [n div T * t..<n div T * (t + 1)])"
proof -
  have "n div T \<noteq> 0 \<Longrightarrow> (n div T * (t + 1) = n div T * T) = (t + 1 = T)" by (metis mult_cancel1)
  then show ?thesis by (auto simp: private_share_def Let_def)
qed

lemma private_prefix:
  "n div T \<noteq> 0 \<Longrightarrow> k < T \<Longrightarrow> concat (map (private_share n T) [0..<k]) = [0..<n div T * k]"
proof (induction k)
  case 0
  show ?case by simp
next
  case (Suc k)
  then show ?case
    using upt_add_eq_append [of 0 "n div T * k" "n div T"] by (simp add: private_share_chunk ac_simps)
qed

lemma private_concat:
  assumes "n div T \<noteq> 0"
  shows "concat (private_shares n T) = [0..<n]"
proof -
  from assms have "T \<noteq> 0" by (auto intro: ccontr)
  then obtain k where k: "T = Suc k" by (cases T) auto
  have "n div T * k \<le> n div T * T" using k by simp
  also have "\<dots> \<le> n" by simp
  finally have "n div T * k \<le> n" .
  then show ?thesis
    using private_prefix [OF assms, of k] assms k upt_add_eq_append [of 0 "n div T * k" "n - n div T * k"]
    by (simp add: private_shares_def private_share_chunk)
qed

lemma private_cover: "0 < T \<Longrightarrow> i < n \<Longrightarrow> \<exists>is \<in> set (private_shares n T). i \<in> set is"
proof (cases "n div T = 0")
  case True
  assume "0 < T" "i < n"
  with True show ?thesis by (intro bexI [of _ "[0..<n]"]) (auto simp: private_shares_def private_share_chunk)
next
  case False
  assume "0 < T" "i < n"
  then have "i \<in> set (concat (private_shares n T))" using private_concat [OF False] by simp
  then show ?thesis by auto
qed

text \<open>
  ForLoop/main.cpp and PrivateVariables/main.cpp end with \<open>c\<close> the sum of \<open>a\<close> and \<open>b\<close>, for every team. The chunks
  that PrivateVariables computes deal out each element once as long as there are not more threads than elements; with more
  threads every thread computes, and writes, the whole array.
\<close>

theorem loops_add:
  "always_ends (add_step omp_a omp_b) (replicate 12 0, private_shares 12 (Suc k)) (\<lambda>c _. c = map2 (+) omp_a omp_b) \<and>
   (if Suc k \<le> 12 then worksharing 12 (private_shares 12 (Suc k))
    else private_shares 12 (Suc k) = replicate (Suc k) [0..<12])"
proof -
  have "worksharing 12 (private_shares 12 (Suc k))" if "Suc k \<le> 12"
    using that private_concat [of 12 "Suc k"] by (simp add: worksharing_def div_eq_0_iff)
  moreover have "private_shares 12 (Suc k) = replicate (Suc k) [0..<12]" if "\<not> Suc k \<le> 12"
  proof -
    have "private_share 12 (Suc k) = (\<lambda>_. [0..<12])" using that by (auto simp: private_share_chunk fun_eq_iff)
    then show ?thesis unfolding private_shares_def by (simp add: map_replicate_const del: upt_Suc)
  qed
  ultimately show ?thesis
    using add_result [of 12 "private_shares 12 (Suc k)" omp_a omp_b] private_cover [of "Suc k" _ 12] by simp
qed

lemma for_loop_adds:
  "worksharing 12 shares \<Longrightarrow> always_ends (add_step omp_a omp_b) (replicate 12 0, shares) (\<lambda>c _. c = map2 (+) omp_a omp_b)"
  using worksharing_all [of 12 shares "\<lambda>i. \<exists>is \<in> set shares. i \<in> set is"]
  by (intro add_result) (auto simp: omp_a_def omp_b_def)

section \<open>Cancellation\<close>

text \<open>\<open>on\<close>: whether \<open>OMP_CANCELLATION\<close> is set. The search stores the value, not the index.\<close>

record cancel_team =
  idx :: int
  cancelled :: bool

datatype cancel_pc = Search "nat list" | Found "nat list" | CancelFor "nat list" | CancelPoint "nat list" | LoopEnd

definition cancel_step :: "bool \<Rightarrow> int list \<Rightarrow> int \<Rightarrow> (cancel_team, cancel_pc) thread" where
  "cancel_step on a val t g pc =
     (case pc of
        Search is \<Rightarrow>
          (case is of [] \<Rightarrow> [(g, LoopEnd)]
           | i # is' \<Rightarrow> [(g, if a ! i = val then Found is' else CancelPoint is')])
      | Found is \<Rightarrow> [(g\<lparr>idx := val\<rparr>, CancelFor is)]
      | CancelFor is \<Rightarrow> if on then [(g\<lparr>cancelled := True\<rparr>, LoopEnd)] else [(g, CancelPoint is)]
      | CancelPoint is \<Rightarrow> [(g, if on \<and> cancelled g then LoopEnd else Search is)]
      | LoopEnd \<Rightarrow> [])"

definition cancel_init :: "nat list list \<Rightarrow> (cancel_team, cancel_pc) conf" where
  "cancel_init shares = (\<lparr>idx = - 1, cancelled = False\<rparr>, map Search shares)"

fun cancel_todo :: "cancel_pc \<Rightarrow> nat list" where
  "cancel_todo (Search is) = is"
| "cancel_todo (Found is) = is"
| "cancel_todo (CancelFor is) = is"
| "cancel_todo (CancelPoint is) = is"
| "cancel_todo LoopEnd = []"

fun cancel_work :: "cancel_pc \<Rightarrow> nat" where
  "cancel_work (Search is) = 4 * length is + 1"
| "cancel_work (Found is) = 4 * length is + 4"
| "cancel_work (CancelFor is) = 4 * length is + 3"
| "cancel_work (CancelPoint is) = 4 * length is + 2"
| "cancel_work LoopEnd = 0"

text \<open>The thread will store the value, if it is not cancelled before.\<close>

definition will_store :: "int list \<Rightarrow> int \<Rightarrow> cancel_pc \<Rightarrow> bool" where
  "will_store a val pc \<longleftrightarrow> (\<exists>i \<in> set (cancel_todo pc). a ! i = val) \<or> (\<exists>is. pc = Found is)"

definition cancel_ok :: "int list \<Rightarrow> int \<Rightarrow> cancel_team \<Rightarrow> cancel_pc \<Rightarrow> bool" where
  "cancel_ok a val g pc \<longleftrightarrow> (\<forall>i \<in> set (cancel_todo pc). i < length a) \<and>
     (case pc of Found _ \<Rightarrow> val \<in> set a | CancelFor _ \<Rightarrow> idx g = val | _ \<Rightarrow> True)"

definition cancel_inv :: "int list \<Rightarrow> int \<Rightarrow> cancel_team \<Rightarrow> cancel_pc list \<Rightarrow> bool" where
  "cancel_inv a val g ls \<longleftrightarrow> (idx g = - 1 \<or> idx g = val \<and> val \<in> set a) \<and> (cancelled g \<longrightarrow> idx g = val) \<and>
     list_all (cancel_ok a val g) ls \<and> (val \<in> set a \<longrightarrow> idx g = val \<or> (\<exists>pc \<in> set ls. will_store a val pc))"

definition cancel_start :: "int list \<Rightarrow> nat list list \<Rightarrow> nat list list" where
  "cancel_start a shares = (if worksharing (length a) shares then shares else [[0..<length a]])"

text \<open>One step, seen from the thread: what it stores, and what it still wants to store.\<close>

lemma cancel_effect:
  assumes "(g', pc') \<in> set (cancel_step on a val t g pc)" and "cancel_ok a val g pc"
    and "idx g = - 1 \<or> idx g = val \<and> val \<in> set a" and "cancelled g \<longrightarrow> idx g = val"
  shows "cancel_work pc' < cancel_work pc \<and> cancel_ok a val g' pc' \<and> (idx g = val \<longrightarrow> idx g' = val) \<and>
    (idx g' = - 1 \<or> idx g' = val \<and> val \<in> set a) \<and> (cancelled g' \<longrightarrow> idx g' = val) \<and>
    (will_store a val pc \<longrightarrow> will_store a val pc' \<or> idx g' = val)"
  using assms by (cases pc) (auto simp: cancel_step_def will_store_def cancel_ok_def in_set_conv_nth [of val a]
      split: list.splits if_splits)

lemma cancel_inv_step:
  assumes I: "cancel_inv a val g ls" and t: "t < length ls" and st: "(g', pc') \<in> set (cancel_step on a val t g (ls ! t))"
  shows "cancel_inv a val g' (ls[t := pc']) \<and> cancel_work pc' < cancel_work (ls ! t)"
proof -
  have pt: "cancel_ok a val g (ls ! t)" using I t by (simp add: cancel_inv_def list_all_length)
  note e = cancel_effect [OF st pt]
  have e: "cancel_work pc' < cancel_work (ls ! t)" "cancel_ok a val g' pc'" "idx g = val \<Longrightarrow> idx g' = val"
    "idx g' = - 1 \<or> idx g' = val \<and> val \<in> set a" "cancelled g' \<longrightarrow> idx g' = val"
    "will_store a val (ls ! t) \<Longrightarrow> will_store a val pc' \<or> idx g' = val"
    using e I by (simp_all add: cancel_inv_def)
  have "cancel_ok a val g' pc" if "cancel_ok a val g pc" for pc
    using that e(3) by (auto simp: cancel_ok_def split: cancel_pc.splits)
  with I have "list_all (cancel_ok a val g') ls" unfolding cancel_inv_def by (metis (lifting) list.pred_mono_strong)
  with e(2) have "list_all (cancel_ok a val g') (ls[t := pc'])" by (intro list_all_upd)
  moreover have "idx g' = val \<or> (\<exists>pc \<in> set (ls[t := pc']). will_store a val pc)" if "val \<in> set a"
  proof (cases "idx g = val")
    case True
    with e(3) show ?thesis by simp
  next
    case False
    with I that obtain pc where pc: "pc \<in> set ls" "will_store a val pc" unfolding cancel_inv_def by blast
    then obtain u where u: "u < length ls" "will_store a val (ls ! u)" by (metis in_set_conv_nth)
    show ?thesis
    proof (cases "u = t")
      case True
      with u e(6) have "will_store a val pc' \<or> idx g' = val" by simp
      with t show ?thesis by (metis set_update_memI)
    next
      case False
      with u show ?thesis by (metis length_list_update nth_list_update_neq nth_mem)
    qed
  qed
  ultimately show ?thesis using e(1,4,5) unfolding cancel_inv_def by blast
qed

interpretation cancels: thread_term "cancel_step on a val" "cancel_init (cancel_start a shares)" "cancel_inv a val"
  "\<lambda>_. workload cancel_work" for on a val shares
proof
  have w: "worksharing (length a) (cancel_start a shares)" by (simp add: cancel_start_def worksharing_def)
  have "(\<forall>is \<in> set (cancel_start a shares). \<forall>i \<in> set is. a ! i \<noteq> val) \<longleftrightarrow> val \<notin> set a"
    unfolding worksharing_all [OF w] by (metis in_set_conv_nth)
  moreover have "\<forall>is \<in> set (cancel_start a shares). \<forall>i \<in> set is. i < length a"
    unfolding worksharing_all [OF w] by blast
  ultimately show "cancel_inv a val (fst (cancel_init (cancel_start a shares))) (snd (cancel_init (cancel_start a shares)))"
    by (auto simp: cancel_inv_def cancel_init_def will_store_def cancel_ok_def list_all_iff)
next
  fix g ls t g' l'
  assume I: "cancel_inv a val g ls" and t: "t < length ls" and st: "(g', l') \<in> set (cancel_step on a val t g (ls ! t))"
  from cancel_inv_step [OF I t st] show "cancel_inv a val g' (ls[t := l'])" by simp
  from cancel_inv_step [OF I t st] workload_upd [OF t, of cancel_work l']
  show "workload cancel_work (ls[t := l']) < workload cancel_work ls" by simp
qed

lemma cancel_stuck: "stuck (cancel_step on a val) (g, ls) \<Longrightarrow> pc \<in> set ls \<Longrightarrow> pc = LoopEnd"
proof -
  assume "stuck (cancel_step on a val) (g, ls)" "pc \<in> set ls"
  then obtain t where "cancel_step on a val t g pc = []" by (auto simp: stuck_iff in_set_conv_nth)
  then show ?thesis by (cases pc) (auto simp: cancel_step_def split: list.splits if_splits)
qed

text \<open>
  Cancellation/main.cpp ends for every team, every array and with or without cancellation, and \<open>idx\<close> is then the
  value searched for if it is in the array, and \<open>- 1\<close> otherwise; it is never the index of the value. The program prints 9,
  where \<open>a[8]\<close> is 9.
\<close>

theorem cancellation_stores_value:
  "worksharing (length a) shares \<Longrightarrow>
     always_ends (cancel_step on a val) (cancel_init shares) (\<lambda>g _. idx g = (if val \<in> set a then val else - 1))"
proof -
  assume w: "worksharing (length a) shares"
  have "always_ends (cancel_step on a val) (cancel_init (cancel_start a shares)) (\<lambda>g _. idx g = (if val \<in> set a then val else - 1))"
  proof (rule cancels.always_endsI)
    fix g ls assume I: "cancel_inv a val g ls" and st: "stuck (cancel_step on a val) (g, ls)"
    have "\<not> will_store a val pc" if "pc \<in> set ls" for pc
      using cancel_stuck [OF st that] by (simp add: will_store_def)
    with I show "idx g = (if val \<in> set a then val else - 1)" by (auto simp: cancel_inv_def)
  qed
  with w show ?thesis by (simp add: cancel_start_def)
qed

theorem cancellation_stores_value_witness:
  "always_ends (cancel_step True omp_a 9) (cancel_init [[0..<7], [7..<12]]) (\<lambda>g _. idx g = 9) \<and> omp_a ! 8 = 9"
proof -
  have "worksharing (length omp_a) [[0..<7], [7..<12]]" "9 \<in> set omp_a" "omp_a ! 8 = 9"
    using shares_7_5 by (simp, simp_all add: omp_a_def)
  with cancellation_stores_value [OF this(1), of True 9] show ?thesis by simp
qed

section \<open>CriticalSection and ThreadNum\<close>

text \<open>Every thread prints its number; \<open>printf\<close> locks the stream for a call, with or without \<open>omp critical\<close>.\<close>

datatype print_pc = Printing | Printed

fun print_step :: "(nat list, print_pc) thread" where
  "print_step t out Printing = [(out @ [t], Printed)]"
| "print_step t out Printed = []"

definition print_init :: "nat \<Rightarrow> (nat list, print_pc) conf" where
  "print_init num_threads = ([], replicate num_threads Printing)"

definition print_inv :: "nat \<Rightarrow> nat list \<Rightarrow> print_pc list \<Rightarrow> bool" where
  "print_inv T out ls \<longleftrightarrow> length ls = T \<and> distinct out \<and> (\<forall>t. t \<in> set out \<longleftrightarrow> t < T \<and> ls ! t = Printed)"

fun print_work :: "print_pc \<Rightarrow> nat" where
  "print_work Printing = 1"
| "print_work Printed = 0"

interpretation prints: thread_term print_step "print_init T" "print_inv T" "\<lambda>_. workload print_work" for T
proof
  show "print_inv T (fst (print_init T)) (snd (print_init T))" by (auto simp: print_inv_def print_init_def)
next
  fix out ls t out' l'
  assume I: "print_inv T out ls" and t: "t < length ls" and st: "(out', l') \<in> set (print_step t out (ls ! t))"
  from st have e: "ls ! t = Printing" "out' = out @ [t]" "l' = Printed" by (cases "ls ! t"; simp)+
  with I t show "print_inv T out' (ls[t := l'])" by (auto simp: print_inv_def nth_list_update)
  from workload_upd [OF t, of print_work l'] e show "workload print_work (ls[t := l']) < workload print_work ls" by simp
qed

text \<open>Every thread number is printed exactly once.\<close>

lemma team_prints: "always_ends print_step (print_init T) (\<lambda>out _. mset out = mset [0..<T])"
proof (rule prints.always_endsI)
  fix out ls assume I: "print_inv T out ls" and st: "stuck print_step (out, ls)"
  have "ls ! t = Printed" if "t < T" for t
    using st I that by (cases "ls ! t") (auto simp: stuck_iff print_inv_def)
  with I have "distinct out" "set out = set [0..<T]" by (auto simp: print_inv_def)
  then show "mset out = mset [0..<T]" by (metis distinct_upt set_eq_iff_mset_eq_distinct)
qed

end
