(* ===== verification/Histogram.thy ===== *)
theory Histogram
  imports Open_MP Condition_Variables
begin

text \<open>
  OpenMP/Historgram/main.cpp: the histogram of an image by a team of threads, each with a private histogram that it adds to
  the shared one in a critical section, and the same by one thread. A \<open>size_t\<close> is a word of 64 bits.
\<close>

section \<open>One thread\<close>

type_synonym histo = "64 word list"

definition empty_hist :: histo where
  "empty_hist = replicate 256 0"

definition count_pixel :: "8 word \<Rightarrow> histo \<Rightarrow> histo" where
  "count_pixel p h = h[unat p := h ! unat p + 1]"

fun histogram_sequential :: "histo \<Rightarrow> 8 word list \<Rightarrow> histo" where
  "histogram_sequential h [] = h"
| "histogram_sequential h (p # ps) = histogram_sequential (count_pixel p h) ps"

definition compare_histograms :: "histo \<Rightarrow> histo \<Rightarrow> bool" where
  "compare_histograms h1 h2 = list_all (\<lambda>i. h1 ! i = h2 ! i) [0..<256]"

text \<open>The numbers that the generator draws are in the range of a byte.\<close>

definition generate_image :: "(nat \<Rightarrow> nat) \<Rightarrow> nat \<Rightarrow> nat \<Rightarrow> 8 word list" where
  "generate_image draw width height = map (\<lambda>i. word_of_nat (draw i)) [0..<width * height]"

text \<open>\<open>print_histogram_stats\<close>: the least and the most frequent value, with how often they occur.\<close>

record hist_stats =
  min_freq :: "64 word"
  max_freq :: "64 word"
  min_val :: nat
  max_val :: nat

definition stats_step :: "histo \<Rightarrow> nat \<Rightarrow> hist_stats \<Rightarrow> hist_stats" where
  "stats_step h i s =
     (let s = (if h ! i < min_freq s then s\<lparr>min_freq := h ! i, min_val := i\<rparr> else s)
      in if h ! i > max_freq s then s\<lparr>max_freq := h ! i, max_val := i\<rparr> else s)"

definition histogram_stats :: "histo \<Rightarrow> hist_stats" where
  "histogram_stats h = fold (stats_step h) [0..<256] \<lparr>min_freq = h ! 0, max_freq = h ! 0, min_val = 0, max_val = 0\<rparr>"

lemma length_count_pixel [simp]: "length (count_pixel p h) = length h"
  by (simp add: count_pixel_def)

lemma length_sequential [simp]: "length (histogram_sequential h ps) = length h"
  by (induction h ps rule: histogram_sequential.induct) auto

lemma nth_count_pixel:
  "length h = 256 \<Longrightarrow> count_pixel p h ! unat q = h ! unat q + of_bool (p = q)" for q :: "8 word"
  using unsigned_less [where ?'a = nat, of p] by (auto simp: count_pixel_def nth_list_update word_unat_eq_iff)

text \<open>Each cell counts the pixels of its value.\<close>

lemma sequential_counts:
  "length h = 256 \<Longrightarrow> histogram_sequential h ps ! unat q = h ! unat q + sum_list (map (\<lambda>p. of_bool (p = q)) ps)"
  by (induction h ps rule: histogram_sequential.induct) (simp_all add: nth_count_pixel)

text \<open>The loop over the histogram finds a minimum and a maximum.\<close>

lemma stats_prefix:
  assumes "k \<le> 256"
  shows "let s = fold (stats_step h) [0..<k] \<lparr>min_freq = h ! 0, max_freq = h ! 0, min_val = 0, max_val = 0\<rparr>
    in min_freq s = h ! min_val s \<and> max_freq s = h ! max_val s \<and> min_val s < 256 \<and> max_val s < 256 \<and>
       (\<forall>i < k. min_freq s \<le> h ! i \<and> h ! i \<le> max_freq s)"
  using assms
proof (induction k)
  case 0
  show ?case by simp
next
  case (Suc k)
  then show ?case by (auto simp: stats_step_def Let_def less_Suc_eq)
qed

section \<open>A team\<close>

record hist_team =
  hist :: histo
  in_critical :: bool

datatype hist_pc =
    Counting "nat list" histo
  | AddLoad nat histo
  | AddStore nat "64 word" histo
  | Counted

text \<open>\<open>hist[i] += hist_priv[i]\<close> loads and stores; only the critical section makes it safe.\<close>

definition hist_step :: "8 word list \<Rightarrow> (hist_team, hist_pc) thread" where
  "hist_step img t g pc =
     (case pc of
        Counting todo priv \<Rightarrow>
          (case todo of
             [] \<Rightarrow> if in_critical g then [] else [(g\<lparr>in_critical := True\<rparr>, AddLoad 0 priv)]
           | i # is \<Rightarrow> [(g, Counting is (count_pixel (img ! i) priv))])
      | AddLoad i priv \<Rightarrow>
          if i < 256 then [(g, AddStore i (hist g ! i) priv)] else [(g\<lparr>in_critical := False\<rparr>, Counted)]
      | AddStore i x priv \<Rightarrow> [(g\<lparr>hist := (hist g)[i := x + priv ! i]\<rparr>, AddLoad (i + 1) priv)]
      | Counted \<Rightarrow> [])"

definition histogram_openmp :: "histo \<Rightarrow> nat list list \<Rightarrow> (hist_team, hist_pc) conf" where
  "histogram_openmp h shares = (\<lparr>hist = h, in_critical = False\<rparr>, map (\<lambda>is. Counting is empty_hist) shares)"

section \<open>The two agree\<close>

definition adding :: "hist_pc \<Rightarrow> bool" where
  "adding pc \<longleftrightarrow> (case pc of AddLoad _ _ \<Rightarrow> True | AddStore _ _ _ \<Rightarrow> True | _ \<Rightarrow> False)"

definition hist_ok :: "hist_team \<Rightarrow> hist_pc \<Rightarrow> bool" where
  "hist_ok g pc \<longleftrightarrow> (case pc of Counting is p \<Rightarrow> length p = 256 | AddLoad i p \<Rightarrow> length p = 256 \<and> i \<le> 256
     | AddStore i x p \<Rightarrow> length p = 256 \<and> i < 256 \<and> x = hist g ! i | Counted \<Rightarrow> True)"

definition hist_inv :: "hist_team \<Rightarrow> hist_pc list \<Rightarrow> bool" where
  "hist_inv g ls \<longleftrightarrow> length (hist g) = 256 \<and> cnt adding ls = of_bool (in_critical g) \<and> list_all (hist_ok g) ls"

text \<open>What a thread still has to add to the cell of \<open>q\<close>.\<close>

fun hist_part :: "8 word list \<Rightarrow> 8 word \<Rightarrow> hist_pc \<Rightarrow> 64 word" where
  "hist_part img q (Counting is p) = p ! unat q + sum_list (map (\<lambda>i. of_bool (img ! i = q)) is)"
| "hist_part img q (AddLoad i p) = (if i \<le> unat q then p ! unat q else 0)"
| "hist_part img q (AddStore i x p) = (if i \<le> unat q then p ! unat q else 0)"
| "hist_part img q Counted = 0"

fun hist_work :: "hist_pc \<Rightarrow> nat" where
  "hist_work (Counting is p) = length is + 515"
| "hist_work (AddLoad i p) = 2 * (257 - i)"
| "hist_work (AddStore i x p) = 2 * (257 - i) - 1"
| "hist_work Counted = 0"

lemma hist_effect:
  assumes "(g', pc') \<in> set (hist_step img t g pc)" and "hist_ok g pc" and "length (hist g) = 256"
    and "adding pc \<longrightarrow> in_critical g"
  shows "length (hist g') = 256 \<and> hist_ok g' pc' \<and> hist_work pc' < hist_work pc \<and>
    (hist g' = hist g \<or> adding pc) \<and>
    of_bool (in_critical g') - of_bool (adding pc') = of_bool (in_critical g) - (of_bool (adding pc) :: int)"
  using assms
  by (cases pc) (auto simp: hist_step_def hist_ok_def adding_def split: list.splits if_splits)

lemma hist_moves:
  assumes "(g', pc') \<in> set (hist_step img t g pc)" and "hist_ok g pc" and "length (hist g) = 256"
  shows "hist_part img q pc' + hist g' ! unat q = hist_part img q pc + hist g ! unat q"
  using assms unsigned_less [where ?'a = nat, of q]
  by (cases pc) (auto simp: hist_step_def hist_ok_def nth_count_pixel nth_list_update split: list.splits if_splits)

lemma hist_inv_step:
  assumes I: "hist_inv g ls" and t: "t < length ls" and st: "(g', pc') \<in> set (hist_step img t g (ls ! t))"
  shows "hist_inv g' (ls[t := pc']) \<and> hist_work pc' < hist_work (ls ! t)"
proof -
  have ok: "hist_ok g (ls ! t)" "length (hist g) = 256" "cnt adding ls = of_bool (in_critical g)"
    using I t by (auto simp: hist_inv_def list_all_length)
  have "adding (ls ! t) \<longrightarrow> in_critical g" using ok(3) cnt_pos [OF t, of adding] by (cases "in_critical g") auto
  note e = hist_effect [OF st ok(1,2) this]
  have "hist_ok g' (ls[t := pc'] ! u)" if u: "u < length ls" for u
  proof (cases "u = t")
    case True
    with e t show ?thesis by simp
  next
    case False
    have "hist_ok g (ls ! u)" using I u by (auto simp: hist_inv_def list_all_length)
    moreover have "hist g' = hist g \<or> \<not> adding (ls ! u)"
      using e holder_unique [OF ok(3) t u, of] False by auto
    ultimately have "hist_ok g' (ls ! u)" by (auto simp: hist_ok_def adding_def split: hist_pc.splits)
    with False show ?thesis by simp
  qed
  then have "list_all (hist_ok g') (ls[t := pc'])" by (simp add: list_all_length)
  moreover have "cnt adding (ls[t := pc']) = of_bool (in_critical g')"
    using e ok(3) by (simp add: cnt_upd [OF t])
  ultimately show ?thesis using e by (simp add: hist_inv_def)
qed

definition full_hist :: "histo \<Rightarrow> histo" where
  "full_hist h = (if length h = 256 then h else empty_hist)"

lemma length_full_hist [simp]: "length (full_hist h) = 256"
  by (simp add: full_hist_def empty_hist_def)

interpretation hists: thread_term "hist_step img" "histogram_openmp (full_hist h) shares" hist_inv "\<lambda>_. workload hist_work"
  for img h shares
proof
  show "hist_inv (fst (histogram_openmp (full_hist h) shares)) (snd (histogram_openmp (full_hist h) shares))"
    by (auto simp: hist_inv_def histogram_openmp_def hist_ok_def adding_def cnt_zero_iff list_all_iff empty_hist_def)
next
  fix g ls t g' l'
  assume I: "hist_inv g ls" and t: "t < length ls" and st: "(g', l') \<in> set (hist_step img t g (ls ! t))"
  from hist_inv_step [OF this] show "hist_inv g' (ls[t := l'])" by simp
  from hist_inv_step [OF I t st] workload_upd [OF t, of hist_work l']
  show "workload hist_work (ls[t := l']) < workload hist_work ls" by simp
qed

interpretation hist_cells: team_sum "hist_step img" "histogram_openmp (full_hist h) shares" hist_inv "hist_part img q"
  "\<lambda>g. hist g ! unat q" for img h shares and q :: "8 word"
  by unfold_locales (auto simp: hist_inv_def list_all_length intro!: hist_moves)

lemma hist_stuck:
  assumes I: "hist_inv g ls" and st: "stuck (hist_step img) (g, ls)"
  shows "\<forall>pc \<in> set ls. pc = Counted"
proof -
  have blocked: "hist_step img t g (ls ! t) = []" if "t < length ls" for t using st that by (simp add: stuck_iff)
  have "\<not> adding (ls ! t)" if "t < length ls" for t
    using blocked [OF that] by (cases "ls ! t") (auto simp: hist_step_def adding_def split: if_splits)
  then have "cnt adding ls = 0" by (simp add: cnt_zero_iff)
  with I have free: "\<not> in_critical g" by (simp add: hist_inv_def)
  have "ls ! t = Counted" if "t < length ls" for t
    using blocked [OF that] free by (cases "ls ! t") (auto simp: hist_step_def split: list.splits if_splits)
  then show ?thesis by (metis in_set_conv_nth)
qed

lemma histogram_result:
  assumes w: "worksharing (length img) shares" and h: "length h = 256"
  shows "always_ends (hist_step img) (histogram_openmp h shares) (\<lambda>g _. hist g = histogram_sequential h img)"
proof -
  have "always_ends (hist_step img) (histogram_openmp (full_hist h) shares) (\<lambda>g _. hist g = histogram_sequential h img)"
  proof (rule hists.always_endsI)
    fix g ls
    assume r: "reach (hist_step img) (histogram_openmp (full_hist h) shares) (g, ls)" and I: "hist_inv g ls"
      and st: "stuck (hist_step img) (g, ls)"
    have cells: "hist g ! unat q = histogram_sequential h img ! unat q" for q :: "8 word"
    proof -
      have "\<forall>pc \<in> set ls. hist_part img q pc = 0" using hist_stuck [OF I st] by force
      from hist_cells.collected [OF r this]
      have "hist g ! unat q = sum_list (map (\<lambda>is. sum_list (map (\<lambda>i. of_bool (img ! i = q)) is)) shares) + h ! unat q"
        using h unsigned_less [where ?'a = nat, of q] by (simp add: histogram_openmp_def comp_def full_hist_def empty_hist_def)
      also have "sum_list (map (\<lambda>is. sum_list (map (\<lambda>i. of_bool (img ! i = q)) is)) shares)
          = sum_list (map (\<lambda>p. of_bool (p = q) :: 64 word) img)"
      proof -
        have "sum_list (map (\<lambda>i. of_bool (img ! i = q) :: 64 word) [0..<length img]) = sum_list (map (\<lambda>p. of_bool (p = q)) (map ((!) img) [0..<length img]))"
          by (simp only: map_map comp_def)
        then show ?thesis unfolding worksharing_sum [OF w] by (simp only: map_nth)
      qed
      finally show ?thesis using sequential_counts [OF h] by (simp add: add.commute)
    qed
    show "hist g = histogram_sequential h img"
    proof (rule nth_equalityI)
      show "length (hist g) = length (histogram_sequential h img)" using I h by (simp add: hist_inv_def)
      fix i assume "i < length (hist g)"
      then have "unat (word_of_nat i :: 8 word) = i" using I by (simp add: hist_inv_def unat_of_nat)
      with cells [of "word_of_nat i"] show "hist g ! i = histogram_sequential h img ! i" by simp
    qed
  qed
  with h show ?thesis by (simp add: full_hist_def)
qed

lemma histogram_parallel:
  "worksharing (length img) shares \<Longrightarrow>
    always_ends (hist_step img) (histogram_openmp empty_hist shares) (\<lambda>g _. hist g = histogram_sequential empty_hist img)"
  by (rule histogram_result) (simp_all add: empty_hist_def)

text \<open>
  Claim C18. The parallel histogram ends and equals the sequential one, for every image, every number of threads and every way to
  deal out the pixels; the program finds that the results match.
\<close>

theorem histogram_parallel_is_sequential:
  assumes "worksharing (length img) shares"
  shows "always_ends (hist_step img) (histogram_openmp empty_hist shares)
    (\<lambda>g _. hist g = histogram_sequential empty_hist img \<and>
       compare_histograms (hist g) (histogram_sequential empty_hist img))"
  using histogram_parallel [OF assms] by (simp add: always_ends_def compare_histograms_def list_all_iff)

theorem histogram_parallel_is_sequential_witness:
  "always_ends (hist_step [7, 255, 7]) (histogram_openmp empty_hist [[0, 2], [1]])
     (\<lambda>g _. hist g = histogram_sequential empty_hist [7, 255, 7] \<and>
       compare_histograms (hist g) (histogram_sequential empty_hist [7, 255, 7])) \<and>
   histogram_sequential empty_hist [7, 255, 7] ! 7 = 2"
proof -
  have "worksharing (length [7, 255, 7 :: 8 word]) [[0, 2], [1]]" by code_simp
  moreover have "histogram_sequential empty_hist [7, 255, 7] ! 7 = 2"
    using sequential_counts [of empty_hist "[7, 255, 7]" 7] by (simp add: empty_hist_def)
  ultimately show ?thesis using histogram_parallel_is_sequential [of "[7, 255, 7]" "[[0, 2], [1]]"] by blast
qed

text \<open>
  The statistics name a value that occurs most often and one that occurs least often, with their counts.
\<close>

theorem histogram_stats_extreme:
  "let s = histogram_stats h in min_val s < 256 \<and> max_val s < 256 \<and> min_freq s = h ! min_val s \<and> max_freq s = h ! max_val s \<and>
     list_all (\<lambda>i. min_freq s \<le> h ! i \<and> h ! i \<le> max_freq s) [0..<256]"
  using stats_prefix [of 256 h] unfolding histogram_stats_def Let_def list_all_iff by auto

section \<open>The program\<close>

text \<open>The lines that are printed, without the times and percentages.\<close>

datatype hist_line =
    TotalPixels nat
  | MostFrequent nat "64 word"
  | LeastFrequent nat "64 word"
  | FirstValues "64 word list"
  | ResultsMatch
  | ResultsDiffer
  | Differs nat "64 word" "64 word"

definition print_histogram_stats :: "histo \<Rightarrow> nat \<Rightarrow> hist_line list" where
  "print_histogram_stats h total_pixels =
     (let s = histogram_stats h
      in [TotalPixels total_pixels, MostFrequent (max_val s) (max_freq s), LeastFrequent (min_val s) (min_freq s),
          FirstValues (map ((!) h) [0..<10])])"

definition hist_differences :: "histo \<Rightarrow> histo \<Rightarrow> hist_line list" where
  "hist_differences h1 h2 = map (\<lambda>i. Differs i (h1 ! i) (h2 ! i)) (filter (\<lambda>i. h1 ! i \<noteq> h2 ! i) [0..<256])"

text \<open>What \<open>main\<close> prints when the team has left the histogram \<open>hist_parallel\<close>.\<close>

definition hist_main_lines :: "8 word list \<Rightarrow> histo \<Rightarrow> hist_line list" where
  "hist_main_lines img hist_parallel =
     (let hist_sequential = histogram_sequential empty_hist img
      in print_histogram_stats hist_parallel (length img) @ print_histogram_stats hist_sequential (length img) @
         (if compare_histograms hist_parallel hist_sequential then [ResultsMatch]
          else ResultsDiffer # hist_differences hist_parallel hist_sequential))"

definition hist_width :: nat where "hist_width = 4096"
definition hist_height :: nat where "hist_height = 4096"

text \<open>
  The program prints the same statistics twice and that the results match, whatever numbers are drawn and however the
  pixels are dealt out.
\<close>

theorem histogram_main_matches:
  assumes "worksharing (hist_width * hist_height) shares"
  shows "always_ends (hist_step (generate_image draw hist_width hist_height)) (histogram_openmp empty_hist shares)
    (\<lambda>g _. hist_main_lines (generate_image draw hist_width hist_height) (hist g) =
       (let stats = print_histogram_stats (hist g) (hist_width * hist_height) in stats @ stats @ [ResultsMatch]))"
proof -
  let ?img = "generate_image draw hist_width hist_height"
  have l: "length ?img = hist_width * hist_height" by (simp add: generate_image_def)
  with assms histogram_parallel [of ?img shares]
  have "always_ends (hist_step ?img) (histogram_openmp empty_hist shares)
      (\<lambda>g _. hist g = histogram_sequential empty_hist ?img)" by simp
  then show ?thesis unfolding always_ends_def
    by (simp add: hist_main_lines_def l Let_def compare_histograms_def list_all_iff)
qed

end
