(* ===== verification/Task_Tree.thy ===== *)
theory Task_Tree
  imports Open_MP
begin

text \<open>
  OpenMP/Task/main.cpp: the minimum of a binary tree, by a recursion that is meant to create tasks, and by a plain
  recursion. The values are \<open>float\<close>s, of which the program only uses the order: they are of any linearly ordered type,
  and \<open>fmax\<close> is \<open>std::numeric_limits<float>::max()\<close>. The tree is allocated with \<open>new\<close> and freed with \<open>delete\<close>: a node has
  an address, and the live addresses are counted.
\<close>

section \<open>The tree and the heap\<close>

datatype 'a node_t = Null | Node (address: nat) (left: "'a node_t") (right: "'a node_t") (val: 'a)

fun node_values :: "'a node_t \<Rightarrow> 'a list" where
  "node_values Null = []"
| "node_values (Node p l r v) = v # node_values l @ node_values r"

fun addresses :: "'a node_t \<Rightarrow> nat list" where
  "addresses Null = []"
| "addresses (Node p l r v) = p # addresses l @ addresses r"

record heap =
  next_address :: nat
  live :: "nat multiset"

definition tree_new :: "heap \<Rightarrow> nat \<times> heap" where
  "tree_new h = (next_address h, h\<lparr>next_address := next_address h + 1, live := add_mset (next_address h) (live h)\<rparr>)"

text \<open>Deleting what is not live is undefined: \<open>None\<close>.\<close>

definition tree_delete :: "nat \<Rightarrow> heap \<Rightarrow> heap option" where
  "tree_delete p h = (if p \<in># live h then Some (h\<lparr>live := live h - {#p#}\<rparr>) else None)"

text \<open>\<open>draw k\<close> is the \<open>k\<close>-th number of the generator, \<open>k\<close> the state that \<open>gen\<close> is in.\<close>

function generate_tree :: "(nat \<Rightarrow> 'a) \<Rightarrow> int \<Rightarrow> nat \<Rightarrow> heap \<Rightarrow> 'a node_t \<times> nat \<times> heap" where
  "generate_tree draw depth k h =
     (if depth \<le> 0 then (Null, k, h)
      else let (p, h) = tree_new h;
               v = draw k;
               (l, k, h) = generate_tree draw (depth - 1) (k + 1) h;
               (r, k, h) = generate_tree draw (depth - 1) k h
           in (Node p l r v, k, h))"
  by pat_completeness auto

termination
  by (relation "measure (\<lambda>(draw, depth, k, h). nat depth)") auto

declare generate_tree.simps [simp del]

fun free_tree :: "'a node_t \<Rightarrow> heap \<Rightarrow> heap option" where
  "free_tree Null h = Some h"
| "free_tree (Node p l r v) h =
     (case free_tree l h of None \<Rightarrow> None
      | Some h \<Rightarrow> (case free_tree r h of None \<Rightarrow> None | Some h \<Rightarrow> tree_delete p h))"

section \<open>The minimum\<close>

fun find_min_sequential :: "'a :: linorder \<Rightarrow> 'a node_t \<Rightarrow> 'a" where
  "find_min_sequential fmax Null = fmax"
| "find_min_sequential fmax (Node p l r v) = min v (min (find_min_sequential fmax l) (find_min_sequential fmax r))"

text \<open>
  \<open>find_min_internal\<close> with the number of tasks it creates; \<open>None\<close> is the dereference of a null pointer. A task only
  assigns a variable that is read after \<open>taskwait\<close>, so the order of the tasks does not matter. The recursive calls
  take the default argument for \<open>depth\<close>.
\<close>

fun find_min_internal :: "'a :: linorder \<Rightarrow> 'a node_t \<Rightarrow> int \<Rightarrow> (nat \<times> 'a) option" where
  "find_min_internal fmax Null depth = None"
| "find_min_internal fmax (Node p l r v) depth =
     (if depth > 10
      then (case (if l = Null then Some (0, fmax) else map_option (apfst Suc) (find_min_internal fmax l 0)) of
              None \<Rightarrow> None
            | Some (m, min_left) \<Rightarrow>
                (case (if r = Null then Some (0, fmax) else map_option (apfst Suc) (find_min_internal fmax r 0)) of
                   None \<Rightarrow> None
                 | Some (n, min_right) \<Rightarrow> Some (m + n, min min_right (min min_left v))))
      else let m = find_min_sequential fmax (Node p l r v) in Some (0, min m (min m v)))"

definition find_min :: "'a :: linorder \<Rightarrow> 'a node_t \<Rightarrow> (nat \<times> 'a) option" where
  "find_min fmax root = find_min_internal fmax root 0"

definition tree_depth :: int where "tree_depth = 20"

definition task_main :: "'a :: linorder \<Rightarrow> (nat \<Rightarrow> 'a) \<Rightarrow> int \<Rightarrow> heap \<Rightarrow> (bool \<times> heap) option" where
  "task_main fmax draw depth h =
     (let (root, k, h) = generate_tree draw depth 0 h in
      case find_min fmax root of None \<Rightarrow> None
      | Some (tasks, min_parallel) \<Rightarrow>
          map_option (Pair (min_parallel = find_min_sequential fmax root)) (free_tree root h))"

section \<open>Correctness\<close>

lemma find_min_sequential_Min:
  "find_min_sequential fmax t = Min (insert fmax (set (node_values t)))"
proof (induction t)
  case Null
  show ?case by simp
next
  case (Node p l r v)
  have "Min (insert fmax (insert v (set (node_values l) \<union> set (node_values r)))) =
      Min (insert v (insert fmax (set (node_values l)) \<union> insert fmax (set (node_values r))))"
    by (rule arg_cong [of _ _ Min]) auto
  also have "\<dots> = min v (Min (insert fmax (set (node_values l)) \<union> insert fmax (set (node_values r))))"
    by (simp add: Min_insert)
  also have "\<dots> = min v (min (find_min_sequential fmax l) (find_min_sequential fmax r))"
    unfolding Node.IH by (subst Min_Un) auto
  finally show ?case by simp
qed

lemma sequential_below: "find_min_sequential fmax (Node p l r v) \<le> v"
  by simp

lemma find_min_internal_result:
  "t \<noteq> Null \<Longrightarrow> \<exists>n. find_min_internal fmax t depth = Some (n, find_min_sequential fmax t)"
proof (induction fmax t depth rule: find_min_internal.induct)
  case (1 fmax depth)
  then show ?case by simp
next
  case (2 fmax p l r v depth)
  show ?case
  proof (cases "depth > 10")
    case True
    have "\<exists>n. (if l = Null then Some (0, fmax) else map_option (apfst Suc) (find_min_internal fmax l 0)) =
        Some (n, find_min_sequential fmax l)"
      using "2.IH"(1) [OF True] by (cases "l = Null") auto
    moreover from this have "\<exists>n. (if r = Null then Some (0, fmax) else map_option (apfst Suc) (find_min_internal fmax r 0)) =
        Some (n, find_min_sequential fmax r)"
      using "2.IH"(2) [OF True] by (cases "r = Null") auto
    ultimately show ?thesis using True by (auto simp: min.assoc min.commute min.left_commute)
  next
    case False
    then show ?thesis using sequential_below [of fmax p l r v] by (auto simp: Let_def min_absorb1)
  qed
qed

lemma find_min_no_tasks: "find_min fmax t = Some (n, m) \<Longrightarrow> n = 0"
  by (cases t) (auto simp: find_min_def Let_def)

text \<open>
  Claim C28. \<open>find_min\<close> returns the least value of the tree, or the largest \<open>float\<close> if that is less, like the sequential version, and
  it does so without creating a single task: the test of the depth is the wrong way round. On a null pointer, which the
  sequential version accepts, it is undefined.
\<close>

theorem find_min_is_sequential:
  "find_min fmax t =
     (if t = Null then None else Some (0, find_min_sequential fmax t)) \<and>
   find_min_sequential fmax t = Min (insert fmax (set (node_values t)))"
proof -
  have "find_min fmax t = Some (0, find_min_sequential fmax t)" if nn: "t \<noteq> Null"
  proof -
    obtain n where n: "find_min fmax t = Some (n, find_min_sequential fmax t)"
      using find_min_internal_result [OF nn] unfolding find_min_def by blast
    with find_min_no_tasks [OF n] show ?thesis by simp
  qed
  then show ?thesis by (simp add: find_min_sequential_Min find_min_def)
qed

text \<open>What \<open>generate_tree\<close> makes: a complete tree on fresh addresses, with consecutive draws.\<close>

fun full_tree :: "nat \<Rightarrow> 'a node_t \<Rightarrow> bool" where
  "full_tree 0 t = (case t of Null \<Rightarrow> True | Node p l r v \<Rightarrow> False)"
| "full_tree (Suc n) t = (case t of Null \<Rightarrow> False | Node p l r v \<Rightarrow> full_tree n l \<and> full_tree n r)"

definition generated :: "(nat \<Rightarrow> 'a) \<Rightarrow> nat \<Rightarrow> nat \<Rightarrow> heap \<Rightarrow> 'a node_t \<Rightarrow> nat \<Rightarrow> heap \<Rightarrow> bool" where
  "generated draw n k h t k' h' \<longleftrightarrow> full_tree n t \<and> k \<le> k' \<and> node_values t = map draw [k..<k'] \<and>
     next_address h \<le> next_address h' \<and> addresses t = [next_address h..<next_address h'] \<and>
     live h' = mset (addresses t) + live h"

lemma generate_tree_result:
  "generate_tree draw depth k h = (t, k', h') \<Longrightarrow> generated draw (nat depth) k h t k' h'"
proof (induction "nat depth" arbitrary: depth k h t k' h')
  case 0
  then show ?case by (simp add: generate_tree.simps generated_def)
next
  case (Suc n)
  let ?h = "snd (tree_new h)"
  have d: "\<not> depth \<le> 0" "n = nat (depth - 1)" using Suc.hyps(2) by auto
  obtain l k1 h1 where l: "generate_tree draw (depth - 1) (k + 1) ?h = (l, k1, h1)" using prod_cases3 by metis
  obtain r k2 h2 where r: "generate_tree draw (depth - 1) k1 h1 = (r, k2, h2)" using prod_cases3 by metis
  have t: "t = Node (next_address h) l r (draw k)" "k' = k2" "h' = h2"
    using Suc.prems d l r by (simp_all add: generate_tree.simps [of draw depth] tree_new_def Let_def)
  from Suc.hyps(1) [OF d(2) l] Suc.hyps(1) [OF d(2) r]
  have L: "full_tree n l" "k + 1 \<le> k1" "node_values l = map draw [k + 1..<k1]" "next_address h + 1 \<le> next_address h1"
      "addresses l = [next_address h + 1..<next_address h1]" "live h1 = mset (addresses l) + add_mset (next_address h) (live h)"
    and R: "full_tree n r" "k1 \<le> k2" "node_values r = map draw [k1..<k2]" "next_address h1 \<le> next_address h2"
      "addresses r = [next_address h1..<next_address h2]" "live h2 = mset (addresses r) + live h1"
    unfolding d(2) [symmetric] by (simp_all add: generated_def tree_new_def)
  have "[k..<k2] = k # [k + 1..<k1] @ [k1..<k2]"
    using L(2) R(2) upt_add_eq_append [of "k + 1" k1 "k2 - k1"] by (simp add: upt_conv_Cons)
  moreover have "[next_address h..<next_address h2] =
      next_address h # [next_address h + 1..<next_address h1] @ [next_address h1..<next_address h2]"
    using L(4) R(4) upt_add_eq_append [of "next_address h + 1" "next_address h1" "next_address h2 - next_address h1"]
    by (simp add: upt_conv_Cons)
  ultimately show ?case
    unfolding generated_def Suc.hyps(2) [symmetric] t using L R by simp
qed

text \<open>Freeing a tree that is live deletes its nodes, each once.\<close>

lemma free_tree_result:
  "live h = mset (addresses t) + m \<Longrightarrow> free_tree t h = Some (h\<lparr>live := m\<rparr>)"
proof (induction t arbitrary: h m)
  case Null
  then show ?case by simp
next
  case (Node p l r v)
  from Node.prems have "live h = mset (addresses l) + (add_mset p (mset (addresses r) + m))" by simp
  from Node.IH(1) [OF this] have l: "free_tree l h = Some (h\<lparr>live := add_mset p (mset (addresses r) + m)\<rparr>)" .
  have "free_tree r (h\<lparr>live := add_mset p (mset (addresses r) + m)\<rparr>) =
      Some (h\<lparr>live := add_mset p (mset (addresses r) + m), live := add_mset p m\<rparr>)"
    by (rule Node.IH(2)) simp
  with l show ?case by (simp add: tree_delete_def)
qed

text \<open>
  Claim C27. \<open>free_tree\<close> undoes \<open>generate_tree\<close>: it deletes every node of the generated tree once, none of them twice and nothing else, so
  what is live afterwards is what was live before. The tree has all nodes down to the given depth, and its values are
  consecutive draws.
\<close>

theorem free_tree_undoes_generate_tree:
  "case generate_tree draw depth k h of (t, k', h') \<Rightarrow>
     free_tree t h' = Some (h'\<lparr>live := live h\<rparr>) \<and> full_tree (nat depth) t \<and> node_values t = map draw [k..<k']"
proof -
  obtain t k' h' where t: "generate_tree draw depth k h = (t, k', h')" using prod_cases3 by metis
  from generate_tree_result [OF t] free_tree_result [of h' t "live h"] show ?thesis by (simp add: t generated_def)
qed

text \<open>
  The program finds that the results match, and frees all that it allocated.
\<close>

theorem task_program_matches:
  "map_option (\<lambda>(match, h'). (match, live h')) (task_main fmax draw tree_depth h) = Some (True, live h)"
proof -
  obtain t k' h' where t: "generate_tree draw tree_depth 0 h = (t, k', h')" using prod_cases3 by metis
  from generate_tree_result [OF t] have g: "full_tree (Suc 19) t" "free_tree t h' = Some (h'\<lparr>live := live h\<rparr>)"
    using free_tree_result [of h' t "live h"] by (simp_all add: generated_def tree_depth_def)
  from g(1) have "t \<noteq> Null" unfolding full_tree.simps by (cases t) auto
  with g(2) find_min_is_sequential [of fmax t] show ?thesis by (simp add: task_main_def t)
qed

end
