(* ===== verification/Reactor_Messages.thy ===== *)
theory Reactor_Messages
  imports Condition_Variables
begin

unbundle bit_operations_syntax

text \<open>
  What Reactor/Cpp11/reactor.cpp and Reactor/Cpp11queue/reactor.cpp have in common: the messages, the maps of handlers,
  and the dispatch of a message.
\<close>

section \<open>Messages\<close>

text \<open>The payload has 256 bytes; the programs set the first four.\<close>

record reactor_message =
  mtype :: "32 word"
  mdata :: "8 word list"

abbreviation OPEN :: "32 word" where "OPEN \<equiv> 0"
abbreviation READ :: "32 word" where "READ \<equiv> 1"
abbreviation WRITE :: "32 word" where "WRITE \<equiv> 2"
definition REGISTER_HANDLER :: "32 word" where "REGISTER_HANDLER = 4"
definition REMOVE_HANDLER :: "32 word" where "REMOVE_HANDLER = 5"

text \<open>A \<open>char\<close> is promoted to \<open>int\<close>; \<open>sc\<close>: the platform has a signed \<open>char\<close>.\<close>

definition char_int :: "bool \<Rightarrow> 8 word \<Rightarrow> 32 word" where
  "char_int sc c = (if sc then scast c else ucast c)"

definition user_id :: "bool \<Rightarrow> reactor_message \<Rightarrow> 16 word" where
  "user_id sc m = ucast (push_bit 8 (char_int sc (mdata m ! 1)) OR char_int sc (mdata m ! 0))"

section \<open>The handlers\<close>

datatype test_handler = TestRead1 | TestWrite1 | TestOpen1 | TestRead2 | TestWrite2 | TestOpen2

datatype reactor_line = Ran test_handler | NoSuchKey "16 word" "32 word" | NullHandler

datatype thread_status = NotStarted | Started | Finished

record reactor =
  handler_map :: "16 word \<times> 32 word \<Rightarrow> test_handler option"
  register_status_map :: "16 word \<times> 32 word \<Rightarrow> bool option"
  register_handler :: "test_handler option"
  event_loop_start :: bool
  reactor_thread :: thread_status
  printed :: "reactor_line list"

definition RegisterEventHandler :: "16 word \<Rightarrow> 32 word \<Rightarrow> test_handler \<Rightarrow> 'a reactor_scheme \<Rightarrow> bool \<times> 'a reactor_scheme" where
  "RegisterEventHandler u t f s =
     (True, s\<lparr>handler_map := (handler_map s)((u, t) \<mapsto> f), register_status_map := (register_status_map s)((u, t) \<mapsto> True)\<rparr>)"

definition RemoveEventHandler :: "16 word \<Rightarrow> 32 word \<Rightarrow> 'a reactor_scheme \<Rightarrow> bool \<times> 'a reactor_scheme" where
  "RemoveEventHandler u t s =
     (False, s\<lparr>handler_map := (handler_map s)((u, t) := None), register_status_map := (register_status_map s)((u, t) \<mapsto> False)\<rparr>)"

definition setHandler :: "test_handler option \<Rightarrow> 'a reactor_scheme \<Rightarrow> 'a reactor_scheme" where
  "setHandler h s = s\<lparr>register_handler := h\<rparr>"

definition ParseMessage :: "bool \<Rightarrow> reactor_message \<Rightarrow> 'a reactor_scheme \<Rightarrow> 'a reactor_scheme" where
  "ParseMessage sc m s =
     (let u = user_id sc m in
      if mtype m = REGISTER_HANDLER
      then (case register_handler s of
              Some h \<Rightarrow> snd (RegisterEventHandler u (mtype m) h s)
            | None \<Rightarrow> s\<lparr>printed := printed s @ [NullHandler]\<rparr>)
      else if mtype m = REMOVE_HANDLER
      then snd (RemoveEventHandler u (mtype m) s)
      else (case handler_map s (u, mtype m) of
              Some h \<Rightarrow> s\<lparr>printed := printed s @ [Ran h]\<rparr>
            | None \<Rightarrow> s\<lparr>printed := printed s @ [NoSuchKey u (mtype m)]\<rparr>))"

text \<open>The calls that a program makes of a reactor, one after the other.\<close>

datatype reactor_call =
  CallRegister "16 word" "32 word" test_handler | CallRemove "16 word" "32 word" | CallSet "test_handler option" | CallMessage reactor_message

fun reactor_does :: "bool \<Rightarrow> reactor_call \<Rightarrow> 'a reactor_scheme \<Rightarrow> 'a reactor_scheme" where
  "reactor_does sc (CallRegister u t f) s = snd (RegisterEventHandler u t f s)"
| "reactor_does sc (CallRemove u t) s = snd (RemoveEventHandler u t s)"
| "reactor_does sc (CallSet h) s = setHandler h s"
| "reactor_does sc (CallMessage m) s = ParseMessage sc m s"

definition new_reactor :: "reactor" where
  "new_reactor = \<lparr>handler_map = Map.empty, register_status_map = Map.empty, register_handler = None, event_loop_start = False,
     reactor_thread = NotStarted, printed = []\<rparr>"

section \<open>What a reactor_message says\<close>

text \<open>The payload of a user, as the programs write it: the low byte first.\<close>

definition encode_user :: "16 word \<Rightarrow> 8 word list" where
  "encode_user u = [ucast u, ucast (drop_bit 8 u)]"

lemma user_id_unsigned: "user_id False \<lparr>mtype = t, mdata = encode_user u @ rest\<rparr> = u"
  unfolding user_id_def char_int_def encode_user_def
  by (rule bit_word_eqI) (auto simp: bit_simps)

lemma user_id_signed:
  "user_id True \<lparr>mtype = t, mdata = encode_user u @ rest\<rparr> = (if bit u 7 then scast (ucast u :: 8 word) else u)"
proof (rule bit_word_eqI)
  fix n assume "n < LENGTH(16)"
  then show "bit (user_id True \<lparr>mtype = t, mdata = encode_user u @ rest\<rparr>) n = bit (if bit u 7 then scast (ucast u :: 8 word) else u) n"
    unfolding user_id_def char_int_def encode_user_def
    by (cases "n \<le> 7"; cases "n = 7") (auto simp: bit_simps min_absorb1 min_absorb2)
qed

text \<open>
  The user id of a message is the id that its first two bytes encode, low byte first, where \<open>char\<close> is unsigned. Where it is
  signed, as on x86, that only holds for ids whose low byte is less than 128: for the others the high byte is lost.
\<close>

theorem user_id_round_trip:
  "user_id False \<lparr>mtype = t, mdata = encode_user u @ rest\<rparr> = u \<and>
   user_id True \<lparr>mtype = t, mdata = encode_user u @ rest\<rparr> = (if bit u 7 then scast (ucast u :: 8 word) else u)"
  by (simp add: user_id_unsigned user_id_signed)

section \<open>What a sequence of calls does\<close>

definition reactor_run :: "bool \<Rightarrow> reactor_call list \<Rightarrow> reactor" where
  "reactor_run sc cs = fold (reactor_does sc) cs new_reactor"

definition maps_agree :: "'a reactor_scheme \<Rightarrow> bool" where
  "maps_agree s \<longleftrightarrow> (\<forall>k. handler_map s k \<noteq> None \<longleftrightarrow> register_status_map s k = Some True)"

lemma parse_maps_agree: "maps_agree s \<Longrightarrow> maps_agree (ParseMessage sc m s)"
  by (auto simp: maps_agree_def ParseMessage_def RegisterEventHandler_def RemoveEventHandler_def Let_def split: option.splits)

lemma does_maps_agree: "maps_agree s \<Longrightarrow> maps_agree (reactor_does sc c s)"
  by (cases c) (auto simp: parse_maps_agree, auto simp: maps_agree_def RegisterEventHandler_def RemoveEventHandler_def setHandler_def)

text \<open>
  After any calls, a handler is registered for a user and a type if and only if its status is true.
\<close>

theorem reactor_maps_agree: "maps_agree (reactor_run sc cs)"
proof -
  have "maps_agree (fold (reactor_does sc) cs s)" if "maps_agree s" for s :: reactor
    using that by (induction cs arbitrary: s) (simp_all add: does_maps_agree)
  then show ?thesis by (simp add: reactor_run_def maps_agree_def new_reactor_def)
qed

text \<open>Without calls of \<open>RegisterEventHandler\<close> only the type \<open>REGISTER_HANDLER\<close> gets handlers, and it is never dispatched.\<close>

definition by_message_only :: "'a reactor_scheme \<Rightarrow> bool" where
  "by_message_only s \<longleftrightarrow> (\<forall>u t. handler_map s (u, t) \<noteq> None \<longrightarrow> t = REGISTER_HANDLER) \<and> (\<forall>h. Ran h \<notin> set (printed s))"

lemma does_by_message_only:
  "by_message_only s \<Longrightarrow> \<forall>u t f. c \<noteq> CallRegister u t f \<Longrightarrow> by_message_only (reactor_does sc c s)"
  by (cases c) (auto simp: by_message_only_def ParseMessage_def RegisterEventHandler_def RemoveEventHandler_def setHandler_def Let_def
      split: option.splits)

text \<open>
  A handler that is registered by a message is never called: it is registered for the type \<open>REGISTER_HANDLER\<close> of that
  message itself, whose messages are not dispatched.
\<close>

theorem message_handlers_never_run:
  "\<forall>u t f. CallRegister u t f \<notin> set cs \<Longrightarrow> Ran h \<notin> set (printed (reactor_run sc cs))"
proof -
  have "by_message_only (fold (reactor_does sc) cs s)"
    if "by_message_only s" "\<forall>u t f. CallRegister u t f \<notin> set cs" for s :: reactor
    using that
  proof (induction cs arbitrary: s)
    case Nil
    then show ?case by simp
  next
    case (Cons c cs)
    have "by_message_only (reactor_does sc c s)" using Cons.prems by (intro does_by_message_only) auto
    with Cons show ?case by simp
  qed
  moreover assume "\<forall>u t f. CallRegister u t f \<notin> set cs"
  ultimately show ?thesis by (simp add: reactor_run_def by_message_only_def new_reactor_def)
qed

theorem message_handlers_never_run_witness:
  "printed (reactor_run True [CallSet (Some TestRead1), CallMessage \<lparr>mtype = REGISTER_HANDLER, mdata = [0, 1]\<rparr>,
      CallMessage \<lparr>mtype = READ, mdata = [0, 1]\<rparr>]) = [NoSuchKey 256 READ] \<and>
   Ran TestRead1 \<notin> set (printed (reactor_run True [CallSet (Some TestRead1), CallMessage \<lparr>mtype = REGISTER_HANDLER, mdata = [0, 1]\<rparr>,
      CallMessage \<lparr>mtype = READ, mdata = [0, 1]\<rparr>]))"
proof
  show "printed (reactor_run True [CallSet (Some TestRead1), CallMessage \<lparr>mtype = REGISTER_HANDLER, mdata = [0, 1]\<rparr>,
      CallMessage \<lparr>mtype = READ, mdata = [0, 1]\<rparr>]) = [NoSuchKey 256 READ]"
    by code_simp
qed (rule message_handlers_never_run, simp)

end
