(* ===== verification/Reactor_Queue.thy ===== *)
theory Reactor_Queue
  imports Reactor_Messages Fifo_Interface
begin

text \<open>
  Reactor/Cpp11queue/reactor.cpp: a reactor with a queue of messages. Its thread holds the mutex of the queue from the
  start, apart from the wait, also while it parses a message; so a step of the main thread that needs the mutex is
  taken when the reactor thread waits or does not run.
\<close>

section \<open>The handlers\<close>

text \<open>The maps and the dispatch of this reactor, with a message that is passed by reference.\<close>

definition queue_RegisterEventHandler :: "16 word \<Rightarrow> 32 word \<Rightarrow> test_handler \<Rightarrow> 'a reactor_scheme \<Rightarrow> bool \<times> 'a reactor_scheme" where
  "queue_RegisterEventHandler u t f s =
     (True, s\<lparr>handler_map := (handler_map s)((u, t) \<mapsto> f), register_status_map := (register_status_map s)((u, t) \<mapsto> True)\<rparr>)"

definition queue_RemoveEventHandler :: "16 word \<Rightarrow> 32 word \<Rightarrow> 'a reactor_scheme \<Rightarrow> bool \<times> 'a reactor_scheme" where
  "queue_RemoveEventHandler u t s =
     (False, s\<lparr>handler_map := (handler_map s)((u, t) := None), register_status_map := (register_status_map s)((u, t) \<mapsto> False)\<rparr>)"

definition queue_ParseMessage :: "bool \<Rightarrow> reactor_message \<Rightarrow> 'a reactor_scheme \<Rightarrow> 'a reactor_scheme" where
  "queue_ParseMessage sc m s =
     (let u = user_id sc m in
      if mtype m = REGISTER_HANDLER
      then (case register_handler s of
              Some h \<Rightarrow> snd (queue_RegisterEventHandler u (mtype m) h s)
            | None \<Rightarrow> s\<lparr>printed := printed s @ [NullHandler]\<rparr>)
      else if mtype m = REMOVE_HANDLER
      then snd (queue_RemoveEventHandler u (mtype m) s)
      else (case handler_map s (u, mtype m) of
              Some h \<Rightarrow> s\<lparr>printed := printed s @ [Ran h]\<rparr>
            | None \<Rightarrow> s\<lparr>printed := printed s @ [NoSuchKey u (mtype m)]\<rparr>))"

text \<open>They do what those of the other reactor do.\<close>

lemma queue_maps_same [simp]:
  "queue_RegisterEventHandler = RegisterEventHandler" "queue_RemoveEventHandler = RemoveEventHandler"
  by (intro ext; simp add: queue_RegisterEventHandler_def RegisterEventHandler_def queue_RemoveEventHandler_def RemoveEventHandler_def)+

lemma queue_parse_same [simp]: "queue_ParseMessage = ParseMessage"
  by (intro ext) (simp add: queue_ParseMessage_def ParseMessage_def Let_def cong: if_cong option.case_cong)

section \<open>The reactor thread\<close>

text \<open>\<open>msg_cond\<close>: the reactor thread waits and has not been notified. \<open>history\<close> is for the proofs.\<close>

record queue_reactor = reactor +
  msg_queue :: "reactor_message list"
  msg_cond :: bool
  msg_mutex :: bool
  history :: "reactor_message fifo_event list"

definition queue_OnMessage :: "reactor_message \<Rightarrow> queue_reactor \<Rightarrow> queue_reactor" where
  "queue_OnMessage m s = s\<lparr>msg_queue := msg_queue s @ [m], msg_cond := False, history := history s @ [Accepted m]\<rparr>"

datatype queue_loop = QOff | QTest | QPred | QWait | QParse reactor_message

text \<open>\<open>MessageLoop\<close>; a thread that is not running is started by the main thread.\<close>

definition queue_loop_step :: "bool \<Rightarrow> bool \<Rightarrow> queue_reactor \<Rightarrow> queue_loop \<Rightarrow> (queue_reactor \<times> queue_loop) list" where
  "queue_loop_step sc sp s pc =
     (case pc of
        QOff \<Rightarrow> if reactor_thread s = Started \<and> \<not> msg_mutex s then [(s\<lparr>msg_mutex := True\<rparr>, QTest)] else []
      | QTest \<Rightarrow>
          if event_loop_start s then [(s, QPred)] else [(s\<lparr>msg_mutex := False, reactor_thread := Finished\<rparr>, QOff)]
      | QPred \<Rightarrow>
          (case msg_queue s of
             [] \<Rightarrow> [(s\<lparr>msg_mutex := False, msg_cond := True\<rparr>, QWait)]
           | m # ms \<Rightarrow> [(s\<lparr>msg_queue := ms, history := history s @ [Taken m]\<rparr>, QParse m)])
      | QWait \<Rightarrow> if \<not> msg_mutex s \<and> (sp \<or> \<not> msg_cond s) then [(s\<lparr>msg_mutex := True, msg_cond := False\<rparr>, QPred)] else []
      | QParse m \<Rightarrow> [(queue_ParseMessage sc m s, QTest)])"

section \<open>The main thread\<close>

text \<open>The variables of the loop: \<open>message1.type\<close>, \<open>message2.type\<close> and \<open>msg_ptr\<close>.\<close>

record main_vars =
  count :: nat
  type1 :: "32 word"
  type2 :: "32 word"
  msg_ptr :: reactor_message

definition message1 :: "32 word \<Rightarrow> reactor_message" where
  "message1 t = \<lparr>mtype = t, mdata = [0, 1, 2, 3] @ replicate 252 0\<rparr>"

definition message2 :: "32 word \<Rightarrow> reactor_message" where
  "message2 t = \<lparr>mtype = t, mdata = [1, 1, 2, 3] @ replicate 252 0\<rparr>"

datatype reactor_main =
    MConstruct
  | MRegister nat
  | MFirstMessage
  | MMessage
  | MPrepare
  | MRemove
  | MStop
  | MStart
  | MJoin
  | MRestart
  | MBreak
  | MJoinAtEnd
  | MReturned

definition main_registers :: "(16 word \<times> 32 word \<times> test_handler) list" where
  "main_registers = [(256, READ, TestRead1), (256, OPEN, TestOpen1), (256, WRITE, TestWrite1), (257, READ, TestRead2)]"

text \<open>What the main thread of both programs does between its messages: \<open>startEventHandlerThread\<close> raises the flag, and
  then joins the thread that it thinks has stopped.\<close>

definition main_prepare :: "main_vars \<Rightarrow> main_vars" where
  "main_prepare v =
     (if count v mod 2 = 0
      then v\<lparr>type1 := word_of_nat (count v mod 3), msg_ptr := message1 (word_of_nat (count v mod 3))\<rparr>
      else v\<lparr>type2 := word_of_nat (count v mod 7), msg_ptr := message2 (word_of_nat (count v mod 7))\<rparr>)"

definition after_prepare :: "main_vars \<Rightarrow> reactor_main" where
  "after_prepare v = (if 100 \<le> count v \<and> count v \<le> 200 then MStop else if 200 < count v then MStart else MMessage)"

definition reactor_main_step :: "bool \<Rightarrow> 'a reactor_scheme \<Rightarrow> reactor_main \<Rightarrow> main_vars \<Rightarrow> ('a reactor_scheme \<times> reactor_main) list" where
  "reactor_main_step sc s pc v =
     (case pc of
        MRegister k \<Rightarrow>
          (case main_registers ! k of
             (u, t, f) \<Rightarrow> [(snd (RegisterEventHandler u t f s), if k < 3 then MRegister (k + 1) else MFirstMessage)])
      | MRemove \<Rightarrow> [(snd (RemoveEventHandler (user_id sc (message1 (type1 v))) (type1 v) s), after_prepare v)]
      | MStop \<Rightarrow> [(s\<lparr>event_loop_start := False\<rparr>, MMessage)]
      | MStart \<Rightarrow>
          if event_loop_start s then [(s, if 500 < count v then MBreak else MMessage)]
          else [(s\<lparr>event_loop_start := True\<rparr>, MJoin)]
      | MJoin \<Rightarrow> if reactor_thread s = Finished then [(s, MRestart)] else []
      | MRestart \<Rightarrow> [(s\<lparr>reactor_thread := Started\<rparr>, if 500 < count v then MBreak else MMessage)]
      | MBreak \<Rightarrow> [(s\<lparr>event_loop_start := False\<rparr>, MJoinAtEnd)]
      | MJoinAtEnd \<Rightarrow> if reactor_thread s = Finished then [(s, MReturned)] else []
      | _ \<Rightarrow> [])"

definition queue_main_step :: "bool \<Rightarrow> queue_reactor \<Rightarrow> reactor_main \<Rightarrow> main_vars \<Rightarrow> (queue_reactor \<times> reactor_main \<times> main_vars) list" where
  "queue_main_step sc s pc v =
     (case pc of
        MConstruct \<Rightarrow>
          [((queue_OnMessage (message1 OPEN) s)\<lparr>event_loop_start := True, reactor_thread := Started\<rparr>, MRegister 0, v)]
      | MFirstMessage \<Rightarrow> if msg_mutex s then [] else [(queue_OnMessage (message2 READ) s, MMessage, v\<lparr>msg_ptr := message2 READ\<rparr>)]
      | MMessage \<Rightarrow> if msg_mutex s then [] else [(queue_OnMessage (msg_ptr v) s, MPrepare, v\<lparr>count := count v + 1\<rparr>)]
      | MPrepare \<Rightarrow> (let v' = main_prepare v in [(s, if count v mod 2 = 0 then MRemove else after_prepare v', v')])
      | _ \<Rightarrow> map (\<lambda>(s', pc'). (s', pc', v)) (reactor_main_step sc s pc v))"

datatype reactor_pc = MainThread reactor_main main_vars | ReactorThread queue_loop

definition queue_thread :: "bool \<Rightarrow> bool \<Rightarrow> (queue_reactor, reactor_pc) thread" where
  "queue_thread sc sp t s pc =
     (case pc of
        MainThread m v \<Rightarrow> map (\<lambda>(s', m', v'). (s', MainThread m' v')) (queue_main_step sc s m v)
      | ReactorThread l \<Rightarrow> map (\<lambda>(s', l'). (s', ReactorThread l')) (queue_loop_step sc sp s l))"

definition main_start :: main_vars where
  "main_start = \<lparr>count = 0, type1 = OPEN, type2 = READ, msg_ptr = message1 OPEN\<rparr>"

definition new_queue_reactor :: queue_reactor where
  "new_queue_reactor = reactor.extend new_reactor \<lparr>msg_queue = [], msg_cond = False, msg_mutex = False, history = []\<rparr>"

definition queue_main :: "(queue_reactor, reactor_pc) conf" where
  "queue_main = (new_queue_reactor, [MainThread MConstruct main_start, ReactorThread QOff])"

section \<open>Messages are parsed in order\<close>

lemma parse_keeps [simp]:
  "msg_queue (ParseMessage sc m s) = msg_queue s" "history (ParseMessage sc m s) = history s"
  "msg_mutex (ParseMessage sc m s) = msg_mutex s" "msg_cond (ParseMessage sc m s) = msg_cond s"
  "event_loop_start (ParseMessage sc m s) = event_loop_start s" "reactor_thread (ParseMessage sc m s) = reactor_thread s"
  by (simp_all add: ParseMessage_def RegisterEventHandler_def RemoveEventHandler_def Let_def split: option.splits)

lemma main_keeps:
  "(s', pc') \<in> set (reactor_main_step sc s pc v) \<Longrightarrow> msg_queue s' = msg_queue s \<and> history s' = history s"
  by (cases pc) (auto simp: reactor_main_step_def RegisterEventHandler_def RemoveEventHandler_def split: if_splits prod.splits)

lemma queue_main_change:
  "(s', pc', v') \<in> set (queue_main_step sc s pc v) \<Longrightarrow> fifo_change 0 (msg_queue s) (history s) (msg_queue s') (history s')"
  by (cases pc) (auto simp: queue_main_step_def fifo_change_def queue_OnMessage_def Let_def split: if_splits dest: main_keeps)

lemma queue_loop_change:
  "(s', pc') \<in> set (queue_loop_step sc sp s pc) \<Longrightarrow> fifo_change 0 (msg_queue s) (history s) (msg_queue s') (history s')"
  by (cases pc) (auto simp: queue_loop_step_def fifo_change_def split: if_splits list.splits)

interpretation reactor_fifo: fifo_threads "queue_thread sc sp" queue_main msg_queue history "\<lambda>_. 0" for sc sp
proof
  show "msg_queue (fst queue_main) = [] \<and> history (fst queue_main) = []"
    by (simp add: queue_main_def new_queue_reactor_def reactor.extend_def)
next
  fix s' pc' i s pc assume "(s', pc') \<in> set (queue_thread sc sp i s pc)"
  then show "0 = 0 \<and> fifo_change 0 (msg_queue s) (history s) (msg_queue s') (history s')"
    by (cases pc) (auto simp: queue_thread_def dest: queue_main_change queue_loop_change)
qed

text \<open>
  The messages that have been taken from the queue, and are parsed one after the other, are those that were put in, in
  their order; the others are still in the queue.
\<close>

theorem reactor_takes_in_order:
  "reach (queue_thread sc sp) queue_main (s, ls) \<Longrightarrow> accepted (history s) = taken_out (history s) @ msg_queue s"
  using reactor_fifo.fifo_order by blast

section \<open>The program can hang\<close>

lemma main_move:
  assumes "reach (queue_thread sc sp) c (s, [MainThread m v, l])" and "(s', m', v') \<in> set (queue_main_step sc s m v)"
  shows "reach (queue_thread sc sp) c (s', [MainThread m' v', l])"
proof -
  have "(s', MainThread m' v') \<in> set (queue_thread sc sp 0 s ([MainThread m v, l] ! 0))"
    using assms(2) by (force simp: queue_thread_def)
  from istepI [where ls = "[MainThread m v, l]" and i = 0 and T = "queue_thread sc sp", OF _ this] have "istep (queue_thread sc sp) (s, [MainThread m v, l]) (s', [MainThread m' v', l])" by simp
  with assms(1) show ?thesis by (rule reach_step)
qed

lemma loop_move:
  assumes "reach (queue_thread sc sp) c (s, [m, ReactorThread l])" and "(s', l') \<in> set (queue_loop_step sc sp s l)"
  shows "reach (queue_thread sc sp) c (s', [m, ReactorThread l'])"
proof -
  have "(s', ReactorThread l') \<in> set (queue_thread sc sp 1 s ([m, ReactorThread l] ! 1))"
    using assms(2) by (force simp: queue_thread_def)
  from istepI [where ls = "[m, ReactorThread l]" and i = 1 and T = "queue_thread sc sp", OF _ this] have "istep (queue_thread sc sp) (s, [m, ReactorThread l]) (s', [m, ReactorThread l'])" by simp
  with assms(1) show ?thesis by (rule reach_step)
qed

text \<open>The main thread is at \<open>pc\<close> in its \<open>n\<close>-th round; the reactor thread does not move in the meantime.\<close>

definition main_at :: "bool \<Rightarrow> reactor_main \<Rightarrow> nat \<Rightarrow> bool \<Rightarrow> thread_status \<Rightarrow> bool" where
  "main_at sc pc n b r \<longleftrightarrow> (\<exists>s v. reach (queue_thread sc False) queue_main (s, [MainThread pc v, ReactorThread QOff]) \<and>
     count v = n \<and> \<not> msg_mutex s \<and> event_loop_start s = b \<and> reactor_thread s = r)"

lemma main_atI:
  assumes "main_at sc pc n b r"
    and "\<And>s v. \<not> msg_mutex s \<Longrightarrow> count v = n \<Longrightarrow> event_loop_start s = b \<Longrightarrow> reactor_thread s = r \<Longrightarrow>
      \<exists>s' v'. (s', pc', v') \<in> set (queue_main_step sc s pc v) \<and> \<not> msg_mutex s' \<and> count v' = n' \<and>
        event_loop_start s' = b' \<and> reactor_thread s' = r'"
  shows "main_at sc pc' n' b' r'"
proof -
  from assms(1) obtain s v where r: "reach (queue_thread sc False) queue_main (s, [MainThread pc v, ReactorThread QOff])"
    and s: "\<not> msg_mutex s" "count v = n" "event_loop_start s = b" "reactor_thread s = r" unfolding main_at_def by blast
  from assms(2) [OF s] obtain s' v' where m: "(s', pc', v') \<in> set (queue_main_step sc s pc v)"
    and s': "count v' = n' \<and> \<not> msg_mutex s' \<and> event_loop_start s' = b' \<and> reactor_thread s' = r'" by blast
  from main_move [OF r m] s' show ?thesis unfolding main_at_def by blast
qed

lemma main_begins: "main_at sc MMessage 0 True Started"
proof -
  have "main_at sc MConstruct 0 False NotStarted"
    unfolding main_at_def queue_main_def
    by (intro exI [of _ new_queue_reactor] exI [of _ main_start])
       (simp add: reach_init main_start_def new_queue_reactor_def reactor.extend_def new_reactor_def)
  then have "main_at sc (MRegister 0) 0 True Started"
    by (rule main_atI) (simp add: queue_main_step_def queue_OnMessage_def)
  then have "main_at sc (MRegister 1) 0 True Started"
    by (rule main_atI) (simp add: queue_main_step_def reactor_main_step_def main_registers_def RegisterEventHandler_def)
  then have "main_at sc (MRegister 2) 0 True Started"
    by (rule main_atI) (simp add: queue_main_step_def reactor_main_step_def main_registers_def RegisterEventHandler_def)
  then have "main_at sc (MRegister 3) 0 True Started"
    by (rule main_atI) (simp add: queue_main_step_def reactor_main_step_def main_registers_def RegisterEventHandler_def)
  then have "main_at sc MFirstMessage 0 True Started"
    by (rule main_atI) (simp add: queue_main_step_def reactor_main_step_def main_registers_def RegisterEventHandler_def)
  then show ?thesis
    by (rule main_atI) (simp add: queue_main_step_def queue_OnMessage_def)
qed

definition round_end :: "nat \<Rightarrow> reactor_main" where
  "round_end n = (if 100 \<le> n \<and> n \<le> 200 then MStop else if 200 < n then MStart else MMessage)"

lemma after_prepare_round: "after_prepare v = round_end (count v)" "count (main_prepare v) = count v"
  by (simp_all add: after_prepare_def round_end_def main_prepare_def)

lemma main_round: "main_at sc MMessage n b r \<Longrightarrow> main_at sc (round_end (Suc n)) (Suc n) b r"
proof -
  assume "main_at sc MMessage n b r"
  then have p: "main_at sc MPrepare (Suc n) b r"
    by (rule main_atI) (simp add: queue_main_step_def queue_OnMessage_def)
  show ?thesis
  proof (cases "Suc n mod 2 = 0")
    case True
    from p have "main_at sc MRemove (Suc n) b r"
      by (rule main_atI) (use True in \<open>simp add: queue_main_step_def Let_def after_prepare_round\<close>)
    then show ?thesis
      by (rule main_atI) (simp add: queue_main_step_def reactor_main_step_def RemoveEventHandler_def after_prepare_round)
  next
    case False
    from p show ?thesis
      by (rule main_atI) (use False in \<open>simp add: queue_main_step_def Let_def after_prepare_round\<close>)
  qed
qed

lemma main_first_rounds: "n < 100 \<Longrightarrow> main_at sc MMessage n True Started"
proof (induction n)
  case 0
  show ?case by (rule main_begins)
next
  case (Suc n)
  then show ?case using main_round [of sc n True Started] by (simp add: round_end_def)
qed

lemma main_stopping_rounds:
  "main_at sc MMessage n b r \<Longrightarrow> 100 \<le> Suc n \<Longrightarrow> Suc n + k \<le> 200 \<Longrightarrow> main_at sc MMessage (Suc n + k) False r"
proof (induction k)
  case 0
  then have "main_at sc MStop (Suc n) b r" using main_round [of sc n b r] by (simp add: round_end_def)
  then show ?case by (rule main_atI) (simp add: queue_main_step_def reactor_main_step_def)
next
  case (Suc k)
  then have "main_at sc MStop (Suc n + Suc k) False r"
    using main_round [of sc "Suc n + k" False r] by (simp add: round_end_def)
  then show ?case by (rule main_atI) (simp add: queue_main_step_def reactor_main_step_def)
qed

lemma main_last_rounds:
  "main_at sc MMessage 201 True r \<Longrightarrow> 201 + k \<le> 500 \<Longrightarrow> main_at sc MMessage (201 + k) True r"
proof (induction k)
  case 0
  then show ?case by simp
next
  case (Suc k)
  then have "main_at sc MStart (201 + Suc k) True r"
    using main_round [of sc "201 + k" True r] by (simp add: round_end_def)
  then show ?case by (rule main_atI) (use Suc.prems in \<open>simp add: queue_main_step_def reactor_main_step_def\<close>)
qed

text \<open>The reactor thread, started with the flag up, parses all messages and waits.\<close>

lemma loop_drains:
  "reach (queue_thread sc False) c (s, [m, ReactorThread QPred]) \<Longrightarrow> event_loop_start s \<Longrightarrow>
    \<exists>s'. reach (queue_thread sc False) c (s', [m, ReactorThread QWait]) \<and> msg_queue s' = [] \<and> msg_cond s' \<and> \<not> msg_mutex s' \<and>
      event_loop_start s' \<and> reactor_thread s' = reactor_thread s"
proof (induction "length (msg_queue s)" arbitrary: s)
  case 0
  then have "(s\<lparr>msg_mutex := False, msg_cond := True\<rparr>, QWait) \<in> set (queue_loop_step sc False s QPred)"
    by (simp add: queue_loop_step_def)
  from loop_move [OF "0.prems"(1) this] show ?case
    by (rule_tac x = "s\<lparr>msg_mutex := False, msg_cond := True\<rparr>" in exI) (use 0 in simp)
next
  case (Suc n)
  then obtain x q where q: "msg_queue s = x # q" "length q = n" by (metis length_Suc_conv)
  let ?s1 = "s\<lparr>msg_queue := q, history := history s @ [Taken x]\<rparr>"
  have "(?s1, QParse x) \<in> set (queue_loop_step sc False s QPred)" using q by (simp add: queue_loop_step_def)
  from loop_move [OF Suc.prems(1) this] have "reach (queue_thread sc False) c (?s1, [m, ReactorThread (QParse x)])" .
  then have "reach (queue_thread sc False) c (ParseMessage sc x ?s1, [m, ReactorThread QTest])"
    by (rule loop_move) (simp add: queue_loop_step_def)
  then have "reach (queue_thread sc False) c (ParseMessage sc x ?s1, [m, ReactorThread QPred])"
    by (rule loop_move) (use Suc.prems(2) in \<open>simp add: queue_loop_step_def\<close>)
  from Suc.hyps(1) [OF _ this] q(2) Suc.prems(2) show ?case by simp
qed

lemma loop_starts_and_drains:
  assumes r: "reach (queue_thread sc False) c (s, [m, ReactorThread QOff])" and s: "\<not> msg_mutex s" "event_loop_start s" "reactor_thread s = Started"
  shows "\<exists>s'. reach (queue_thread sc False) c (s', [m, ReactorThread QWait]) \<and> msg_queue s' = [] \<and> msg_cond s' \<and> \<not> msg_mutex s' \<and>
      event_loop_start s' \<and> reactor_thread s' = Started"
proof -
  from r have "reach (queue_thread sc False) c (s\<lparr>msg_mutex := True\<rparr>, [m, ReactorThread QTest])"
    by (rule loop_move) (use s in \<open>simp add: queue_loop_step_def\<close>)
  then have "reach (queue_thread sc False) c (s\<lparr>msg_mutex := True\<rparr>, [m, ReactorThread QPred])"
    by (rule loop_move) (use s in \<open>simp add: queue_loop_step_def\<close>)
  from loop_drains [OF this] s show ?thesis by simp
qed

lemma waiting_for_each_other:
  "msg_cond s \<Longrightarrow> reactor_thread s = Started \<Longrightarrow> m \<in> {MJoin, MJoinAtEnd} \<Longrightarrow>
    stuck (queue_thread sc False) (s, [MainThread m v, ReactorThread QWait])"
  by (auto simp: stuck_iff queue_thread_def queue_main_step_def reactor_main_step_def queue_loop_step_def less_Suc_eq)

text \<open>The thread has not seen that the flag was down before \<open>startEventHandlerThread\<close> raises it again.\<close>

lemma hangs_in_restart:
  "\<exists>s v. reach (queue_thread sc False) queue_main (s, [MainThread MJoin v, ReactorThread QWait]) \<and>
     stuck (queue_thread sc False) (s, [MainThread MJoin v, ReactorThread QWait]) \<and> count v = 201"
proof -
  have "main_at sc MMessage 200 False Started"
    using main_stopping_rounds [OF main_first_rounds [of 99], where k = 100] by simp
  from main_round [OF this] have "main_at sc MStart 201 False Started" by (simp add: round_end_def)
  then have "main_at sc MJoin 201 True Started"
    by (rule main_atI) (simp add: queue_main_step_def reactor_main_step_def)
  then obtain s v where s: "reach (queue_thread sc False) queue_main (s, [MainThread MJoin v, ReactorThread QOff])" "count v = 201"
    "\<not> msg_mutex s" "event_loop_start s" "reactor_thread s = Started"
    unfolding main_at_def by blast
  from loop_starts_and_drains [OF s(1,3,4,5)] s(2) show ?thesis using waiting_for_each_other by blast
qed

text \<open>The thread waits for a message when \<open>stopEventHandlerThread\<close> lowers the flag, and nobody wakes it.\<close>

lemma hangs_at_end:
  "\<exists>s v. reach (queue_thread sc False) queue_main (s, [MainThread MJoinAtEnd v, ReactorThread QWait]) \<and>
     stuck (queue_thread sc False) (s, [MainThread MJoinAtEnd v, ReactorThread QWait]) \<and> count v = 501"
proof -
  have "main_at sc MMessage 150 False Started"
    using main_stopping_rounds [OF main_first_rounds [of 99], where k = 50] by simp
  then obtain s v where s: "reach (queue_thread sc False) queue_main (s, [MainThread MMessage v, ReactorThread QOff])" "count v = 150"
    "\<not> msg_mutex s" "\<not> event_loop_start s" "reactor_thread s = Started"
    unfolding main_at_def by blast
  from s(1) have "reach (queue_thread sc False) queue_main (s\<lparr>msg_mutex := True\<rparr>, [MainThread MMessage v, ReactorThread QTest])"
    by (rule loop_move) (use s in \<open>simp add: queue_loop_step_def\<close>)
  then have "reach (queue_thread sc False) queue_main
      (s\<lparr>msg_mutex := False, reactor_thread := Finished\<rparr>, [MainThread MMessage v, ReactorThread QOff])"
    by (rule loop_move) (use s in \<open>simp add: queue_loop_step_def\<close>)
  then have "main_at sc MMessage 150 False Finished" unfolding main_at_def using s by fastforce
  from main_stopping_rounds [OF this, of 49] have "main_at sc MMessage 200 False Finished" by simp
  from main_round [OF this] have "main_at sc MStart 201 False Finished" by (simp add: round_end_def)
  then have "main_at sc MJoin 201 True Finished"
    by (rule main_atI) (simp add: queue_main_step_def reactor_main_step_def)
  then have "main_at sc MRestart 201 True Finished"
    by (rule main_atI) (simp add: queue_main_step_def reactor_main_step_def)
  then have "main_at sc MMessage 201 True Started"
    by (rule main_atI) (simp add: queue_main_step_def reactor_main_step_def)
  from main_last_rounds [OF this, of 299] have "main_at sc MMessage 500 True Started" by simp
  from main_round [OF this] have "main_at sc MStart 501 True Started" by (simp add: round_end_def)
  then have "main_at sc MBreak 501 True Started"
    by (rule main_atI) (simp add: queue_main_step_def reactor_main_step_def)
  then obtain s v where s: "reach (queue_thread sc False) queue_main (s, [MainThread MBreak v, ReactorThread QOff])" "count v = 501"
    "\<not> msg_mutex s" "event_loop_start s" "reactor_thread s = Started"
    unfolding main_at_def by blast
  from loop_starts_and_drains [OF s(1,3,4,5)] obtain s' where
    r: "reach (queue_thread sc False) queue_main (s', [MainThread MBreak v, ReactorThread QWait])" and s': "msg_cond s'" "reactor_thread s' = Started"
    by blast
  from r have "reach (queue_thread sc False) queue_main (s'\<lparr>event_loop_start := False\<rparr>, [MainThread MJoinAtEnd v, ReactorThread QWait])"
    by (rule main_move) (simp add: queue_main_step_def reactor_main_step_def)
  with waiting_for_each_other [of "s'\<lparr>event_loop_start := False\<rparr>" MJoinAtEnd sc v] s' s(2) show ?thesis by fastforce
qed

text \<open>
  The program can hang in two places: \<open>startEventHandlerThread\<close> raises the flag before it joins the old thread, which
  may not have seen the flag down; and \<open>stopEventHandlerThread\<close> does not wake the thread from its wait. In both cases the main
  thread joins a thread that waits for a message for ever.
\<close>

theorem reactor_program_hangs:
  "(\<exists>s v. reach (queue_thread sc False) queue_main (s, [MainThread MJoin v, ReactorThread QWait]) \<and>
      stuck (queue_thread sc False) (s, [MainThread MJoin v, ReactorThread QWait]) \<and> count v = 201) \<and>
   (\<exists>s v. reach (queue_thread sc False) queue_main (s, [MainThread MJoinAtEnd v, ReactorThread QWait]) \<and>
      stuck (queue_thread sc False) (s, [MainThread MJoinAtEnd v, ReactorThread QWait]) \<and> count v = 501)"
  using hangs_in_restart hangs_at_end by blast

theorem reactor_takes_in_order_witness:
  "\<exists>s v. reach (queue_thread True False) queue_main (s, [MainThread MJoin v, ReactorThread QWait]) \<and>
     accepted (history s) = taken_out (history s) @ msg_queue s"
  using hangs_in_restart reactor_takes_in_order by blast

end
