(* ===== verification/Reactor_Pointer.thy ===== *)
theory Reactor_Pointer
  imports Reactor_Queue
begin

text \<open>
  Reactor/Cpp11/reactor.cpp: a reactor with a single message, a \<open>unique_ptr\<close> that the main thread and the reactor
  thread move from and to without a lock. The messages are on an explicit heap whose addresses are used again, and a move
  is what it is in the code: a load of the pointer and then a store. The main thread is otherwise that of the
  other program. After a fault (the behaviour of the program is undefined from there on) the model makes no step.
\<close>

section \<open>The heap of messages\<close>

datatype message_cell = Freed | Raw | Holds reactor_message

datatype pointer_fault = NullDereference | UseAfterFree | DoubleDelete | UninitialisedRead

text \<open>\<open>offered\<close> and \<open>parsed\<close> record the messages that are given to the reactor and that are parsed.\<close>

record pointer_reactor = reactor +
  msg_heap :: "message_cell list"
  fresh_msg :: "nat option"
  fault :: "pointer_fault option"
  offered :: "nat list"
  parsed :: "reactor_message list"

text \<open>\<open>new\<close> returns any address that is not in use; \<open>delete\<close> of a null pointer does nothing.\<close>

definition new_messages :: "pointer_reactor \<Rightarrow> (pointer_reactor \<times> nat) list" where
  "new_messages s =
     map (\<lambda>a. (s\<lparr>msg_heap := (msg_heap s)[a := Raw]\<rparr>, a)) (filter (\<lambda>a. msg_heap s ! a = Freed) [0..<length (msg_heap s)]) @
     [(s\<lparr>msg_heap := msg_heap s @ [Raw]\<rparr>, length (msg_heap s))]"

definition delete_message :: "nat option \<Rightarrow> pointer_reactor \<Rightarrow> pointer_reactor" where
  "delete_message p s =
     (case p of
        None \<Rightarrow> s
      | Some a \<Rightarrow>
          if msg_heap s ! a = Freed then s\<lparr>fault := Some DoubleDelete\<rparr> else s\<lparr>msg_heap := (msg_heap s)[a := Freed]\<rparr>)"

text \<open>An access through a pointer: the steps that the thread can make with the message, or a fault.\<close>

definition access_message :: "nat option \<Rightarrow> pointer_reactor \<Rightarrow> 'pc \<Rightarrow> (reactor_message \<Rightarrow> pointer_reactor \<times> 'pc) \<Rightarrow> (pointer_reactor \<times> 'pc) list" where
  "access_message p s pc k =
     (case p of
        None \<Rightarrow> [(s\<lparr>fault := Some NullDereference\<rparr>, pc)]
      | Some a \<Rightarrow>
          (case msg_heap s ! a of
             Freed \<Rightarrow> [(s\<lparr>fault := Some UseAfterFree\<rparr>, pc)]
           | Raw \<Rightarrow> [(s\<lparr>fault := Some UninitialisedRead\<rparr>, pc)]
           | Holds m \<Rightarrow> [k m]))"

section \<open>The reactor thread\<close>

text \<open>
  The argument of a place is the pointer that the thread has loaded: for \<open>fresh_msg->type\<close> in \<open>PType\<close>, and for the
  parameter \<open>msg\<close> of \<open>ParseMessage\<close> from \<open>PNull\<close> on. \<open>PDispatch\<close> has the payload that was read for \<open>user_id\<close>.
\<close>

datatype pointer_loop =
    POff
  | PTest
  | PHave
  | PDeref
  | PType "nat option"
  | PMove
  | PNull "nat option"
  | PParse "nat option"
  | PDispatch "nat option" "8 word list"
  | PDelete "nat option"

definition pointer_loop_step :: "bool \<Rightarrow> pointer_reactor \<Rightarrow> pointer_loop \<Rightarrow> (pointer_reactor \<times> pointer_loop) list" where
  "pointer_loop_step sc s pc =
     (case pc of
        POff \<Rightarrow> if reactor_thread s = Started then [(s, PTest)] else []
      | PTest \<Rightarrow> if event_loop_start s then [(s, PHave)] else [(s\<lparr>reactor_thread := Finished\<rparr>, POff)]
      | PHave \<Rightarrow> [(s, if fresh_msg s \<noteq> None then PDeref else PTest)]
      | PDeref \<Rightarrow> [(s, PType (fresh_msg s))]
      | PType p \<Rightarrow> access_message p s pc (\<lambda>m. (s, PMove))
      | PMove \<Rightarrow> [(s, PNull (fresh_msg s))]
      | PNull p \<Rightarrow> [(s\<lparr>fresh_msg := None\<rparr>, PParse p)]
      | PParse p \<Rightarrow> if p = None then [(s, PTest)] else access_message p s pc (\<lambda>m. (s, PDispatch p (mdata m)))
      | PDispatch p d \<Rightarrow>
          access_message p s pc (\<lambda>m. let m' = \<lparr>mtype = mtype m, mdata = d\<rparr> in
            ((ParseMessage sc m' s)\<lparr>parsed := parsed s @ [m']\<rparr>, PDelete p))
      | PDelete p \<Rightarrow> [(delete_message p s, PTest)])"

section \<open>The main thread\<close>

text \<open>\<open>address\<close> is the pointer \<open>msg_ptr\<close>, null once it has been moved from; \<open>msg_ptr\<close> is the message written through it.\<close>

record pointer_vars = main_vars +
  address :: "nat option"

text \<open>
  \<open>PNew\<close>, \<open>PFill\<close>: \<open>msg_ptr.reset(new Message)\<close> and the assignment through it. \<open>PStore old new\<close>, \<open>POld old\<close>: the rest of the move assignment
  in \<open>OnMessage\<close>, whose first step loaded the old pointer. \<open>PDestroy\<close>, \<open>PLast\<close>: the destructors of the reactor's pointer
  and of \<open>msg_ptr\<close>. The second argument is where the thread goes on.
\<close>

datatype pointer_place =
    PMain reactor_main
  | PNew reactor_message reactor_main
  | PFill reactor_message reactor_main
  | PStore "nat option" "nat option" reactor_main
  | POld "nat option" reactor_main
  | PDestroy
  | PLast

definition pointer_OnMessage :: "pointer_reactor \<Rightarrow> pointer_place \<Rightarrow> (pointer_reactor \<times> pointer_place) list" where
  "pointer_OnMessage s pc =
     (case pc of
        PStore old new m \<Rightarrow>
          [(s\<lparr>fresh_msg := new, offered := offered s @ (case new of None \<Rightarrow> [] | Some a \<Rightarrow> [a])\<rparr>, POld old m)]
      | POld old m \<Rightarrow> [(delete_message old s, PMain m)]
      | _ \<Rightarrow> [])"

definition pointer_prepare :: "pointer_vars \<Rightarrow> pointer_vars" where
  "pointer_prepare v =
     (if count v mod 2 = 0
      then v\<lparr>type1 := word_of_nat (count v mod 3), msg_ptr := message1 (word_of_nat (count v mod 3))\<rparr>
      else v\<lparr>type2 := word_of_nat (count v mod 7), msg_ptr := message2 (word_of_nat (count v mod 7))\<rparr>)"

text \<open>The places that both programs have: the second message is made before the fourth registration.\<close>

definition shared_place :: "reactor_main \<Rightarrow> pointer_place" where
  "shared_place pc =
     (case pc of
        MRegister k \<Rightarrow> if k = 3 then PNew (message2 READ) (MRegister 3) else PMain pc
      | MReturned \<Rightarrow> PDestroy
      | _ \<Rightarrow> PMain pc)"

text \<open>No other thread runs before the first step has been made: the constructor of the reactor.\<close>

definition pointer_main_step :: "bool \<Rightarrow> pointer_reactor \<Rightarrow> pointer_place \<Rightarrow> pointer_vars \<Rightarrow>
    (pointer_reactor \<times> pointer_place \<times> pointer_vars) list" where
  "pointer_main_step sc s pc v =
     (case pc of
        PMain MConstruct \<Rightarrow>
          [(s\<lparr>msg_heap := [Holds (message1 OPEN)], fresh_msg := Some 0, offered := [0], event_loop_start := True,
             reactor_thread := Started\<rparr>, PMain (MRegister 0), v)]
      | PNew m next \<Rightarrow> map (\<lambda>(s', a). (s', PFill m next, v\<lparr>address := Some a\<rparr>)) (new_messages s)
      | PFill m next \<Rightarrow>
          (case address v of
             None \<Rightarrow> [(s\<lparr>fault := Some NullDereference\<rparr>, pc, v)]
           | Some a \<Rightarrow>
               if msg_heap s ! a = Freed then [(s\<lparr>fault := Some UseAfterFree\<rparr>, pc, v)]
               else [(s\<lparr>msg_heap := (msg_heap s)[a := Holds m]\<rparr>, PMain next, v)])
      | PMain MFirstMessage \<Rightarrow> [(s, PStore (fresh_msg s) (address v) MMessage, v\<lparr>address := None\<rparr>)]
      | PMain MMessage \<Rightarrow> [(s, PStore (fresh_msg s) (address v) MPrepare, v\<lparr>count := count v + 1, address := None\<rparr>)]
      | PStore _ _ _ \<Rightarrow> map (\<lambda>(s', pc'). (s', pc', v)) (pointer_OnMessage s pc)
      | POld _ _ \<Rightarrow> map (\<lambda>(s', pc'). (s', pc', v)) (pointer_OnMessage s pc)
      | PMain MPrepare \<Rightarrow>
          (let v' = pointer_prepare v
           in [(s, PNew (msg_ptr v') (if count v mod 2 = 0 then MRemove else after_prepare (main_vars.truncate v')), v')])
      | PMain m \<Rightarrow> map (\<lambda>(s', pc'). (s', shared_place pc', v)) (reactor_main_step sc s m (main_vars.truncate v))
      | PDestroy \<Rightarrow> [((delete_message (fresh_msg s) s)\<lparr>fresh_msg := None\<rparr>, PLast, v)]
      | PLast \<Rightarrow> [(delete_message (address v) s, PMain MReturned, v\<lparr>address := None\<rparr>)])"

datatype pointer_pc = PMainThread pointer_place pointer_vars | PReactorThread pointer_loop

definition pointer_thread :: "bool \<Rightarrow> (pointer_reactor, pointer_pc) thread" where
  "pointer_thread sc t s pc =
     (if fault s \<noteq> None then []
      else case pc of
        PMainThread m v \<Rightarrow> map (\<lambda>(s', m', v'). (s', PMainThread m' v')) (pointer_main_step sc s m v)
      | PReactorThread l \<Rightarrow> map (\<lambda>(s', l'). (s', PReactorThread l')) (pointer_loop_step sc s l))"

definition pointer_main :: "(pointer_reactor, pointer_pc) conf" where
  "pointer_main =
     (reactor.extend new_reactor \<lparr>msg_heap = [], fresh_msg = None, fault = None, offered = [], parsed = []\<rparr>,
      [PMainThread (PMain MConstruct) (main_vars.extend main_start \<lparr>address = None\<rparr>), PReactorThread POff])"

section \<open>What the races do\<close>

text \<open>The main thread up to the first \<open>OnMessage\<close>, and the reactor thread up to the use of the pointer that it has tested.\<close>

definition pointer_start :: "(nat \<times> nat) list" where
  "pointer_start = [(0, 0)] @ replicate 3 (1, 0) @ replicate 6 (0, 0)"

definition pointer_runs :: "bool \<Rightarrow> (nat \<times> nat) list \<Rightarrow> (pointer_reactor \<times> pointer_pc list) option" where
  "pointer_runs sc xs = sched (pointer_thread sc) (pointer_start @ xs) pointer_main"

text \<open>The main thread stores the pointer \<open>msg_ptr\<close>, from which it has already moved.\<close>

lemma run_null:
  "map_option (\<lambda>(s, ls). (fault s, offered s, parsed s)) (pointer_runs sc (replicate 5 (0, 0) @ replicate 2 (1, 0))) =
   Some (Some NullDereference, [0, 1], [])"
  by code_simp

text \<open>The main thread deletes the message whose type the reactor thread is about to read.\<close>

lemma run_freed:
  "map_option (\<lambda>(s, ls). (fault s, offered s, parsed s)) (pointer_runs sc ([(1, 0)] @ replicate 3 (0, 0) @ [(1, 0)])) =
   Some (Some UseAfterFree, [0, 1], [])"
  by code_simp

text \<open>Both threads have loaded the pointer to the first message before one of them stores, and both delete it.\<close>

lemma run_double:
  "map_option (\<lambda>(s, ls). (fault s, offered s, map mtype (parsed s)))
     (pointer_runs sc ([(0, 0)] @ replicate 7 (1, 0) @ replicate 2 (0, 0))) = Some (Some DoubleDelete, [0, 1], [OPEN])"
  by (induction sc rule: bool.induct; code_simp)

text \<open>The null pointer that ends the move overwrites the pointer to the second message.\<close>

lemma run_leak:
  "map_option (\<lambda>(s, ls). (fault s, fresh_msg s, msg_heap s, ls))
     (pointer_runs sc (replicate 3 (1, 0) @ replicate 3 (0, 0) @ [(1, 0)])) =
   Some (None, None, [Freed, Holds (message2 READ)],
     [PMainThread (PMain MMessage) (main_vars.extend main_start \<lparr>address = None\<rparr>), PReactorThread (PParse (Some 0))])"
  by code_simp

text \<open>The address of the first message is used again between the two reads of the parser.\<close>

lemma run_mixed:
  "map_option (\<lambda>(s, ls). (fault s, offered s, parsed s = [message1 READ], printed s))
     (pointer_runs sc ([(0, 0)] @ replicate 5 (1, 0) @ replicate 8 (0, 0) @ [(1, 0)])) =
   Some (None, [0, 1], True, [Ran TestRead1])"
  by (induction sc rule: bool.induct; code_simp)

text \<open>
  Claim C35. The accesses to the pointer race, and the program can: dereference a null pointer; read a message
  that the other thread has deleted; delete a message twice; lose the last pointer to a message that has not been parsed; and
  parse a message that nobody made, with the payload of one message and the type of another, and so call the wrong handler.
\<close>

theorem pointer_races:
  "(\<exists>s ls. reach (pointer_thread sc) pointer_main (s, ls) \<and> fault s = Some NullDereference \<and> parsed s = []) \<and>
   (\<exists>s ls. reach (pointer_thread sc) pointer_main (s, ls) \<and> fault s = Some UseAfterFree \<and> parsed s = []) \<and>
   (\<exists>s ls. reach (pointer_thread sc) pointer_main (s, ls) \<and> fault s = Some DoubleDelete) \<and>
   (\<exists>s v. reach (pointer_thread sc) pointer_main (s, [PMainThread (PMain MMessage) v, PReactorThread (PParse (Some 0))]) \<and>
      fault s = None \<and> fresh_msg s = None \<and> address v = None \<and> msg_heap s = [Freed, Holds (message2 READ)]) \<and>
   (\<exists>s ls. reach (pointer_thread sc) pointer_main (s, ls) \<and> fault s = None \<and>
      offered s = [0, 1] \<and> parsed s = [message1 READ] \<and> printed s = [Ran TestRead1])"
proof (intro conjI)
  show "\<exists>s ls. reach (pointer_thread sc) pointer_main (s, ls) \<and> fault s = Some NullDereference \<and> parsed s = []"
    using sched_observe [OF run_null [of sc, unfolded pointer_runs_def]] by auto
  show "\<exists>s ls. reach (pointer_thread sc) pointer_main (s, ls) \<and> fault s = Some UseAfterFree \<and> parsed s = []"
    using sched_observe [OF run_freed [of sc, unfolded pointer_runs_def]] by auto
  show "\<exists>s ls. reach (pointer_thread sc) pointer_main (s, ls) \<and> fault s = Some DoubleDelete"
    using sched_observe [OF run_double [of sc, unfolded pointer_runs_def]] by auto
  show "\<exists>s v. reach (pointer_thread sc) pointer_main (s, [PMainThread (PMain MMessage) v, PReactorThread (PParse (Some 0))]) \<and>
      fault s = None \<and> fresh_msg s = None \<and> address v = None \<and> msg_heap s = [Freed, Holds (message2 READ)]"
    using sched_observe [OF run_leak [of sc, unfolded pointer_runs_def]] by (auto simp: main_vars.extend_def) (metis pointer_vars.select_convs(1))
  show "\<exists>s ls. reach (pointer_thread sc) pointer_main (s, ls) \<and> fault s = None \<and>
      offered s = [0, 1] \<and> parsed s = [message1 READ] \<and> printed s = [Ran TestRead1]"
    using sched_observe [OF run_mixed [of sc, unfolded pointer_runs_def]] by auto
qed

end
