(* ===== verification/Active_Object.thy ===== *)
theory Active_Object
  imports Conc_Prelude "HOL-Library.Multiset" "HOL-Library.Product_Lexorder"
begin

text \<open>
  ActiveObject/activeObject.cpp: clients enqueue tasks, each the test of a number for primality, and keep their
  futures; when all clients are done, the active object runs the tasks in one servant thread, and the main thread gets the
  results from the futures and sorts them. The random numbers are a parameter.
\<close>

section \<open>The task\<close>

definition INT_MAX32 :: int where "INT_MAX32 = 2147483647"

text \<open>\<open>IsPrime\<close>; \<open>None\<close> when \<open>j * j\<close> overflows.\<close>

function prime_loop :: "int \<Rightarrow> int \<Rightarrow> (bool \<times> int) option" where
  "prime_loop i j =
     (if j * j > INT_MAX32 \<or> j < 2 then None
      else if j * j \<le> i then (if i mod j = 0 then Some (False, i) else prime_loop i (j + 1))
      else Some (True, i))"
  by pat_completeness auto

termination
proof (relation "measure (\<lambda>(i, j). nat (INT_MAX32 + 1 - j))")
  fix i j :: int
  assume "\<not> (j * j > INT_MAX32 \<or> j < 2)"
  then have "j \<le> j * j" "j * j \<le> INT_MAX32" by (auto simp: self_le_power)
  then show "((i, j + 1), (i, j)) \<in> measure (\<lambda>(i, j). nat (INT_MAX32 + 1 - j))" by simp
qed simp

declare prime_loop.simps [simp del]

definition isPrime :: "int \<Rightarrow> (bool \<times> int) option" where
  "isPrime i = prime_loop i 2"

definition prime_int :: "int \<Rightarrow> bool" where
  "prime_int i \<longleftrightarrow> 1 < i \<and> (\<forall>d. 1 < d \<and> d < i \<longrightarrow> \<not> d dvd i)"

definition divisor_from :: "int \<Rightarrow> int \<Rightarrow> bool" where
  "divisor_from i j \<longleftrightarrow> (\<exists>d. j \<le> d \<and> d \<le> 46340 \<and> d * d \<le> i \<and> d dvd i)"

lemma divisor_from_here:
  "j \<le> 46340 \<Longrightarrow> j * j \<le> i \<Longrightarrow> divisor_from i j \<longleftrightarrow> j dvd i \<or> divisor_from i (j + 1)"
  unfolding divisor_from_def by (metis add1_zle_eq order.order_iff_strict order.refl zless_add1_eq zle_add1_eq_le)

lemma square_mono: "0 \<le> a \<Longrightarrow> a \<le> b \<Longrightarrow> a * a \<le> b * b" for a b :: int
  by (simp add: mult_mono)

lemma no_divisor_from: "0 \<le> j \<Longrightarrow> i < j * j \<Longrightarrow> \<not> divisor_from i j"
  unfolding divisor_from_def using square_mono by fastforce

lemma prime_loop_result:
  assumes "2 \<le> j" "j \<le> 46340"
  shows "prime_loop i j =
    (if divisor_from i j then Some (False, i) else if i < 46340 * 46340 then Some (True, i) else None)"
  using assms
proof (induction "nat (46340 - j)" arbitrary: j)
  case 0
  then have j: "j = 46340" by simp
  have "prime_loop i 46341 = None" by (subst prime_loop.simps) (simp add: INT_MAX32_def)
  moreover have "\<not> divisor_from i 46341" by (auto simp: divisor_from_def)
  ultimately show ?case
    unfolding j using divisor_from_here [of 46340 i] no_divisor_from [of 46340 i]
    by (subst prime_loop.simps) (auto simp: INT_MAX32_def dvd_eq_mod_eq_0)
next
  case (Suc n)
  have lt: "j < 46340" using Suc.hyps(2) by simp
  have "j * j \<le> 46340 * 46340" using square_mono [of j 46340] Suc.prems by simp
  then have small: "\<not> (j * j > INT_MAX32 \<or> j < 2)" using Suc.prems by (simp add: INT_MAX32_def)
  have IH: "prime_loop i (j + 1) =
      (if divisor_from i (j + 1) then Some (False, i) else if i < 46340 * 46340 then Some (True, i) else None)"
    using Suc.hyps Suc.prems lt by (intro Suc.hyps(1)) auto
  show ?case
  proof (cases "j * j \<le> i")
    case True
    then show ?thesis
      using divisor_from_here [of j i] Suc.prems small IH by (subst prime_loop.simps) (auto simp: dvd_eq_mod_eq_0)
  next
    case False
    then have "i < 46340 * 46340" using \<open>j * j \<le> 46340 * 46340\<close> by simp
    with False show ?thesis
      using no_divisor_from [of j i] Suc.prems small by (subst prime_loop.simps) auto
  qed
qed

lemma prime_by_small_divisors:
  assumes "2 \<le> i" "i < 46340 * 46340"
  shows "divisor_from i 2 \<longleftrightarrow> \<not> prime_int i"
proof
  assume "divisor_from i 2"
  then obtain d where d: "2 \<le> d" "d * d \<le> i" "d dvd i" by (auto simp: divisor_from_def)
  have "d < d * d" using d(1) by simp
  with d(2) have "d < i" by simp
  with d show "\<not> prime_int i" by (auto simp: prime_int_def intro!: exI [of _ d])
next
  assume "\<not> prime_int i"
  then obtain d where d: "1 < d" "d < i" "d dvd i" using assms by (auto simp: prime_int_def)
  then obtain e where e: "i = d * e" by (auto elim: dvdE)
  have "1 < e" using d e assms by (metis less_1_mult linorder_not_less mult.right_neutral mult_le_cancel_left_pos order.strict_trans zero_less_one zless_add1_eq add.commute mult_less_cancel_left_pos)
  show "divisor_from i 2"
  proof (cases "d \<le> e")
    case True
    then have "d * d \<le> i" using d e by (simp add: mult_left_mono)
    moreover have "d \<le> 46340" using \<open>d * d \<le> i\<close> assms(2) square_mono [of 46341 d] by (cases "d \<le> 46340") auto
    ultimately show ?thesis using d unfolding divisor_from_def by (intro exI [of _ d]) auto
  next
    case False
    then have "e * e \<le> i" using \<open>1 < e\<close> e by (simp add: mult_right_mono)
    moreover have "e \<le> 46340" using \<open>e * e \<le> i\<close> assms(2) square_mono [of 46341 e] by (cases "e \<le> 46340") auto
    ultimately show ?thesis using \<open>1 < e\<close> e unfolding divisor_from_def by (intro exI [of _ e]) auto
  qed
qed

text \<open>
  Claim C26. The test is right for the numbers from 2 to 2147395599, which includes those that the program draws. It calls
  0 and 1 primes, and for greater numbers without a divisor up to 46340 the product \<open>j * j\<close> overflows.
\<close>

theorem isPrime_correct:
  "isPrime i =
     (if i < 2 then Some (True, i)
      else if i < 2147395600 then Some (prime_int i, i)
      else if \<exists>d \<in> {2..46340}. d dvd i then Some (False, i) else None)"
proof -
  have r: "isPrime i = (if divisor_from i 2 then Some (False, i) else if i < 2147395600 then Some (True, i) else None)"
    using prime_loop_result [of 2 i] by (simp add: isPrime_def)
  consider "i < 2" | "2 \<le> i" "i < 2147395600" | "2147395600 \<le> i" by linarith
  then show ?thesis
  proof cases
    case 1
    then have "\<not> divisor_from i 2" by (intro no_divisor_from) auto
    with 1 r show ?thesis by simp
  next
    case 2
    with r prime_by_small_divisors [of i] show ?thesis by auto
  next
    case 3
    have "d * d \<le> i" if "2 \<le> d" "d \<le> 46340" for d using square_mono [of d 46340] that 3 by simp
    then have "divisor_from i 2 \<longleftrightarrow> (\<exists>d \<in> {2..46340}. d dvd i)" by (auto simp: divisor_from_def)
    with 3 r show ?thesis by simp
  qed
qed

section \<open>The active object\<close>

text \<open>
  A promise and its future share a state: \<open>results ! k\<close> is that of the \<open>k\<close>-th task that was made. \<open>asked\<close> records the
  numbers. \<open>handed\<close> are the futures by which the clients hand over the list of their futures.
\<close>

record active_object =
  activationList :: "(nat \<times> int) list"
  results :: "(bool \<times> int) option list"
  asked :: "int list"
  handed :: "nat list option list"

definition enqueueTask :: "int \<Rightarrow> active_object \<Rightarrow> nat \<times> active_object" where
  "enqueueTask i s =
     (let k = length (results s)
      in (k, s\<lparr>activationList := activationList s @ [(k, i)], results := results s @ [None], asked := asked s @ [i]\<rparr>))"

definition runNextTask :: "active_object \<Rightarrow> bool \<times> active_object" where
  "runNextTask s =
     (case activationList s of
        [] \<Rightarrow> (True, s)
      | (k, i) # ts \<Rightarrow> (False, s\<lparr>activationList := ts, results := (results s)[k := isPrime i]\<rparr>))"

text \<open>\<open>draw\<close> gives the numbers of the engine; the distribution brings them into its range.\<close>

definition getRandNumbers :: "(nat \<Rightarrow> nat) \<Rightarrow> nat \<Rightarrow> int list" where
  "getRandNumbers draw number = map (\<lambda>k. 1000000 + int (draw k mod 999000001)) [0..<number]"

text \<open>
  A client enqueues its numbers and hands over its futures. The main thread gets the lists of futures, one client after the
  other, runs the tasks until the list is empty (\<open>run\<close> joins its servant), and gets the results.
\<close>

datatype active_pc =
    Client nat "int list" "nat list"
  | ClientDone
  | Gather nat "nat list"
  | RunTasks "nat list"
  | GetResults "nat list" "(bool \<times> int) list"
  | ShowResults "int list" "int list"

text \<open>The results in order, split at the first prime.\<close>

definition split_results :: "(bool \<times> int) list \<Rightarrow> int list \<times> int list" where
  "split_results rs =
     (let futResults = sort rs
      in (map snd (dropWhile (\<lambda>r. \<not> fst r) futResults), map snd (takeWhile (\<lambda>r. \<not> fst r) futResults)))"

definition active_thread :: "nat \<Rightarrow> (active_object, active_pc) thread" where
  "active_thread n t s pc =
     (case pc of
        Client c is futs \<Rightarrow>
          (case is of
             [] \<Rightarrow> [(s\<lparr>handed := (handed s)[c := Some futs]\<rparr>, ClientDone)]
           | i # is' \<Rightarrow> (let (k, s') = enqueueTask i s in [(s', Client c is' (futs @ [k]))]))
      | Gather c futures \<Rightarrow>
          if c < n then (case handed s ! c of None \<Rightarrow> [] | Some futs \<Rightarrow> [(s, Gather (c + 1) (futures @ futs))])
          else [(s, RunTasks futures)]
      | RunTasks futures \<Rightarrow>
          (let (empty, s') = runNextTask s in [(s', if empty then GetResults futures [] else RunTasks futures)])
      | GetResults futures futResults \<Rightarrow>
          (case futures of
             [] \<Rightarrow> [(s, case_prod ShowResults (split_results futResults))]
           | k # ks \<Rightarrow> (case results s ! k of None \<Rightarrow> [] | Some r \<Rightarrow> [(s, GetResults ks (futResults @ [r]))]))
      | _ \<Rightarrow> [])"

definition active_init :: "int list list \<Rightarrow> (active_object, active_pc) conf" where
  "active_init nums =
     (\<lparr>activationList = [], results = [], asked = [], handed = replicate (length nums) None\<rparr>,
      Gather 0 [] # map (\<lambda>c. Client c (nums ! c) []) [0..<length nums])"

text \<open>The program has five clients.\<close>

definition active_main :: "(nat \<Rightarrow> nat \<Rightarrow> nat) \<Rightarrow> (active_object, active_pc) conf" where
  "active_main draw = active_init
     [getRandNumbers (draw 0) 1998, getRandNumbers (draw 1) 2003, getRandNumbers (draw 2) 2011,
      getRandNumbers (draw 3) 2014, getRandNumbers (draw 4) 2017]"

section \<open>The results are those of the numbers\<close>

text \<open>The tasks that have been run are the first of those that were made; the list holds the others.\<close>

definition object_ok :: "active_object \<Rightarrow> bool" where
  "object_ok s \<longleftrightarrow> length (results s) = length (asked s) \<and>
     (\<exists>d \<le> length (asked s). activationList s = map (\<lambda>k. (k, asked s ! k)) [d..<length (asked s)] \<and>
        (\<forall>k < d. results s ! k = isPrime (asked s ! k)))"

definition futures_for :: "active_object \<Rightarrow> nat list \<Rightarrow> int list \<Rightarrow> bool" where
  "futures_for s futs is \<longleftrightarrow> (\<forall>k \<in> set futs. k < length (asked s)) \<and> map (\<lambda>k. asked s ! k) futs = is"

definition client_ok :: "int list list \<Rightarrow> active_object \<Rightarrow> nat \<Rightarrow> active_pc \<Rightarrow> bool" where
  "client_ok nums s c pc \<longleftrightarrow>
     (case pc of
        Client c' is futs \<Rightarrow> c' = c \<and> handed s ! c = None \<and> (\<exists>js. nums ! c = js @ is \<and> futures_for s futs js)
      | ClientDone \<Rightarrow> (\<exists>futs. handed s ! c = Some futs \<and> futures_for s futs (nums ! c))
      | _ \<Rightarrow> False)"

definition all_handed :: "int list list \<Rightarrow> active_object \<Rightarrow> bool" where
  "all_handed nums s \<longleftrightarrow> (\<forall>c < length nums. handed s ! c \<noteq> None)"

definition active_main_ok :: "int list list \<Rightarrow> active_object \<Rightarrow> active_pc \<Rightarrow> bool" where
  "active_main_ok nums s pc \<longleftrightarrow>
     (case pc of
        Gather c futs \<Rightarrow> c \<le> length nums \<and> futures_for s futs (concat (take c nums)) \<and> (\<forall>k < c. handed s ! k \<noteq> None)
      | RunTasks futs \<Rightarrow> futures_for s futs (concat nums) \<and> all_handed nums s
      | GetResults futs rs \<Rightarrow> activationList s = [] \<and> all_handed nums s \<and>
          (\<exists>js is. concat nums = js @ is \<and> futures_for s futs is \<and> map Some rs = map isPrime js)
      | ShowResults ps qs \<Rightarrow> \<exists>rs. map Some rs = map isPrime (concat nums) \<and> (ps, qs) = split_results rs
      | _ \<Rightarrow> False)"

definition active_inv :: "int list list \<Rightarrow> active_object \<Rightarrow> active_pc list \<Rightarrow> bool" where
  "active_inv nums s ls \<longleftrightarrow> length ls = Suc (length nums) \<and> length (handed s) = length nums \<and> object_ok s \<and>
     active_main_ok nums s (ls ! 0) \<and> (\<forall>c < length nums. client_ok nums s c (ls ! Suc c))"

lemma enqueue_ok:
  assumes "object_ok s" and "enqueueTask i s = (k, s')"
  shows "object_ok s' \<and> k = length (asked s) \<and> asked s' = asked s @ [i] \<and> handed s' = handed s"
proof -
  from assms(1) obtain d where d: "d \<le> length (asked s)" "length (results s) = length (asked s)"
    "activationList s = map (\<lambda>k. (k, asked s ! k)) [d..<length (asked s)]" "\<forall>k < d. results s ! k = isPrime (asked s ! k)"
    unfolding object_ok_def by blast
  from assms(2) have s': "s' = s\<lparr>activationList := activationList s @ [(k, i)], results := results s @ [None], asked := asked s @ [i]\<rparr>"
    "k = length (asked s)" using d(2) by (auto simp: enqueueTask_def Let_def)
  have "object_ok s'"
    unfolding object_ok_def by (intro conjI exI [of _ d]) (use d s' in \<open>auto simp: nth_append\<close>)
  with s' show ?thesis by simp
qed

lemma run_next_ok:
  assumes "object_ok s" and "runNextTask s = (e, s')"
  shows "object_ok s' \<and> asked s' = asked s \<and> handed s' = handed s \<and> (e \<longleftrightarrow> activationList s = []) \<and>
    length (activationList s') = length (activationList s) - 1"
proof -
  from assms(1) obtain d where d: "d \<le> length (asked s)" "length (results s) = length (asked s)"
    "activationList s = map (\<lambda>k. (k, asked s ! k)) [d..<length (asked s)]" "\<forall>k < d. results s ! k = isPrime (asked s ! k)"
    unfolding object_ok_def by blast
  show ?thesis
  proof (cases "d = length (asked s)")
    case True
    with d assms show ?thesis by (simp add: runNextTask_def)
  next
    case False
    then have l: "activationList s = (d, asked s ! d) # map (\<lambda>k. (k, asked s ! k)) [Suc d..<length (asked s)]"
      using d(1,3) by (simp add: upt_conv_Cons)
    then have s': "s' = s\<lparr>activationList := map (\<lambda>k. (k, asked s ! k)) [Suc d..<length (asked s)],
        results := (results s)[d := isPrime (asked s ! d)]\<rparr>" "\<not> e"
      using assms(2) by (auto simp: runNextTask_def)
    have "object_ok s'"
      unfolding object_ok_def
      by (intro conjI exI [of _ "Suc d"]) (use d s' False in \<open>auto simp: nth_list_update less_Suc_eq\<close>)
    with s' l show ?thesis by simp
  qed
qed

lemma all_run: "object_ok s \<Longrightarrow> activationList s = [] \<Longrightarrow> k < length (asked s) \<Longrightarrow> results s ! k = isPrime (asked s ! k)"
  by (auto simp: object_ok_def)

lemma futures_grow: "asked s' = asked s @ is' \<Longrightarrow> futures_for s futs is \<Longrightarrow> futures_for s' futs is"
  by (auto simp: futures_for_def nth_append)

lemma futures_append:
  "futures_for s futs is \<Longrightarrow> futures_for s futs' is' \<Longrightarrow> futures_for s (futs @ futs') (is @ is')"
  by (auto simp: futures_for_def)

text \<open>What a step does to the parts that the other threads depend on.\<close>

lemma client_frame:
  "client_ok nums s c pc \<Longrightarrow> asked s' = asked s @ is \<Longrightarrow> handed s' ! c = handed s ! c \<Longrightarrow> client_ok nums s' c pc"
  by (auto simp: client_ok_def futures_grow split: active_pc.splits)

lemma main_frame:
  assumes "active_main_ok nums s pc" "asked s' = asked s @ is"
    and "\<forall>c < length nums. handed s ! c \<noteq> None \<longrightarrow> handed s' ! c \<noteq> None"
    and "activationList s' = activationList s \<or> \<not> all_handed nums s"
  shows "active_main_ok nums s' pc"
  using assms by (cases pc) (fastforce simp: active_main_ok_def all_handed_def intro: futures_grow)+

fun active_work :: "nat \<Rightarrow> nat \<Rightarrow> active_pc \<Rightarrow> nat" where
  "active_work n m (Client c is futs) = 2 * length is + 1"
| "active_work n m ClientDone = 0"
| "active_work n m (Gather c futs) = (n - c) + m + 4"
| "active_work n m (RunTasks futs) = m + 3"
| "active_work n m (GetResults futs rs) = length futs + 1"
| "active_work n m (ShowResults ps qs) = 0"

lemma client_step:
  assumes I: "active_inv nums s ls" and c: "c < length nums"
    and st: "(s', pc') \<in> set (active_thread n (Suc c) s (ls ! Suc c))"
  shows "active_inv nums s' (ls[Suc c := pc']) \<and>
    active_work n m pc' + length (activationList s') < active_work n m (ls ! Suc c) + length (activationList s)"
proof -
  have ok: "client_ok nums s c (ls ! Suc c)" "object_ok s" "active_main_ok nums s (ls ! 0)" "length (handed s) = length nums"
    using I c by (auto simp: active_inv_def)
  from ok(1) obtain "is" futs where pc: "ls ! Suc c = Client c is futs" and hc: "handed s ! c = None"
    and js: "\<exists>js. nums ! c = js @ is \<and> futures_for s futs js"
    using st by (auto simp: client_ok_def active_thread_def split: active_pc.splits)
  have frame: "active_inv nums s' (ls[Suc c := pc'])"
    if o: "object_ok s'" and a: "asked s' = asked s @ new" and l: "length (handed s') = length nums"
      and h: "\<forall>k < length nums. k \<noteq> c \<longrightarrow> handed s' ! k = handed s ! k" and cl: "client_ok nums s' c pc'" for new
  proof -
    have "active_main_ok nums s' (ls ! 0)"
      by (rule main_frame [OF ok(3) a]) (use h hc c in \<open>auto simp: all_handed_def\<close>)
    moreover have "client_ok nums s' k (ls[Suc c := pc'] ! Suc k)" if k: "k < length nums" for k
    proof (cases "k = c")
      case True
      with cl I c show ?thesis by (simp add: active_inv_def)
    next
      case False
      have "client_ok nums s k (ls ! Suc k)" using I k by (simp add: active_inv_def)
      from client_frame [OF this a] h False k show ?thesis by simp
    qed
    ultimately show ?thesis using I o l by (simp add: active_inv_def)
  qed
  show ?thesis
  proof (cases "is")
    case Nil
    with st pc have s': "s' = s\<lparr>handed := (handed s)[c := Some futs]\<rparr>" "pc' = ClientDone" by (auto simp: active_thread_def)
    have "client_ok nums s' c pc'"
      using js Nil s' c ok(4) by (simp add: client_ok_def futures_for_def)
    moreover have "object_ok s'" using ok(2) s' by (simp add: object_ok_def)
    ultimately have "active_inv nums s' (ls[Suc c := pc'])" using s' ok(4) by (intro frame [of "[]"]) auto
    with s' pc Nil show ?thesis by simp
  next
    case (Cons i is')
    obtain k s1 where e: "enqueueTask i s = (k, s1)" by (cases "enqueueTask i s")
    with st pc Cons have s': "s' = s1" "pc' = Client c is' (futs @ [k])" by (auto simp: active_thread_def)
    from enqueue_ok [OF ok(2) e] have k: "object_ok s1" "k = length (asked s)" "asked s1 = asked s @ [i]" "handed s1 = handed s"
      by auto
    from js Cons obtain js where js: "nums ! c = (js @ [i]) @ is'" "futures_for s futs js" by auto
    have "futures_for s1 (futs @ [k]) (js @ [i])"
      by (intro futures_append futures_grow [OF k(3) js(2)]) (use k in \<open>simp add: futures_for_def\<close>)
    with js(1) hc k have "client_ok nums s' c pc'" unfolding s' client_ok_def by auto
    with k s' ok(4) have "active_inv nums s' (ls[Suc c := pc'])" by (intro frame [of "[i]"]) auto
    moreover have "length (activationList s1) = Suc (length (activationList s))"
      using e by (auto simp: enqueueTask_def Let_def)
    ultimately show ?thesis using s' pc Cons by simp
  qed
qed

text \<open>The main thread: it gathers the futures of the clients, runs the tasks and shows the results.\<close>

lemma gather_ok:
  assumes main: "active_main_ok nums s (Gather c futs)"
    and clients: "\<And>c. c < length nums \<Longrightarrow> client_ok nums s c (ls ! Suc c)"
    and st: "(s', pc') \<in> set (active_thread (length nums) 0 s (Gather c futs))"
  shows "s' = s \<and> active_main_ok nums s pc' \<and> active_work (length nums) m pc' < active_work (length nums) m (Gather c futs)"
proof (cases "c < length nums")
  case True
  with st obtain futs' where h: "handed s ! c = Some futs'" "s' = s" "pc' = Gather (c + 1) (futs @ futs')"
    by (cases "handed s ! c") (auto simp: active_thread_def)
  from clients [OF True] h(1) have "futures_for s futs' (nums ! c)"
    by (auto simp: client_ok_def split: active_pc.splits)
  with main True have "futures_for s (futs @ futs') (concat (take (Suc c) nums))"
    by (auto simp: active_main_ok_def take_Suc_conv_app_nth intro: futures_append)
  with main True h have "active_main_ok nums s pc'" by (auto simp: active_main_ok_def less_Suc_eq)
  with h True show ?thesis by simp
next
  case False
  with st have s': "s' = s" "pc' = RunTasks futs" by (auto simp: active_thread_def)
  with main False have "active_main_ok nums s pc'" by (auto simp: active_main_ok_def all_handed_def)
  with s' show ?thesis by simp
qed

lemma get_results_ok:
  assumes ok: "object_ok s" and main: "active_main_ok nums s (GetResults futs rs)"
    and st: "(s', pc') \<in> set (active_thread (length nums) 0 s (GetResults futs rs))"
  shows "s' = s \<and> active_main_ok nums s pc' \<and> active_work (length nums) m pc' < active_work (length nums) m (GetResults futs rs)"
proof -
  from main obtain js "is" where m: "activationList s = []" "all_handed nums s" "concat nums = js @ is"
    "futures_for s futs is" "map Some rs = map isPrime js" by (auto simp: active_main_ok_def)
  show ?thesis
  proof (cases futs)
    case Nil
    with st have s': "s' = s" "pc' = case_prod ShowResults (split_results rs)" by (auto simp: active_thread_def)
    obtain ps qs where sp: "split_results rs = (ps, qs)" by (cases "split_results rs")
    have "active_main_ok nums s pc'"
      using m Nil s' sp by (auto simp: active_main_ok_def futures_for_def intro!: exI [of _ rs])
    with s' sp show ?thesis by simp
  next
    case (Cons k ks)
    with st obtain r where r: "results s ! k = Some r" "s' = s" "pc' = GetResults ks (rs @ [r])"
      by (cases "results s ! k") (auto simp: active_thread_def)
    from m(4) Cons obtain i is' where i: "is = i # is'" "k < length (asked s)" "asked s ! k = i" "futures_for s ks is'"
      by (auto simp: futures_for_def)
    from all_run [OF ok m(1) i(2)] r(1) i(3) have "isPrime i = Some r" by simp
    then have "map Some (rs @ [r]) = map isPrime (js @ [i])" using m(5) by simp
    moreover have "concat nums = (js @ [i]) @ is'" using m(3) i(1) by simp
    ultimately have "active_main_ok nums s pc'"
      unfolding r active_main_ok_def using m(1,2) i(4) by (simp only: active_pc.case) blast
    with r Cons show ?thesis by simp
  qed
qed

lemma active_main_step:
  assumes I: "active_inv nums s ls" and st: "(s', pc') \<in> set (active_thread (length nums) 0 s (ls ! 0))"
  shows "active_inv nums s' (ls[0 := pc']) \<and> active_work (length nums) (length (concat nums)) pc' + length (activationList s') <
    active_work (length nums) (length (concat nums)) (ls ! 0) + length (activationList s)"
proof -
  have ok: "object_ok s" "active_main_ok nums s (ls ! 0)" "length (handed s) = length nums" "length ls = Suc (length nums)"
    and clients: "\<And>c. c < length nums \<Longrightarrow> client_ok nums s c (ls ! Suc c)"
    using I by (auto simp: active_inv_def)
  have frame: "active_inv nums s' (ls[0 := pc'])"
    if "object_ok s'" "asked s' = asked s" "handed s' = handed s" "active_main_ok nums s' pc'"
  proof -
    have "client_ok nums s' c (ls ! Suc c)" if "c < length nums" for c
      using client_frame [OF clients [OF that], of s' "[]"] \<open>asked s' = asked s\<close> \<open>handed s' = handed s\<close> by simp
    with that ok show ?thesis by (simp add: active_inv_def)
  qed
  show ?thesis
  proof (cases "ls ! 0")
    case (Gather c futs)
    from gather_ok [OF ok(2) [unfolded Gather] clients st [unfolded Gather]] frame ok(1) Gather show ?thesis by simp
  next
    case (RunTasks futs)
    obtain e s1 where r: "runNextTask s = (e, s1)" by (cases "runNextTask s")
    with RunTasks st have s': "s' = s1" "pc' = (if e then GetResults futs [] else RunTasks futs)" by (auto simp: active_thread_def)
    note k = run_next_ok [OF ok(1) r]
    have main: "futures_for s futs (concat nums)" "all_handed nums s" using ok(2) RunTasks by (auto simp: active_main_ok_def)
    have "futures_for s1 futs (concat nums)" "all_handed nums s1" using main k by (auto simp: futures_for_def all_handed_def)
    moreover have "e \<Longrightarrow> activationList s1 = []" using k by (metis length_0_conv list.size(3) zero_diff)
    ultimately have "active_main_ok nums s' pc'" unfolding s' active_main_ok_def by auto
    with frame k s' have "active_inv nums s' (ls[0 := pc'])" by blast
    moreover have "length futs = length (concat nums)" using main(1) unfolding futures_for_def by (metis length_map)
    ultimately show ?thesis using k s' RunTasks by auto
  next
    case (GetResults futs rs)
    from get_results_ok [OF ok(1) ok(2) [unfolded GetResults] st [unfolded GetResults]] frame ok(1) GetResults show ?thesis by simp
  qed (use st ok(2) in \<open>auto simp: active_thread_def active_main_ok_def\<close>)
qed

interpretation active: thread_term "active_thread (length nums)" "active_init nums" "active_inv nums"
  "\<lambda>s ls. workload (active_work (length nums) (length (concat nums))) ls + length (activationList s)" for nums
proof
  show "active_inv nums (fst (active_init nums)) (snd (active_init nums))"
    by (auto simp: active_inv_def active_init_def object_ok_def active_main_ok_def client_ok_def futures_for_def)
next
  fix s ls i s' l'
  assume I: "active_inv nums s ls" and i: "i < length ls" and st: "(s', l') \<in> set (active_thread (length nums) i s (ls ! i))"
  let ?w = "active_work (length nums) (length (concat nums))"
  have "active_inv nums s' (ls[i := l']) \<and> ?w l' + length (activationList s') < ?w (ls ! i) + length (activationList s)"
  proof (cases i)
    case 0
    with active_main_step [OF I] st show ?thesis by simp
  next
    case (Suc c)
    with I i have "c < length nums" by (simp add: active_inv_def)
    from client_step [OF I this, of s' l' "length nums" "length (concat nums)"] st Suc show ?thesis by simp
  qed
  then show "active_inv nums s' (ls[i := l'])"
    and "workload ?w (ls[i := l']) + length (activationList s') < workload ?w ls + length (activationList s)"
    using workload_less [OF i] by blast+
qed

lemma active_stuck:
  assumes I: "active_inv nums s ls" and st: "stuck (active_thread (length nums)) (s, ls)"
    and small: "\<forall>i \<in> set (concat nums). isPrime i \<noteq> None"
  shows "\<exists>rs. map Some rs = map isPrime (concat nums) \<and> ls ! 0 = case_prod ShowResults (split_results rs)"
proof -
  have blocked: "active_thread (length nums) i s (ls ! i) = []" if "i \<le> length nums" for i
    using st I that by (simp add: stuck_iff active_inv_def)
  have gave: "handed s ! c \<noteq> None" if "c < length nums" for c
  proof -
    have "client_ok nums s c (ls ! Suc c)" using I that by (simp add: active_inv_def)
    with blocked [of "Suc c"] that show ?thesis
      by (auto simp: client_ok_def active_thread_def Let_def split: active_pc.splits list.splits prod.splits)
  qed
  have m: "active_main_ok nums s (ls ! 0)" "object_ok s" using I by (auto simp: active_inv_def)
  note step0 = blocked [of 0, simplified]
  show ?thesis
  proof (cases "ls ! 0")
    case (Gather c futs)
    with step0 gave [of c] show ?thesis by (cases "handed s ! c") (auto simp: active_thread_def split: if_splits)
  next
    case (RunTasks futs)
    with step0 show ?thesis by (auto simp: active_thread_def split: prod.splits)
  next
    case (GetResults futs rs)
    with m(1) obtain js "is" where g: "activationList s = []" "concat nums = js @ is" "futures_for s futs is"
      by (auto simp: active_main_ok_def)
    from step0 GetResults obtain k ks where k: "futs = k # ks" "results s ! k = None"
      by (auto simp: active_thread_def split: list.splits option.splits)
    with g(3) have "k < length (asked s)" "asked s ! k \<in> set is" by (auto simp: futures_for_def)
    with all_run [OF m(2) g(1)] k(2) small g(2) show ?thesis by auto
  next
    case (ShowResults ps qs)
    with m(1) obtain rs where "map Some rs = map isPrime (concat nums)" "split_results rs = (ps, qs)"
      by (auto simp: active_main_ok_def)
    with ShowResults show ?thesis by (intro exI [of _ rs]) simp
  qed (use m(1) in \<open>simp_all add: active_main_ok_def\<close>)
qed

text \<open>The two halves of the sorted results.\<close>

lemma dropWhile_sorted_bool:
  "sorted (map fst xs) \<Longrightarrow> dropWhile (\<lambda>r. \<not> fst r) xs = filter fst xs \<and> takeWhile (\<lambda>r. \<not> fst r) xs = filter (\<lambda>r. \<not> fst r) xs"
  for xs :: "(bool \<times> 'a) list"
proof (induction xs)
  case Nil
  show ?case by simp
next
  case (Cons x xs)
  show ?case
  proof (cases "fst x")
    case True
    with Cons.prems have "\<forall>y \<in> set xs. fst y" by auto
    then have "filter fst xs = xs" "filter (\<lambda>r. \<not> fst r) xs = []" by (simp_all add: filter_id_conv filter_empty_conv)
    with True show ?thesis by simp
  next
    case False
    with Cons show ?thesis by simp
  qed
qed

lemma sorted_pairs_fst: "sorted xs \<Longrightarrow> sorted (map fst xs)" for xs :: "('a :: linorder \<times> 'b :: linorder) list"
  by (induction xs) (auto simp: less_eq_prod_def)

lemma sorted_filter_snd:
  "sorted xs \<Longrightarrow> sorted (map snd (filter (\<lambda>r. fst r = b) xs))" for xs :: "('a :: linorder \<times> 'b :: linorder) list"
  by (induction xs) (auto simp: less_eq_prod_def)

lemma split_results_ok:
  assumes "split_results rs = (ps, qs)"
  shows "sorted ps \<and> mset ps = image_mset snd (filter_mset fst (mset rs)) \<and>
    sorted qs \<and> mset qs = image_mset snd (filter_mset (\<lambda>r. \<not> fst r) (mset rs))"
proof -
  have "sorted (map fst (sort rs))" by (rule sorted_pairs_fst) simp
  with assms have "ps = map snd (filter fst (sort rs))" "qs = map snd (filter (\<lambda>r. \<not> fst r) (sort rs))"
    by (auto simp: split_results_def Let_def dropWhile_sorted_bool)
  moreover have "sorted (map snd (filter fst (sort rs)))" "sorted (map snd (filter (\<lambda>r. \<not> fst r) (sort rs)))"
    using sorted_filter_snd [of "sort rs" True] sorted_filter_snd [of "sort rs" False] by simp_all
  moreover have "mset (map snd (filter fst (sort rs))) = image_mset snd (filter_mset fst (mset rs))"
    "mset (map snd (filter (\<lambda>r. \<not> fst r) (sort rs))) = image_mset snd (filter_mset (\<lambda>r. \<not> fst r) (mset rs))"
    by simp_all
  ultimately show ?thesis by simp
qed

definition shows_primes :: "int list \<Rightarrow> active_pc \<Rightarrow> bool" where
  "shows_primes is pc \<longleftrightarrow>
     (case pc of
        ShowResults ps qs \<Rightarrow> sorted ps \<and> mset ps = mset (filter prime_int is) \<and>
          sorted qs \<and> mset qs = mset (filter (\<lambda>i. \<not> prime_int i) is)
      | _ \<Rightarrow> False)"

lemma shows_primesI:
  assumes range: "\<forall>i \<in> set is. 2 \<le> i \<and> i < 2147395600" and rs: "map Some rs = map isPrime is"
  shows "shows_primes is (case_prod ShowResults (split_results rs))"
proof -
  have "map Some rs = map Some (map (\<lambda>i. (prime_int i, i)) is)"
    unfolding rs map_map using range isPrime_correct by (intro map_cong) auto
  then have r: "rs = map (\<lambda>i. (prime_int i, i)) is" by (metis inj_Some inj_map_eq_map)
  have "image_mset snd (filter_mset fst (mset rs)) = mset (filter prime_int is)"
    "image_mset snd (filter_mset (\<lambda>r. \<not> fst r) (mset rs)) = mset (filter (\<lambda>i. \<not> prime_int i) is)"
    unfolding r by (induction "is") auto
  moreover obtain ps qs where "split_results rs = (ps, qs)" by (cases "split_results rs")
  ultimately show ?thesis using split_results_ok by (fastforce simp: shows_primes_def)
qed

lemma active_result:
  assumes "\<forall>i \<in> set (concat nums). 2 \<le> i \<and> i < 2147395600"
  shows "always_ends (active_thread (length nums)) (active_init nums) (\<lambda>s ls. shows_primes (concat nums) (ls ! 0))"
proof (rule active.always_endsI)
  fix s ls assume I: "active_inv nums s ls" and st: "stuck (active_thread (length nums)) (s, ls)"
  have "\<forall>i \<in> set (concat nums). isPrime i \<noteq> None" using assms isPrime_correct by auto
  from active_stuck [OF I st this] shows_primesI [OF assms] show "shows_primes (concat nums) (ls ! 0)" by metis
qed

lemma random_range: "i \<in> set (getRandNumbers draw n) \<Longrightarrow> 2 \<le> i \<and> i < 2147395600"
proof -
  assume "i \<in> set (getRandNumbers draw n)"
  then obtain k where "i = 1000000 + int (draw k mod 999000001)" by (auto simp: getRandNumbers_def)
  moreover have "draw k mod 999000001 < 999000001" by simp
  ultimately show ?thesis by linarith
qed

text \<open>
  Claim C16. The program ends, without a deadlock, whatever the interleaving and the random numbers: every task is run and every
  future gets its result, and what is shown are the primes among the numbers of the five clients, sorted, and the others,
  sorted.
\<close>

theorem active_object_result:
  "always_ends (active_thread 5) (active_main draw)
     (\<lambda>s ls. shows_primes (getRandNumbers (draw 0) 1998 @ getRandNumbers (draw 1) 2003 @ getRandNumbers (draw 2) 2011 @
        getRandNumbers (draw 3) 2014 @ getRandNumbers (draw 4) 2017) (ls ! 0))"
proof -
  let ?nums = "[getRandNumbers (draw 0) 1998, getRandNumbers (draw 1) 2003, getRandNumbers (draw 2) 2011,
      getRandNumbers (draw 3) 2014, getRandNumbers (draw 4) 2017]"
  have "\<forall>i \<in> set (concat ?nums). 2 \<le> i \<and> i < 2147395600" using random_range by auto
  moreover have "length ?nums = 5" by simp
  ultimately show ?thesis using active_result [of ?nums] unfolding active_main_def
    by (simp only: concat.simps append.simps append_Nil2)
qed

end
