(* ===== verification/Lock_Guards.thy ===== *)
theory Lock_Guards
  imports Conc_Prelude "HOL-Library.Multiset"
begin

text \<open>
  The programs about guards: ScopedLocking/scopedLock.cpp and StrategizedLocking. A guard locks in its constructor
  and unlocks in its destructor, which runs when its block is left, by an exception too.
\<close>

section \<open>Blocks with guards\<close>

text \<open>
  A block is a list of statements. \<open>Guard l\<close> declares a guard on \<open>l\<close>, which lives to the end of the block; \<open>Try\<close> catches an
  exception and prints the line of its handler.
\<close>

datatype ('l, 'x) stmt =
    Say 'x
  | Guard 'l
  | Block "('l, 'x) stmt list"
  | Throw
  | Try "('l, 'x) stmt list" 'x

text \<open>
  A lock has two member functions. Executing a block gives whether an exception leaves it, and the state; \<open>None\<close> when
  a lock cannot be taken or given back, which is a deadlock or undefined.
\<close>

record ('l, 'x, 's) lockable =
  lock_op :: "'l \<Rightarrow> 's \<Rightarrow> 's option"
  unlock_op :: "'l \<Rightarrow> 's \<Rightarrow> 's option"
  say_op :: "'x \<Rightarrow> 's \<Rightarrow> 's"

fun exec_block :: "('l, 'x, 's) lockable \<Rightarrow> ('l, 'x) stmt list \<Rightarrow> 's \<Rightarrow> (bool \<times> 's) option" where
  "exec_block L [] s = Some (False, s)"
| "exec_block L (Say x # r) s = exec_block L r (say_op L x s)"
| "exec_block L (Guard l # r) s =
     (case lock_op L l s of None \<Rightarrow> None
      | Some s1 \<Rightarrow>
          (case exec_block L r s1 of None \<Rightarrow> None
           | Some (thrown, s2) \<Rightarrow> map_option (Pair thrown) (unlock_op L l s2)))"
| "exec_block L (Block b # r) s =
     (case exec_block L b s of None \<Rightarrow> None
      | Some (thrown, s1) \<Rightarrow> if thrown then Some (True, s1) else exec_block L r s1)"
| "exec_block L (Throw # r) s = Some (True, s)"
| "exec_block L (Try b h # r) s =
     (case exec_block L b s of None \<Rightarrow> None
      | Some (thrown, s1) \<Rightarrow> exec_block L r (if thrown then say_op L h s1 else s1))"

text \<open>
  What guards need of a lock: \<open>held\<close> is what is locked; locking adds to it, and what has been added can be taken away
  again. This is what is behind the concept \<open>BasicLockable\<close>.
\<close>

locale basic_lockable =
  fixes L :: "('l, 'x, 's) lockable"
    and held :: "'s \<Rightarrow> 'h multiset"
    and takes :: "'l \<Rightarrow> 'h multiset"
  assumes locks: "lock_op L l s = Some s' \<Longrightarrow> held s' = held s + takes l"
    and unlocks: "takes l \<subseteq># held s \<Longrightarrow> \<exists>s'. unlock_op L l s = Some s' \<and> held s' = held s - takes l"
    and says: "held (say_op L x s) = held s"
begin

text \<open>A block gives back all that it takes, whether it is left by an exception or not.\<close>

lemma block_balanced: "exec_block M b s = Some (thrown, s') \<Longrightarrow> M = L \<Longrightarrow> held s' = held s"
proof (induction M b s arbitrary: thrown s' rule: exec_block.induct)
  case (3 M l r s)
  from "3.prems" obtain s1 s2 where s1: "lock_op L l s = Some s1" and s2: "exec_block L r s1 = Some (thrown, s2)"
    and u: "unlock_op L l s2 = Some s'"
    by (auto split: option.splits prod.splits)
  from "3.IH" s1 s2 "3.prems"(2) have "held s2 = held s + takes l" using locks [OF s1] by simp
  with unlocks [of l s2] u show ?case by simp
next
  case (4 M b r s)
  from "4.prems" obtain t s1 where s1: "exec_block L b s = Some (t, s1)"
    and r: "if t then thrown \<and> s' = s1 else exec_block L r s1 = Some (thrown, s')"
    by (auto split: option.splits prod.splits if_splits)
  from "4.IH"(1) [of t s1] s1 "4.prems"(2) have "held s1 = held s" by simp
  with "4.IH"(2) [of "(t, s1)" t s1 thrown s'] s1 r "4.prems"(2) show ?case by (cases t) auto
next
  case (6 M b h r s)
  from "6.prems" obtain t s1 where s1: "exec_block L b s = Some (t, s1)"
    and r: "exec_block L r (if t then say_op L h s1 else s1) = Some (thrown, s')"
    by (auto split: option.splits prod.splits)
  from "6.IH"(1) [of t s1] s1 "6.prems"(2) have "held s1 = held s" by simp
  with "6.IH"(2) [of "(t, s1)" t s1 thrown s'] s1 r "6.prems"(2) says show ?case by (cases t) auto
qed (auto simp: says)

end

section \<open>ScopedLocking\<close>

text \<open>The constructor locks and prints, the destructor prints and unlocks.\<close>

datatype scoped_line = LockTheMutex nat | ReleaseTheMutex nat | BeforeLocalScope | AfterLocalScope | BeforeTry | BadAlloc | AfterTry

record scoped_state =
  mutexes :: "nat multiset"
  scoped_lines :: "scoped_line list"

definition scoped_say :: "scoped_line \<Rightarrow> scoped_state \<Rightarrow> scoped_state" where
  "scoped_say x s = s\<lparr>scoped_lines := scoped_lines s @ [x]\<rparr>"

definition ScopedLock :: "(nat, scoped_line, scoped_state) lockable" where
  "ScopedLock =
     \<lparr>lock_op = (\<lambda>m s. if m \<in># mutexes s then None else Some (scoped_say (LockTheMutex m) (s\<lparr>mutexes := add_mset m (mutexes s)\<rparr>))),
      unlock_op = (\<lambda>m s. let s = scoped_say (ReleaseTheMutex m) s in
        if m \<in># mutexes s then Some (s\<lparr>mutexes := mutexes s - {#m#}\<rparr>) else None),
      say_op = scoped_say\<rparr>"

definition scoped_main :: "(nat, scoped_line) stmt list" where
  "scoped_main =
     [Guard 1,
      Say BeforeLocalScope,
      Block [Guard 2],
      Say AfterLocalScope,
      Say BeforeTry,
      Try [Guard 3, Throw] BadAlloc,
      Say AfterTry]"

interpretation scoped: basic_lockable ScopedLock mutexes "\<lambda>m. {#m#}"
  by unfold_locales (auto simp: ScopedLock_def scoped_say_def Let_def split: if_splits)

text \<open>
  Claim C37. Whatever a block does, and whether it is left by an exception or not, the mutexes that are locked after it are those
  that were locked before it.
\<close>

theorem scoped_lock_releases:
  "exec_block ScopedLock b s = Some (thrown, s') \<Longrightarrow> mutexes s' = mutexes s"
  using scoped.block_balanced by blast

lemma scoped_output:
  "exec_block ScopedLock scoped_main \<lparr>mutexes = {#}, scoped_lines = []\<rparr> = Some (False, \<lparr>mutexes = {#}, scoped_lines =
     [LockTheMutex 1, BeforeLocalScope, LockTheMutex 2, ReleaseTheMutex 2, AfterLocalScope, BeforeTry, LockTheMutex 3,
      ReleaseTheMutex 3, BadAlloc, AfterTry, ReleaseTheMutex 1]\<rparr>)"
  by (simp add: scoped_main_def ScopedLock_def scoped_say_def)

theorem scoped_lock_releases_witness:
  "exec_block ScopedLock [Guard 3, Throw] \<lparr>mutexes = {#1#}, scoped_lines = []\<rparr> =
     Some (True, \<lparr>mutexes = {#1#}, scoped_lines = [LockTheMutex 3, ReleaseTheMutex 3]\<rparr>) \<and>
   mutexes \<lparr>mutexes = {#1 :: nat#}, scoped_lines = [LockTheMutex 3, ReleaseTheMutex 3]\<rparr> =
     mutexes \<lparr>mutexes = {#1 :: nat#}, scoped_lines = []\<rparr>"
proof -
  have "exec_block ScopedLock [Guard 3, Throw] \<lparr>mutexes = {#1#}, scoped_lines = []\<rparr> =
     Some (True, \<lparr>mutexes = {#1#}, scoped_lines = [LockTheMutex 3, ReleaseTheMutex 3]\<rparr>)"
    by (simp add: ScopedLock_def scoped_say_def)
  with scoped_lock_releases [OF this] show ?thesis by blast
qed

section \<open>StrategizedLocking\<close>

text \<open>
  The strategies, as virtual functions in Runtime and as template arguments in Concepts. \<open>null_calls\<close> are the calls of the
  null object mutex, true for \<open>lock\<close>; they do nothing.
\<close>

datatype strategy = NoLock | ExclusiveLock | SharedLock

datatype strategy_line = LockLine strategy | UnlockLine strategy

record strategy_state =
  exclusive :: bool
  shared_by :: nat
  null_calls :: "bool list"
  strategy_lines :: "strategy_line list"

definition strategy_say :: "strategy_line \<Rightarrow> strategy_state \<Rightarrow> strategy_state" where
  "strategy_say x s = s\<lparr>strategy_lines := strategy_lines s @ [x]\<rparr>"

definition strategy_lock :: "strategy \<Rightarrow> strategy_state \<Rightarrow> strategy_state option" where
  "strategy_lock l s =
     (let s = strategy_say (LockLine l) s in
      case l of
        NoLock \<Rightarrow> Some (s\<lparr>null_calls := null_calls s @ [True]\<rparr>)
      | ExclusiveLock \<Rightarrow> if exclusive s then None else Some (s\<lparr>exclusive := True\<rparr>)
      | SharedLock \<Rightarrow> Some (s\<lparr>shared_by := shared_by s + 1\<rparr>))"

definition runtime_unlock :: "strategy \<Rightarrow> strategy_state \<Rightarrow> strategy_state option" where
  "runtime_unlock l s =
     (let s = strategy_say (UnlockLine l) s in
      case l of
        NoLock \<Rightarrow> Some (s\<lparr>null_calls := null_calls s @ [False]\<rparr>)
      | ExclusiveLock \<Rightarrow> if exclusive s then Some (s\<lparr>exclusive := False\<rparr>) else None
      | SharedLock \<Rightarrow> if shared_by s = 0 then None else Some (s\<lparr>shared_by := shared_by s - 1\<rparr>))"

text \<open>In Concepts \<open>NoLock::unlock\<close> calls \<open>lock\<close> of its mutex.\<close>

definition concepts_unlock :: "strategy \<Rightarrow> strategy_state \<Rightarrow> strategy_state option" where
  "concepts_unlock l s =
     (let s = strategy_say (UnlockLine l) s in
      case l of
        NoLock \<Rightarrow> Some (s\<lparr>null_calls := null_calls s @ [True]\<rparr>)
      | ExclusiveLock \<Rightarrow> if exclusive s then Some (s\<lparr>exclusive := False\<rparr>) else None
      | SharedLock \<Rightarrow> if shared_by s = 0 then None else Some (s\<lparr>shared_by := shared_by s - 1\<rparr>))"

definition RuntimeLocking :: "(strategy, strategy_line, strategy_state) lockable" where
  "RuntimeLocking = \<lparr>lock_op = strategy_lock, unlock_op = runtime_unlock, say_op = strategy_say\<rparr>"

definition ConceptsLocking :: "(strategy, strategy_line, strategy_state) lockable" where
  "ConceptsLocking = \<lparr>lock_op = strategy_lock, unlock_op = concepts_unlock, say_op = strategy_say\<rparr>"

definition strategy_main :: "(strategy, strategy_line) stmt list" where
  "strategy_main = [Guard NoLock, Block [Guard ExclusiveLock, Block [Guard SharedLock]]]"

definition strategy_init :: strategy_state where
  "strategy_init = \<lparr>exclusive = False, shared_by = 0, null_calls = [], strategy_lines = []\<rparr>"

definition strategy_held :: "strategy_state \<Rightarrow> strategy multiset" where
  "strategy_held s = (if exclusive s then {#ExclusiveLock#} else {#}) + replicate_mset (shared_by s) SharedLock"

definition strategy_takes :: "strategy \<Rightarrow> strategy multiset" where
  "strategy_takes l = (if l = NoLock then {#} else {#l#})"

lemma strategy_taken: "{#l#} \<subseteq># strategy_held s \<longleftrightarrow>
    (case l of NoLock \<Rightarrow> False | ExclusiveLock \<Rightarrow> exclusive s | SharedLock \<Rightarrow> 0 < shared_by s)"
  by (auto simp: strategy_held_def single_subset_iff split: strategy.splits)

lemma strategy_lock_held: "strategy_lock l s = Some s' \<Longrightarrow> strategy_held s' = strategy_held s + strategy_takes l"
  by (cases l) (auto simp: strategy_lock_def strategy_say_def strategy_held_def strategy_takes_def Let_def split: if_splits)

lemma runtime_unlock_held:
  assumes "strategy_takes l \<subseteq># strategy_held s"
  shows "\<exists>s'. runtime_unlock l s = Some s' \<and> strategy_held s' = strategy_held s - strategy_takes l"
proof (cases l)
  case NoLock
  then show ?thesis by (simp add: runtime_unlock_def strategy_say_def strategy_held_def strategy_takes_def Let_def)
next
  case ExclusiveLock
  with assms have "exclusive s" using strategy_taken [of l s] by (simp add: strategy_takes_def)
  with ExclusiveLock show ?thesis
    by (simp add: runtime_unlock_def strategy_say_def strategy_held_def strategy_takes_def Let_def)
next
  case SharedLock
  with assms obtain n where "shared_by s = Suc n" using strategy_taken [of l s] by (auto simp: strategy_takes_def gr0_conv_Suc)
  with SharedLock show ?thesis
    by (simp add: runtime_unlock_def strategy_say_def strategy_held_def strategy_takes_def Let_def)
qed

lemma concepts_unlock_runtime:
  "concepts_unlock l s = map_option (\<lambda>s'. if l = NoLock then s'\<lparr>null_calls := null_calls s @ [True]\<rparr> else s') (runtime_unlock l s)"
  by (cases l) (auto simp: concepts_unlock_def runtime_unlock_def strategy_say_def Let_def)

interpretation runtime: basic_lockable RuntimeLocking strategy_held strategy_takes
  by unfold_locales (simp_all add: RuntimeLocking_def strategy_lock_held runtime_unlock_held,
      simp add: strategy_say_def strategy_held_def)

interpretation concepts: basic_lockable ConceptsLocking strategy_held strategy_takes
proof
  fix l s assume "strategy_takes l \<subseteq># strategy_held s"
  from runtime_unlock_held [OF this]
  obtain s' where s': "runtime_unlock l s = Some s'" "strategy_held s' = strategy_held s - strategy_takes l" by blast
  have "strategy_held (s'\<lparr>null_calls := c\<rparr>) = strategy_held s'" for c by (simp add: strategy_held_def)
  with s' show "\<exists>s'. unlock_op ConceptsLocking l s = Some s' \<and> strategy_held s' = strategy_held s - strategy_takes l"
    by (simp add: ConceptsLocking_def concepts_unlock_runtime)
qed (simp_all add: ConceptsLocking_def strategy_lock_held, simp add: strategy_say_def strategy_held_def)

text \<open>
  With both ways to choose a strategy, a block gives back the locks that its guards take, whether it is left by an
  exception or not; and the two programs print the same lines and end with all locks free. They differ in what they call
  on the mutex of \<open>NoLock\<close>: with concepts it is locked when it should be unlocked, which does nothing.
\<close>

theorem strategies_balanced:
  "list_all (\<lambda>M. case exec_block M b s of None \<Rightarrow> True | Some (thrown, s') \<Rightarrow> strategy_held s' = strategy_held s)
     [RuntimeLocking, ConceptsLocking] \<and>
   map_option (\<lambda>(thrown, s'). (thrown, exclusive s', shared_by s', null_calls s')) (exec_block RuntimeLocking strategy_main strategy_init) =
     Some (False, False, 0, [True, False]) \<and>
   map_option (\<lambda>(thrown, s'). (thrown, exclusive s', shared_by s', null_calls s')) (exec_block ConceptsLocking strategy_main strategy_init) =
     Some (False, False, 0, [True, True]) \<and>
   map_option (strategy_lines \<circ> snd) (exec_block RuntimeLocking strategy_main strategy_init) =
     map_option (strategy_lines \<circ> snd) (exec_block ConceptsLocking strategy_main strategy_init)"
proof -
  have "case exec_block RuntimeLocking b s of None \<Rightarrow> True | Some (thrown, s') \<Rightarrow> strategy_held s' = strategy_held s"
    using runtime.block_balanced by (auto split: option.splits)
  moreover have "case exec_block ConceptsLocking b s of None \<Rightarrow> True | Some (thrown, s') \<Rightarrow> strategy_held s' = strategy_held s"
    using concepts.block_balanced by (auto split: option.splits)
  ultimately show ?thesis
    by (simp add: strategy_main_def strategy_init_def RuntimeLocking_def ConceptsLocking_def strategy_lock_def runtime_unlock_def
        concepts_unlock_def strategy_say_def)
qed

end
