(* ===== verification/Safe_Interface.thy ===== *)
theory Safe_Interface
  imports Conc_Prelude "HOL-Library.Multiset"
begin

text \<open>
  ThreadSafeInterface/threadSafeInterface.cpp: the interface functions of \<open>Critical\<close> lock its mutex, which is not
  recursive, and call implementation functions, which do not. Objects are numbered; the model is for any threads and
  any sharing of objects, the program is an instance.
\<close>

section \<open>The class\<close>

datatype interface = Interface1 | Interface2

datatype implementation = Implementation1 | Implementation2 | Implementation3

definition interface_body :: "interface \<Rightarrow> implementation list" where
  "interface_body f =
     (case f of
        Interface1 \<Rightarrow> [Implementation1]
      | Interface2 \<Rightarrow> [Implementation2, Implementation3, Implementation1])"

text \<open>Of each object: whether its mutex is locked, the lines printed for it, and (for the proofs) the calls that have begun.\<close>

record critical =
  mut :: bool
  object_lines :: "implementation list"
  begun :: "interface list"

datatype interface_pc = Outside "(nat \<times> interface) list" | Inside nat "implementation list" "(nat \<times> interface) list"

definition interface_thread :: "(critical list, interface_pc) thread" where
  "interface_thread t os pc =
     (case pc of
        Outside calls \<Rightarrow>
          (case calls of
             [] \<Rightarrow> []
           | (k, f) # cs \<Rightarrow>
               let ob = os ! k in
               if mut ob then []
               else [(os[k := ob\<lparr>mut := True, begun := begun ob @ [f]\<rparr>], Inside k (interface_body f) cs)])
      | Inside k is cs \<Rightarrow>
          (let ob = os ! k in
           case is of
             [] \<Rightarrow> [(os[k := ob\<lparr>mut := False\<rparr>], Outside cs)]
           | i # is' \<Rightarrow> [(os[k := ob\<lparr>object_lines := object_lines ob @ [i]\<rparr>], Inside k is' cs)]))"

definition interface_init :: "nat \<Rightarrow> (nat \<times> interface) list list \<Rightarrow> (critical list, interface_pc) conf" where
  "interface_init n calls = (replicate n \<lparr>mut = False, object_lines = [], begun = []\<rparr>, map Outside calls)"

text \<open>Two threads and the main thread, each with an object of its own.\<close>

definition interface_main :: "(critical list, interface_pc) conf" where
  "interface_main = interface_init 3
     [[(0, Interface1)], [(1, Interface2), (1, Interface1)], [(2, Interface1), (2, Interface2)]]"

section \<open>Calls do not interleave\<close>

text \<open>The lines that are still to come from the thread that is inside the object \<open>k\<close>.\<close>

fun rest_of :: "nat \<Rightarrow> interface_pc \<Rightarrow> implementation list" where
  "rest_of k (Outside cs) = []"
| "rest_of k (Inside j is cs) = (if j = k then is else [])"

fun in_object :: "nat \<Rightarrow> interface_pc \<Rightarrow> bool" where
  "in_object k (Outside cs) = False"
| "in_object k (Inside j is cs) = (j = k)"

fun calls_left :: "interface_pc \<Rightarrow> (nat \<times> interface) list" where
  "calls_left (Outside cs) = cs"
| "calls_left (Inside k is cs) = cs"

definition calls_of :: "nat \<Rightarrow> (nat \<times> interface) list \<Rightarrow> interface multiset" where
  "calls_of k cs = mset (map snd (filter (\<lambda>c. fst c = k) cs))"

lemma calls_of_simps [simp]:
  "calls_of k [] = {#}" "calls_of k ((j, f) # cs) = (if j = k then {#f#} else {#}) + calls_of k cs"
  by (simp_all add: calls_of_def)

definition object_ok :: "critical list \<Rightarrow> interface_pc list \<Rightarrow> nat \<Rightarrow> bool" where
  "object_ok os ls k \<longleftrightarrow> cnt (in_object k) ls = of_bool (mut (os ! k)) \<and>
     (if mut (os ! k) then \<forall>t < length ls. in_object k (ls ! t) \<longrightarrow>
        object_lines (os ! k) @ rest_of k (ls ! t) = concat (map interface_body (begun (os ! k)))
      else object_lines (os ! k) = concat (map interface_body (begun (os ! k))))"

definition interface_inv :: "nat \<Rightarrow> critical list \<Rightarrow> interface_pc list \<Rightarrow> bool" where
  "interface_inv n os ls \<longleftrightarrow> length os = n \<and> (\<forall>k < n. object_ok os ls k) \<and>
     (\<forall>t < length ls. (\<forall>c \<in> set (calls_left (ls ! t)). fst c < n) \<and> (\<forall>k. in_object k (ls ! t) \<longrightarrow> k < n))"

text \<open>A step enters an object, prints a line of it, or leaves it.\<close>

definition enters :: "nat \<Rightarrow> critical \<Rightarrow> interface_pc \<Rightarrow> critical \<Rightarrow> interface_pc \<Rightarrow> bool" where
  "enters k ob pc ob' pc' \<longleftrightarrow> \<not> mut ob \<and> mut ob' \<and> in_object k pc' \<and> object_lines ob' = object_lines ob \<and>
     (\<exists>f cs. pc = Outside ((k, f) # cs) \<and> calls_left pc' = cs \<and> begun ob' = begun ob @ [f] \<and> rest_of k pc' = interface_body f)"

definition prints :: "nat \<Rightarrow> critical \<Rightarrow> interface_pc \<Rightarrow> critical \<Rightarrow> interface_pc \<Rightarrow> bool" where
  "prints k ob pc ob' pc' \<longleftrightarrow> in_object k pc \<and> in_object k pc' \<and> calls_left pc' = calls_left pc \<and>
     begun ob' = begun ob \<and> mut ob' = mut ob \<and> object_lines ob' @ rest_of k pc' = object_lines ob @ rest_of k pc"

definition leaves :: "nat \<Rightarrow> critical \<Rightarrow> interface_pc \<Rightarrow> critical \<Rightarrow> interface_pc \<Rightarrow> bool" where
  "leaves k ob pc ob' pc' \<longleftrightarrow> in_object k pc \<and> rest_of k pc = [] \<and> pc' = Outside (calls_left pc) \<and>
     begun ob' = begun ob \<and> \<not> mut ob' \<and> object_lines ob' = object_lines ob"

fun interface_work :: "interface_pc \<Rightarrow> nat" where
  "interface_work (Outside cs) = 6 * length cs"
| "interface_work (Inside k is cs) = 6 * length cs + length is + 1"

lemma interface_step_cases:
  assumes "(os', pc') \<in> set (interface_thread t os pc)"
  obtains k ob' where "os' = os[k := ob']" "\<forall>j. j \<noteq> k \<longrightarrow> \<not> in_object j pc \<and> \<not> in_object j pc'"
    "interface_work pc' < interface_work pc" "k \<in> fst ` set (calls_left pc) \<or> in_object k pc"
    "enters k (os ! k) pc ob' pc' \<or> prints k (os ! k) pc ob' pc' \<or> leaves k (os ! k) pc ob' pc'"
proof (cases pc)
  case (Outside cs)
  then obtain k f cs' where cs: "cs = (k, f) # cs'" using assms by (auto simp: interface_thread_def split: list.splits)
  with Outside assms show ?thesis
    by (intro that [of k "(os ! k)\<lparr>mut := True, begun := begun (os ! k) @ [f]\<rparr>"])
       (auto simp: interface_thread_def Let_def enters_def interface_body_def split: if_splits interface.splits)
next
  case (Inside k "is" cs)
  show ?thesis
  proof (cases "is")
    case Nil
    with Inside assms show ?thesis
      by (intro that [of k "(os ! k)\<lparr>mut := False\<rparr>"]) (auto simp: interface_thread_def Let_def leaves_def)
  next
    case (Cons i is')
    with Inside assms show ?thesis
      by (intro that [of k "(os ! k)\<lparr>object_lines := object_lines (os ! k) @ [i]\<rparr>"])
         (auto simp: interface_thread_def Let_def prints_def)
  qed
qed

lemma in_object_upd:
  "t < length ls \<Longrightarrow> cnt (in_object k) (ls[t := pc']) = cnt (in_object k) ls - of_bool (in_object k (ls ! t)) + of_bool (in_object k pc')"
  by (rule cnt_upd)

lemma object_ok_other:
  assumes "object_ok os ls j" "j \<noteq> k" "t < length ls" "\<not> in_object j (ls ! t)" "\<not> in_object j pc'"
  shows "object_ok (os[k := ob']) (ls[t := pc']) j"
  using assms by (auto simp: object_ok_def in_object_upd nth_list_update)

lemma object_ok_this:
  assumes ok: "object_ok os ls k" and t: "t < length ls" and k: "k < length os"
    and st: "enters k (os ! k) (ls ! t) ob' pc' \<or> prints k (os ! k) (ls ! t) ob' pc' \<or> leaves k (os ! k) (ls ! t) ob' pc'"
  shows "object_ok (os[k := ob']) (ls[t := pc']) k"
proof -
  have c: "cnt (in_object k) ls = of_bool (mut (os ! k))" using ok by (simp add: object_ok_def)
  have alone: "\<not> in_object k (ls ! u)" if "in_object k (ls ! t)" "u < length ls" "u \<noteq> t" for u
    using that c cnt_le_one_unique [of "in_object k" ls t u] t by (cases "mut (os ! k)") auto
  have held: "mut (os ! k)" if "in_object k (ls ! t)"
    using that c cnt_pos [OF t, of "in_object k"] by (cases "mut (os ! k)") auto
  have nobody: "\<not> in_object k (ls ! u)" if "\<not> mut (os ! k)" "u < length ls" for u
    using that c by (simp add: cnt_zero_iff)
  from st show ?thesis
  proof (elim disjE)
    assume e: "enters k (os ! k) (ls ! t) ob' pc'"
    then show ?thesis using ok c t k nobody
      by (auto simp: object_ok_def enters_def in_object_upd nth_list_update)
  next
    assume p: "prints k (os ! k) (ls ! t) ob' pc'"
    then have "mut (os ! k)" using held by (simp add: prints_def)
    with p show ?thesis using ok c t k alone
      by (auto simp: object_ok_def prints_def in_object_upd nth_list_update)
  next
    assume l: "leaves k (os ! k) (ls ! t) ob' pc'"
    then have m: "mut (os ! k)" using held by (simp add: leaves_def)
    then have "object_lines (os ! k) @ rest_of k (ls ! t) = concat (map interface_body (begun (os ! k)))"
      using ok t l unfolding object_ok_def leaves_def by auto
    moreover have "rest_of k (ls ! t) = []" using l by (simp add: leaves_def)
    ultimately have "object_lines (os ! k) = concat (map interface_body (begun (os ! k)))" by simp
    with l m show ?thesis using c t k by (simp add: object_ok_def leaves_def in_object_upd)
  qed
qed

lemma interface_inv_step:
  assumes I: "interface_inv n os ls" and t: "t < length ls" and st: "(os', pc') \<in> set (interface_thread t os (ls ! t))"
  shows "interface_inv n os' (ls[t := pc']) \<and> interface_work pc' < interface_work (ls ! t)"
  using st
proof (cases rule: interface_step_cases)
  case (1 k ob')
  have k: "k < n" using 1(4) I t by (auto simp: interface_inv_def)
  have "object_ok os' (ls[t := pc']) j" if "j < n" for j
  proof (cases "j = k")
    case True
    with 1 I k t object_ok_this [of os ls k t ob' pc'] show ?thesis by (simp add: interface_inv_def)
  next
    case False
    with 1 I that t object_ok_other [of os ls j k t pc' ob'] show ?thesis by (simp add: interface_inv_def)
  qed
  moreover have "(\<forall>c \<in> set (calls_left pc'). fst c < n) \<and> (\<forall>j. in_object j pc' \<longrightarrow> j < n)"
  proof -
    have "set (calls_left pc') \<subseteq> set (calls_left (ls ! t))"
      using 1(5) by (auto simp: enters_def prints_def leaves_def)
    moreover have "in_object j pc' \<longrightarrow> j < n" for j using 1(2) k by (cases "j = k") auto
    ultimately show ?thesis using I t unfolding interface_inv_def by blast
  qed
  ultimately show ?thesis using I 1(1,3) t by (auto simp: interface_inv_def nth_list_update)
qed

definition calls_below :: "nat \<Rightarrow> (nat \<times> interface) list list \<Rightarrow> (nat \<times> interface) list list" where
  "calls_below n calls = map (filter (\<lambda>c. fst c < n)) calls"

interpretation interfaces: thread_term interface_thread "interface_init n (calls_below n calls)" "interface_inv n"
  "\<lambda>_. workload interface_work" for n calls
proof
  show "interface_inv n (fst (interface_init n (calls_below n calls))) (snd (interface_init n (calls_below n calls)))"
    by (auto simp: interface_inv_def interface_init_def object_ok_def calls_below_def cnt_zero_iff)
next
  fix os ls t os' l'
  assume I: "interface_inv n os ls" and t: "t < length ls" and st: "(os', l') \<in> set (interface_thread t os (ls ! t))"
  from interface_inv_step [OF this] show "interface_inv n os' (ls[t := l'])" by simp
  from interface_inv_step [OF I t st] workload_upd [OF t, of interface_work l']
  show "workload interface_work (ls[t := l']) < workload interface_work ls" by simp
qed

text \<open>A call is made, or begun.\<close>

interpretation begins: team_sum interface_thread "interface_init n (calls_below n calls)" "interface_inv n"
  "\<lambda>pc. calls_of k (calls_left pc)" "\<lambda>os. mset (begun (os ! k))" for n calls k
proof
  fix os ls t os' l'
  assume I: "interface_inv n os ls" and t: "t < length ls" and st: "(os', l') \<in> set (interface_thread t os (ls ! t))"
  from st show "calls_of k (calls_left l') + mset (begun (os' ! k)) = calls_of k (calls_left (ls ! t)) + mset (begun (os ! k))"
  proof (cases rule: interface_step_cases)
    case (1 j ob')
    have "j < length os" using 1(4) I t by (auto simp: interface_inv_def)
    with 1(1,5) show ?thesis
      by (cases "j = k") (auto simp: enters_def prints_def leaves_def)
  qed
qed

lemma interface_stuck:
  assumes I: "interface_inv n os ls" and st: "stuck interface_thread (os, ls)"
  shows "\<forall>pc \<in> set ls. pc = Outside []"
proof -
  have blocked: "interface_thread t os (ls ! t) = []" if "t < length ls" for t using st that by (simp add: stuck_iff)
  have outside: "\<exists>cs. ls ! t = Outside cs" if "t < length ls" for t
    using blocked [OF that] by (cases "ls ! t") (auto simp: interface_thread_def Let_def split: list.splits)
  have "ls ! t = Outside []" if t: "t < length ls" for t
  proof (rule ccontr)
    assume ne: "ls ! t \<noteq> Outside []"
    obtain cs where "ls ! t = Outside cs" using outside [OF t] by blast
    with ne obtain k f cs' where l: "ls ! t = Outside ((k, f) # cs')" by (cases cs) auto
    have "k < n" using I t l by (force simp: interface_inv_def)
    moreover have "mut (os ! k)" using blocked [OF t] l by (auto simp: interface_thread_def Let_def split: if_splits)
    ultimately have "cnt (in_object k) ls = 1" using I by (simp add: interface_inv_def object_ok_def)
    then obtain u where "u < length ls" "in_object k (ls ! u)" using cnt_zero_iff [of "in_object k" ls] by auto
    with outside show False by fastforce
  qed
  then show ?thesis by (metis in_set_conv_nth)
qed

lemma calls_of_concat: "sum_list (map (\<lambda>cs. calls_of k cs) calls) = calls_of k (concat calls)"
  by (induction calls) (auto simp: calls_of_def)

text \<open>
  Claim C36. Whatever threads call the interface of whatever objects, no thread is blocked for ever, every call is made once, and
  the lines of an object are those of whole calls, one after the other.
\<close>

theorem interface_calls_are_atomic:
  "\<forall>c \<in> set (concat calls). fst c < n \<Longrightarrow>
     always_ends interface_thread (interface_init n calls)
       (\<lambda>os ls. \<forall>k < n. object_lines (os ! k) = concat (map interface_body (begun (os ! k))) \<and>
          mset (begun (os ! k)) = calls_of k (concat calls))"
proof -
  assume "\<forall>c \<in> set (concat calls). fst c < n"
  then have same: "calls_below n calls = calls" by (auto simp: calls_below_def intro!: map_idI filter_True)
  have "always_ends interface_thread (interface_init n (calls_below n calls))
       (\<lambda>os ls. \<forall>k < n. object_lines (os ! k) = concat (map interface_body (begun (os ! k))) \<and>
          mset (begun (os ! k)) = calls_of k (concat (calls_below n calls)))"
  proof (rule interfaces.always_endsI, intro allI impI)
    fix os ls k
    assume r: "reach interface_thread (interface_init n (calls_below n calls)) (os, ls)" and I: "interface_inv n os ls"
      and st: "stuck interface_thread (os, ls)" and k: "k < n"
    note out = interface_stuck [OF I st]
    have "\<not> in_object k (ls ! i)" if "i < length ls" for i
    proof -
      have "ls ! i = Outside []" using out nth_mem [OF that] by blast
      then show ?thesis by simp
    qed
    then have "cnt (in_object k) ls = 0" by (simp add: cnt_zero_iff)
    with I k have "object_lines (os ! k) = concat (map interface_body (begun (os ! k)))"
      by (auto simp: interface_inv_def object_ok_def split: if_splits)
    moreover have "\<forall>pc \<in> set ls. calls_of k (calls_left pc) = 0" using out by auto
    from begins.collected [OF r this] have "mset (begun (os ! k)) = calls_of k (concat (calls_below n calls))"
      using k by (simp add: interface_init_def comp_def calls_of_concat)
    ultimately show "object_lines (os ! k) = concat (map interface_body (begun (os ! k))) \<and>
        mset (begun (os ! k)) = calls_of k (concat (calls_below n calls))" by blast
  qed
  then show ?thesis by (simp only: same)
qed

theorem interface_calls_are_atomic_witness:
  "always_ends interface_thread interface_main
     (\<lambda>os ls. \<forall>k < 3. object_lines (os ! k) = concat (map interface_body (begun (os ! k))) \<and>
        mset (begun (os ! k)) = calls_of k
          [(0, Interface1), (1, Interface2), (1, Interface1), (2, Interface1), (2, Interface2)])"
  using interface_calls_are_atomic [of "[[(0, Interface1)], [(1, Interface2), (1, Interface1)], [(2, Interface1), (2, Interface2)]]" 3]
  by (simp add: interface_main_def)

end
