(* ===== verification/Thread_Programs.thy ===== *)
theory Thread_Programs
  imports Conc_Prelude "HOL-Library.Multiset"
begin

text \<open>
  Four small programs: ThreadSpecificStorage/threadLocalSummation.cpp, CopiedValue/copiedValueDataRace.cpp,
  GuardedSuspension/bossWorker.cpp and Future/future.cpp.
\<close>

section \<open>ThreadSpecificStorage\<close>

definition tls_size :: nat where "tls_size = 100000000"
definition fir :: nat where "fir = 25000000"
definition sec :: nat where "sec = 50000000"
definition thi :: nat where "thi = 75000000"
definition fou :: nat where "fou = 100000000"

text \<open>\<open>draw\<close> gives the numbers of the engine; the distribution brings them into the range from 1 to 10.\<close>

definition randValues :: "(nat \<Rightarrow> nat) \<Rightarrow> nat \<Rightarrow> nat" where
  "randValues draw i = 1 + draw i mod 10"

text \<open>\<open>sumUp\<close>; each thread has its own \<open>tmpSum\<close>, an \<open>unsigned long long\<close>.\<close>

datatype sumUp_pc = SumUp nat nat "64 word" | SummedUp

definition sumUp :: "(nat \<Rightarrow> nat) \<Rightarrow> (64 word, sumUp_pc) thread" where
  "sumUp v t s pc =
     (case pc of
        SumUp i e tmpSum \<Rightarrow> if i < e then [(s, SumUp (i + 1) e (tmpSum + word_of_nat (v i)))] else [(s + tmpSum, SummedUp)]
      | SummedUp \<Rightarrow> [])"

definition tls_main :: "(64 word, sumUp_pc) conf" where
  "tls_main = (0, [SumUp 0 fir 0, SumUp fir sec 0, SumUp sec thi 0, SumUp thi fou 0])"

fun sumUp_part :: "(nat \<Rightarrow> nat) \<Rightarrow> sumUp_pc \<Rightarrow> 64 word" where
  "sumUp_part v (SumUp i e tmp) = tmp + word_of_nat (sum_list (map v [i..<e]))"
| "sumUp_part v SummedUp = 0"

fun sumUp_work :: "sumUp_pc \<Rightarrow> nat" where
  "sumUp_work (SumUp i e tmp) = Suc (e - i)"
| "sumUp_work SummedUp = 0"

lemma sumUp_effect:
  "(s', pc') \<in> set (sumUp v t s pc) \<Longrightarrow> sumUp_work pc' < sumUp_work pc \<and> sumUp_part v pc' + s' = sumUp_part v pc + s"
  by (cases pc) (auto simp: sumUp_def upt_rec [of "Suc _"] upt_conv_Cons split: if_splits)

interpretation tls: thread_term "sumUp v" tls_main "\<lambda>_ _. True" "\<lambda>_. workload sumUp_work" for v
proof
  fix s ls t s' l' assume t: "t < length ls" and st: "(s', l') \<in> set (sumUp v t s (ls ! t))"
  from sumUp_effect [OF st] workload_upd [OF t, of sumUp_work l']
  show "workload sumUp_work (ls[t := l']) < workload sumUp_work ls" by simp
qed simp_all

interpretation tls_sum: team_sum "sumUp v" tls_main "\<lambda>_ _. True" "sumUp_part v" id for v
  by unfold_locales (simp add: sumUp_effect)

lemma upt_split: "a \<le> b \<Longrightarrow> b \<le> c \<Longrightarrow> [a..<c] = [a..<b] @ [b..<c]"
  using upt_add_eq_append [of a b "c - b"] by simp

lemma tls_parts: "sum_list (map (sumUp_part v) (snd tls_main)) = word_of_nat (sum_list (map v [0..<tls_size]))"
proof -
  have "[0..<tls_size] = [0..<fir] @ [fir..<sec] @ [sec..<thi] @ [thi..<fou]"
    using upt_split [of 0 fir tls_size] upt_split [of fir sec tls_size] upt_split [of sec thi tls_size]
    by (simp add: tls_size_def fir_def sec_def thi_def fou_def del: upt_rec_numeral)
  then show ?thesis by (simp add: tls_main_def del: upt_rec_numeral)
qed

lemma sum_list_bound: "sum_list (map (randValues draw) is) \<le> 10 * length is"
proof (induction "is")
  case Nil
  show ?case by simp
next
  case (Cons i "is")
  have "randValues draw i \<le> 10" by (simp add: randValues_def Suc_leI less_Suc_eq_le)
  with Cons show ?case by simp
qed

text \<open>
  The four threads end, and the result is the sum of all values, without a wrap-around, whatever the interleaving.
\<close>

theorem thread_local_summation:
  "always_ends (sumUp (randValues draw)) tls_main (\<lambda>s ls. unat s = sum_list (map (randValues draw) [0..<tls_size]))"
proof (rule tls.always_endsI)
  fix s ls
  assume r: "reach (sumUp (randValues draw)) tls_main (s, ls)" and st: "stuck (sumUp (randValues draw)) (s, ls)"
  have "l = SummedUp" if "l \<in> set ls" for l
  proof -
    from that st obtain t where "sumUp (randValues draw) t s l = []" by (auto simp: stuck_iff in_set_conv_nth)
    then show ?thesis by (cases l) (auto simp: sumUp_def split: if_splits)
  qed
  then have "\<forall>l \<in> set ls. sumUp_part (randValues draw) l = 0" by force
  from tls_sum.collected [OF r this] have s: "s = word_of_nat (sum_list (map (randValues draw) [0..<tls_size]))"
    using tls_parts by (simp add: tls_main_def)
  have "sum_list (map (randValues draw) [0..<tls_size]) \<le> 10 * tls_size"
    using sum_list_bound [of draw "[0..<tls_size]"] by simp
  then have "sum_list (map (randValues draw) [0..<tls_size]) < 2 ^ 64"
    by (rule le_less_trans) (simp add: tls_size_def)
  then show "unat s = sum_list (map (randValues draw) [0..<tls_size])" unfolding s by (simp add: unat_of_nat)
qed

section \<open>CopiedValue\<close>

text \<open>\<open>copy\<close> is the argument that the first thread has got; \<open>ended\<close> are the threads that can be joined.\<close>

datatype copied_line = ByCopy bool | ByReference bool | ByConstReference bool

record copied =
  shared :: bool
  copy :: bool
  started :: nat
  ended :: "nat set"
  copied_lines :: "copied_line list"

datatype copied_pc = CopiedMain nat | Printer nat | PrinterEnd

definition copied_thread :: "(copied, copied_pc) thread" where
  "copied_thread t s pc =
     (case pc of
        CopiedMain k \<Rightarrow>
          if k = 0 then [(s\<lparr>copy := shared s, started := 1\<rparr>, CopiedMain 1)]
          else if k < 3 then [(s\<lparr>started := k + 1\<rparr>, CopiedMain (k + 1))]
          else if k = 3 then [(s\<lparr>shared := True\<rparr>, CopiedMain 4)]
          else if k < 7 then (if k - 3 \<in> ended s then [(s, CopiedMain (k + 1))] else [])
          else []
      | Printer k \<Rightarrow>
          if k \<le> started s
          then [(s\<lparr>copied_lines := copied_lines s @
                   [if k = 1 then ByCopy (copy s) else if k = 2 then ByReference (shared s) else ByConstReference (shared s)],
                 ended := insert k (ended s)\<rparr>, PrinterEnd)]
          else []
      | PrinterEnd \<Rightarrow> [])"

definition copied_main :: "(copied, copied_pc) conf" where
  "copied_main = (\<lparr>shared = False, copy = False, started = 0, ended = {}, copied_lines = []\<rparr>,
     [CopiedMain 0, Printer 1, Printer 2, Printer 3])"

definition printers :: "nat set \<Rightarrow> copied_pc list" where
  "printers e = map (\<lambda>k. if k \<in> e then PrinterEnd else Printer k) [1, 2, 3]"

definition copied_inv :: "copied \<Rightarrow> copied_pc list \<Rightarrow> bool" where
  "copied_inv s ls \<longleftrightarrow> \<not> copy s \<and> ByCopy True \<notin> set (copied_lines s) \<and>
     (\<exists>k \<le> 7. ls = CopiedMain k # printers (ended s) \<and> started s = min k 3 \<and> (k \<le> 3 \<longrightarrow> \<not> shared s))"

fun copied_work :: "copied_pc \<Rightarrow> nat" where
  "copied_work (CopiedMain k) = 7 - k"
| "copied_work (Printer k) = 1"
| "copied_work PrinterEnd = 0"

lemma copied_main_effect:
  assumes "(s', pc') \<in> set (copied_thread t s (CopiedMain k))" and "started s = min k 3"
  shows "k < 7 \<and> pc' = CopiedMain (k + 1) \<and> ended s' = ended s \<and> copied_lines s' = copied_lines s \<and>
    started s' = min (k + 1) 3 \<and> (k < 3 \<longrightarrow> shared s' = shared s) \<and> copy s' = (if k = 0 then shared s else copy s)"
  using assms by (auto simp: copied_thread_def min_def split: if_splits)

lemma printer_effect:
  assumes "(s', pc') \<in> set (copied_thread t s (if k \<in> ended s then PrinterEnd else Printer k))"
  shows "pc' = PrinterEnd \<and> k \<notin> ended s \<and> ended s' = insert k (ended s) \<and> shared s' = shared s \<and> copy s' = copy s \<and>
    started s' = started s \<and> (\<exists>l. copied_lines s' = copied_lines s @ [l] \<and> (l = ByCopy True \<longrightarrow> copy s))"
  using assms by (auto simp: copied_thread_def split: if_splits)

lemma printers_upd: "t < 3 \<Longrightarrow> (printers e)[t := PrinterEnd] = printers (insert (Suc t) e)"
  by (auto simp: printers_def less_Suc_eq numeral_eq_Suc)

lemma printers_nth: "t < 3 \<Longrightarrow> printers e ! t = (if Suc t \<in> e then PrinterEnd else Printer (Suc t))"
  by (auto simp: printers_def less_Suc_eq numeral_eq_Suc)

lemma copied_step:
  assumes I: "copied_inv s ls" and t: "t < length ls" and st: "(s', pc') \<in> set (copied_thread t s (ls ! t))"
  shows "copied_inv s' (ls[t := pc']) \<and> copied_work pc' < copied_work (ls ! t)"
proof -
  from I obtain k where c: "\<not> copy s" "ByCopy True \<notin> set (copied_lines s)" "ls = CopiedMain k # printers (ended s)" "k \<le> 7"
    "started s = min k 3" "k \<le> 3 \<longrightarrow> \<not> shared s" unfolding copied_inv_def by blast
  show ?thesis
  proof (cases t)
    case 0
    with st c(3) have "(s', pc') \<in> set (copied_thread t s (CopiedMain k))" by simp
    from copied_main_effect [OF this c(5)] c 0 show ?thesis
      unfolding copied_inv_def by (auto intro!: exI [of _ "k + 1"])
  next
    case (Suc u)
    have u: "u < 3" using t Suc c(3) by (simp add: printers_def)
    from st Suc c(3) have "(s', pc') \<in> set (copied_thread t s (if Suc u \<in> ended s then PrinterEnd else Printer (Suc u)))"
      by (simp add: printers_nth [OF u])
    from printer_effect [OF this] c Suc show ?thesis
      unfolding copied_inv_def by (auto simp: printers_upd [OF u] printers_nth [OF u] intro!: exI [of _ k])
  qed
qed

interpretation copied: thread_term copied_thread copied_main copied_inv "\<lambda>_. workload copied_work"
proof
  show "copied_inv (fst copied_main) (snd copied_main)" by (simp add: copied_inv_def copied_main_def printers_def)
next
  fix s ls t s' l'
  assume "copied_inv s ls" and t: "t < length ls" and st: "(s', l') \<in> set (copied_thread t s (ls ! t))"
  from copied_step [OF this] workload_upd [OF t, of copied_work l']
  show "copied_inv s' (ls[t := l'])" "workload copied_work (ls[t := l']) < workload copied_work ls" by simp_all
qed

lemma copied_ends: "always_ends copied_thread copied_main
    (\<lambda>s ls. ls = [CopiedMain 7, PrinterEnd, PrinterEnd, PrinterEnd] \<and> ByCopy True \<notin> set (copied_lines s))"
proof (rule copied.always_endsI)
  fix s ls assume I: "copied_inv s ls" and st: "stuck copied_thread (s, ls)"
  from I obtain k where c: "ByCopy True \<notin> set (copied_lines s)" "ls = CopiedMain k # printers (ended s)"
    "started s = min k 3" "k \<le> 7" unfolding copied_inv_def by blast
  have b: "copied_thread 0 s (CopiedMain k) = []" "\<forall>u < 3. copied_thread (Suc u) s (printers (ended s) ! u) = []"
  proof -
    have len: "length ls = 4" using c(2) by (simp add: printers_def)
    have all: "\<forall>i < 4. copied_thread i s (ls ! i) = []" using st len by (simp add: stuck_iff)
    from all [rule_format, of 0] show "copied_thread 0 s (CopiedMain k) = []" by (simp add: c(2))
    show "\<forall>u < 3. copied_thread (Suc u) s (printers (ended s) ! u) = []"
      using all [rule_format, of "Suc _"] by (simp add: c(2))
  qed
  have k: "3 < k" using b(1) c(4) by (auto simp: copied_thread_def split: if_splits)
  with b(2) c(3) have all: "\<forall>u < 3. Suc u \<in> ended s" by (auto simp: printers_nth copied_thread_def split: if_splits)
  then have e: "1 \<in> ended s" "2 \<in> ended s" "3 \<in> ended s" by (auto simp: numeral_eq_Suc)
  have "k = 4 \<or> k = 5 \<or> k = 6 \<or> k = 7" using k c(4) by auto
  with b(1) e have "k = 7" by (auto simp: copied_thread_def)
  with c e show "ls = [CopiedMain 7, PrinterEnd, PrinterEnd, PrinterEnd] \<and> ByCopy True \<notin> set (copied_lines s)" by (simp add: printers_def)
qed

text \<open>
  The program ends, and the thread that has got a copy prints false. What a thread with a reference prints is a
  data race: it is false if the thread is faster than the assignment of the main thread, and true otherwise.
\<close>

theorem copied_value_races:
  "always_ends copied_thread copied_main
     (\<lambda>s ls. ls = [CopiedMain 7, PrinterEnd, PrinterEnd, PrinterEnd] \<and> ByCopy True \<notin> set (copied_lines s)) \<and>
   (\<exists>s ls. reach copied_thread copied_main (s, ls) \<and> ls ! 0 = CopiedMain 7 \<and>
     copied_lines s = [ByCopy False, ByReference False, ByConstReference True])"
proof -
  have "map_option (\<lambda>(s, ls). (ls ! 0, copied_lines s))
      (sched copied_thread (map (\<lambda>i. (i, 0)) [0, 0, 0, 1, 2, 0, 3, 0, 0, 0]) copied_main) =
      Some (CopiedMain 7, [ByCopy False, ByReference False, ByConstReference True])"
    by code_simp
  from sched_observe [OF this] copied_ends show ?thesis by auto
qed

section \<open>GuardedSuspension\<close>

text \<open>
  The workers are Herb, Scott and Bjarne. \<open>preparedWork\<close> are the promises of the workers that are fulfilled, \<open>startWork\<close> is
  the boss's.
\<close>

datatype boss_line = PrepareYourWork | StartYourWork | WorkPrepared nat

record boss =
  preparedWork :: "nat set"
  startWork :: bool
  joinable :: "nat set"
  boss_lines :: "boss_line list"

datatype boss_pc =
    WorkerPrepares nat
  | WorkerPrints nat
  | WorkerWaits nat
  | WorkerEnd nat
  | BossPrints
  | BossWaits nat
  | BossSays
  | BossStarts
  | BossJoins nat
  | BossEnd

definition boss_thread :: "(boss, boss_pc) thread" where
  "boss_thread t s pc =
     (case pc of
        WorkerPrepares w \<Rightarrow> [(s\<lparr>preparedWork := insert w (preparedWork s)\<rparr>, WorkerPrints w)]
      | WorkerPrints w \<Rightarrow> [(s\<lparr>boss_lines := boss_lines s @ [WorkPrepared w]\<rparr>, WorkerWaits w)]
      | WorkerWaits w \<Rightarrow> if startWork s then [(s\<lparr>joinable := insert w (joinable s)\<rparr>, WorkerEnd w)] else []
      | WorkerEnd w \<Rightarrow> []
      | BossPrints \<Rightarrow> [(s\<lparr>boss_lines := boss_lines s @ [PrepareYourWork]\<rparr>, BossWaits 0)]
      | BossWaits w \<Rightarrow>
          if w < 3 then (if w \<in> preparedWork s then [(s, BossWaits (w + 1))] else []) else [(s, BossSays)]
      | BossSays \<Rightarrow> [(s\<lparr>boss_lines := boss_lines s @ [StartYourWork]\<rparr>, BossStarts)]
      | BossStarts \<Rightarrow> [(s\<lparr>startWork := True\<rparr>, BossJoins 0)]
      | BossJoins w \<Rightarrow>
          if w < 3 then (if w \<in> joinable s then [(s, BossJoins (w + 1))] else []) else [(s, BossEnd)]
      | BossEnd \<Rightarrow> [])"

definition boss_main :: "(boss, boss_pc) conf" where
  "boss_main = (\<lparr>preparedWork = {}, startWork = False, joinable = {}, boss_lines = []\<rparr>,
     [BossPrints, WorkerPrepares 0, WorkerPrepares 1, WorkerPrepares 2])"

definition worker_ok :: "boss \<Rightarrow> nat \<Rightarrow> boss_pc \<Rightarrow> bool" where
  "worker_ok s w pc \<longleftrightarrow>
     (case pc of
        WorkerPrepares v \<Rightarrow> v = w \<and> w \<notin> preparedWork s \<and> w \<notin> joinable s
      | WorkerPrints v \<Rightarrow> v = w \<and> w \<in> preparedWork s \<and> w \<notin> joinable s
      | WorkerWaits v \<Rightarrow> v = w \<and> w \<in> preparedWork s \<and> w \<notin> joinable s
      | WorkerEnd v \<Rightarrow> v = w \<and> w \<in> preparedWork s \<and> w \<in> joinable s
      | _ \<Rightarrow> False)"

definition boss_ok :: "boss \<Rightarrow> boss_pc \<Rightarrow> bool" where
  "boss_ok s pc \<longleftrightarrow>
     (case pc of
        BossPrints \<Rightarrow> \<not> startWork s
      | BossWaits w \<Rightarrow> \<not> startWork s \<and> w \<le> 3 \<and> (\<forall>v < w. v \<in> preparedWork s)
      | BossSays \<Rightarrow> \<not> startWork s \<and> (\<forall>v < 3. v \<in> preparedWork s)
      | BossStarts \<Rightarrow> \<not> startWork s \<and> (\<forall>v < 3. v \<in> preparedWork s)
      | BossJoins w \<Rightarrow> startWork s \<and> w \<le> 3 \<and> (\<forall>v < 3. v \<in> preparedWork s)
      | BossEnd \<Rightarrow> startWork s \<and> (\<forall>v < 3. v \<in> preparedWork s)
      | _ \<Rightarrow> False)"

definition boss_inv :: "boss \<Rightarrow> boss_pc list \<Rightarrow> bool" where
  "boss_inv s ls \<longleftrightarrow> length ls = 4 \<and> boss_ok s (ls ! 0) \<and> (\<forall>w < 3. worker_ok s w (ls ! Suc w))"

fun boss_work :: "boss_pc \<Rightarrow> nat" where
  "boss_work (WorkerPrepares w) = 3"
| "boss_work (WorkerPrints w) = 2"
| "boss_work (WorkerWaits w) = 1"
| "boss_work (WorkerEnd w) = 0"
| "boss_work BossPrints = 20"
| "boss_work (BossWaits w) = 19 - w"
| "boss_work BossSays = 10"
| "boss_work BossStarts = 9"
| "boss_work (BossJoins w) = 8 - w"
| "boss_work BossEnd = 0"

lemma worker_cong:
  "(w \<in> preparedWork s') = (w \<in> preparedWork s) \<Longrightarrow> (w \<in> joinable s') = (w \<in> joinable s) \<Longrightarrow>
    worker_ok s' w pc = worker_ok s w pc"
  by (cases pc) (simp_all add: worker_ok_def)

lemma boss_mono:
  "boss_ok s pc \<Longrightarrow> startWork s' = startWork s \<Longrightarrow> preparedWork s \<subseteq> preparedWork s' \<Longrightarrow> boss_ok s' pc"
  by (cases pc) (auto simp: boss_ok_def)

lemma worker_effect:
  assumes "worker_ok s w pc" and "(s', pc') \<in> set (boss_thread t s pc)"
  shows "worker_ok s' w pc' \<and> boss_work pc' < boss_work pc \<and> startWork s' = startWork s \<and> preparedWork s \<subseteq> preparedWork s' \<and>
    preparedWork s' \<subseteq> insert w (preparedWork s) \<and> joinable s \<subseteq> joinable s' \<and> joinable s' \<subseteq> insert w (joinable s)"
  using assms by (cases pc) (auto simp: worker_ok_def boss_thread_def split: if_splits)

lemma worker_step:
  assumes w: "worker_ok s w pc" and b: "boss_ok s b" and st: "(s', pc') \<in> set (boss_thread t s pc)"
  shows "worker_ok s' w pc' \<and> boss_ok s' b \<and> (\<forall>v pc. v \<noteq> w \<longrightarrow> worker_ok s v pc \<longrightarrow> worker_ok s' v pc) \<and> boss_work pc' < boss_work pc"
proof -
  note e = worker_effect [OF w st]
  have "worker_ok s' v pc = worker_ok s v pc" if "v \<noteq> w" for v pc using e that by (intro worker_cong) auto
  moreover have "boss_ok s' b" using boss_mono [OF b] e by blast
  ultimately show ?thesis using e by blast
qed

lemma boss_effect:
  assumes "boss_ok s pc" and "(s', pc') \<in> set (boss_thread t s pc)"
  shows "boss_ok s' pc' \<and> boss_work pc' < boss_work pc \<and> preparedWork s' = preparedWork s \<and> joinable s' = joinable s"
  using assms by (cases pc) (auto simp: boss_ok_def boss_thread_def less_Suc_eq split: if_splits)

lemma boss_step:
  assumes "boss_ok s pc" and "(s', pc') \<in> set (boss_thread t s pc)"
  shows "boss_ok s' pc' \<and> (\<forall>v pc. worker_ok s v pc \<longrightarrow> worker_ok s' v pc) \<and> boss_work pc' < boss_work pc"
  using boss_effect [OF assms] worker_cong [of _ s' s] by simp

lemma boss_inv_step:
  assumes I: "boss_inv s ls" and t: "t < length ls" and st: "(s', pc') \<in> set (boss_thread t s (ls ! t))"
  shows "boss_inv s' (ls[t := pc']) \<and> boss_work pc' < boss_work (ls ! t)"
proof (cases t)
  case 0
  with I st boss_step [of s "ls ! 0" s' pc' 0] show ?thesis by (auto simp: boss_inv_def)
next
  case (Suc w)
  with I t have w: "w < 3" "worker_ok s w (ls ! Suc w)" "boss_ok s (ls ! 0)" by (auto simp: boss_inv_def)
  from worker_step [OF w(2,3)] st Suc
  have e: "worker_ok s' w pc'" "boss_ok s' (ls ! 0)" "\<forall>v pc. v \<noteq> w \<longrightarrow> worker_ok s v pc \<longrightarrow> worker_ok s' v pc"
    "boss_work pc' < boss_work (ls ! Suc w)" by auto
  have "worker_ok s' v (ls[Suc w := pc'] ! Suc v)" if "v < 3" for v
    using e(1,3) I that by (cases "v = w") (auto simp: boss_inv_def)
  with e I Suc show ?thesis by (simp add: boss_inv_def)
qed

interpretation bosses: thread_term boss_thread boss_main boss_inv "\<lambda>_. workload boss_work"
proof
  show "boss_inv (fst boss_main) (snd boss_main)"
    by (auto simp: boss_inv_def boss_main_def boss_ok_def worker_ok_def less_Suc_eq numeral_eq_Suc)
next
  fix s ls t s' l'
  assume "boss_inv s ls" and t: "t < length ls" and st: "(s', l') \<in> set (boss_thread t s (ls ! t))"
  from boss_inv_step [OF this] workload_upd [OF t, of boss_work l']
  show "boss_inv s' (ls[t := l'])" "workload boss_work (ls[t := l']) < workload boss_work ls" by simp_all
qed

lemma boss_ends: "always_ends boss_thread boss_main (\<lambda>s ls. ls = [BossEnd, WorkerEnd 0, WorkerEnd 1, WorkerEnd 2])"
proof (rule bosses.always_endsI)
  fix s ls assume I: "boss_inv s ls" and st: "stuck boss_thread (s, ls)"
  have b: "boss_thread t s (ls ! t) = []" if "t < 4" for t using st I that by (simp add: stuck_iff boss_inv_def)
  have w: "worker_ok s v (ls ! Suc v)" if "v < 3" for v using I that by (simp add: boss_inv_def)
  have prepared: "v \<in> preparedWork s" if "v < 3" for v
    using w [OF that] b [of "Suc v"] that by (cases "ls ! Suc v") (simp_all add: worker_ok_def boss_thread_def)
  have boss: "boss_ok s (ls ! 0)" "boss_thread 0 s (ls ! 0) = []" using I b by (auto simp: boss_inv_def)
  from boss prepared have start: "startWork s"
    by (cases "ls ! 0") (auto simp: boss_ok_def boss_thread_def split: if_splits)
  have workers: "ls ! Suc v = WorkerEnd v \<and> v \<in> joinable s" if "v < 3" for v
    using w [OF that] b [of "Suc v"] that start
    by (cases "ls ! Suc v") (simp_all add: worker_ok_def boss_thread_def)
  from boss start workers have "ls ! 0 = BossEnd"
    by (cases "ls ! 0") (auto simp: boss_ok_def boss_thread_def split: if_splits)
  moreover have "\<exists>a b c d. ls = [a, b, c, d]"
    using I by (auto simp: boss_inv_def length_Suc_conv numeral_eq_Suc)
  ultimately show "ls = [BossEnd, WorkerEnd 0, WorkerEnd 1, WorkerEnd 2]"
    using workers [of 0] workers [of 1] workers [of 2] by (elim exE) simp
qed

text \<open>
  The boss and the workers end, without a deadlock, in every run. The workers are told to start only when all have
  prepared their work, but the line in which a worker says so can come after the boss's line.
\<close>

theorem boss_worker_ends:
  "always_ends boss_thread boss_main (\<lambda>s ls. ls = [BossEnd, WorkerEnd 0, WorkerEnd 1, WorkerEnd 2]) \<and>
   (\<forall>s ls. reach boss_thread boss_main (s, ls) \<longrightarrow> startWork s \<longrightarrow> {0, 1, 2} \<subseteq> preparedWork s) \<and>
   (\<exists>s ls. reach boss_thread boss_main (s, ls) \<and> boss_lines s = [PrepareYourWork, StartYourWork, WorkPrepared 0])"
proof -
  have "{0, 1, 2} \<subseteq> preparedWork s" if "reach boss_thread boss_main (s, ls)" "startWork s" for s ls
  proof -
    have "boss_ok s (ls ! 0)" using bosses.reach_inv [OF that(1)] by (simp add: boss_inv_def)
    with that(2) have "\<forall>v < 3. v \<in> preparedWork s" by (auto simp: boss_ok_def split: boss_pc.splits)
    then show ?thesis by simp
  qed
  moreover have "map_option (\<lambda>(s, ls). boss_lines s)
      (sched boss_thread (map (\<lambda>i. (i, 0)) [0, 1, 2, 3, 0, 0, 0, 0, 0, 1]) boss_main) =
      Some [PrepareYourWork, StartYourWork, WorkPrepared 0]"
    by code_simp
  from sched_observe [OF this] have "\<exists>s ls. reach boss_thread boss_main (s, ls) \<and> boss_lines s = [PrepareYourWork, StartYourWork, WorkPrepared 0]" .
  ultimately show ?thesis using boss_ends by blast
qed

theorem boss_worker_ends_witness:
  "\<exists>s ls. reach boss_thread boss_main (s, ls) \<and> startWork s \<and> {0, 1, 2} \<subseteq> preparedWork s"
proof -
  have "map_option (\<lambda>(s, ls). startWork s) (sched boss_thread (map (\<lambda>i. (i, 0)) [0, 1, 2, 3, 0, 0, 0, 0, 0, 0]) boss_main) = Some True"
    by code_simp
  from sched_observe [OF this] obtain s ls where "reach boss_thread boss_main (s, ls)" "startWork s" by auto
  with boss_worker_ends show ?thesis by blast
qed

section \<open>Future\<close>

text \<open>
  The program Future/future.cpp. \<open>std::async\<close> with \<open>launch::async\<close> starts a thread, whose result goes into the shared state
  of the future; \<open>get\<close> waits for it and takes it out.
\<close>

datatype async_pc = AsyncStart | FutureGet | FutureReturn | AsyncTask | AsyncTaskEnd

record async_state =
  task_started :: bool
  shared_state :: "string option"
  async_out :: "string list"

definition async_thread :: "(async_state, async_pc) thread" where
  "async_thread t s pc =
     (case pc of
        AsyncStart \<Rightarrow> [(s\<lparr>task_started := True\<rparr>, FutureGet)]
      | FutureGet \<Rightarrow>
          (case shared_state s of
             None \<Rightarrow> []
           | Some r \<Rightarrow> [(s\<lparr>shared_state := None, async_out := async_out s @ [r]\<rparr>, FutureReturn)])
      | FutureReturn \<Rightarrow> []
      | AsyncTask \<Rightarrow> if task_started s then [(s\<lparr>shared_state := Some ''LazyOrEager''\<rparr>, AsyncTaskEnd)] else []
      | AsyncTaskEnd \<Rightarrow> [])"

definition async_main :: "(async_state, async_pc) conf" where
  "async_main = (\<lparr>task_started = False, shared_state = None, async_out = []\<rparr>, [AsyncStart, AsyncTask])"

definition async_inv :: "async_state \<Rightarrow> async_pc list \<Rightarrow> bool" where
  "async_inv s ls \<longleftrightarrow>
     (ls = [AsyncStart, AsyncTask] \<and> s = \<lparr>task_started = False, shared_state = None, async_out = []\<rparr>) \<or>
     (ls = [FutureGet, AsyncTask] \<and> s = \<lparr>task_started = True, shared_state = None, async_out = []\<rparr>) \<or>
     (ls = [FutureGet, AsyncTaskEnd] \<and> s = \<lparr>task_started = True, shared_state = Some ''LazyOrEager'', async_out = []\<rparr>) \<or>
     (ls = [FutureReturn, AsyncTaskEnd] \<and> s = \<lparr>task_started = True, shared_state = None, async_out = [''LazyOrEager'']\<rparr>)"

fun async_work :: "async_pc \<Rightarrow> nat" where
  "async_work AsyncStart = 2"
| "async_work FutureGet = 1"
| "async_work FutureReturn = 0"
| "async_work AsyncTask = 1"
| "async_work AsyncTaskEnd = 0"

interpretation async: thread_term async_thread async_main async_inv "\<lambda>_. workload async_work"
proof
  show "async_inv (fst async_main) (snd async_main)" by (simp add: async_inv_def async_main_def)
next
  fix s ls t s' l'
  assume I: "async_inv s ls" and t: "t < length ls" and st: "(s', l') \<in> set (async_thread t s (ls ! t))"
  from I t have "t = 0 \<or> t = 1" by (auto simp: async_inv_def)
  with I st show "async_inv s' (ls[t := l'])"
    unfolding async_inv_def by (elim disjE) (simp_all add: async_thread_def)
  have "async_work l' < async_work (ls ! t)"
    using st by (cases "ls ! t") (auto simp: async_thread_def split: option.splits if_splits)
  with workload_upd [OF t, of async_work l'] show "workload async_work (ls[t := l']) < workload async_work ls" by simp
qed

text \<open>The program prints the result of the task, whatever the interleaving, and ends.\<close>

theorem future_prints_result:
  "always_ends async_thread async_main (\<lambda>s ls. ls = [FutureReturn, AsyncTaskEnd] \<and> async_out s = [''LazyOrEager''])"
proof (rule async.always_endsI)
  fix s ls assume "async_inv s ls" and "stuck async_thread (s, ls)"
  then show "ls = [FutureReturn, AsyncTaskEnd] \<and> async_out s = [''LazyOrEager'']"
    unfolding async_inv_def by (elim disjE) (auto simp: stuck_iff async_thread_def less_Suc_eq)
qed

end
