(* ===== verification/Msd_Channel.thy ===== *)
theory Msd_Channel
  imports Fifo_Interface Condition_Variables
begin

text \<open>
  ProducerConsumer/producer_consumer_channel_2: \<open>msd::channel\<close> in channel.hpp and channel.inl, its \<open>blocking_iterator\<close>, and the
  program in main.cpp. A step is one critical section, or one access to an atomic outside of them. There is one condition
  variable, on which readers and writers wait.
\<close>

section \<open>The channel\<close>

text \<open>\<open>size_\<close> is the length of the queue: it only changes with it. \<open>messagesCount\<close> is the counter of the program.\<close>

record msd_channel =
  cap_of :: nat
  items :: "nat list"
  is_closed_flag :: bool
  cnd :: condvar
  messagesCount :: nat
  history :: "nat fifo_event list"

datatype msd_call = Produce | Write nat | Read | Iterate | CloseIt

datatype msd_result = Wrote | WriteThrows | Visited nat | Closed

text \<open>
  Where a thread is: at its next call; in \<open>operator<<\<close> with a value, in \<open>operator>>\<close> (of the iterator or not), in \<open>operator!=\<close>
  of the iterator, or in \<open>close\<close>. A sleeping thread is in the wait of the condition variable.
\<close>

datatype msd_place =
    Ready
  | WriteCheck nat
  | WriteLock nat bool
  | WriteNotify
  | ReadCheckClosed
  | ReadCheckEmpty
  | ReadLock bool
  | ReadNotify
  | NotEqual bool
  | CloseNotify

text \<open>\<open>var\<close> is the variable that \<open>operator>>\<close> reads into, \<open>value_\<close> of the iterator.\<close>

record msd_user =
  mcalls :: "msd_call list"
  mplace :: msd_place
  var :: nat
  mresults :: "msd_result list"

definition msd_put :: "nat \<Rightarrow> msd_channel \<Rightarrow> msd_channel" where
  "msd_put v s = s\<lparr>items := items s @ [v], history := history s @ [Accepted v]\<rparr>"

definition msd_return :: "msd_result \<Rightarrow> msd_user \<Rightarrow> msd_user" where
  "msd_return r u = u\<lparr>mcalls := tl (mcalls u), mplace := Ready, mresults := mresults u @ [r]\<rparr>"

text \<open>The iterator goes on after a read; the body of the loop sees what the variable holds.\<close>

definition read_returns :: "msd_user \<Rightarrow> msd_user" where
  "read_returns u =
     (if hd (mcalls u) = Iterate then u\<lparr>mplace := NotEqual False, mresults := mresults u @ [Visited (var u)]\<rparr>
      else msd_return (Visited (var u)) u)"

text \<open>\<open>cnd_.wait\<close> of thread \<open>t\<close>: asleep, it tests when it has been notified (or for no reason, if \<open>sp\<close> allows that).\<close>

definition msd_awake :: "bool \<Rightarrow> nat \<Rightarrow> bool \<Rightarrow> msd_channel \<Rightarrow> bool" where
  "msd_awake sp t asleep s \<longleftrightarrow> \<not> asleep \<or> sp \<or> t \<notin> set (cnd s)"

definition msd_wait :: "nat \<Rightarrow> msd_channel \<Rightarrow> msd_channel" where
  "msd_wait t s = s\<lparr>cnd := remove1 t (cnd s) @ [t]\<rparr>"

definition msd_wake :: "nat \<Rightarrow> msd_channel \<Rightarrow> msd_channel" where
  "msd_wake t s = s\<lparr>cnd := remove1 t (cnd s)\<rparr>"

text \<open>The second section of \<open>operator<<\<close>, with \<open>waitBeforeWrite\<close>.\<close>

definition write_section :: "bool \<Rightarrow> nat \<Rightarrow> nat \<Rightarrow> bool \<Rightarrow> msd_channel \<Rightarrow> msd_user \<Rightarrow> (msd_channel \<times> msd_user) list" where
  "write_section sp t v asleep s u =
     (if \<not> msd_awake sp t asleep s then []
      else if cap_of s > 0 \<and> length (items s) = cap_of s \<or> asleep \<and> \<not> length (items s) < cap_of s
      then [(msd_wait t s, u\<lparr>mplace := WriteLock v True\<rparr>)]
      else [(msd_put v (msd_wake t s), u\<lparr>mplace := WriteNotify\<rparr>)])"

text \<open>The section of \<open>operator>>\<close>, with \<open>waitBeforeRead\<close>; when the channel is closed and empty the variable is not assigned.\<close>

definition read_section :: "bool \<Rightarrow> nat \<Rightarrow> bool \<Rightarrow> msd_channel \<Rightarrow> msd_user \<Rightarrow> (msd_channel \<times> msd_user) list" where
  "read_section sp t asleep s u =
     (if \<not> msd_awake sp t asleep s then []
      else
        (case items s of
           [] \<Rightarrow>
             if is_closed_flag s then [(msd_wake t s, u\<lparr>mplace := ReadNotify\<rparr>)]
             else [(msd_wait t s, u\<lparr>mplace := ReadLock True\<rparr>)]
         | v # q \<Rightarrow>
             [((msd_wake t s)\<lparr>items := q, history := history s @ [Taken v]\<rparr>, u\<lparr>var := v, mplace := ReadNotify\<rparr>)]))"

text \<open>\<open>operator!=\<close> of the iterator.\<close>

definition not_equal_section :: "bool \<Rightarrow> nat \<Rightarrow> bool \<Rightarrow> msd_channel \<Rightarrow> msd_user \<Rightarrow> (msd_channel \<times> msd_user) list" where
  "not_equal_section sp t asleep s u =
     (if \<not> msd_awake sp t asleep s then []
      else if items s = [] \<and> \<not> is_closed_flag s then [(msd_wait t s, u\<lparr>mplace := NotEqual True\<rparr>)]
      else if is_closed_flag s \<and> items s = [] then [(msd_wake t s, msd_return Closed u)]
      else [(msd_wake t s, u\<lparr>mplace := ReadCheckClosed\<rparr>)])"

definition msd_notify :: "msd_channel \<Rightarrow> msd_channel list" where
  "msd_notify s = map (\<lambda>ws. s\<lparr>cnd := ws\<rparr>) (notify_one (cnd s))"

definition msd_thread :: "bool \<Rightarrow> (msd_channel, msd_user) thread" where
  "msd_thread sp t s u =
     (case mplace u of
        Ready \<Rightarrow>
          (case mcalls u of
             [] \<Rightarrow> []
           | Produce # _ \<Rightarrow> [(s\<lparr>messagesCount := messagesCount s + 1\<rparr>, u\<lparr>mplace := WriteCheck (messagesCount s)\<rparr>)]
           | Write v # _ \<Rightarrow> [(s, u\<lparr>mplace := WriteCheck v\<rparr>)]
           | Read # _ \<Rightarrow> [(s, u\<lparr>mplace := ReadCheckClosed\<rparr>)]
           | Iterate # _ \<Rightarrow> [(s, u\<lparr>var := 0, mplace := NotEqual False\<rparr>)]
           | CloseIt # _ \<Rightarrow> [(s\<lparr>is_closed_flag := True\<rparr>, u\<lparr>mplace := CloseNotify\<rparr>)])
      | WriteCheck v \<Rightarrow>
          [(s, if is_closed_flag s then u\<lparr>mcalls := [], mplace := Ready, mresults := mresults u @ [WriteThrows]\<rparr>
               else u\<lparr>mplace := WriteLock v False\<rparr>)]
      | WriteLock v asleep \<Rightarrow> write_section sp t v asleep s u
      | WriteNotify \<Rightarrow> map (\<lambda>s'. (s', msd_return Wrote u)) (msd_notify s)
      | ReadCheckClosed \<Rightarrow> [(s, u\<lparr>mplace := if is_closed_flag s then ReadCheckEmpty else ReadLock False\<rparr>)]
      | ReadCheckEmpty \<Rightarrow> [(s, if items s = [] then read_returns u else u\<lparr>mplace := ReadLock False\<rparr>)]
      | ReadLock asleep \<Rightarrow> read_section sp t asleep s u
      | ReadNotify \<Rightarrow> map (\<lambda>s'. (s', read_returns u)) (msd_notify s)
      | NotEqual asleep \<Rightarrow> not_equal_section sp t asleep s u
      | CloseNotify \<Rightarrow> [(s\<lparr>cnd := notify_all (cnd s)\<rparr>, msd_return Closed u)])"

definition msd_init :: "nat \<Rightarrow> msd_call list list \<Rightarrow> (msd_channel, msd_user) conf" where
  "msd_init cap css =
     (\<lparr>cap_of = cap, items = [], is_closed_flag = False, cnd = [], messagesCount = 0, history = []\<rparr>,
      map (\<lambda>cs. \<lparr>mcalls = cs, mplace = Ready, var = 0, mresults = []\<rparr>) css)"

definition msd_kMaxMessagesCount :: nat where "msd_kMaxMessagesCount = 10"
definition msd_kBufferSize :: nat where "msd_kBufferSize = 3"

text \<open>Two producers, two consumers, and the main thread, which closes the channel.\<close>

definition msd_main :: "(msd_channel, msd_user) conf" where
  "msd_main = msd_init msd_kBufferSize
     [replicate msd_kMaxMessagesCount Produce, [Iterate], replicate msd_kMaxMessagesCount Produce, [Iterate], [CloseIt]]"

section \<open>First in, first out\<close>

definition msd_change :: "msd_channel \<Rightarrow> msd_channel \<Rightarrow> bool" where
  "msd_change s s' \<longleftrightarrow> cap_of s' = cap_of s \<and> fifo_change (cap_of s) (items s) (history s) (items s') (history s')"

definition msd_room :: "msd_channel \<Rightarrow> bool" where
  "msd_room s \<longleftrightarrow> cap_of s = 0 \<or> length (items s) \<le> cap_of s"

lemma msd_same: "items s' = items s \<Longrightarrow> history s' = history s \<Longrightarrow> cap_of s' = cap_of s \<Longrightarrow> msd_change s s'"
  by (simp add: msd_change_def fifo_change_def)

lemma write_section_change: "(s', u') \<in> set (write_section sp t v asleep s u) \<Longrightarrow> msd_room s \<Longrightarrow> msd_change s s'"
  by (auto simp: write_section_def msd_room_def msd_change_def fifo_change_def msd_wait_def msd_wake_def msd_put_def
      split: if_splits)

lemma read_section_change: "(s', u') \<in> set (read_section sp t asleep s u) \<Longrightarrow> msd_change s s'"
  by (auto simp: read_section_def msd_change_def fifo_change_def msd_wait_def msd_wake_def split: if_splits list.splits)

lemma not_equal_section_change: "(s', u') \<in> set (not_equal_section sp t asleep s u) \<Longrightarrow> msd_change s s'"
  by (auto simp: not_equal_section_def msd_wait_def msd_wake_def intro: msd_same split: if_splits)

lemma msd_notify_change: "s' \<in> set (msd_notify s) \<Longrightarrow> msd_change s s'"
  by (auto simp: msd_notify_def intro: msd_same)

lemma msd_ready_change: "mplace u = Ready \<Longrightarrow> (s', u') \<in> set (msd_thread sp t s u) \<Longrightarrow> msd_change s s'"
  by (cases "mcalls u"; cases "hd (mcalls u)") (auto simp: msd_thread_def intro: msd_same)

lemma msd_thread_change: "(s', u') \<in> set (msd_thread sp t s u) \<Longrightarrow> msd_room s \<Longrightarrow> msd_change s s'"
  by (cases "mplace u = Ready", erule (1) msd_ready_change, cases "mplace u")
    (auto simp: msd_thread_def intro: msd_same dest: write_section_change read_section_change not_equal_section_change
      msd_notify_change)

interpretation msd: fifo_threads "msd_thread sp" "msd_init cap css" items history cap_of for sp cap css
proof
  show "items (fst (msd_init cap css)) = [] \<and> history (fst (msd_init cap css)) = []" by (simp add: msd_init_def)
next
  fix s' u' i s u assume "(s', u') \<in> set (msd_thread sp i s u)" "cap_of s = 0 \<or> length (items s) \<le> cap_of s"
  then show "cap_of s' = cap_of s \<and> fifo_change (cap_of s) (items s) (history s) (items s') (history s')"
    using msd_thread_change by (simp add: msd_room_def msd_change_def)
qed

text \<open>
  Claim C14. Whatever the calls, the capacity and the interleaving: what has been taken out, in this order, followed by
  what is in the queue, is what has been put in; and the queue does not hold more than its capacity.
\<close>

theorem msd_is_fifo:
  assumes "reach (msd_thread sp) (msd_init cap css) (s, us)"
  shows "accepted (history s) = taken_out (history s) @ items s \<and> (cap = 0 \<or> length (items s) \<le> cap)"
  using msd.fifo_order [OF assms] by (simp add: msd_init_def)

theorem msd_is_fifo_witness:
  "\<exists>s us. reach (msd_thread False) (msd_init 2 [[Write 7, Write 8], [Read]]) (s, us) \<and> accepted (history s) = [7, 8] \<and>
     taken_out (history s) @ items s = [7, 8]"
proof -
  have "map_option (\<lambda>(s, us). accepted (history s))
      (sched (msd_thread False) (replicate 8 (0, 0) @ replicate 4 (1, 0)) (msd_init 2 [[Write 7, Write 8], [Read]])) = Some [7, 8]"
    by code_simp
  from sched_observe [OF this] obtain s us where
    r: "reach (msd_thread False) (msd_init 2 [[Write 7, Write 8], [Read]]) (s, us)" and o: "accepted (history s) = [7, 8]" by blast
  from msd_is_fifo [OF r] o r show ?thesis by auto
qed

section \<open>What goes wrong\<close>

text \<open>A configuration of the program as a client can see it.\<close>

definition msd_seen :: "msd_channel \<Rightarrow> msd_user list \<Rightarrow> nat list \<times> nat list \<times> bool \<times> nat list \<times> msd_result list list \<times> bool" where
  "msd_seen s us = (accepted (history s), items s, is_closed_flag s, cnd s, map mresults us, list_all (\<lambda>u. mcalls u = []) us)"

text \<open>
  The reader sleeps; the first writer puts a value in; the second one finds the queue full and sleeps; the notification of
  the first one wakes the second one, which sleeps again; so does the first one in its next call.
\<close>

definition starving_schedule :: "(nat \<times> nat) list" where
  "starving_schedule = replicate 2 (0, 0) @ replicate 3 (1, 0) @ replicate 3 (2, 0) @ [(1, 1), (2, 0)] @ replicate 3 (1, 0)"

lemma starving_run:
  "map_option (\<lambda>(s, us). (msd_seen s us, stuck (msd_thread False) (s, us)))
     (sched (msd_thread False) starving_schedule (msd_init 1 [[Iterate], [Write 1, Write 2], [Write 3]])) =
   Some (([1], [1], False, [0, 2, 1], [[], [Wrote], []], False), True)"
  by code_simp

text \<open>
  Claim C24. Readers and writers wait on one condition variable and \<open>notify_one\<close> wakes any of them: with two writers and
  a reader, and a capacity of one, all three can sleep forever, the reader too, though there is a value in the queue for it.
\<close>

theorem msd_loses_wakeup:
  "\<exists>s us. reach (msd_thread False) (msd_init 1 [[Iterate], [Write 1, Write 2], [Write 3]]) (s, us) \<and>
     stuck (msd_thread False) (s, us) \<and> items s = [1] \<and> \<not> is_closed_flag s \<and> cnd s = [0, 2, 1]"
  using sched_observe [OF starving_run] by (force simp: msd_seen_def)

text \<open>
  Both consumers pass \<open>!=\<close> on the same value; the second producer has passed the test of the closed flag; then the
  channel is closed, and the consumers go on before that producer does.
\<close>

definition closing_schedule :: "(nat \<times> nat) list" where
  "closing_schedule = replicate 4 (0, 0) @ replicate 2 (2, 0) @ replicate 2 (1, 0) @ replicate 2 (3, 0) @ replicate 2 (4, 0) @
     replicate 5 (1, 0) @ replicate 3 (3, 0) @ replicate 4 (2, 0) @ replicate 2 (0, 0)"

lemma closing_run:
  "map_option (\<lambda>(s, us). msd_seen s us) (sched (msd_thread False) closing_schedule msd_main) =
   Some ([0, 1], [1], True, [], [[Wrote, WriteThrows], [Visited 0, Closed], [Wrote, WriteThrows], [Visited 0, Closed], [Closed]], True)"
  by code_simp

text \<open>
  The test and the effect are separate sections in \<open>operator<<\<close> and in the iterator: a run of the program ends in
  which the first portion was written once and visited by both consumers (the second one reads the default value of its
  iterator), and the second portion was accepted, without an exception, and visited by nobody.
\<close>

theorem msd_drops_and_repeats:
  "\<exists>s us. reach (msd_thread False) msd_main (s, us) \<and> list_all (\<lambda>u. mcalls u = []) us \<and> items s = [1] \<and>
     accepted (history s) = [0, 1] \<and>
     map mresults us = [[Wrote, WriteThrows], [Visited 0, Closed], [Wrote, WriteThrows], [Visited 0, Closed], [Closed]]"
  using sched_observe [OF closing_run] by (force simp: msd_seen_def)

end
