(* ===== verification/Msd_Ends.thy ===== *)
theory Msd_Ends
  imports Msd_Channel
begin

text \<open>
  The program of producer_consumer_channel_2 ends, although its notifications can be lost: the main thread closes the
  channel and wakes everybody, and the capacity of three is more than the number of producers.
\<close>

section \<open>The threads\<close>

text \<open>Threads 0 and 2 produce, 1 and 3 consume, 4 closes the channel.\<close>

definition consuming :: "msd_place \<Rightarrow> bool" where
  "consuming p \<longleftrightarrow> (case p of Ready \<Rightarrow> True | NotEqual _ \<Rightarrow> True | ReadCheckClosed \<Rightarrow> True | ReadCheckEmpty \<Rightarrow> True
     | ReadLock _ \<Rightarrow> True | ReadNotify \<Rightarrow> True | _ \<Rightarrow> False)"

definition producing :: "msd_place \<Rightarrow> bool" where
  "producing p \<longleftrightarrow> (case p of WriteCheck _ \<Rightarrow> True | WriteLock _ _ \<Rightarrow> True | WriteNotify \<Rightarrow> True | _ \<Rightarrow> False)"

definition consumer_ok :: "msd_user \<Rightarrow> bool" where
  "consumer_ok u \<longleftrightarrow> mcalls u = [] \<and> mplace u = Ready \<or> mcalls u = [Iterate] \<and> consuming (mplace u)"

definition closer_ok :: "msd_user \<Rightarrow> bool" where
  "closer_ok u \<longleftrightarrow> mcalls u = [] \<and> mplace u = Ready \<or> mcalls u = [CloseIt] \<and> (mplace u = Ready \<or> mplace u = CloseNotify)"

definition producer_ok :: "msd_user \<Rightarrow> bool" where
  "producer_ok u \<longleftrightarrow> (\<exists>k. mcalls u = replicate k Produce) \<and> (mplace u = Ready \<or> mcalls u \<noteq> [] \<and> producing (mplace u))"

definition role :: "nat \<Rightarrow> msd_user \<Rightarrow> bool" where
  "role t u \<longleftrightarrow> (if t = 1 \<or> t = 3 then consumer_ok u else if t = 4 then closer_ok u else producer_ok u)"

definition asleep :: "msd_user \<Rightarrow> bool" where
  "asleep u \<longleftrightarrow> (case mplace u of WriteLock _ b \<Rightarrow> b | ReadLock b \<Rightarrow> b | NotEqual b \<Rightarrow> b | _ \<Rightarrow> False)"

definition writing :: "msd_user \<Rightarrow> bool" where
  "writing u \<longleftrightarrow> (case mplace u of WriteLock _ _ \<Rightarrow> True | _ \<Rightarrow> False)"

definition has_read :: "msd_user \<Rightarrow> bool" where
  "has_read u \<longleftrightarrow> mplace u = ReadNotify"

text \<open>The work of a thread depends on whether there is something in the queue (\<open>e\<close>).\<close>

definition rank :: "bool \<Rightarrow> msd_user \<Rightarrow> nat" where
  "rank e u = (case mplace u of
       Ready \<Rightarrow> (case mcalls u of [] \<Rightarrow> 0 | Produce # _ \<Rightarrow> 60 * length (mcalls u) | _ \<Rightarrow> 10)
     | WriteCheck _ \<Rightarrow> 60 * length (mcalls u) - 1 | WriteLock _ _ \<Rightarrow> 60 * length (mcalls u) - 2
     | WriteNotify \<Rightarrow> 60 * (length (mcalls u) - 1) + 3
     | ReadCheckClosed \<Rightarrow> 6 | ReadCheckEmpty \<Rightarrow> 5 | ReadLock _ \<Rightarrow> 4
     | ReadNotify \<Rightarrow> if e then 9 else 3 | NotEqual _ \<Rightarrow> if e then 7 else 1 | CloseNotify \<Rightarrow> 7)"

lemma rank_empty: "rank False u \<le> rank True u" "rank True u \<le> rank False u + 6"
  by (cases "mplace u"; simp add: rank_def)+

lemma rank_total: "workload (rank False) us \<le> workload (rank True) us"
  "workload (rank True) us \<le> workload (rank False) us + 6 * length us"
proof (induction us)
  case (Cons u us)
  { case 1 with Cons rank_empty [of u] show ?case by (simp add: workload_def) }
  { case 2 with Cons rank_empty [of u] show ?case by (simp add: workload_def) }
qed (simp_all add: workload_def)

section \<open>One step\<close>

text \<open>
  A step of thread \<open>t\<close>, which is not in the list of the condition variable: something of its own, going to sleep, waking one
  thread or all, taking a value out, putting one in.
\<close>

definition own_step :: "msd_channel \<Rightarrow> msd_user \<Rightarrow> msd_channel \<Rightarrow> msd_user \<Rightarrow> bool" where
  "own_step s u s' u' \<longleftrightarrow> cnd s' = cnd s \<and> items s' = items s \<and> \<not> asleep u' \<and> rank (items s \<noteq> []) u' < rank (items s \<noteq> []) u \<and>
     \<not> has_read u \<and> (writing u' \<longrightarrow> writing u \<or> \<not> is_closed_flag s)"

definition sleep_step :: "nat \<Rightarrow> msd_channel \<Rightarrow> msd_user \<Rightarrow> msd_channel \<Rightarrow> msd_user \<Rightarrow> bool" where
  "sleep_step t s u s' u' \<longleftrightarrow> cnd s' = cnd s @ [t] \<and> items s' = items s \<and> asleep u' \<and>
     rank (items s \<noteq> []) u' \<le> rank (items s \<noteq> []) u \<and> \<not> has_read u \<and> mcalls u' = mcalls u \<and>
     (is_closed_flag s \<longrightarrow> length (items s) = 3 \<and> writing u \<and> writing u')"

definition notify_step :: "msd_channel \<Rightarrow> msd_user \<Rightarrow> msd_channel \<Rightarrow> msd_user \<Rightarrow> bool" where
  "notify_step s u s' u' \<longleftrightarrow> (\<exists>v. cnd s' = remove1 v (cnd s) \<and> (cnd s \<noteq> [] \<longrightarrow> v \<in> set (cnd s))) \<and> items s' = items s \<and> \<not> asleep u' \<and>
     rank (items s \<noteq> []) u' + 1 < rank (items s \<noteq> []) u \<and> \<not> writing u'"

definition close_step :: "msd_channel \<Rightarrow> msd_user \<Rightarrow> msd_channel \<Rightarrow> msd_user \<Rightarrow> bool" where
  "close_step s u s' u' \<longleftrightarrow> cnd s' = [] \<and> items s' = items s \<and> \<not> asleep u' \<and> rank (items s \<noteq> []) u' + 5 < rank (items s \<noteq> []) u \<and>
     mplace u = CloseNotify \<and> \<not> writing u' \<and> mcalls u' = []"

definition read_step :: "msd_channel \<Rightarrow> msd_user \<Rightarrow> msd_channel \<Rightarrow> msd_user \<Rightarrow> bool" where
  "read_step s u s' u' \<longleftrightarrow> cnd s' = cnd s \<and> items s \<noteq> [] \<and> items s' = tl (items s) \<and> \<not> asleep u' \<and>
     rank (items s' \<noteq> []) u' < rank (items s' \<noteq> []) u + 6 \<and> has_read u' \<and> \<not> has_read u \<and> \<not> writing u'"

definition push_step :: "msd_channel \<Rightarrow> msd_user \<Rightarrow> msd_channel \<Rightarrow> msd_user \<Rightarrow> bool" where
  "push_step s u s' u' \<longleftrightarrow> cnd s' = cnd s \<and> (\<exists>v. items s' = items s @ [v]) \<and> length (items s) < 3 \<and> \<not> asleep u' \<and>
     rank True u' + 36 < rank True u \<and> writing u \<and> \<not> writing u' \<and> \<not> has_read u"

definition msd_step :: "nat \<Rightarrow> msd_channel \<Rightarrow> msd_user \<Rightarrow> msd_channel \<Rightarrow> msd_user \<Rightarrow> bool" where
  "msd_step t s u s' u' \<longleftrightarrow> t \<notin> set (cnd s) \<and> role t u' \<and> cap_of s' = 3 \<and>
     (is_closed_flag s' \<longleftrightarrow> is_closed_flag s \<or> mplace u' = CloseNotify) \<and>
     ((t = 1 \<or> t = 3) \<and> mcalls u' = [] \<longrightarrow> items s = [] \<and> is_closed_flag s \<and> own_step s u s' u') \<and>
     (t = 4 \<longrightarrow> (mplace u' = CloseNotify \<and> mcalls u' \<noteq> [] \<or> close_step s u s' u')) \<and>
     (own_step s u s' u' \<or> sleep_step t s u s' u' \<or> notify_step s u s' u' \<or> close_step s u s' u' \<or> read_step s u s' u' \<or>
      push_step s u s' u')"

lemmas msd_steps = own_step_def sleep_step_def notify_step_def close_step_def read_step_def push_step_def

lemma notify_cases: "s' \<in> set (msd_notify s) \<Longrightarrow>
    \<exists>ws. s' = s\<lparr>cnd := ws\<rparr> \<and> (\<exists>v. ws = remove1 v (cnd s) \<and> (cnd s \<noteq> [] \<longrightarrow> v \<in> set (cnd s)))"
  by (auto simp: msd_notify_def notify_one_def split: if_splits)

lemma closer_step:
  assumes st: "(s', u') \<in> set (msd_thread False 4 s u)" and ok: "closer_ok u" and c: "cap_of s = 3"
    and w: "4 \<in> set (cnd s) \<longrightarrow> asleep u"
  shows "msd_step 4 s u s' u'"
proof -
  consider (over) "mcalls u = []" "mplace u = Ready" | (close) "mcalls u = [CloseIt]" "mplace u = Ready"
    | (wake) "mcalls u = [CloseIt]" "mplace u = CloseNotify" using ok by (auto simp: closer_ok_def)
  then show ?thesis
  proof cases
    case over
    with st show ?thesis by (simp add: msd_thread_def)
  next
    case close
    then have e: "s' = s\<lparr>is_closed_flag := True\<rparr>" "u' = u\<lparr>mplace := CloseNotify\<rparr>" using st by (simp_all add: msd_thread_def)
    have "own_step s u s' u'" using close by (simp add: e own_step_def asleep_def rank_def has_read_def writing_def)
    then show ?thesis using close c w by (simp add: e msd_step_def role_def closer_ok_def asleep_def)
  next
    case wake
    then have e: "s' = s\<lparr>cnd := []\<rparr>" "u' = msd_return Closed u" using st by (simp_all add: msd_thread_def notify_all_def)
    have "close_step s u s' u'" using wake by (simp add: e close_step_def asleep_def rank_def writing_def msd_return_def)
    then show ?thesis using wake c w by (simp add: e msd_step_def role_def closer_ok_def asleep_def msd_return_def)
  qed
qed

lemma producer_step:
  assumes st: "(s', u') \<in> set (msd_thread False t s u)" and ok: "producer_ok u" and c: "cap_of s = 3"
    and room: "length (items s) \<le> 3" and w: "t \<in> set (cnd s) \<longrightarrow> asleep u" and t: "t \<noteq> 1" "t \<noteq> 3" "t \<noteq> 4"
  shows "msd_step t s u s' u'"
proof -
  have kk [simp]: "\<exists>m. Produce # replicate j Produce = replicate m Produce" for j by (rule exI [of _ "Suc j"]) simp
  obtain k where k: "mcalls u = replicate k Produce" using ok by (auto simp: producer_ok_def)
  have role: "role t u' \<longleftrightarrow> producer_ok u'" using t by (simp add: role_def)
  have R: "msd_step t s u s' u'" if "t \<notin> set (cnd s)" "producer_ok u'" "cap_of s' = 3" "is_closed_flag s' = is_closed_flag s"
    "mplace u' \<noteq> CloseNotify"
    "own_step s u s' u' \<or> sleep_step t s u s' u' \<or> notify_step s u s' u' \<or> push_step s u s' u'"
    using that t by (auto simp: msd_step_def role)
  show ?thesis
  proof (cases "mplace u")
    case Ready
    with st k obtain j where j: "k = Suc j" by (cases k) (auto simp: msd_thread_def)
    then have e: "s' = s\<lparr>messagesCount := messagesCount s + 1\<rparr>" "u' = u\<lparr>mplace := WriteCheck (messagesCount s)\<rparr>"
      using st k Ready by (simp_all add: msd_thread_def)
    have "own_step s u s' u'" using Ready k j by (simp add: e own_step_def asleep_def rank_def has_read_def writing_def)
    then show ?thesis using Ready c w k j by (intro R) (auto simp: e producer_ok_def asleep_def producing_def)
  next
    case (WriteCheck v)
    with ok k obtain j where j: "k = Suc j" by (cases k) (auto simp: producer_ok_def)
    have e: "s' = s" "u' = (if is_closed_flag s then u\<lparr>mcalls := [], mplace := Ready, mresults := mresults u @ [WriteThrows]\<rparr>
               else u\<lparr>mplace := WriteLock v False\<rparr>)"
      using st WriteCheck by (simp_all add: msd_thread_def)
    have "own_step s u s' u'" using WriteCheck k j by (simp add: e own_step_def asleep_def rank_def has_read_def writing_def)
    moreover have "producer_ok u'" using k j by (auto simp: e producer_ok_def producing_def intro: exI [of _ "0 :: nat"])
    ultimately show ?thesis using WriteCheck c w by (intro R) (auto simp: e asleep_def)
  next
    case (WriteLock v b)
    with ok k obtain j where j: "k = Suc j" by (cases k) (auto simp: producer_ok_def)
    have st': "(s', u') \<in> set (write_section False t v b s u)" using st WriteLock by (simp add: msd_thread_def)
    then have aw: "msd_awake False t b s" by (auto simp: write_section_def split: if_splits)
    then have nt: "t \<notin> set (cnd s)" using w WriteLock by (auto simp: msd_awake_def asleep_def)
    show ?thesis
    proof (cases "length (items s) = 3")
      case True
      then have e: "s' = msd_wait t s" "u' = u\<lparr>mplace := WriteLock v True\<rparr>" using st' aw c by (simp_all add: write_section_def)
      have "sleep_step t s u s' u'" using WriteLock nt True k j
        by (simp add: e sleep_step_def msd_wait_def remove1_idem asleep_def rank_def has_read_def writing_def)
      then show ?thesis using nt c k j by (intro R) (auto simp: e producer_ok_def producing_def msd_wait_def)
    next
      case False
      then have e: "s' = msd_put v (msd_wake t s)" "u' = u\<lparr>mplace := WriteNotify\<rparr>"
        using st' aw c room by (simp_all add: write_section_def)
      have "push_step s u s' u'" using WriteLock nt False room k j
        by (simp add: e push_step_def msd_put_def msd_wake_def remove1_idem asleep_def rank_def has_read_def writing_def)
      then show ?thesis using nt c k j by (intro R) (auto simp: e producer_ok_def producing_def msd_put_def msd_wake_def)
    qed
  next
    case WriteNotify
    with ok k obtain j where j: "k = Suc j" by (cases k) (auto simp: producer_ok_def)
    obtain ws v where e: "s' = s\<lparr>cnd := ws\<rparr>" "ws = remove1 v (cnd s)" "cnd s \<noteq> [] \<longrightarrow> v \<in> set (cnd s)" "u' = msd_return Wrote u"
      using st WriteNotify by (auto simp: msd_thread_def dest!: notify_cases)
    have "notify_step s u s' u'" using WriteNotify e(3) k j
      by (cases j) (auto simp: e(1,2,4) notify_step_def asleep_def rank_def writing_def msd_return_def)
    then show ?thesis using WriteNotify c w k j by (intro R) (auto simp: e(1,4) producer_ok_def asleep_def msd_return_def)
  qed (use ok in \<open>auto simp: producer_ok_def producing_def\<close>)
qed

text \<open>The outcomes of a consumer: it returns when the channel is closed and empty, and else goes on.\<close>

definition consumer_move :: "nat \<Rightarrow> msd_channel \<Rightarrow> msd_user \<Rightarrow> msd_channel \<Rightarrow> msd_user \<Rightarrow> bool" where
  "consumer_move t s u s' u' \<longleftrightarrow> t \<notin> set (cnd s) \<and> cap_of s' = 3 \<and> is_closed_flag s' = is_closed_flag s \<and>
     (mcalls u' = [] \<and> mplace u' = Ready \<and> items s = [] \<and> is_closed_flag s \<and> own_step s u s' u' \<or>
      mcalls u' = [Iterate] \<and> consuming (mplace u') \<and>
      (own_step s u s' u' \<or> sleep_step t s u s' u' \<or> notify_step s u s' u' \<or> read_step s u s' u'))"

lemma consumer_move_step: "consumer_move t s u s' u' \<Longrightarrow> t = 1 \<or> t = 3 \<Longrightarrow> msd_step t s u s' u'"
  by (auto simp: msd_step_def consumer_move_def role_def consumer_ok_def consuming_def)

lemmas place_defs = asleep_def rank_def has_read_def writing_def

lemma awake_not_waiting: "msd_awake False t b s \<Longrightarrow> t \<in> set (cnd s) \<longrightarrow> b \<Longrightarrow> t \<notin> set (cnd s)"
  by (auto simp: msd_awake_def)

lemma consumer_not_equal:
  assumes st: "(s', u') \<in> set (not_equal_section False t b s u)" and u: "mplace u = NotEqual b" "mcalls u = [Iterate]"
    and c: "cap_of s = 3" and w: "t \<in> set (cnd s) \<longrightarrow> asleep u"
  shows "consumer_move t s u s' u'"
proof -
  from st have aw: "msd_awake False t b s" by (auto simp: not_equal_section_def split: if_splits)
  have nt: "t \<notin> set (cnd s)" using w u(1) by (intro awake_not_waiting [OF aw]) (simp add: asleep_def)
  consider (sleep) "items s = []" "\<not> is_closed_flag s" | (over) "items s = []" "is_closed_flag s" | (some) "items s \<noteq> []" by blast
  then show ?thesis
  proof cases
    case sleep
    then have e: "s' = msd_wait t s" "u' = u\<lparr>mplace := NotEqual True\<rparr>" using st aw by (simp_all add: not_equal_section_def)
    have "sleep_step t s u s' u'" using sleep nt u by (simp add: e sleep_step_def msd_wait_def remove1_idem place_defs)
    then show ?thesis using nt c u by (simp add: consumer_move_def e consuming_def msd_wait_def)
  next
    case over
    then have e: "s' = msd_wake t s" "u' = msd_return Closed u" using st aw by (simp_all add: not_equal_section_def)
    have "own_step s u s' u'" using over nt u by (simp add: e own_step_def msd_wake_def remove1_idem msd_return_def place_defs)
    then show ?thesis using nt c u over by (simp add: consumer_move_def e msd_wake_def msd_return_def)
  next
    case some
    then have e: "s' = msd_wake t s" "u' = u\<lparr>mplace := ReadCheckClosed\<rparr>" using st aw by (simp_all add: not_equal_section_def)
    have "own_step s u s' u'" using some nt u by (simp add: e own_step_def msd_wake_def remove1_idem place_defs)
    then show ?thesis using nt c u by (simp add: consumer_move_def e msd_wake_def consuming_def)
  qed
qed

lemma consumer_reads:
  assumes st: "(s', u') \<in> set (read_section False t b s u)" and u: "mplace u = ReadLock b" "mcalls u = [Iterate]"
    and c: "cap_of s = 3" and w: "t \<in> set (cnd s) \<longrightarrow> asleep u"
  shows "consumer_move t s u s' u'"
proof -
  from st have aw: "msd_awake False t b s" by (auto simp: read_section_def split: if_splits)
  have nt: "t \<notin> set (cnd s)" using w u(1) by (intro awake_not_waiting [OF aw]) (simp add: asleep_def)
  consider (sleep) "items s = []" "\<not> is_closed_flag s" | (over) "items s = []" "is_closed_flag s" | (some) v q where "items s = v # q"
    by (cases "items s") auto
  then show ?thesis
  proof cases
    case sleep
    then have e: "s' = msd_wait t s" "u' = u\<lparr>mplace := ReadLock True\<rparr>" using st aw by (simp_all add: read_section_def)
    have "sleep_step t s u s' u'" using sleep nt u by (simp add: e sleep_step_def msd_wait_def remove1_idem place_defs)
    then show ?thesis using nt c u by (simp add: consumer_move_def e consuming_def msd_wait_def)
  next
    case over
    then have e: "s' = msd_wake t s" "u' = u\<lparr>mplace := ReadNotify\<rparr>" using st aw by (simp_all add: read_section_def)
    have "own_step s u s' u'" using over nt u by (simp add: e own_step_def msd_wake_def remove1_idem place_defs)
    then show ?thesis using nt c u by (simp add: consumer_move_def e msd_wake_def consuming_def)
  next
    case some
    then have e: "s' = (msd_wake t s)\<lparr>items := q, history := history s @ [Taken v]\<rparr>" "u' = u\<lparr>var := v, mplace := ReadNotify\<rparr>"
      using st aw by (simp_all add: read_section_def)
    have "read_step s u s' u'" using some nt u by (simp add: e read_step_def msd_wake_def remove1_idem place_defs)
    then show ?thesis using nt c u by (simp add: consumer_move_def e msd_wake_def consuming_def)
  qed
qed

lemma consumer_step:
  assumes st: "(s', u') \<in> set (msd_thread False t s u)" and ok: "consumer_ok u" and c: "cap_of s = 3"
    and w: "t \<in> set (cnd s) \<longrightarrow> asleep u" and t: "t = 1 \<or> t = 3"
  shows "msd_step t s u s' u'"
proof -
  have it: "mcalls u = [Iterate]" "consuming (mplace u)" using st ok by (auto simp: consumer_ok_def msd_thread_def)
  have "consumer_move t s u s' u'"
  proof (cases "mplace u")
    case Ready
    then have e: "s' = s" "u' = u\<lparr>var := 0, mplace := NotEqual False\<rparr>" using st it by (simp_all add: msd_thread_def)
    have "own_step s u s' u'" using Ready it by (simp add: e own_step_def place_defs)
    then show ?thesis using Ready c w it by (auto simp: consumer_move_def e consuming_def asleep_def)
  next
    case (NotEqual b)
    then show ?thesis using st it c w by (intro consumer_not_equal) (simp_all add: msd_thread_def)
  next
    case ReadCheckClosed
    then have e: "s' = s" "u' = u\<lparr>mplace := if is_closed_flag s then ReadCheckEmpty else ReadLock False\<rparr>"
      using st by (simp_all add: msd_thread_def)
    have "own_step s u s' u'" using ReadCheckClosed it by (simp add: e own_step_def place_defs)
    then show ?thesis using ReadCheckClosed c w it by (auto simp: consumer_move_def e consuming_def asleep_def)
  next
    case ReadCheckEmpty
    then have e: "s' = s" "u' = (if items s = [] then u\<lparr>mplace := NotEqual False, mresults := mresults u @ [Visited (var u)]\<rparr>
        else u\<lparr>mplace := ReadLock False\<rparr>)"
      using st it by (simp_all add: msd_thread_def read_returns_def)
    have "own_step s u s' u'" using ReadCheckEmpty it by (simp add: e own_step_def place_defs)
    then show ?thesis using ReadCheckEmpty c w it by (auto simp: consumer_move_def e consuming_def asleep_def)
  next
    case (ReadLock b)
    then show ?thesis using st it c w by (intro consumer_reads) (simp_all add: msd_thread_def)
  next
    case ReadNotify
    obtain ws v where e: "s' = s\<lparr>cnd := ws\<rparr>" "ws = remove1 v (cnd s)" "cnd s \<noteq> [] \<longrightarrow> v \<in> set (cnd s)"
      "u' = u\<lparr>mplace := NotEqual False, mresults := mresults u @ [Visited (var u)]\<rparr>"
      using st ReadNotify it by (auto simp: msd_thread_def read_returns_def dest!: notify_cases)
    have "notify_step s u s' u'" using ReadNotify e(3) it by (auto simp: e(1,2,4) notify_step_def place_defs)
    then show ?thesis using ReadNotify c w it by (auto simp: consumer_move_def e(1,4) consuming_def asleep_def)
  qed (use it in \<open>auto simp: consuming_def\<close>)
  then show ?thesis using t by (rule consumer_move_step)
qed

lemma msd_step_role:
  assumes "(s', u') \<in> set (msd_thread False t s u)" "role t u" "cap_of s = 3" "length (items s) \<le> 3"
    "t \<in> set (cnd s) \<longrightarrow> asleep u"
  shows "msd_step t s u s' u'"
  using assms closer_step producer_step consumer_step by (auto simp: role_def split: if_splits)

section \<open>All threads\<close>

text \<open>
  When the main thread has returned, only producers sleep, and a producer only sleeps while there are more values, or
  notifications to come, than sleepers. When both consumers have returned, the queue has no more than two values, counting
  those that are about to be put in.
\<close>

definition after_close :: "msd_channel \<Rightarrow> msd_user list \<Rightarrow> bool" where
  "after_close s us \<longleftrightarrow> (\<forall>t \<in> set (cnd s). writing (us ! t)) \<and>
     (cnd s \<noteq> [] \<longrightarrow> int (length (cnd s)) + 1 \<le> int (length (items s)) + cnt has_read us)"

definition consumers_done :: "msd_user list \<Rightarrow> bool" where
  "consumers_done us \<longleftrightarrow> mcalls (us ! 1) = [] \<and> mcalls (us ! 3) = []"

definition msd_inv :: "msd_channel \<Rightarrow> msd_user list \<Rightarrow> bool" where
  "msd_inv s us \<longleftrightarrow> length us = 5 \<and> cap_of s = 3 \<and> length (items s) \<le> 3 \<and> (\<forall>t < 5. role t (us ! t)) \<and>
     distinct (cnd s) \<and> (\<forall>t \<in> set (cnd s). t < 5 \<and> asleep (us ! t)) \<and>
     (is_closed_flag s \<longleftrightarrow> mplace (us ! 4) = CloseNotify \<or> mcalls (us ! 4) = []) \<and>
     (mcalls (us ! 4) = [] \<longrightarrow> after_close s us) \<and>
     (consumers_done us \<longrightarrow> is_closed_flag s \<and> int (length (items s)) + cnt writing us \<le> 2)"

definition msd_work :: "msd_channel \<Rightarrow> msd_user list \<Rightarrow> nat" where
  "msd_work s us = workload (rank (items s \<noteq> [])) us + 6 * length (items s) + (5 - length (cnd s))"

lemma writing_role: "role t u \<Longrightarrow> writing u \<Longrightarrow> t \<noteq> 1 \<and> t \<noteq> 3 \<and> t \<noteq> 4"
  by (auto simp: role_def writing_def consumer_ok_def closer_ok_def consuming_def split: msd_place.splits if_splits)

lemma five_users: "length us = 5 \<Longrightarrow> \<exists>a b c d e. us = [a, b, c, d, e]"
  by (auto simp: numeral_eq_Suc length_Suc_conv)

lemma two_writers:
  assumes "length us = 5" "\<forall>t < 5. role t (us ! t)"
  shows "cnt writing us \<le> 2"
proof -
  obtain a b c d e where us: "us = [a, b, c, d, e]" using five_users [OF assms(1)] by blast
  have "role 1 b" "role 3 d" "role 4 e"
    using assms(2) [rule_format, of 1] assms(2) [rule_format, of 3] assms(2) [rule_format, of 4] us by simp_all
  then have "\<not> writing b" "\<not> writing d" "\<not> writing e" using writing_role by blast+
  then show ?thesis by (simp add: us)
qed

lemma two_sleepers:
  assumes "\<forall>t < 5. role t (us ! t)" "distinct ws" "\<forall>t \<in> set ws. t < 5 \<and> writing (us ! t)"
  shows "length ws \<le> 2"
proof -
  have "t \<in> {0, 2}" if "t \<in> set ws" for t
  proof -
    from assms(3) that have t: "t < 5" and w: "writing (us ! t)" by simp_all
    from writing_role [OF assms(1) [rule_format, OF t] w] t have "t = 0 \<or> t = 2" by arith
    then show ?thesis by simp
  qed
  then have "set ws \<subseteq> {0, 2}" by blast
  then have "card (set ws) \<le> card {0, 2 :: nat}" by (intro card_mono) simp_all
  with assms(2) show ?thesis by (simp add: distinct_card)
qed

lemma five_sleepers:
  assumes "distinct ws" "\<forall>t \<in> set ws. t < (5 :: nat)"
  shows "length ws \<le> 5"
proof -
  have "set ws \<subseteq> {..<5}" using assms(2) by auto
  then have "card (set ws) \<le> 5" using card_mono [of "{..<5 :: nat}"] by fastforce
  with assms(1) show ?thesis by (simp add: distinct_card)
qed

lemma step_work:
  assumes st: "msd_step t s (us ! t) s' u'" and t: "t < length us" and us: "length us = 5"
    and cv: "length (cnd s) \<le> 5" "length (cnd s') \<le> 5"
  shows "msd_work s' (us[t := u']) < msd_work s us"
proof -
  let ?u = "us ! t" and ?e = "items s \<noteq> []" and ?e' = "items s' \<noteq> []"
  note U = workload_upd [OF t, where l = u']
  have "own_step s ?u s' u' \<or> sleep_step t s ?u s' u' \<or> notify_step s ?u s' u' \<or> close_step s ?u s' u' \<or> read_step s ?u s' u' \<or>
      push_step s ?u s' u'" using st by (simp add: msd_step_def)
  then consider (own) "own_step s ?u s' u'" | (sleep) "sleep_step t s ?u s' u'" | (notify) "notify_step s ?u s' u'"
    | (all) "close_step s ?u s' u'" | (read) "read_step s ?u s' u'" | (push) "push_step s ?u s' u'" by blast
  then show ?thesis
  proof cases
    case own
    then show ?thesis using U [of "rank ?e"] by (simp add: own_step_def msd_work_def)
  next
    case sleep
    then have "rank ?e u' \<le> rank ?e ?u" "items s' = items s" "length (cnd s') = length (cnd s) + 1"
      by (simp_all add: sleep_step_def)
    then show ?thesis using U [of "rank ?e"] cv unfolding msd_work_def by simp
  next
    case notify
    then obtain v where "cnd s' = remove1 v (cnd s)" by (auto simp: notify_step_def)
    then have "length (cnd s) \<le> length (cnd s') + 1" by (auto simp: length_remove1)
    moreover have "rank ?e u' + 1 < rank ?e ?u" "items s' = items s" using notify by (simp_all add: notify_step_def)
    ultimately show ?thesis using U [of "rank ?e"] cv unfolding msd_work_def by simp
  next
    case all
    then have "rank ?e u' + 5 < rank ?e ?u" "items s' = items s" by (simp_all add: close_step_def)
    then show ?thesis using U [of "rank ?e"] cv unfolding msd_work_def by simp
  next
    case read
    have "workload (rank ?e') us \<le> workload (rank True) us" using rank_total(1) [of us] by (cases ?e') simp_all
    moreover have "length (items s) = length (items s') + 1" using read by (cases "items s") (simp_all add: read_step_def)
    moreover have "rank ?e' u' < rank ?e' ?u + 6" "cnd s' = cnd s" "?e"
      using read unfolding read_step_def by blast+
    ultimately show ?thesis using U [of "rank ?e'"] unfolding msd_work_def by simp
  next
    case push
    have "workload (rank True) us \<le> workload (rank ?e) us + 30" using rank_total(2) [of us] us by (cases ?e) simp_all
    moreover have "length (items s') = length (items s) + 1" "?e'" using push by (auto simp: push_step_def)
    moreover have "rank True u' + 36 < rank True ?u" "cnd s' = cnd s" using push by (simp_all add: push_step_def)
    ultimately show ?thesis using U [of "rank True"] unfolding msd_work_def by simp
  qed
qed

lemma nth_other: "j \<noteq> t \<Longrightarrow> us[t := u'] ! j = us ! j"
  by simp

lemma closed_step:
  assumes I: "after_close s us" and st: "msd_step t s (us ! t) s' u'" and t: "t < length us" and us: "length us = 5"
    and cl: "is_closed_flag s" and roles: "\<forall>j < 5. role j (us[t := u'] ! j)"
    and cv: "distinct (cnd s')" "\<forall>j \<in> set (cnd s'). j < 5"
  shows "after_close s' (us[t := u'])"
proof -
  let ?u = "us ! t" and ?us = "us[t := u']"
  have nt: "t \<notin> set (cnd s)" using st by (simp add: msd_step_def)
  have w: "\<forall>j \<in> set (cnd s). writing (us ! j)" and n: "cnd s \<noteq> [] \<longrightarrow> int (length (cnd s)) + 1 \<le> int (length (items s)) + cnt has_read us"
    using I by (simp_all add: after_close_def)
  have w': "\<forall>j \<in> set (cnd s). writing (?us ! j)" using w nt nth_other by metis
  have C: "cnt has_read ?us = cnt has_read us - of_bool (has_read ?u) + of_bool (has_read u')" by (rule cnt_upd [OF t])
  have "own_step s ?u s' u' \<or> sleep_step t s ?u s' u' \<or> notify_step s ?u s' u' \<or> close_step s ?u s' u' \<or> read_step s ?u s' u' \<or>
      push_step s ?u s' u'" using st by (simp add: msd_step_def)
  then consider (own) "own_step s ?u s' u'" | (sleep) "sleep_step t s ?u s' u'" | (notify) "notify_step s ?u s' u'"
    | (all) "close_step s ?u s' u'" | (read) "read_step s ?u s' u'" | (push) "push_step s ?u s' u'" by blast
  then show ?thesis
  proof cases
    case own
    then show ?thesis using w' n C by (auto simp: own_step_def after_close_def)
  next
    case sleep
    then have s: "cnd s' = cnd s @ [t]" "items s' = items s" "length (items s) = 3" "writing u'" using cl by (simp_all add: sleep_step_def)
    then have W: "\<forall>j \<in> set (cnd s'). writing (?us ! j)" using w' t by simp
    then have "length (cnd s') \<le> 2" using two_sleepers [OF roles cv(1)] cv(2) by blast
    then show ?thesis using W s cnt_nonneg [of has_read ?us] by (simp add: after_close_def)
  next
    case notify
    then obtain v where v: "cnd s' = remove1 v (cnd s)" "cnd s \<noteq> [] \<longrightarrow> v \<in> set (cnd s)" "items s' = items s"
      by (auto simp: notify_step_def)
    have "length (cnd s) = length (cnd s') + 1" if "cnd s' \<noteq> []"
    proof -
      from that v(1) have "cnd s \<noteq> []" by auto
      with v(1,2) show ?thesis by (simp add: length_remove1 length_pos_if_in_set)
    qed
    moreover have "\<forall>j \<in> set (cnd s'). writing (?us ! j)" using w' v(1) set_remove1_subset [of v "cnd s"] by auto
    moreover have "cnd s' \<noteq> [] \<longrightarrow> cnd s \<noteq> []" using v(1) by auto
    ultimately show ?thesis using n C v(3) by (auto simp: after_close_def)
  next
    case all
    then show ?thesis by (simp add: close_step_def after_close_def)
  next
    case read
    then have "length (items s) = length (items s') + 1" by (cases "items s") (simp_all add: read_step_def)
    moreover have "cnd s' = cnd s" "has_read u'" "\<not> has_read ?u" using read by (simp_all add: read_step_def)
    ultimately show ?thesis using w' n C unfolding after_close_def by simp
  next
    case push
    then have "length (items s') = length (items s) + 1" by (auto simp: push_step_def)
    moreover have "cnd s' = cnd s" "\<not> has_read ?u" using push by (simp_all add: push_step_def)
    ultimately show ?thesis using w' n C unfolding after_close_def by auto
  qed
qed

lemma msd_inv_step:
  assumes I: "msd_inv s us" and t: "t < length us" and out: "(s', u') \<in> set (msd_thread False t s (us ! t))"
  shows "msd_inv s' (us[t := u']) \<and> msd_work s' (us[t := u']) < msd_work s us"
proof -
  let ?u = "us ! t" and ?us = "us[t := u']"
  have us: "length us = 5" and cap: "cap_of s = 3" "length (items s) \<le> 3" and roles: "\<forall>j < 5. role j (us ! j)"
    and cv: "distinct (cnd s)" "\<forall>j \<in> set (cnd s). j < 5 \<and> asleep (us ! j)"
    and cl: "is_closed_flag s \<longleftrightarrow> mplace (us ! 4) = CloseNotify \<or> mcalls (us ! 4) = []"
    and af: "mcalls (us ! 4) = [] \<longrightarrow> after_close s us"
    and cd: "consumers_done us \<longrightarrow> is_closed_flag s \<and> int (length (items s)) + cnt writing us \<le> 2"
    using I unfolding msd_inv_def by blast+
  have st: "msd_step t s ?u s' u'" using msd_step_role [OF out] roles t us cap cv(2) by simp
  then have nt: "t \<notin> set (cnd s)" and r: "role t u'" and cap': "cap_of s' = 3"
    and cl': "is_closed_flag s' \<longleftrightarrow> is_closed_flag s \<or> mplace u' = CloseNotify"
    and over: "(t = 1 \<or> t = 3) \<and> mcalls u' = [] \<longrightarrow> items s = [] \<and> is_closed_flag s \<and> own_step s ?u s' u'"
    and four: "t = 4 \<longrightarrow> mplace u' = CloseNotify \<and> mcalls u' \<noteq> [] \<or> close_step s ?u s' u'"
    and steps: "own_step s ?u s' u' \<or> sleep_step t s ?u s' u' \<or> notify_step s ?u s' u' \<or> close_step s ?u s' u' \<or> read_step s ?u s' u' \<or>
      push_step s ?u s' u'" by (simp_all add: msd_step_def)
  have roles': "\<forall>j < 5. role j (?us ! j)" using roles r t us by (auto simp: nth_list_update)
  have len': "length (items s') \<le> 3" using steps cap(2) by (auto simp: msd_steps)
  have others: "\<forall>j \<in> set ws. j < 5 \<and> asleep (?us ! j)" if "set ws \<subseteq> set (cnd s)" for ws
    using that cv(2) nt nth_other by (metis subsetD)
  have cv': "distinct (cnd s') \<and> (\<forall>j \<in> set (cnd s'). j < 5 \<and> asleep (?us ! j))"
  proof -
    consider (same) "cnd s' = cnd s" | (sleep) "cnd s' = cnd s @ [t]" "asleep u'" | (notify) v where "cnd s' = remove1 v (cnd s)"
      | (none) "cnd s' = []" using steps by (auto simp: msd_steps)
    then show ?thesis
    proof cases
      case same
      then show ?thesis using cv(1) others [of "cnd s"] by simp
    next
      case sleep
      then show ?thesis using cv(1) others [of "cnd s"] nt t us by simp
    next
      case (notify v)
      then show ?thesis using cv(1) others [of "remove1 v (cnd s)"] by (simp add: distinct_remove1 set_remove1_subset)
    qed simp
  qed
  have closed: "is_closed_flag s' \<longleftrightarrow> mplace (?us ! 4) = CloseNotify \<or> mcalls (?us ! 4) = []"
  proof (cases "t = 4")
    case True
    have "closer_ok u'" using r True by (simp add: role_def)
    then show ?thesis using cl' cl four True t by (auto simp: close_step_def closer_ok_def)
  next
    case False
    then have "mplace u' \<noteq> CloseNotify"
      using r by (auto simp: role_def consumer_ok_def producer_ok_def consuming_def producing_def split: if_splits)
    then show ?thesis using False cl cl' by simp
  qed
  have "after_close s' ?us" if d: "mcalls (?us ! 4) = []"
  proof (cases "t = 4")
    case True
    then have "close_step s ?u s' u'" using four d t by auto
    then show ?thesis by (simp add: close_step_def after_close_def)
  next
    case False
    then have "mcalls (us ! 4) = []" using d by simp
    then show ?thesis using closed_step [OF _ st t us _ roles'] af cl cv' by blast
  qed
  moreover have "is_closed_flag s' \<and> int (length (items s')) + cnt writing ?us \<le> 2" if d: "consumers_done ?us"
  proof (cases "consumers_done us")
    case True
    then have T: "is_closed_flag s" "int (length (items s)) + cnt writing us \<le> 2" using cd by simp_all
    have C: "cnt writing ?us = cnt writing us - of_bool (writing ?u) + of_bool (writing u')" by (rule cnt_upd [OF t])
    have "int (length (items s')) + cnt writing ?us \<le> int (length (items s)) + cnt writing us"
      using steps T(1) C by (auto simp: msd_steps)
    with T cl' show ?thesis by simp
  next
    case False
    then have "(t = 1 \<or> t = 3) \<and> mcalls u' = []" using d t us by (auto simp: consumers_done_def nth_list_update split: if_splits)
    then have "items s' = []" "is_closed_flag s" using over by (auto simp: own_step_def)
    then show ?thesis using cl' two_writers [of ?us] us roles' by simp
  qed
  moreover have "msd_work s' ?us < msd_work s us"
    using step_work [OF st t us] five_sleepers cv cv' by blast
  ultimately show ?thesis using us cap' len' roles' cv' closed unfolding msd_inv_def by simp
qed

interpretation msd_runs: thread_term "msd_thread False" msd_main msd_inv msd_work
proof
  show "msd_inv (fst msd_main) (snd msd_main)"
    by (auto simp: msd_inv_def msd_main_def msd_init_def msd_kBufferSize_def role_def consumer_ok_def closer_ok_def producer_ok_def
        consuming_def consumers_done_def numeral_eq_Suc less_Suc_eq)
qed (use msd_inv_step in blast)+

section \<open>It ends\<close>

text \<open>A thread that cannot go on has returned or sleeps in a wait of which the channel knows.\<close>

lemma msd_blocked:
  assumes "msd_thread False t s u = []" "role t u" "cap_of s = 3" "length (items s) \<le> 3"
  shows "mcalls u = [] \<and> mplace u = Ready \<or> t \<in> set (cnd s)"
proof (cases "mplace u")
  case Ready
  with assms(1) show ?thesis by (cases "mcalls u"; cases "hd (mcalls u)") (auto simp: msd_thread_def)
qed (use assms in \<open>auto simp: msd_thread_def write_section_def read_section_def not_equal_section_def msd_awake_def msd_notify_def
  notify_one_def split: if_splits list.splits\<close>)

text \<open>
  Claim C13. Without spurious wakeups the program ends, whatever the interleaving: no run is infinite, and when no thread can go
  on all five have returned, the channel is closed, and what was written is what the consumers took out, in order, followed
  by at most two portions that were accepted too late.
\<close>

theorem msd_program_ends:
  "always_ends (msd_thread False) msd_main (\<lambda>s us. list_all (\<lambda>u. mcalls u = []) us \<and> is_closed_flag s \<and>
     accepted (history s) = taken_out (history s) @ items s \<and> length (items s) \<le> 2)"
proof (rule msd_runs.always_endsI)
  fix s us assume r: "reach (msd_thread False) msd_main (s, us)" and I: "msd_inv s us" and st: "stuck (msd_thread False) (s, us)"
  have us: "length us = 5" and cap: "cap_of s = 3" "length (items s) \<le> 3" and roles: "\<forall>j < 5. role j (us ! j)"
    and cv: "\<forall>j \<in> set (cnd s). j < 5 \<and> asleep (us ! j)"
    and cl: "is_closed_flag s \<longleftrightarrow> mplace (us ! 4) = CloseNotify \<or> mcalls (us ! 4) = []"
    and af: "mcalls (us ! 4) = [] \<longrightarrow> after_close s us"
    and cd: "consumers_done us \<longrightarrow> is_closed_flag s \<and> int (length (items s)) + cnt writing us \<le> 2"
    using I unfolding msd_inv_def by blast+
  have b: "mcalls (us ! j) = [] \<and> mplace (us ! j) = Ready \<or> j \<in> set (cnd s)" if "j < 5" for j
    using st that us roles msd_blocked [of j s "us ! j"] cap by (auto simp: stuck_iff)
  have four: "mcalls (us ! 4) = []"
    using b [of 4] cv roles [rule_format, of 4] by (auto simp: role_def closer_ok_def asleep_def)
  then have w: "\<forall>j \<in> set (cnd s). writing (us ! j)" and n: "cnd s \<noteq> [] \<longrightarrow> int (length (cnd s)) + 1 \<le> int (length (items s)) + cnt has_read us"
    using af by (simp_all add: after_close_def)
  have nw: "1 \<notin> set (cnd s)" "3 \<notin> set (cnd s)" using w roles writing_role cv by blast+
  then have "consumers_done us" using b [of 1] b [of 3] by (simp add: consumers_done_def)
  then have two: "int (length (items s)) + cnt writing us \<le> 2" using cd by simp
  have "\<not> has_read (us ! j)" if "j < length us" for j
    using b [of j] that us w by (auto simp: has_read_def writing_def)
  then have "cnt has_read us = 0" by (simp add: cnt_zero_iff)
  have "cnd s = []"
  proof (rule ccontr)
    assume e: "cnd s \<noteq> []"
    then obtain j where "j \<in> set (cnd s)" by (cases "cnd s") auto
    then have "1 \<le> cnt writing us" using w cv us by (intro cnt_pos [of j]) auto
    moreover have "1 \<le> length (cnd s)" using e by (cases "cnd s") auto
    ultimately show False using two n e \<open>cnt has_read us = 0\<close> by auto
  qed
  then have "list_all (\<lambda>u. mcalls u = []) us" using b us by (simp add: list_all_length)
  moreover have "accepted (history s) = taken_out (history s) @ items s"
    using r msd.fifo_order [of False _ _ s us] unfolding msd_main_def by blast
  moreover have "length (items s) \<le> 2" using two cnt_nonneg [of writing us] by linarith
  ultimately show "list_all (\<lambda>u. mcalls u = []) us \<and> is_closed_flag s \<and>
     accepted (history s) = taken_out (history s) @ items s \<and> length (items s) \<le> 2" using cl four by simp
qed

end
