(* ===== verification/Epoll_Reactor.thy ===== *)
theory Epoll_Reactor
  imports Conc_Prelude
begin

text \<open>
  Reactor/Cpp98: the dispatcher with its map of handlers, the poller on epoll, the two kinds of handlers, and the programs
  main.cpp and main_client.cpp. The operating system is a parameter, a record of its calls on a state of its own.
  The objects that \<open>new\<close> creates are in a list, a pointer is an index into it, and \<open>delete\<close> leaves \<open>None\<close>.
\<close>

section \<open>The system calls\<close>

type_synonym bytes = "8 word list"

text \<open>
  Results as the calls return them: \<open>accept\<close> a descriptor or \<open>-1\<close>, with the address and port of the peer; \<open>read\<close> a count and the
  bytes; \<open>epoll_wait\<close> a count and the entries it has filled; \<open>epoll_ctl\<close> zero, or an error number. \<open>stack_junk\<close> is what an
  uninitialised \<open>epoll_event\<close> holds. \<open>os_setup\<close> are the results of the calls in \<open>main\<close> before the loop.
\<close>

record 'k os =
  os_epoll_create :: "'k \<Rightarrow> int \<times> 'k"
  os_epoll_add :: "int \<Rightarrow> int \<Rightarrow> 32 word \<Rightarrow> 'k \<Rightarrow> nat \<times> 'k"
  os_epoll_del :: "int \<Rightarrow> int \<Rightarrow> 'k \<Rightarrow> nat \<times> 'k"
  os_epoll_wait :: "int \<Rightarrow> nat \<Rightarrow> 'k \<Rightarrow> (int \<times> (int \<times> 32 word) list) \<times> 'k"
  os_accept :: "int \<Rightarrow> 'k \<Rightarrow> (int \<times> string \<times> nat) \<times> 'k"
  os_read :: "int \<Rightarrow> nat \<Rightarrow> 'k \<Rightarrow> (int \<times> bytes) \<times> 'k"
  os_write :: "int \<Rightarrow> bytes \<Rightarrow> 'k \<Rightarrow> int \<times> 'k"
  os_close :: "int \<Rightarrow> 'k \<Rightarrow> 'k"
  os_socket :: "'k \<Rightarrow> int \<times> 'k"
  os_setsockopt :: "int \<Rightarrow> 'k \<Rightarrow> int \<times> 'k"
  os_bind :: "int \<Rightarrow> nat \<Rightarrow> 'k \<Rightarrow> int \<times> 'k"
  os_listen :: "int \<Rightarrow> nat \<Rightarrow> 'k \<Rightarrow> int \<times> 'k"
  os_connect :: "int \<Rightarrow> nat \<Rightarrow> 'k \<Rightarrow> int \<times> 'k"
  stack_junk :: "'k \<Rightarrow> 32 word"

definition ENOENT :: nat where "ENOENT = 2"
definition EPOLLIN :: "32 word" where "EPOLLIN = 1"
definition EPOLLOUT :: "32 word" where "EPOLLOUT = 4"
definition EPOLLERR :: "32 word" where "EPOLLERR = 8"
definition EPOLLHUP :: "32 word" where "EPOLLHUP = 16"
definition EPOLLET :: "32 word" where "EPOLLET = 2147483648"

section \<open>Handlers, poller and dispatcher\<close>

datatype event_handler = ListenHandler int | ClientHandler int bytes

fun getHandler :: "event_handler \<Rightarrow> int" where
  "getHandler (ListenHandler fd) = fd"
| "getHandler (ClientHandler fd buf) = fd"

datatype server_line =
    StartWait
  | WaitError
  | AddError nat
  | DelError nat
  | Peer string nat int
  | Recv int bytes
  | ClientCloseFd int
  | ClientClose int

record 'k server =
  sys :: 'k
  epollFd :: int
  events_size :: nat
  handlers :: "int \<Rightarrow> nat option"
  objects :: "event_handler option list"
  lines_out :: "server_line list"

datatype server_error = AssertionFails | NullCall | PastBuffer

definition say :: "server_line \<Rightarrow> 'k server \<Rightarrow> 'k server" where
  "say l s = s\<lparr>lines_out := lines_out s @ [l]\<rparr>"

definition new_object :: "event_handler \<Rightarrow> 'k server \<Rightarrow> nat \<times> 'k server" where
  "new_object ob s = (length (objects s), s\<lparr>objects := objects s @ [Some ob]\<rparr>)"

definition revBuff_size :: nat where "revBuff_size = 1024"

definition new_ClientHandler :: "int \<Rightarrow> event_handler" where
  "new_ClientHandler fd = ClientHandler fd (replicate revBuff_size 0)"

text \<open>\<open>epollPoller\<close>. The first \<open>epoll_ctl\<close> is repeated after \<open>ENOENT\<close>; other errors are not reported.\<close>

definition new_epollPoller :: "'k os \<Rightarrow> 'k \<Rightarrow> 'k server" where
  "new_epollPoller K k =
     (let (fd, k') = os_epoll_create K k
      in \<lparr>sys = k', epollFd = fd, events_size = 16, handlers = \<lambda>_. None, objects = [], lines_out = []\<rparr>)"

definition epoll_regist :: "'k os \<Rightarrow> int \<Rightarrow> 'k server \<Rightarrow> int \<times> 'k server" where
  "epoll_regist K h s =
     (let ev = or (or (stack_junk K (sys s)) EPOLLIN) EPOLLET; (e1, k1) = os_epoll_add K (epollFd s) h ev (sys s)
      in if e1 = 0 \<or> e1 \<noteq> ENOENT then (0, s\<lparr>sys := k1\<rparr>)
         else
           (let (e2, k2) = os_epoll_add K (epollFd s) h ev k1
            in if e2 = 0 then (0, s\<lparr>sys := k2\<rparr>) else (-1, say (AddError e2) (s\<lparr>sys := k2\<rparr>))))"

definition epoll_remove :: "'k os \<Rightarrow> int \<Rightarrow> 'k server \<Rightarrow> int \<times> 'k server" where
  "epoll_remove K h s =
     (let (e, k) = os_epoll_del K (epollFd s) h (sys s)
      in if e \<noteq> 0 then (-1, say (DelError e) (s\<lparr>sys := k\<rparr>)) else (0, s\<lparr>sys := k\<rparr>))"

definition registHandler :: "'k os \<Rightarrow> nat \<Rightarrow> event_handler \<Rightarrow> 'k server \<Rightarrow> int \<times> 'k server" where
  "registHandler K p ob s =
     (let h = getHandler ob
      in epoll_regist K h (if handlers s h = None then s\<lparr>handlers := (handlers s)(h \<mapsto> p)\<rparr> else s))"

text \<open>\<open>delete\<close> runs the destructor, which closes the descriptor.\<close>

definition delete_object :: "'k os \<Rightarrow> nat \<Rightarrow> 'k server \<Rightarrow> 'k server" where
  "delete_object K p s =
     (case objects s ! p of
        None \<Rightarrow> s
      | Some ob \<Rightarrow> s\<lparr>sys := os_close K (getHandler ob) (sys s), objects := (objects s)[p := None]\<rparr>)"

definition removeHander :: "'k os \<Rightarrow> event_handler \<Rightarrow> 'k server \<Rightarrow> 'k server" where
  "removeHander K ob s =
     (let h = getHandler ob
      in snd (epoll_remove K h
           (case handlers s h of
              None \<Rightarrow> s
            | Some p \<Rightarrow> (delete_object K p s)\<lparr>handlers := (handlers s)(h := None)\<rparr>)))"

section \<open>The handlers\<close>

text \<open>The C string in a buffer; there is none if it has no zero byte, and \<open>strlen\<close> then runs past its end.\<close>

definition c_string :: "bytes \<Rightarrow> bytes option" where
  "c_string buf = (if 0 \<in> set buf then Some (takeWhile (\<lambda>b. b \<noteq> 0) buf) else None)"

definition listen_handleRead :: "'k os \<Rightarrow> int \<Rightarrow> 'k server \<Rightarrow> 'k server" where
  "listen_handleRead K listenFd s =
     (let ((connFd, ip, port), k) = os_accept K listenFd (sys s); s1 = s\<lparr>sys := k\<rparr>
      in if connFd = -1 then s1
         else
           (let ob = new_ClientHandler connFd; (p, s2) = new_object ob (say (Peer ip port connFd) s1)
            in snd (registHandler K p ob s2)))"

text \<open>A result of \<open>-1\<close> of \<open>read\<close> counts as true.\<close>

definition client_handleRead :: "'k os \<Rightarrow> nat \<Rightarrow> int \<Rightarrow> bytes \<Rightarrow> 'k server \<Rightarrow> server_error + 'k server" where
  "client_handleRead K p clientFd revBuff s =
     (let ((n, data), k) = os_read K clientFd revBuff_size (sys s); s1 = s\<lparr>sys := k\<rparr>
      in if n \<noteq> 0 then
           (case c_string (data @ drop (length data) revBuff) of
              None \<Rightarrow> Inl PastBuffer
            | Some text \<Rightarrow>
                Inr (say (Recv clientFd text)
                  (s1\<lparr>sys := snd (os_write K clientFd text k), objects := (objects s)[p := Some (new_ClientHandler clientFd)]\<rparr>)))
         else Inr (say (ClientCloseFd clientFd) (s1\<lparr>sys := os_close K clientFd k\<rparr>)))"

definition handleRead :: "'k os \<Rightarrow> nat \<Rightarrow> 'k server \<Rightarrow> server_error + 'k server" where
  "handleRead K p s =
     (case objects s ! p of
        None \<Rightarrow> Inl NullCall
      | Some (ListenHandler fd) \<Rightarrow> Inr (listen_handleRead K fd s)
      | Some (ClientHandler fd buf) \<Rightarrow> client_handleRead K p fd buf s)"

definition handleWirte :: "'k server \<Rightarrow> 'k server" where
  "handleWirte s = s"

definition handleError :: "nat \<Rightarrow> 'k server \<Rightarrow> 'k server" where
  "handleError p s =
     (case objects s ! p of Some (ClientHandler fd buf) \<Rightarrow> say (ClientClose fd) s | _ \<Rightarrow> s)"

section \<open>The loop\<close>

text \<open>One entry of \<open>_events\<close>. \<open>handlers[handle]\<close> of a missing descriptor is a null pointer.\<close>

definition readable_part :: "'k os \<Rightarrow> int \<Rightarrow> 32 word \<Rightarrow> 'k server \<Rightarrow> server_error + 'k server" where
  "readable_part K handle ev s =
     (if and EPOLLIN ev = 0 then Inr s
      else case handlers s handle of None \<Rightarrow> Inl AssertionFails | Some p \<Rightarrow> handleRead K p s)"

definition writable_part :: "int \<Rightarrow> 32 word \<Rightarrow> 'k server \<Rightarrow> server_error + 'k server" where
  "writable_part handle ev s =
     (if and EPOLLOUT ev = 0 then Inr s
      else case handlers s handle of None \<Rightarrow> Inl NullCall | Some p \<Rightarrow> Inr (handleWirte s))"

definition handle_event :: "'k os \<Rightarrow> int \<times> 32 word \<Rightarrow> 'k server \<Rightarrow> server_error + 'k server" where
  "handle_event K e s =
     (let (handle, ev) = e
      in if and (or EPOLLHUP EPOLLERR) ev \<noteq> 0 then
           (case handlers s handle of None \<Rightarrow> Inl AssertionFails | Some p \<Rightarrow> Inr (handleError p s))
         else (case readable_part K handle ev s of Inl e \<Rightarrow> Inl e | Inr s' \<Rightarrow> writable_part handle ev s'))"

fun handle_events :: "'k os \<Rightarrow> (int \<times> 32 word) list \<Rightarrow> 'k server \<Rightarrow> server_error + 'k server" where
  "handle_events K [] s = Inr s"
| "handle_events K (e # es) s = (case handle_event K e s of Inl x \<Rightarrow> Inl x | Inr s' \<Rightarrow> handle_events K es s')"

text \<open>\<open>waitEvent\<close> does not pass its timeout on: \<open>epoll_wait\<close> is called with \<open>-1\<close>.\<close>

definition waitEvent :: "'k os \<Rightarrow> int \<Rightarrow> 'k server \<Rightarrow> server_error + int \<times> 'k server" where
  "waitEvent K timeout s =
     (let ((nready, es), k) = os_epoll_wait K (epollFd s) (events_size s) (sys s);
          s1 = (say StartWait s)\<lparr>sys := k\<rparr>
      in if nready = -1 then Inr (-1, say WaitError s1)
         else
           (case handle_events K (take (nat nready) es) s1 of
              Inl x \<Rightarrow> Inl x
            | Inr s2 \<Rightarrow>
                Inr (nready, if nat nready = events_size s2 then s2\<lparr>events_size := events_size s2 * 2\<rparr> else s2)))"

definition dispatchEvent :: "'k os \<Rightarrow> int \<Rightarrow> 'k server \<Rightarrow> server_error + 'k server" where
  "dispatchEvent K timeout s = (case waitEvent K timeout s of Inl x \<Rightarrow> Inl x | Inr (n, s') \<Rightarrow> Inr s')"

text \<open>The loop of \<open>main\<close> has no end; \<open>n\<close> is the number of its rounds.\<close>

fun serve :: "'k os \<Rightarrow> nat \<Rightarrow> 'k server \<Rightarrow> server_error + 'k server" where
  "serve K 0 s = Inr s"
| "serve K (Suc n) s = (case dispatchEvent K 1000 s of Inl x \<Rightarrow> Inl x | Inr s' \<Rightarrow> serve K n s')"

definition server_port :: nat where "server_port = 5188"

text \<open>\<open>main\<close> up to the loop; the left side is the text of \<open>ERR_EXIT\<close>. The dispatcher is created before \<open>main\<close>.\<close>

definition server_start :: "'k os \<Rightarrow> 'k \<Rightarrow> string + 'k server" where
  "server_start K k0 =
     (let s = new_epollPoller K k0; (listenfd, k1) = os_socket K (sys s)
      in if listenfd < 0 then Inl ''socket error''
         else
           (let (e1, k2) = os_setsockopt K listenfd k1
            in if e1 < 0 then Inl ''setsockopt''
               else
                 (let (e2, k3) = os_bind K listenfd server_port k2
                  in if e2 < 0 then Inl ''bind''
                     else
                       (let (e3, k4) = os_listen K listenfd 5 k3
                        in if e3 < 0 then Inl ''listen''
                           else
                             (let ob = ListenHandler listenfd; (p, s') = new_object ob (s\<lparr>sys := k4\<rparr>)
                              in Inr (snd (registHandler K p ob s')))))))"

text \<open>main_client.cpp; the host is found. The bytes of \<open>DATA\<close> include the final zero.\<close>

definition client_DATA :: bytes where
  "client_DATA = map (\<lambda>c. of_nat (of_char c)) ''Test message'' @ [0]"

definition client_program :: "'k os \<Rightarrow> 'k \<Rightarrow> bool \<times> 'k" where
  "client_program K k0 =
     (let (sock, k1) = os_socket K k0
      in if sock = -1 then (False, k1)
         else
           (let (e, k2) = os_connect K sock server_port k1
            in if e = -1 then (False, k2)
               else (let (n, k3) = os_write K sock client_DATA k2 in (True, os_close K sock k3))))"

section \<open>What the code relies on\<close>

text \<open>
  \<open>W k h\<close>: in the state \<open>k\<close> of the system, descriptor \<open>h\<close> is in the interest list of the poller. Only \<open>epoll_ctl\<close> adds to it, and
  \<open>epoll_wait\<close> reports what is in it.
\<close>

definition epoll_laws :: "'k os \<Rightarrow> ('k \<Rightarrow> int \<Rightarrow> bool) \<Rightarrow> bool" where
  "epoll_laws K W \<longleftrightarrow>
     (\<forall>k g. \<not> W (snd (os_epoll_create K k)) g) \<and>
     (\<forall>ep h ev k g. W (snd (os_epoll_add K ep h ev k)) g \<longrightarrow> g = h \<or> W k g) \<and>
     (\<forall>ep n k g. W (snd (os_epoll_wait K ep n k)) g \<longrightarrow> W k g) \<and>
     (\<forall>ep n k h ev. (h, ev) \<in> set (snd (fst (os_epoll_wait K ep n k))) \<longrightarrow> W k h) \<and>
     (\<forall>fd k g. W (snd (os_accept K fd k)) g \<longrightarrow> W k g) \<and> (\<forall>fd n k g. W (snd (os_read K fd n k)) g \<longrightarrow> W k g) \<and>
     (\<forall>fd bs k g. W (snd (os_write K fd bs k)) g \<longrightarrow> W k g) \<and> (\<forall>fd k g. W (os_close K fd k) g \<longrightarrow> W k g) \<and>
     (\<forall>k g. W (snd (os_socket K k)) g \<longrightarrow> W k g) \<and> (\<forall>fd k g. W (snd (os_setsockopt K fd k)) g \<longrightarrow> W k g) \<and>
     (\<forall>fd n k g. W (snd (os_bind K fd n k)) g \<longrightarrow> W k g) \<and> (\<forall>fd n k g. W (snd (os_listen K fd n k)) g \<longrightarrow> W k g)"

text \<open>\<open>read\<close> returns as many bytes as it says and no more than asked for; none with \<open>-1\<close>.\<close>

definition read_law :: "'k os \<Rightarrow> bool" where
  "read_law K \<longleftrightarrow> (\<forall>fd n k. length (snd (fst (os_read K fd n k))) = nat (fst (fst (os_read K fd n k))) \<and>
     nat (fst (fst (os_read K fd n k))) \<le> n)"

text \<open>A hypothesis on the clients: no full buffer without a zero byte.\<close>

definition short_reads :: "'k os \<Rightarrow> bool" where
  "short_reads K \<longleftrightarrow> (\<forall>fd k. let data = snd (fst (os_read K fd revBuff_size k)) in length data < revBuff_size \<or> 0 \<in> set data)"

section \<open>The handlers are typed\<close>

fun object_ok :: "event_handler \<Rightarrow> bool" where
  "object_ok (ListenHandler fd) = True"
| "object_ok (ClientHandler fd buf) = (buf = replicate revBuff_size 0)"

definition handlers_typed :: "'k server \<Rightarrow> bool" where
  "handlers_typed s \<longleftrightarrow>
     (\<forall>h p. handlers s h = Some p \<longrightarrow> p < length (objects s) \<and> (\<exists>ob. objects s ! p = Some ob \<and> getHandler ob = h)) \<and>
     (\<forall>ob. Some ob \<in> set (objects s) \<longrightarrow> object_ok ob)"

definition all_watched :: "('k \<Rightarrow> int \<Rightarrow> bool) \<Rightarrow> 'k server \<Rightarrow> bool" where
  "all_watched W s \<longleftrightarrow> (\<forall>h. W (sys s) h \<longrightarrow> handlers s h \<noteq> None)"

text \<open>A step of the server keeps its types, what is watched has a handler, and no handler is removed or replaced.\<close>

definition server_step :: "('k \<Rightarrow> int \<Rightarrow> bool) \<Rightarrow> 'k server \<Rightarrow> 'k server \<Rightarrow> bool" where
  "server_step W s s' \<longleftrightarrow> (handlers_typed s \<longrightarrow> handlers_typed s') \<and> (all_watched W s \<longrightarrow> all_watched W s') \<and>
     handlers s \<subseteq>\<^sub>m handlers s' \<and> length (objects s) \<le> length (objects s')"

lemma server_step_refl [intro]: "server_step W s s"
  by (simp add: server_step_def)

lemma server_step_trans [trans]: "server_step W s s' \<Longrightarrow> server_step W s' s'' \<Longrightarrow> server_step W s s''"
  by (auto simp: server_step_def intro: map_le_trans)

lemma server_step_sys: "(\<And>g. W (sys s') g \<Longrightarrow> W (sys s) g) \<Longrightarrow> handlers s' = handlers s \<Longrightarrow> objects s' = objects s \<Longrightarrow>
    server_step W s s'"
  by (auto simp: server_step_def handlers_typed_def all_watched_def)

lemma say_simps [simp]: "sys (say l s) = sys s" "handlers (say l s) = handlers s" "objects (say l s) = objects s"
  "epollFd (say l s) = epollFd s" "events_size (say l s) = events_size s"
  by (simp_all add: say_def)

lemma epoll_regist_step:
  assumes "epoll_laws K W"
  shows "handlers (snd (epoll_regist K h s)) = handlers s" "objects (snd (epoll_regist K h s)) = objects s"
    "W (sys (snd (epoll_regist K h s))) g \<Longrightarrow> g = h \<or> W (sys s) g"
proof -
  note L = assms [unfolded epoll_laws_def]
  let ?ev = "or (or (stack_junk K (sys s)) EPOLLIN) EPOLLET"
  obtain e1 k1 where a1: "os_epoll_add K (epollFd s) h ?ev (sys s) = (e1, k1)" by (metis surj_pair)
  obtain e2 k2 where a2: "os_epoll_add K (epollFd s) h ?ev k1 = (e2, k2)" by (metis surj_pair)
  have w1: "W k1 g \<Longrightarrow> g = h \<or> W (sys s) g" for g using L a1 by (metis snd_conv)
  have w2: "W k2 g \<Longrightarrow> g = h \<or> W k1 g" for g using L a2 by (metis snd_conv)
  show "handlers (snd (epoll_regist K h s)) = handlers s" "objects (snd (epoll_regist K h s)) = objects s"
    by (simp_all add: epoll_regist_def a1 a2)
  show "W (sys (snd (epoll_regist K h s))) g \<Longrightarrow> g = h \<or> W (sys s) g"
    using w1 [of g] w2 [of g] by (auto simp: epoll_regist_def a1 a2 split: if_splits)
qed

text \<open>A new object is registered under its own descriptor; the handler that is there already is kept.\<close>

lemma registHandler_step:
  assumes L: "epoll_laws K W" and n: "new_object ob s0 = (p, s)" and ok: "object_ok ob"
  shows "server_step W s0 (snd (registHandler K p ob s))"
proof -
  let ?h = "getHandler ob" let ?m = "if handlers s ?h = None then s\<lparr>handlers := (handlers s)(?h \<mapsto> p)\<rparr> else s"
  have s: "p = length (objects s0)" "objects s = objects s0 @ [Some ob]" "handlers s = handlers s0" "sys s = sys s0"
    using n by (auto simp: new_object_def)
  have r: "registHandler K p ob s = epoll_regist K ?h ?m" by (simp add: registHandler_def Let_def)
  have "objects (snd (registHandler K p ob s)) = objects s0 @ [Some ob]"
    and H: "handlers (snd (registHandler K p ob s)) = handlers ?m"
    unfolding r by (simp_all add: epoll_regist_step [OF L] s)
  moreover have "W (sys (snd (registHandler K p ob s))) g \<Longrightarrow> g = ?h \<or> W (sys s0) g" for g
    using epoll_regist_step(3) [OF L, of ?h ?m g] unfolding r by (auto simp: s split: if_splits)
  moreover have "handlers ?m ?h \<noteq> None" "handlers s0 g \<noteq> None \<Longrightarrow> handlers ?m g = handlers s0 g" for g
    by (auto simp: s)
  moreover have "handlers_typed s0 \<Longrightarrow> handlers ?m g = Some q \<Longrightarrow>
      q < Suc (length (objects s0)) \<and> (\<exists>ob'. (objects s0 @ [Some ob]) ! q = Some ob' \<and> getHandler ob' = g)" for g q
    by (auto simp: handlers_typed_def s nth_append less_Suc_eq split: if_splits)
  ultimately show ?thesis
    using ok unfolding server_step_def handlers_typed_def all_watched_def map_le_def dom_def
    by (simp only: H) (auto; metis option.simps(3))
qed

lemma listen_handleRead_step:
  assumes L: "epoll_laws K W"
  shows "server_step W s (listen_handleRead K fd s)"
proof -
  obtain c ip port k where a: "os_accept K fd (sys s) = ((c, ip, port), k)" by (metis prod.collapse)
  have w: "W k g \<Longrightarrow> W (sys s) g" for g using L a unfolding epoll_laws_def by (metis snd_conv)
  show ?thesis
  proof (cases "c = -1")
    case True
    then show ?thesis using w by (auto simp: listen_handleRead_def a intro!: server_step_sys)
  next
    case False
    let ?s1 = "say (Peer ip port c) (s\<lparr>sys := k\<rparr>)"
    obtain p s2 where n: "new_object (new_ClientHandler c) ?s1 = (p, s2)" by (metis surj_pair)
    have "server_step W s ?s1" using w by (auto intro: server_step_sys)
    also have "server_step W ?s1 (snd (registHandler K p (new_ClientHandler c) s2))"
      using L n by (rule registHandler_step) (simp add: new_ClientHandler_def)
    finally show ?thesis using False by (simp add: listen_handleRead_def a n)
  qed
qed

text \<open>With a clear buffer, \<open>strlen\<close> runs past its end when it has been filled with nonzero bytes.\<close>

lemma client_buffer:
  assumes "length data \<le> revBuff_size"
  shows "c_string (data @ replicate (revBuff_size - length data) 0) =
     (if length data < revBuff_size \<or> 0 \<in> set data then Some (takeWhile (\<lambda>b. b \<noteq> 0) data) else None)"
proof (cases "0 \<in> set data")
  case True
  then have "takeWhile (\<lambda>b. b \<noteq> 0) (data @ ys) = takeWhile (\<lambda>b. b \<noteq> 0) data" for ys by (induction data) auto
  with True show ?thesis by (simp add: c_string_def)
next
  case False
  then have "takeWhile (\<lambda>b. b \<noteq> 0) data = data" by (induction data) auto
  moreover from False have "takeWhile (\<lambda>b. b \<noteq> 0) (data @ replicate m 0) = data" for m
    by (induction data) (cases m, auto)
  ultimately show ?thesis using False assms by (simp add: c_string_def del: takeWhile_eq_all_conv)
qed

lemma handleRead_step:
  assumes L: "epoll_laws K W" and R: "read_law K" and T: "handlers_typed s" and p: "handlers s h = Some p"
  shows "case handleRead K p s of Inl x \<Rightarrow> x = PastBuffer \<and> \<not> short_reads K | Inr s' \<Rightarrow> server_step W s s'"
proof -
  obtain ob where ob: "p < length (objects s)" "objects s ! p = Some ob" "getHandler ob = h" "object_ok ob"
    using T p unfolding handlers_typed_def by (metis nth_mem)
  show ?thesis
  proof (cases ob)
    case (ListenHandler fd)
    then show ?thesis using ob listen_handleRead_step [OF L] by (simp add: handleRead_def)
  next
    case (ClientHandler fd buf)
    then have b: "buf = replicate revBuff_size 0" and h: "fd = h" using ob by auto
    obtain n data k where r: "os_read K fd revBuff_size (sys s) = ((n, data), k)" by (metis prod.collapse)
    have d: "length data \<le> revBuff_size" using R r unfolding read_law_def by (metis fst_conv snd_conv)
    have w: "W k g \<Longrightarrow> W (sys s) g" "W (snd (os_write K fd bs k)) g \<Longrightarrow> W k g" "W (os_close K fd k) g \<Longrightarrow> W k g" for g bs
      using L r unfolding epoll_laws_def by (metis snd_conv)+
    have short: "short_reads K \<Longrightarrow> length data < revBuff_size \<or> 0 \<in> set data"
      using r unfolding short_reads_def Let_def by (metis fst_conv snd_conv)
    let ?s' = "\<lambda>l k'. say l (s\<lparr>sys := k', objects := (objects s)[p := Some (new_ClientHandler fd)]\<rparr>)"
    have uniq: "handlers s g = Some p \<Longrightarrow> g = h" for g
      using T ob unfolding handlers_typed_def by (metis option.inject)
    have typed: "handlers_typed (?s' l k')" for l k'
      unfolding handlers_typed_def
    proof (intro conjI allI impI)
      fix g q assume "handlers (?s' l k') g = Some q"
      then have q: "handlers s g = Some q" by simp
      with T have "q < length (objects s)" "\<exists>ob. objects s ! q = Some ob \<and> getHandler ob = g" by (auto simp: handlers_typed_def)
      then show "q < length (objects (?s' l k'))" "\<exists>ob. objects (?s' l k') ! q = Some ob \<and> getHandler ob = g"
        using uniq [of g] q h by (cases "q = p"; simp add: new_ClientHandler_def)+
    next
      fix ob' assume "Some ob' \<in> set (objects (?s' l k'))"
      then have "ob' = new_ClientHandler fd \<or> Some ob' \<in> set (objects s)" by (auto dest!: set_update_subset_insert [THEN subsetD])
      then show "object_ok ob'" using T by (auto simp: handlers_typed_def new_ClientHandler_def)
    qed
    then have step: "server_step W s (?s' l (snd (os_write K fd bs k)))" for l bs
      using w unfolding server_step_def all_watched_def by auto
    show ?thesis
    proof (cases "n = 0")
      case True
      then show ?thesis using ClientHandler ob w by (auto simp: handleRead_def client_handleRead_def r [unfolded h] intro!: server_step_sys)
    next
      case False
      then show ?thesis using ClientHandler ob step short
        by (auto simp: handleRead_def client_handleRead_def r [unfolded h] b client_buffer [OF d])
    qed
  qed
qed

section \<open>The loop keeps the types\<close>

lemma handle_event_step:
  assumes L: "epoll_laws K W" and R: "read_law K" and T: "handlers_typed s" and h: "handlers s (fst e) \<noteq> None"
  shows "case handle_event K e s of Inl x \<Rightarrow> x = PastBuffer \<and> \<not> short_reads K | Inr s' \<Rightarrow> server_step W s s'"
proof -
  obtain g ev where e: "e = (g, ev)" by (cases e)
  with h obtain p where p: "handlers s g = Some p" by auto
  have err: "server_step W s (handleError p s)"
    by (auto simp: handleError_def intro: server_step_sys split: option.split event_handler.split)
  have "case readable_part K g ev s of Inl x \<Rightarrow> x = PastBuffer \<and> \<not> short_reads K | Inr s' \<Rightarrow> server_step W s s'"
    using handleRead_step [OF L R T p] p by (auto simp: readable_part_def)
  moreover have "server_step W s s' \<Longrightarrow> writable_part g ev s' = Inr s'" for s'
    using p unfolding writable_part_def handleWirte_def server_step_def map_le_def by (force split: option.split)
  ultimately show ?thesis using err p by (auto simp: handle_event_def e split: sum.splits)
qed

lemma handle_events_step:
  assumes L: "epoll_laws K W" and R: "read_law K"
  shows "handlers_typed s \<Longrightarrow> \<forall>e \<in> set es. handlers s (fst e) \<noteq> None \<Longrightarrow>
    case handle_events K es s of Inl x \<Rightarrow> x = PastBuffer \<and> \<not> short_reads K | Inr s' \<Rightarrow> server_step W s s'"
proof (induction es arbitrary: s)
  case Nil
  then show ?case by auto
next
  case (Cons e es)
  note S = handle_event_step [OF L R Cons.prems(1), of e]
  show ?case
  proof (cases "handle_event K e s")
    case (Inl x)
    with S Cons.prems show ?thesis by simp
  next
    case (Inr s1)
    with S Cons.prems have st: "server_step W s s1" by simp
    then have T: "handlers_typed s1" and m: "handlers s \<subseteq>\<^sub>m handlers s1" using Cons.prems(1) by (auto simp: server_step_def)
    have "\<forall>e \<in> set es. handlers s1 (fst e) \<noteq> None" using Cons.prems(2) m by (force simp: map_le_def dom_def)
    from Cons.IH [OF T this] Inr show ?thesis using server_step_trans [OF st] by (auto split: sum.splits)
  qed
qed

lemma dispatchEvent_step:
  assumes L: "epoll_laws K W" and R: "read_law K" and T: "handlers_typed s" and A: "all_watched W s"
  shows "case dispatchEvent K t s of Inl x \<Rightarrow> x = PastBuffer \<and> \<not> short_reads K | Inr s' \<Rightarrow> server_step W s s'"
proof -
  obtain n es k where w: "os_epoll_wait K (epollFd s) (events_size s) (sys s) = ((n, es), k)" by (metis prod.collapse)
  let ?s1 = "(say StartWait s)\<lparr>sys := k\<rparr>"
  have k: "W k g \<Longrightarrow> W (sys s) g" for g using L w unfolding epoll_laws_def by (metis snd_conv)
  have e: "(h, ev) \<in> set es \<Longrightarrow> W (sys s) h" for h ev
    using L w unfolding epoll_laws_def by (metis fst_conv snd_conv)
  have s1: "server_step W s ?s1" using k by (auto intro: server_step_sys)
  then have T1: "handlers_typed ?s1" using T by (simp add: server_step_def)
  have "handlers ?s1 (fst e) \<noteq> None" if "e \<in> set (take (nat n) es)" for e
    using in_set_takeD [OF that] e [of "fst e" "snd e"] A by (simp add: all_watched_def)
  then have "\<forall>e \<in> set (take (nat n) es). handlers ?s1 (fst e) \<noteq> None" by blast
  note S = handle_events_step [OF L R T1 this]
  have size: "server_step W s2 (s2\<lparr>events_size := m\<rparr>)" for s2 m by (auto intro: server_step_sys)
  show ?thesis
  proof (cases "handle_events K (take (nat n) es) ?s1")
    case (Inl x)
    moreover have "server_step W s (say WaitError ?s1)" using k by (auto intro: server_step_sys)
    ultimately show ?thesis using S by (simp add: dispatchEvent_def waitEvent_def w Let_def)
  next
    case (Inr s2)
    with S have "server_step W ?s1 s2" by simp
    with s1 have "server_step W s s2" by (rule server_step_trans)
    moreover have "server_step W s (say WaitError ?s1)" using k by (auto intro: server_step_sys)
    ultimately show ?thesis using Inr server_step_trans [OF _ size] by (simp add: dispatchEvent_def waitEvent_def w Let_def)
  qed
qed

lemma serve_step:
  assumes L: "epoll_laws K W" and R: "read_law K"
  shows "handlers_typed s \<Longrightarrow> all_watched W s \<Longrightarrow>
    case serve K n s of Inl x \<Rightarrow> x = PastBuffer \<and> \<not> short_reads K | Inr s' \<Rightarrow> server_step W s s'"
proof (induction n arbitrary: s)
  case 0
  then show ?case by auto
next
  case (Suc n)
  note S = dispatchEvent_step [OF L R Suc.prems, of 1000]
  show ?case
  proof (cases "dispatchEvent K 1000 s")
    case (Inl x)
    with S show ?thesis by simp
  next
    case (Inr s1)
    with S have st: "server_step W s s1" by simp
    with Suc.prems have "handlers_typed s1" "all_watched W s1" by (auto simp: server_step_def)
    from Suc.IH [OF this] Inr show ?thesis using server_step_trans [OF st] by (auto split: sum.splits)
  qed
qed

lemma server_starts:
  assumes L: "epoll_laws K W" and s: "server_start K k0 = Inr s"
  shows "handlers_typed s \<and> all_watched W s"
proof -
  let ?s0 = "new_epollPoller K k0"
  have e: "\<not> W (sys ?s0) g" for g using L by (simp add: new_epollPoller_def epoll_laws_def Let_def case_prod_unfold)
  have n: "handlers ?s0 = (\<lambda>_. None)" "objects ?s0 = []" by (simp_all add: new_epollPoller_def Let_def case_prod_unfold)
  obtain fd k1 where a1: "os_socket K (sys ?s0) = (fd, k1)" by (metis surj_pair)
  obtain e1 k2 where a2: "os_setsockopt K fd k1 = (e1, k2)" by (metis surj_pair)
  obtain e2 k3 where a3: "os_bind K fd server_port k2 = (e2, k3)" by (metis surj_pair)
  obtain e3 k4 where a4: "os_listen K fd 5 k3 = (e3, k4)" by (metis surj_pair)
  have w: "W k4 g \<Longrightarrow> W k3 g" "W k3 g \<Longrightarrow> W k2 g" "W k2 g \<Longrightarrow> W k1 g" "W k1 g \<Longrightarrow> W (sys ?s0) g" for g
    using L a1 a2 a3 a4 unfolding epoll_laws_def by (metis snd_conv)+
  let ?s4 = "?s0\<lparr>sys := k4\<rparr>"
  obtain p s' where m: "new_object (ListenHandler fd) ?s4 = (p, s')" by (metis surj_pair)
  have "s = snd (registHandler K p (ListenHandler fd) s')"
    using s by (simp add: server_start_def a1 a2 a3 a4 m Let_def split: if_splits)
  moreover have "server_step W ?s4 (snd (registHandler K p (ListenHandler fd) s'))"
    using L m by (rule registHandler_step) simp
  moreover have "handlers_typed ?s4" "all_watched W ?s4" using e w n by (simp_all add: handlers_typed_def all_watched_def) blast
  ultimately show ?thesis by (simp add: server_step_def)
qed

section \<open>A system to run it on\<close>

text \<open>Scripted results: what is ready in each round, which descriptors are accepted, what the clients send.\<close>

record script =
  ready :: "(int \<times> 32 word) list list"
  arriving :: "int list"
  incoming :: "(int \<times> bytes) list"
  interest :: "int list"
  replies :: "(int \<times> bytes) list"

fun take_first :: "int \<Rightarrow> (int \<times> bytes) list \<Rightarrow> bytes \<times> (int \<times> bytes) list" where
  "take_first fd [] = ([], [])"
| "take_first fd ((g, bs) # xs) = (if g = fd then (bs, xs) else (let (r, ys) = take_first fd xs in (r, (g, bs) # ys)))"

definition script_wait :: "script \<Rightarrow> (int \<times> (int \<times> 32 word) list) \<times> script" where
  "script_wait k =
     (case ready k of
        [] \<Rightarrow> ((-1, []), k)
      | es # r \<Rightarrow> (let es' = filter (\<lambda>(h, ev). h \<in> set (interest k)) es in ((int (length es'), es'), k\<lparr>ready := r\<rparr>)))"

definition script_os :: "script os" where
  "script_os = \<lparr>os_epoll_create = \<lambda>k. (9, k\<lparr>interest := []\<rparr>), os_epoll_add = \<lambda>ep h ev k. (0, k\<lparr>interest := h # interest k\<rparr>),
     os_epoll_del = \<lambda>ep h k. (0, k\<lparr>interest := removeAll h (interest k)\<rparr>),
     os_epoll_wait = \<lambda>ep n. script_wait,
     os_accept = \<lambda>fd k. (case arriving k of [] \<Rightarrow> ((-1, [], 0), k) | c # r \<Rightarrow> ((c, ''127.0.0.1'', 40000), k\<lparr>arriving := r\<rparr>)),
     os_read = \<lambda>fd n k. (let (bs, r) = take_first fd (incoming k) in ((int (length (take (n - 1) bs)), take (n - 1) bs), k\<lparr>incoming := r\<rparr>)),
     os_write = \<lambda>fd bs k. (int (length bs), k\<lparr>replies := replies k @ [(fd, bs)]\<rparr>),
     os_close = \<lambda>fd k. k\<lparr>interest := removeAll fd (interest k)\<rparr>,
     os_socket = \<lambda>k. (3, k), os_setsockopt = \<lambda>fd k. (0, k), os_bind = \<lambda>fd n k. (0, k), os_listen = \<lambda>fd n k. (0, k),
     os_connect = \<lambda>fd n k. (0, k), stack_junk = \<lambda>k. 0\<rparr>"

definition script_watches :: "script \<Rightarrow> int \<Rightarrow> bool" where
  "script_watches k h \<longleftrightarrow> h \<in> set (interest k)"

lemma script_epoll_laws: "epoll_laws script_os script_watches"
  unfolding epoll_laws_def script_watches_def
  by (intro conjI) (auto simp: script_os_def script_wait_def Let_def case_prod_unfold split: list.splits if_splits)

lemma script_read_law: "read_law script_os"
  by (auto simp: read_law_def script_os_def Let_def case_prod_unfold)

text \<open>A client sends \<open>DATA\<close> of main_client.cpp and closes; then another client gets the same descriptor.\<close>

definition script_start :: script where
  "script_start = \<lparr>ready = [[(3, EPOLLIN)], [(4, EPOLLIN)], [(4, EPOLLIN)], [(3, EPOLLIN)], [(4, EPOLLIN)]], arriving = [4, 4],
     incoming = [(4, client_DATA), (4, []), (4, client_DATA)], interest = [], replies = []\<rparr>"

definition script_run :: "nat \<Rightarrow> server_error + script server" where
  "script_run n = (case server_start script_os script_start of Inl _ \<Rightarrow> Inl NullCall | Inr s \<Rightarrow> serve script_os n s)"

text \<open>What can be seen: the replies, the lines, the handlers of descriptors 3 and 4, and all objects.\<close>

definition server_seen :: "script server \<Rightarrow>
    (int \<times> bytes) list \<times> server_line list \<times> nat option \<times> nat option \<times> int option list" where
  "server_seen s = (replies (sys s), lines_out s, handlers s 3, handlers s 4, map (map_option getHandler) (objects s))"

lemma client_DATA_facts:
  "Suc 0 < revBuff_size" "length client_DATA = 13" "take (revBuff_size - Suc 0) client_DATA = client_DATA"
  "c_string (client_DATA @ replicate (revBuff_size - 13) 0) = Some (butlast client_DATA)"
proof -
  show "Suc 0 < revBuff_size" by (simp add: revBuff_size_def)
  show l: "length client_DATA = 13" by (simp add: client_DATA_def)
  then have s: "length client_DATA \<le> revBuff_size" by (simp add: revBuff_size_def)
  show "take (revBuff_size - Suc 0) client_DATA = client_DATA" using l by (simp add: revBuff_size_def)
  have "takeWhile (\<lambda>b. b \<noteq> 0) client_DATA = butlast client_DATA" "0 \<in> set client_DATA" by (simp_all add: client_DATA_def)
  then show "c_string (client_DATA @ replicate (revBuff_size - 13) 0) = Some (butlast client_DATA)"
    using client_buffer [OF s] l by simp
qed

lemma epoll_flags:
  "and (or EPOLLHUP EPOLLERR) EPOLLIN = 0" "EPOLLIN \<noteq> 0" "and EPOLLOUT EPOLLIN = 0"
  by (simp_all add: EPOLLIN_def EPOLLOUT_def EPOLLHUP_def EPOLLERR_def)

lemma script_os_simps:
  "os_epoll_create script_os k = (9, k\<lparr>interest := []\<rparr>)"
  "os_epoll_add script_os ep h ev k = (0, k\<lparr>interest := h # interest k\<rparr>)"
  "os_epoll_wait script_os ep n k = script_wait k"
  "os_accept script_os fd k =
     (case arriving k of [] \<Rightarrow> ((-1, [], 0), k) | c # r \<Rightarrow> ((c, ''127.0.0.1'', 40000), k\<lparr>arriving := r\<rparr>))"
  "os_read script_os fd n k =
     (let (bs, r) = take_first fd (incoming k) in ((int (length (take (n - 1) bs)), take (n - 1) bs), k\<lparr>incoming := r\<rparr>))"
  "os_write script_os fd bs k = (int (length bs), k\<lparr>replies := replies k @ [(fd, bs)]\<rparr>)"
  "os_close script_os fd k = k\<lparr>interest := removeAll fd (interest k)\<rparr>"
  "os_socket script_os k = (3, k)" "os_setsockopt script_os fd k = (0, k)" "os_bind script_os fd m k = (0, k)"
  "os_listen script_os fd m k = (0, k)" "stack_junk script_os k = 0"
  by (simp_all add: script_os_def)

lemma serve_numeral:
  "serve K (numeral n) s = (case dispatchEvent K 1000 s of Inl x \<Rightarrow> Inl x | Inr s' \<Rightarrow> serve K (pred_numeral n) s')"
  by (simp add: numeral_eq_Suc)

lemma script_run_5:
  "map_sum id server_seen (script_run 5) =
   Inr ([(4, butlast client_DATA), (4, butlast client_DATA)],
     [StartWait, Peer ''127.0.0.1'' 40000 4, StartWait, Recv 4 (butlast client_DATA), StartWait, ClientCloseFd 4, StartWait,
      Peer ''127.0.0.1'' 40000 4, StartWait, Recv 4 (butlast client_DATA)],
     Some 0, Some 1, [Some 3, Some 4, Some 4])"
  by (simp add: script_run_def server_start_def new_epollPoller_def registHandler_def epoll_regist_def new_object_def
      script_os_simps script_start_def serve_numeral dispatchEvent_def waitEvent_def script_wait_def handle_event_def
      readable_part_def writable_part_def handleRead_def listen_handleRead_def client_handleRead_def new_ClientHandler_def
      say_def Let_def epoll_flags client_DATA_facts server_seen_def)

lemma script_short_reads: "short_reads script_os"
  by (auto simp: short_reads_def script_os_def Let_def case_prod_unfold revBuff_size_def)

section \<open>What the server promises\<close>

text \<open>
  Claim C23. On any operating system that keeps the documented behaviour of \<open>epoll\<close> and \<open>read\<close>, after any number of rounds:
  every descriptor in the map belongs to a live handler with this descriptor, the buffers of the clients are clear, and the
  handlers that were there are there still. So a client that has closed keeps its entry.
\<close>

theorem server_stays_typed:
  assumes "epoll_laws K W" "read_law K" "server_start K k = Inr s" "serve K n s = Inr s'"
  shows "handlers_typed s' \<and> handlers s \<subseteq>\<^sub>m handlers s'"
  using serve_step [OF assms(1,2), of s n] server_starts [OF assms(1,3)] assms(4) by (simp add: server_step_def)

text \<open>The second client with descriptor 4 is served by the object of the first one; its own object, the third, is in no entry.\<close>

theorem server_stays_typed_witness:
  "\<exists>s s'. server_start script_os script_start = Inr s \<and> serve script_os 5 s = Inr s' \<and> handlers_typed s' \<and>
     handlers s' 4 = Some 1 \<and> map (map_option getHandler) (objects s') = [Some 3, Some 4, Some 4] \<and>
     replies (sys s') = [(4, butlast client_DATA), (4, butlast client_DATA)]"
proof -
  obtain s where s: "server_start script_os script_start = Inr s"
    by (cases "server_start script_os script_start") (use script_run_5 in \<open>auto simp: script_run_def\<close>)
  moreover obtain s' where s': "serve script_os 5 s = Inr s'"
    by (cases "serve script_os 5 s") (use script_run_5 s in \<open>auto simp: script_run_def\<close>)
  moreover have "handlers_typed s'"
    using server_stays_typed [OF script_epoll_laws script_read_law s s'] by simp
  ultimately show ?thesis using script_run_5 by (simp add: script_run_def server_seen_def)
qed

text \<open>
  Claim C22. On such a system the assertions on the handlers hold in every round and no null handler is called. When no client
  fills the buffer without a zero byte, every number of rounds succeeds; otherwise the only failure is that the text in the
  buffer has no end.
\<close>

theorem server_survives:
  assumes "epoll_laws K W" "read_law K" "server_start K k = Inr s"
  shows "serve K n s \<noteq> Inl AssertionFails \<and> serve K n s \<noteq> Inl NullCall \<and> (short_reads K \<longrightarrow> (\<exists>s'. serve K n s = Inr s'))"
  using serve_step [OF assms(1,2), of s n] server_starts [OF assms(1,3)] by (cases "serve K n s") auto

theorem server_survives_witness:
  "\<exists>s s'. server_start script_os script_start = Inr s \<and> serve script_os 5 s = Inr s' \<and>
     replies (sys s') = [(4, butlast client_DATA), (4, butlast client_DATA)]"
proof -
  obtain s where s: "server_start script_os script_start = Inr s"
    by (cases "server_start script_os script_start") (use script_run_5 in \<open>auto simp: script_run_def\<close>)
  from server_survives [OF script_epoll_laws script_read_law s, of 5] script_short_reads
  obtain s' where "serve script_os 5 s = Inr s'" by blast
  with s show ?thesis using script_run_5 by (auto simp: script_run_def server_seen_def)
qed

text \<open>The only failure, exactly: a read that fills the buffer and has no zero byte.\<close>

theorem client_overruns:
  assumes "read_law K"
  shows "client_handleRead K p fd (replicate revBuff_size 0) s = Inl PastBuffer \<longleftrightarrow>
     (let data = snd (fst (os_read K fd revBuff_size (sys s))) in length data = revBuff_size \<and> 0 \<notin> set data)"
proof -
  obtain n data k where r: "os_read K fd revBuff_size (sys s) = ((n, data), k)" by (metis prod.collapse)
  have d: "length data \<le> revBuff_size" "length data = nat n"
    using assms r unfolding read_law_def by (metis fst_conv snd_conv)+
  then have "n = 0 \<Longrightarrow> length data \<noteq> revBuff_size" by (simp add: revBuff_size_def)
  then show ?thesis using d(1) by (cases "n = 0") (auto simp: client_handleRead_def r Let_def client_buffer [OF d(1)])
qed

text \<open>A handler that is removed is registered again: the map is as before, and the descriptor has been closed in between.\<close>

lemma removeHander_after_registHandler:
  assumes "handlers s (getHandler ob) = None" "new_object ob s = (p, s1)"
  shows "handlers (removeHander K ob (snd (registHandler K p ob s1))) = handlers s"
proof -
  have 1: "handlers s1 = handlers s" "p = length (objects s)" using assms(2) by (auto simp: new_object_def)
  have r: "handlers (snd (epoll_regist K h t)) = handlers t" for h t
    by (simp add: epoll_regist_def Let_def case_prod_unfold)
  have e: "handlers (snd (epoll_remove K h t)) = handlers t" for h t
    by (simp add: epoll_remove_def Let_def case_prod_unfold)
  have "handlers (snd (registHandler K p ob s1)) = (handlers s)(getHandler ob \<mapsto> p)"
    using assms(1) by (simp add: registHandler_def Let_def r 1)
  then show ?thesis using assms(1) by (auto simp: removeHander_def e Let_def)
qed

end
