(* ===== verification/Spin_Benchmark.thy ===== *)
theory Spin_Benchmark
  imports Spinlocks
begin

text \<open>
  Spinlock/benchmarks/main.cpp: the copies of the five locks, \<open>inc\<close>, the template \<open>spinlock_benchmark\<close> with its iterations, and what
  is registered. The ranges of the benchmark library and the POSIX lock are parameters.
\<close>

section \<open>Locks and rounds\<close>

text \<open>
  The benchmark holds copies of the locks. Its \<open>inc\<close> makes 100000 rounds, and every
  iteration of \<open>spinlock_benchmark\<close> starts \<open>num_threads\<close> threads on the value the
  iterations before it have left.
\<close>

definition bench_audio_lock :: "bool \<Rightarrow> audio_pc \<Rightarrow> (bool \<times> audio_pc option) list" where
  "bench_audio_lock = audio_lock"

definition bench_abool_lock :: "bool \<Rightarrow> abool_pc \<Rightarrow> (bool \<times> abool_pc option) list" where
  "bench_abool_lock = abool_lock"

definition bench_aflag_lock :: "bool \<Rightarrow> aflag_pc \<Rightarrow> (bool \<times> aflag_pc option) list" where
  "bench_aflag_lock = aflag_lock"

definition bench_cflag_lock :: "bool \<Rightarrow> unit \<Rightarrow> (bool \<times> unit option) list" where
  "bench_cflag_lock = cflag_acquire"

definition bench_inc :: "'p \<Rightarrow> (bool \<Rightarrow> 'p \<Rightarrow> (bool \<times> 'p option) list) \<Rightarrow> (bool \<Rightarrow> bool)
    \<Rightarrow> (bool \<times> i64, ('p, i64) inc_pc) thread" where
  "bench_inc start lock unlock = inc_thread start lock unlock 100000"

definition spinlock_benchmark_round :: "'p \<Rightarrow> nat \<Rightarrow> i64 \<Rightarrow> (bool \<times> i64, ('p, i64) inc_pc) conf" where
  "spinlock_benchmark_round start num_threads val = inc_init start 100000 num_threads val"

text \<open>
  The iterations of the loop over the benchmark state: the threads are joined at the end of each, and the lock and \<open>val\<close> are
  those of the iteration before. A step here is a whole iteration, from its start to a configuration in which all threads have returned.
\<close>

inductive spinlock_benchmark :: "'p \<Rightarrow> (bool \<Rightarrow> 'p \<Rightarrow> (bool \<times> 'p option) list) \<Rightarrow> (bool \<Rightarrow> bool) \<Rightarrow> nat
    \<Rightarrow> nat \<Rightarrow> bool \<times> i64 \<Rightarrow> bool \<times> i64 \<Rightarrow> bool" for start lock unlock num_threads where
  no_iteration: "spinlock_benchmark start lock unlock num_threads 0 g g"
| iteration: "reach (bench_inc start lock unlock) (g, snd (spinlock_benchmark_round start num_threads (snd g))) (g', ls) \<Longrightarrow>
    list_all (\<lambda>l. l = Ret) ls \<Longrightarrow> spinlock_benchmark start lock unlock num_threads k g' g'' \<Longrightarrow>
    spinlock_benchmark start lock unlock num_threads (Suc k) g g''"

inductive_cases no_iterationE: "spinlock_benchmark start lock unlock n 0 g g'"
inductive_cases iterationE: "spinlock_benchmark start lock unlock n (Suc k) g g'"

text \<open>\<open>increment_counter\<close> in the namespace \<open>a_flag\<close>, which is not called.\<close>

definition bench_aflag_increment_counter :: "(bool \<times> i64, (aflag_pc, i64) inc_pc) thread" where
  "bench_aflag_increment_counter = inc_thread TestAndSet bench_aflag_lock aflag_unlock 10000"

text \<open>
  The functions that are registered, with the thread counts they are run with; \<open>range_args m lo hi\<close> are the arguments that the
  library makes of \<open>RangeMultiplier(m)->Range(lo, hi)\<close>, and \<open>hw\<close> is the number of hardware threads.
\<close>

record benchmark =
  benchmark_name :: string
  benchmark_args :: "nat list"
  benchmark_run :: "nat \<Rightarrow> nat \<Rightarrow> bool \<times> i64 \<Rightarrow> bool \<times> i64 \<Rightarrow> bool"

definition registered_benchmarks :: "(nat \<Rightarrow> nat \<Rightarrow> nat \<Rightarrow> nat list) \<Rightarrow> nat \<Rightarrow> 'p \<Rightarrow>
    (bool \<Rightarrow> 'p \<Rightarrow> (bool \<times> 'p option) list) \<Rightarrow> (bool \<Rightarrow> bool) \<Rightarrow> benchmark list" where
  "registered_benchmarks range_args hw posix_start pthread_spin_lock pthread_spin_unlock =
     [\<lparr>benchmark_name = ''audio_spin_mutex'', benchmark_args = range_args 2 1 hw,
       benchmark_run = spinlock_benchmark (Fast 0) bench_audio_lock audio_unlock\<rparr>,
      \<lparr>benchmark_name = ''spinlock_atomic_bool'', benchmark_args = range_args 2 1 hw,
       benchmark_run = spinlock_benchmark Exchange bench_abool_lock abool_unlock\<rparr>,
      \<lparr>benchmark_name = ''spinlock_atomic_flag'', benchmark_args = range_args 2 1 hw,
       benchmark_run = spinlock_benchmark TestAndSet bench_aflag_lock aflag_unlock\<rparr>,
      \<lparr>benchmark_name = ''spinlock_atomic_flag_c'', benchmark_args = range_args 2 1 hw,
       benchmark_run = spinlock_benchmark () bench_cflag_lock cflag_release\<rparr>,
      \<lparr>benchmark_name = ''spinlock_posix_c'', benchmark_args = range_args 2 1 hw,
       benchmark_run = spinlock_benchmark posix_start pthread_spin_lock pthread_spin_unlock\<rparr>]"

section \<open>What the benchmark promises\<close>

context spin_lock begin

lemma round_counts:
  assumes "reach (bench_inc lock_start lock unlock) ((False, c), snd (spinlock_benchmark_round lock_start n c)) (g, ls)"
    and "list_all (\<lambda>l. l = Ret) ls"
  shows "g = (False, c + of_nat (n * 100000))"
proof -
  have "reach (inc_thread lock_start lock unlock 100000) (inc_init lock_start 100000 n c) ((fst g, snd g), ls)"
    using assms(1) by (simp add: bench_inc_def spinlock_benchmark_round_def inc_init_def)
  from inc_counts [OF this assms(2)] show ?thesis by (simp add: prod_eq_iff)
qed

lemma round_exists:
  "\<exists>ls. reach (bench_inc lock_start lock unlock) ((False, c), snd (spinlock_benchmark_round lock_start n c))
     ((False, c + of_nat (n * 100000)), ls) \<and> list_all (\<lambda>l. l = Ret) ls"
proof -
  have "inc_inv 100000 c (False, c) (snd (spinlock_benchmark_round lock_start n c))"
    using inc_inv_init [of 100000 c lock_start n] by (simp add: spinlock_benchmark_round_def inc_init_def)
  from inc_completes [OF this] obtain g ls where
    "reach (bench_inc lock_start lock unlock) ((False, c), snd (spinlock_benchmark_round lock_start n c)) (g, ls)"
    "list_all (\<lambda>l. l = Ret) ls" by (auto simp: bench_inc_def)
  with round_counts [OF this] show ?thesis by blast
qed

lemma iterations_count:
  "spinlock_benchmark lock_start lock unlock n k (False, c) g \<longleftrightarrow> g = (False, c + of_nat (k * n * 100000))"
proof (induction k arbitrary: c)
  case 0
  show ?case by (auto intro: no_iteration elim: no_iterationE)
next
  case (Suc k)
  have next_c: "c + of_nat (n * 100000) + of_nat (k * n * 100000) = (c + of_nat (Suc k * n * 100000) :: i64)"
    by (simp add: algebra_simps)
  show ?case
  proof
    assume "spinlock_benchmark lock_start lock unlock n (Suc k) (False, c) g"
    then show "g = (False, c + of_nat (Suc k * n * 100000))"
    proof (rule iterationE)
      fix g' ls
      assume r: "reach (bench_inc lock_start lock unlock) ((False, c), snd (spinlock_benchmark_round lock_start n (snd (False, c)))) (g', ls)"
        "list_all (\<lambda>l. l = Ret) ls" and rest: "spinlock_benchmark lock_start lock unlock n k g' g"
      have "g' = (False, c + of_nat (n * 100000))" using round_counts r by simp
      with rest Suc.IH next_c show ?thesis by simp
    qed
  next
    assume g: "g = (False, c + of_nat (Suc k * n * 100000))"
    obtain ls where r: "reach (bench_inc lock_start lock unlock) ((False, c), snd (spinlock_benchmark_round lock_start n (snd (False, c))))
        ((False, c + of_nat (n * 100000)), ls)" "list_all (\<lambda>l. l = Ret) ls" using round_exists by (metis snd_conv)
    have "spinlock_benchmark lock_start lock unlock n k (False, c + of_nat (n * 100000)) g" using Suc.IH g next_c by simp
    with r show "spinlock_benchmark lock_start lock unlock n (Suc k) (False, c) g" by (rule iteration)
  qed
qed

end

text \<open>
  Claim C33. Whatever the interleaving, and for every lock: a benchmark that is run with \<open>n\<close> threads for \<open>k\<close> iterations can only end
  with the lock free and \<open>val\<close> at \<open>k * n * 100000\<close> (modulo \<open>2 ^ 64\<close>), and it can end so. The POSIX lock keeps the contract \<open>spin_lock\<close>.
\<close>

theorem benchmarks_count:
  assumes "spin_lock lk ul" and "b \<in> set (registered_benchmarks range_args hw posix_start lk ul)"
  shows "benchmark_run b n k (False, 0) g \<longleftrightarrow> g = (False, of_nat (k * n * 100000))"
  using assms(2) audio.iterations_count [of n k 0 g] abool.iterations_count [of n k 0 g] aflag.iterations_count [of n k 0 g]
    cflag.iterations_count [of n k 0 g] spin_lock.iterations_count [OF assms(1), of posix_start n k 0 g]
  by (auto simp: registered_benchmarks_def bench_audio_lock_def bench_abool_lock_def bench_aflag_lock_def bench_cflag_lock_def)

theorem benchmarks_count_witness:
  "benchmark_run (hd (registered_benchmarks (\<lambda>m lo hi. [lo, hi]) 4 () cflag_acquire cflag_release)) 4 3 (False, 0) (False, 1200000)"
proof -
  let ?bs = "registered_benchmarks (\<lambda>m lo hi. [lo, hi]) 4 () cflag_acquire cflag_release"
  have "hd ?bs \<in> set ?bs" by (simp add: registered_benchmarks_def)
  from benchmarks_count [OF cflag.spin_lock_axioms this, of 4 3] show ?thesis by simp
qed

text \<open>
  The benchmark on the waiting \<open>atomic_flag\<close> lock: from every configuration that an
  iteration of \<open>spinlock_benchmark\<close> can reach, with any number of threads, the run can be
  completed, and it ends with the lock free and \<open>val\<close> increased by 100000 per thread
  (modulo \<open>2 ^ 64\<close>).
\<close>

theorem bench_aflag_round:
  assumes "reach (bench_inc TestAndSet bench_aflag_lock aflag_unlock)
     (spinlock_benchmark_round TestAndSet n val) (g, ls)"
  shows "\<exists>ls'. reach (bench_inc TestAndSet bench_aflag_lock aflag_unlock) (g, ls)
     ((False, val + of_nat (n * 100000)), ls') \<and> list_all (\<lambda>l. l = Ret) ls'"
proof -
  note defs = bench_inc_def bench_aflag_lock_def spinlock_benchmark_round_def
  have r: "reach (inc_thread TestAndSet aflag_lock aflag_unlock 100000)
      (inc_init TestAndSet 100000 n val) (g, ls)"
    using assms by (simp add: defs)
  obtain g' ls' where r': "reach (inc_thread TestAndSet aflag_lock aflag_unlock 100000) (g, ls) (g', ls')"
    and ret: "list_all (\<lambda>l. l = Ret) ls'"
    using aflag.inc_completes [OF aflag.inc_reach_inv [OF r]] by blast
  have "reach (inc_thread TestAndSet aflag_lock aflag_unlock 100000)
      (inc_init TestAndSet 100000 n val) ((fst g', snd g'), ls')"
    using reach_trans [OF r' r] by simp
  from aflag.inc_counts [OF this ret] have "g' = (False, val + of_nat (n * 100000))"
    by (cases g') auto
  with r' ret show ?thesis by (auto simp: defs)
qed

theorem bench_aflag_round_witness:
  "\<exists>ls'. reach (bench_inc TestAndSet bench_aflag_lock aflag_unlock)
     (spinlock_benchmark_round TestAndSet 4 7) ((False, 400007), ls') \<and> list_all (\<lambda>l. l = Ret) ls'"
proof -
  let ?c = "spinlock_benchmark_round TestAndSet 4 7"
  have "reach (bench_inc TestAndSet bench_aflag_lock aflag_unlock) ?c (fst ?c, snd ?c)"
    by (simp add: reach_init)
  from bench_aflag_round [OF this] show ?thesis by simp
qed

end
