(* ===== verification/Mpsc_Single.thy ===== *)
theory Mpsc_Single
  imports Mpsc_Queue Fifo_Clients
begin

text \<open>
  mpsc_queue.h with one producer and one consumer: then the queue is linearizable, weak compare-and-swaps that fail for no
  reason included. The theory Mpsc_Tests shows that with more producers it is not.
\<close>

section \<open>The threads\<close>

definition one_producer_thread :: "(('a \<times> bool) list \<Rightarrow> 'a option) \<Rightarrow> ('a option list \<Rightarrow> bool)
    \<Rightarrow> ('a mpsc, ('a, 'a mpsc_push_pc, 'a mpsc_pop_pc) fifo_client) thread" where
  "one_producer_thread = client_thread PushReserve (\<lambda>v. mpsc_push_step) PopRead mpsc_pop_step"

definition one_producer_init :: "'a \<Rightarrow> ('a mpsc, ('a, 'a mpsc_push_pc, 'a mpsc_pop_pc) fifo_client) conf" where
  "one_producer_init d = client_init (mpsc_new d)"

section \<open>What the two sides know\<close>

fun push_sync :: "'a mpsc \<Rightarrow> ('a \<times> 'a mpsc_push_pc) option \<Rightarrow> bool" where
  "push_sync q None = (reserveWriteIndex q = commitWriteIndex q)"
| "push_sync q (Some (v, PushReserve m)) = (m = v \<and> reserveWriteIndex q = commitWriteIndex q)"
| "push_sync q (Some (v, PushRead m rw)) = (m = v \<and> reserveWriteIndex q = commitWriteIndex q \<and> rw = commitWriteIndex q)"
| "push_sync q (Some (v, PushCas m rw)) =
     (m = v \<and> reserveWriteIndex q = commitWriteIndex q \<and> rw = commitWriteIndex q \<and> mpsc_used q < 1024)"
| "push_sync q (Some (v, PushWrite m rw)) =
     (m = v \<and> reserveWriteIndex q = commitWriteIndex q + 1 \<and> rw = commitWriteIndex q \<and> mpsc_used q < 1024)"
| "push_sync q (Some (v, PushCommit rw)) =
     (reserveWriteIndex q = commitWriteIndex q + 1 \<and> rw = commitWriteIndex q \<and> mpsc_used q < 1024 \<and> buf q ! slot rw = v)"

fun pop_sync :: "'a mpsc \<Rightarrow> 'a mpsc_pop_pc option \<Rightarrow> bool" where
  "pop_sync q None = True"
| "pop_sync q (Some PopRead) = True"
| "pop_sync q (Some (PopCommit r)) = (r = readIndex q)"
| "pop_sync q (Some (PopTake r)) = (r = readIndex q \<and> 0 < mpsc_used q)"
| "pop_sync q (Some (PopStore r m)) = (r = readIndex q \<and> 0 < mpsc_used q \<and> buf q ! slot r = m)"

definition ring_ok :: "'a mpsc \<Rightarrow> bool" where
  "ring_ok q \<longleftrightarrow> length (buf q) = 1024 \<and> mpsc_used q \<le> 1024"

lemma length_mpsc_contents [simp]: "length (mpsc_contents q) = mpsc_used q"
  by (simp add: mpsc_contents_def)

lemma used_reserve [simp]:
  "mpsc_used (q\<lparr>reserveWriteIndex := w\<rparr>) = mpsc_used q" "mpsc_contents (q\<lparr>reserveWriteIndex := w\<rparr>) = mpsc_contents q"
  "mpsc_used (q\<lparr>buf := b\<rparr>) = mpsc_used q"
  by (simp_all add: mpsc_used_def mpsc_contents_def)

lemma used_full: "commitWriteIndex q - readIndex q = 1024 \<longleftrightarrow> mpsc_used q = 1024"
  by (simp add: mpsc_used_def word_unat_eq_iff)

lemma used_empty: "commitWriteIndex q = readIndex q \<longleftrightarrow> mpsc_used q = 0"
  by (metis mpsc_used_def right_minus_eq unat_eq_zero)

lemma slots_differ:
  assumes "0 < mpsc_used q" and "mpsc_used q < 1024"
  shows "slot (readIndex q) \<noteq> slot (commitWriteIndex q)"
proof -
  have less: "(a + u) mod 1024 \<noteq> a" if "0 < u" "u < 1024" "a < 1024" for a u :: nat
    using that by (cases "a + u < 1024") (simp_all add: le_mod_geq)
  have "(r + u) mod 1024 \<noteq> r mod 1024" if "0 < u" "u < 1024" for r u :: nat
    using less [OF that, of "r mod 1024"] by (simp add: mod_add_left_eq)
  from this [OF assms, of "unat (readIndex q)"] show ?thesis unfolding commit_slot by (simp add: slot_mod)
qed

lemma slot_bound: "slot i < 1024"
  by (simp add: slot_mod)

section \<open>Every access keeps what they know\<close>

text \<open>The producer only adds: what the consumer knows stays true.\<close>

lemma pop_sync_mono:
  assumes "pop_sync q cp" and "readIndex q' = readIndex q" and "mpsc_used q \<le> mpsc_used q'"
    and "0 < mpsc_used q \<Longrightarrow> buf q' ! slot (readIndex q) = buf q ! slot (readIndex q)"
  shows "pop_sync q' cp"
  using assms by (cases "(q, cp)" rule: pop_sync.cases) auto

lemma push_sync_mono:
  assumes "push_sync q pp" and "commitWriteIndex q' = commitWriteIndex q" "reserveWriteIndex q' = reserveWriteIndex q"
    and "mpsc_used q' \<le> mpsc_used q" "buf q' = buf q"
  shows "push_sync q' pp"
  using assms by (cases "(q, pp)" rule: push_sync.cases) auto

lemma push_keeps:
  assumes ok: "ring_ok q" and P: "push_sync q (Some (v, pc))" and C: "pop_sync q cp"
    and st: "(q', r) \<in> set (mpsc_push_step q pc)"
  shows "ring_ok q' \<and> pop_sync q' cp \<and>
      (case r of Inl pc' \<Rightarrow> push_sync q' (Some (v, pc')) \<and> mpsc_contents q' = mpsc_contents q
       | Inr b \<Rightarrow> push_sync q' None \<and>
           (if b then length (mpsc_contents q) < 1024 \<and> mpsc_contents q' = mpsc_contents q @ [v]
            else length (mpsc_contents q) = 1024 \<and> mpsc_contents q' = mpsc_contents q))"
proof (cases pc)
  case (PushReserve m)
  with assms show ?thesis by auto
next
  case (PushRead m rw)
  with P have rw: "rw - readIndex q = 1024 \<longleftrightarrow> mpsc_used q = 1024" using used_full [of q] by simp
  have "q' = q" "r = (if rw - readIndex q = 1024 then Inr False else Inl (PushCas m rw))"
    using PushRead st by (simp_all add: MPSC_QUEUE_CAPACITY_def)
  moreover have "mpsc_used q \<le> 1024" using ok by (simp add: ring_ok_def)
  ultimately show ?thesis using rw ok P C PushRead by auto
next
  case (PushCas m rw)
  then consider "q' = q" "r = Inl (PushReserve m)"
    | "q' = q\<lparr>reserveWriteIndex := commitWriteIndex q + 1\<rparr>" "r = Inl (PushWrite m rw)"
    using st P by (auto split: if_splits)
  then show ?thesis
  proof cases
    case 1
    with PushCas assms show ?thesis by auto
  next
    case 2
    have "pop_sync q' cp" using C by (rule pop_sync_mono) (simp_all add: 2)
    with 2 PushCas ok P show ?thesis by (auto simp: ring_ok_def)
  qed
next
  case (PushWrite m rw)
  then have q': "q' = q\<lparr>buf := (buf q)[slot (commitWriteIndex q) := v]\<rparr>" "r = Inl (PushCommit rw)"
    and lt: "mpsc_used q < 1024" using st P by auto
  have len: "length (buf q) = 1024" using ok by (simp add: ring_ok_def)
  have "pop_sync q' cp" using C by (rule pop_sync_mono) (use lt in \<open>simp_all add: q' slots_differ [THEN not_sym]\<close>)
  with q' PushWrite ok P mpsc_cell [OF len lt, of v] len show ?thesis by (auto simp: ring_ok_def slot_bound)
next
  case (PushCommit rw)
  then consider "q' = q" "r = Inl (PushCommit (commitWriteIndex q))"
    | "q' = q\<lparr>commitWriteIndex := commitWriteIndex q + 1\<rparr>" "r = Inr True"
    using st P by (auto split: if_splits)
  then show ?thesis
  proof cases
    case 1
    with PushCommit assms show ?thesis by auto
  next
    case 2
    have q: "length (buf q) = 1024" "mpsc_used q < 1024" "buf q ! slot (commitWriteIndex q) = v"
      using PushCommit ok P by (auto simp: ring_ok_def)
    note c = mpsc_commit [OF q(1,2)]
    have "pop_sync q' cp" using C by (rule pop_sync_mono) (simp_all add: 2 c)
    with 2 PushCommit ok P c q show ?thesis by (auto simp: ring_ok_def)
  qed
qed

lemma pop_keeps:
  assumes ok: "ring_ok q" and P: "push_sync q pp" and C: "pop_sync q (Some pc)"
    and st: "mpsc_pop_step q pc = (q', s)"
  shows "ring_ok q' \<and> push_sync q' pp \<and>
      (case s of Inl pc' \<Rightarrow> pop_sync q' (Some pc') \<and> mpsc_contents q' = mpsc_contents q
       | Inr v \<Rightarrow> pop_sync q' None \<and>
           (case v of None \<Rightarrow> mpsc_contents q = [] \<and> mpsc_contents q' = [] | Some x \<Rightarrow> mpsc_contents q = x # mpsc_contents q'))"
proof (cases pc)
  case (PopCommit r)
  have q': "q' = q" "s = (if commitWriteIndex q = r then Inr None else Inl (PopTake r))" using st PopCommit by auto
  moreover have "commitWriteIndex q = r \<longleftrightarrow> mpsc_used q = 0" using C PopCommit used_empty [of q] by simp
  ultimately consider "mpsc_used q = 0" "q' = q" "s = Inr None" | "0 < mpsc_used q" "q' = q" "s = Inl (PopTake r)"
    by (cases "mpsc_used q = 0") simp_all
  then show ?thesis
  proof cases
    case 1
    then have "mpsc_contents q = []" using length_mpsc_contents [of q] by (metis length_0_conv)
    with 1 ok P show ?thesis by simp
  next
    case 2
    with PopCommit ok P C show ?thesis by simp
  qed
next
  case (PopStore r m)
  then have q': "q' = q\<lparr>readIndex := readIndex q + 1\<rparr>" "s = Inr (Some m)" and m: "buf q ! slot (readIndex q) = m"
    using st C by auto
  obtain n where n: "mpsc_used q = Suc n" using PopStore C gr0_conv_Suc by auto
  have q: "length (buf q) = 1024" "n < 1024" using ok n by (simp_all add: ring_ok_def)
  note r = mpsc_read [OF q(1) n q(2), unfolded m]
  have "push_sync q' pp" using P by (rule push_sync_mono) (simp_all add: q' r(1) n)
  with q' q r show ?thesis by (auto simp: ring_ok_def)
qed (use assms in \<open>auto split: if_splits\<close>)

interpretation one_producer: one_producer_queue PushReserve "\<lambda>v. mpsc_push_step" PopRead mpsc_pop_step "mpsc_new d"
    mpsc_contents 1024 ring_ok push_sync pop_sync for d
proof
  show "ring_ok (mpsc_new d) \<and> mpsc_contents (mpsc_new d) = [] \<and> push_sync (mpsc_new d) None \<and> pop_sync (mpsc_new d) None"
    by (simp add: ring_ok_def mpsc_contents_def mpsc_used_def mpsc_new_def MPSC_QUEUE_CAPACITY_def)
next
  show "push_sync q (Some (v, PushReserve v))" if "push_sync q None" for q v using that by simp
next
  show "pop_sync q (Some PopRead)" if "pop_sync q None" for q using that by simp
qed (rule push_keeps pop_keeps; assumption)+

section \<open>What the queue promises\<close>

text \<open>
  Claim C4. With one producer and one consumer, whatever they call and however the accesses interleave: the calls that have returned, with their
  results, are those of an atomic queue with room for 1024 values. A push is refused only when the queue is full, a pop
  returns nothing only when it is empty.
\<close>

theorem mpsc_single_linearizable:
  assumes "reach (one_producer_thread pushes pops) (one_producer_init d) (q, [Producer ps pp, Consumer cs cp])"
  shows "(queue_spec 1024)\<^sup>*\<^sup>* ([], [], []) (ps, mpsc_contents q, cs) \<and>
    map fst (filter snd ps) = spec_popped cs @ mpsc_contents q"
  using assms unfolding one_producer_thread_def one_producer_init_def by (rule one_producer.linearizable)

text \<open>The first pop finds nothing; then 5 is pushed, with a compare-and-swap of each kind that fails.\<close>

theorem mpsc_single_linearizable_witness:
  "\<exists>q. reach (one_producer_thread (\<lambda>log. if log = [] then Some (5 :: int) else None) (\<lambda>log. log = [])) (one_producer_init 0)
     (q, [Producer [(5, True)] None, Consumer [None] None]) \<and> mpsc_contents q = [5] \<and>
     (queue_spec 1024)\<^sup>*\<^sup>* ([], [], []) ([(5, True)], mpsc_contents q, [None])"
proof -
  let ?T = "one_producer_thread (\<lambda>log. if log = [] then Some (5 :: int) else None) (\<lambda>log. log = [])"
  have "\<exists>q. sched ?T [(0, 0), (0, 0), (1, 0), (1, 0), (0, 0), (0, 0), (0, 0), (0, 0), (0, 1), (0, 0), (0, 0), (1, 0), (0, 1)] (one_producer_init 0) =
      Some (q, [Producer [(5, True)] None, Consumer [None] None]) \<and> mpsc_contents q = [5]"
    by (simp add: one_producer_thread_def one_producer_init_def client_init_def mpsc_new_def MPSC_QUEUE_CAPACITY_def mpsc_contents_def mpsc_used_def slot_mod ring_slice_def)
  then obtain q where r: "reach ?T (one_producer_init 0) (q, [Producer [(5, True)] None, Consumer [None] None])"
    and "mpsc_contents q = [5]" by (auto dest: sched_reach)
  with mpsc_single_linearizable [OF r] show ?thesis by blast
qed

end
