(* ===== verification/Poco_Reactor.thy ===== *)
theory Poco_Reactor
  imports Conc_Prelude
begin

text \<open>
  Reactor/Poco: the two handlers that main.cpp registers with the reactor of the Poco library, and the server. The library is a
  parameter, a record of its calls on a state of its own; what the code relies on of it is \<open>poco_laws\<close>. Handlers are objects of
  a list, a pointer is an index into it, and \<open>delete this\<close> leaves \<open>None\<close>.
\<close>

section \<open>The library calls\<close>

type_synonym chars = "8 word list"

text \<open>An \<open>Observer\<close> is an object and one of its member functions.\<close>

datatype observer = EchoReadable nat | DataReadable nat | DataShutdown nat

text \<open>
  What the thread of the reactor does next: an acceptor creates a handler for a connection, an observer of a socket is notified, or
  the thread ends after \<open>stop\<close>.
\<close>

datatype poco_event = AcceptEcho nat | AcceptData nat | Notified nat observer | ReactorEnds

text \<open>\<open>None\<close> of \<open>receiveBytes\<close> and \<open>sendBytes\<close> is an exception; the reactor catches it. \<open>listen_on\<close> binds a \<open>ServerSocket\<close>.\<close>

record 'k poco =
  listen_on :: "nat \<Rightarrow> 'k \<Rightarrow> bool \<times> 'k"
  next_event :: "'k \<Rightarrow> poco_event \<times> 'k"
  addEventHandler :: "nat \<Rightarrow> observer \<Rightarrow> 'k \<Rightarrow> 'k"
  removeEventHandler :: "nat \<Rightarrow> observer \<Rightarrow> 'k \<Rightarrow> 'k"
  setBlocking :: "nat \<Rightarrow> bool \<Rightarrow> 'k \<Rightarrow> 'k"
  receiveBytes :: "nat \<Rightarrow> nat \<Rightarrow> 'k \<Rightarrow> (int \<times> chars) option \<times> 'k"
  sendBytes :: "nat \<Rightarrow> chars \<Rightarrow> 'k \<Rightarrow> int option \<times> 'k"

section \<open>The handlers\<close>

text \<open>
  A handler has its socket; a \<open>DataHandler\<close> also has \<open>outFile\<close>, which is its own position in reactorOutput.txt. The file is opened
  for writing, so that its content is lost, and a write goes to the position of its stream.
\<close>

datatype poco_handler = EchoHandler nat | DataHandler nat nat

record 'k poco_app =
  net :: 'k
  poco_objects :: "poco_handler option list"
  reactorOutput :: chars

datatype poco_fault = DeletedHandler | WrongHandler

definition file_write :: "nat \<Rightarrow> chars \<Rightarrow> chars \<Rightarrow> chars" where
  "file_write at txt content = take at (content @ replicate (at - length content) 0) @ txt @ drop (at + length txt) content"

definition poco_new :: "poco_handler \<Rightarrow> 'k poco_app \<Rightarrow> 'k poco_app" where
  "poco_new ob a = a\<lparr>poco_objects := poco_objects a @ [Some ob]\<rparr>"

definition delete_this :: "nat \<Rightarrow> 'k poco_app \<Rightarrow> 'k poco_app" where
  "delete_this this a = a\<lparr>poco_objects := (poco_objects a)[this := None]\<rparr>"

definition new_EchoHandler :: "'k poco \<Rightarrow> nat \<Rightarrow> 'k poco_app \<Rightarrow> 'k poco_app" where
  "new_EchoHandler lib socket a =
     (let this = length (poco_objects a)
      in (poco_new (EchoHandler socket) a)\<lparr>net := addEventHandler lib socket (EchoReadable this) (net a)\<rparr>)"

definition echo_buffer :: nat where "echo_buffer = 8"

definition echo_socketReadable :: "'k poco \<Rightarrow> nat \<Rightarrow> nat \<Rightarrow> 'k poco_app \<Rightarrow> 'k poco_app" where
  "echo_socketReadable lib this socket a =
     (case receiveBytes lib socket echo_buffer (net a) of
        (None, k) \<Rightarrow> a\<lparr>net := k\<rparr>
      | (Some (n, buffer), k) \<Rightarrow>
          if n > 0 then a\<lparr>net := snd (sendBytes lib socket buffer k)\<rparr>
          else delete_this this (a\<lparr>net := removeEventHandler lib socket (EchoReadable this) k\<rparr>))"

definition new_DataHandler :: "'k poco \<Rightarrow> nat \<Rightarrow> 'k poco_app \<Rightarrow> 'k poco_app" where
  "new_DataHandler lib socket a =
     (let this = length (poco_objects a);
          k1 = addEventHandler lib socket (DataReadable this) (net a);
          k2 = addEventHandler lib socket (DataShutdown this) k1
      in (poco_new (DataHandler socket 0) a)\<lparr>net := setBlocking lib socket False k2, reactorOutput := []\<rparr>)"

definition data_buffer :: nat where "data_buffer = 64"

definition data_append :: "nat \<Rightarrow> nat \<Rightarrow> nat \<Rightarrow> chars \<Rightarrow> 'k poco_app \<Rightarrow> 'k poco_app" where
  "data_append this socket at s a =
     a\<lparr>poco_objects := (poco_objects a)[this := Some (DataHandler socket (at + length s))],
       reactorOutput := file_write at s (reactorOutput a)\<rparr>"

text \<open>The loop need not end when bytes come as fast as they are read; then the result is \<open>None\<close>.\<close>

partial_function (option) data_socketReadable ::
    "'k poco \<Rightarrow> nat \<Rightarrow> nat \<Rightarrow> nat \<Rightarrow> 'k poco_app \<Rightarrow> 'k poco_app option" where
  "data_socketReadable lib this socket at a =
     (case receiveBytes lib socket data_buffer (net a) of
        (None, k) \<Rightarrow> Some (a\<lparr>net := k\<rparr>)
      | (Some (n, s), k) \<Rightarrow>
          if n > 0 then data_socketReadable lib this socket (at + length s) (data_append this socket at s (a\<lparr>net := k\<rparr>))
          else Some (a\<lparr>net := k\<rparr>))"

text \<open>\<open>delete this\<close> with the destructor of \<open>DataHandler\<close>.\<close>

definition destroy_DataHandler :: "'k poco \<Rightarrow> nat \<Rightarrow> nat \<Rightarrow> 'k \<Rightarrow> 'k" where
  "destroy_DataHandler lib this socket k =
     removeEventHandler lib socket (DataShutdown this) (removeEventHandler lib socket (DataReadable this) k)"

definition data_socketShutdown :: "'k poco \<Rightarrow> nat \<Rightarrow> nat \<Rightarrow> 'k poco_app \<Rightarrow> 'k poco_app" where
  "data_socketShutdown lib this socket a = delete_this this (a\<lparr>net := destroy_DataHandler lib this socket (net a)\<rparr>)"

section \<open>The server\<close>

fun observed :: "observer \<Rightarrow> nat" where
  "observed (EchoReadable this) = this"
| "observed (DataReadable this) = this"
| "observed (DataShutdown this) = this"

text \<open>The call of an observer: the members are those of the object, which may have been deleted.\<close>

definition notify_observer :: "'k poco \<Rightarrow> observer \<Rightarrow> 'k poco_app \<Rightarrow> (poco_fault + 'k poco_app) option" where
  "notify_observer lib ob a =
     (case poco_objects a ! observed ob of
        None \<Rightarrow> Some (Inl DeletedHandler)
      | Some (EchoHandler socket) \<Rightarrow>
          (case ob of EchoReadable this \<Rightarrow> Some (Inr (echo_socketReadable lib this socket a)) | _ \<Rightarrow> Some (Inl WrongHandler))
      | Some (DataHandler socket at) \<Rightarrow>
          (case ob of
             EchoReadable this \<Rightarrow> Some (Inl WrongHandler)
           | DataReadable this \<Rightarrow> map_option Inr (data_socketReadable lib this socket at a)
           | DataShutdown this \<Rightarrow> Some (Inr (data_socketShutdown lib this socket a))))"

text \<open>The thread of the reactor; \<open>n\<close> bounds the events, and the flag says that the thread has ended.\<close>

fun poco_thread :: "'k poco \<Rightarrow> nat \<Rightarrow> 'k poco_app \<Rightarrow> (poco_fault + bool \<times> 'k poco_app) option" where
  "poco_thread lib 0 a = Some (Inr (False, a))"
| "poco_thread lib (Suc n) a =
     (case next_event lib (net a) of
        (ReactorEnds, k) \<Rightarrow> Some (Inr (True, a\<lparr>net := k\<rparr>))
      | (AcceptEcho socket, k) \<Rightarrow> poco_thread lib n (new_EchoHandler lib socket (a\<lparr>net := k\<rparr>))
      | (AcceptData socket, k) \<Rightarrow> poco_thread lib n (new_DataHandler lib socket (a\<lparr>net := k\<rparr>))
      | (Notified socket ob, k) \<Rightarrow>
          (case notify_observer lib ob (a\<lparr>net := k\<rparr>) of
             None \<Rightarrow> None
           | Some (Inl x) \<Rightarrow> Some (Inl x)
           | Some (Inr a') \<Rightarrow> poco_thread lib n a'))"

definition echo_port :: nat where "echo_port = 4711"
definition data_port :: nat where "data_port = 4712"

text \<open>\<open>main\<close> of the server up to \<open>thread.start\<close>; the constructor of a \<open>ServerSocket\<close> throws when the port cannot be bound.\<close>

definition poco_start :: "'k poco \<Rightarrow> 'k \<Rightarrow> 'k poco_app option" where
  "poco_start lib k0 =
     (case listen_on lib echo_port k0 of
        (False, k1) \<Rightarrow> None
      | (True, k1) \<Rightarrow>
          (case listen_on lib data_port k1 of
             (False, k2) \<Rightarrow> None
           | (True, k2) \<Rightarrow> Some \<lparr>net = k2, poco_objects = [], reactorOutput = []\<rparr>))"

text \<open>The thread is started when both acceptors are there, and the server ends when it can be joined; \<open>None\<close> is an exception before.\<close>

definition poco_main :: "'k poco \<Rightarrow> nat \<Rightarrow> 'k \<Rightarrow> (poco_fault + bool \<times> 'k poco_app) option option" where
  "poco_main lib n k0 = map_option (poco_thread lib n) (poco_start lib k0)"

section \<open>What the code relies on\<close>

text \<open>
  What is seen of a state of the library: the observers that are registered, the bytes that \<open>receiveBytes\<close> has returned and
  \<open>sendBytes\<close> has taken of every connection, and the connections that the acceptors have created handlers for. Connections are
  numbered: two of them are never the same.
\<close>

record poco_view =
  registered :: "(nat \<times> observer) set"
  received :: "nat \<Rightarrow> chars"
  sent :: "nat \<Rightarrow> chars"
  echo_conns :: "nat list"
  data_conns :: "nat list"

definition no_connections :: poco_view where
  "no_connections = \<lparr>registered = {}, received = \<lambda>_. [], sent = \<lambda>_. [], echo_conns = [], data_conns = []\<rparr>"

definition read_from :: "nat \<Rightarrow> chars \<Rightarrow> poco_view \<Rightarrow> poco_view" where
  "read_from s bs v = v\<lparr>received := (received v)(s := received v s @ bs)\<rparr>"

definition sent_to :: "nat \<Rightarrow> chars \<Rightarrow> poco_view \<Rightarrow> poco_view" where
  "sent_to s bs v = v\<lparr>sent := (sent v)(s := sent v s @ bs)\<rparr>"

definition receive_law :: "nat \<Rightarrow> poco_view \<Rightarrow> (int \<times> chars) option \<Rightarrow> poco_view \<Rightarrow> bool" where
  "receive_law s v r v' \<longleftrightarrow>
     (case r of None \<Rightarrow> v' = v | Some (n, bs) \<Rightarrow> length bs = nat n \<and> v' = read_from s bs v)"

definition send_law :: "nat \<Rightarrow> chars \<Rightarrow> poco_view \<Rightarrow> int option \<Rightarrow> poco_view \<Rightarrow> bool" where
  "send_law s bs v r v' \<longleftrightarrow> (case r of None \<Rightarrow> v' = v | Some n \<Rightarrow> v' = sent_to s (take (nat n) bs) v)"

definition new_conn :: "nat \<Rightarrow> poco_view \<Rightarrow> bool" where
  "new_conn s v \<longleftrightarrow> s \<notin> set (echo_conns v) \<and> s \<notin> set (data_conns v)"

definition event_law :: "poco_view \<Rightarrow> poco_event \<Rightarrow> poco_view \<Rightarrow> bool" where
  "event_law v e v' \<longleftrightarrow>
     (case e of
        AcceptEcho s \<Rightarrow> new_conn s v \<and> v' = v\<lparr>echo_conns := echo_conns v @ [s]\<rparr>
      | AcceptData s \<Rightarrow> new_conn s v \<and> v' = v\<lparr>data_conns := data_conns v @ [s]\<rparr>
      | Notified s ob \<Rightarrow> (s, ob) \<in> registered v \<and> v' = v
      | ReactorEnds \<Rightarrow> v' = v)"

definition poco_laws :: "'k poco \<Rightarrow> ('k \<Rightarrow> poco_view) \<Rightarrow> bool" where
  "poco_laws lib V \<longleftrightarrow>
     (\<forall>p k. V (snd (listen_on lib p k)) = V k) \<and> (\<forall>s b k. V (setBlocking lib s b k) = V k) \<and>
     (\<forall>s ob k. V (addEventHandler lib s ob k) = V k\<lparr>registered := insert (s, ob) (registered (V k))\<rparr>) \<and>
     (\<forall>s ob k. V (removeEventHandler lib s ob k) = V k\<lparr>registered := registered (V k) - {(s, ob)}\<rparr>) \<and>
     (\<forall>s m k. case receiveBytes lib s m k of (r, k') \<Rightarrow> receive_law s (V k) r (V k')) \<and>
     (\<forall>s bs k. case sendBytes lib s bs k of (r, k') \<Rightarrow> send_law s bs (V k) r (V k')) \<and>
     (\<forall>k. case next_event lib k of (e, k') \<Rightarrow> event_law (V k) e (V k'))"

lemma poco_lawsD:
  assumes "poco_laws lib V"
  shows "V (snd (listen_on lib p k)) = V k" "V (setBlocking lib s b k) = V k"
    "V (addEventHandler lib s ob k) = V k\<lparr>registered := insert (s, ob) (registered (V k))\<rparr>"
    "V (removeEventHandler lib s ob k) = V k\<lparr>registered := registered (V k) - {(s, ob)}\<rparr>"
    "receiveBytes lib s m k = (r, k') \<Longrightarrow> receive_law s (V k) r (V k')"
    "sendBytes lib s bs k = (q, k') \<Longrightarrow> send_law s bs (V k) q (V k')"
    "next_event lib k = (e, k') \<Longrightarrow> event_law (V k) e (V k')"
  using assms unfolding poco_laws_def by (auto split: prod.splits)

text \<open>Every send takes all bytes.\<close>

definition sends_all :: "'k poco \<Rightarrow> bool" where
  "sends_all lib \<longleftrightarrow> (\<forall>s bs k. fst (sendBytes lib s bs k) = Some (int (length bs)))"

text \<open>A measure of what the peers still send.\<close>

definition reads_end :: "'k poco \<Rightarrow> (nat \<Rightarrow> 'k \<Rightarrow> nat) \<Rightarrow> bool" where
  "reads_end lib M \<longleftrightarrow>
     (\<forall>s k. case receiveBytes lib s data_buffer k of (Some (n, bs), k') \<Rightarrow> n > 0 \<longrightarrow> M s k' < M s k | _ \<Rightarrow> True)"

section \<open>The effect of the handlers\<close>

lemma file_write_nil: "at \<le> length c \<Longrightarrow> file_write at [] c = c"
  by (simp add: file_write_def)

lemma file_write_append: "file_write (length c) txt c = c @ txt"
  by (simp add: file_write_def)

lemma view_nothing [simp]: "read_from s [] v = v" "sent_to s [] v = v"
  by (simp_all add: read_from_def sent_to_def)

lemma read_from_twice: "read_from s bs' (read_from s bs v) = read_from s (bs @ bs') v"
  by (simp add: read_from_def)

lemma file_write_twice: "file_write (at + length s) t (file_write at s c) = file_write at (s @ t) c"
proof -
  have "length (take at (c @ replicate (at - length c) 0)) = at" by simp
  then show ?thesis by (simp add: file_write_def add.commute add.left_commute)
qed

text \<open>An \<open>EchoHandler\<close> sends what it has received, or is deleted.\<close>

lemma echo_effect:
  assumes L: "poco_laws lib V"
  obtains (echoed) bs bs' where "poco_objects (echo_socketReadable lib this s a) = poco_objects a"
      "V (net (echo_socketReadable lib this s a)) = sent_to s bs' (read_from s bs (V (net a)))" "sends_all lib \<longrightarrow> bs' = bs"
  | (closed) "poco_objects (echo_socketReadable lib this s a) = (poco_objects a)[this := None]"
      "V (net (echo_socketReadable lib this s a)) = (V (net a))\<lparr>registered := registered (V (net a)) - {(s, EchoReadable this)}\<rparr>"
proof -
  obtain r k where r: "receiveBytes lib s echo_buffer (net a) = (r, k)" by (metis surj_pair)
  note law = poco_lawsD(5) [OF L r, unfolded receive_law_def]
  show thesis
  proof (cases r)
    case None
    with r law show thesis using echoed [of "[]" "[]"] by (simp add: echo_socketReadable_def)
  next
    case (Some x)
    obtain n bs where x: "x = (n, bs)" by (cases x)
    show thesis
    proof (cases "n > 0")
      case True
      obtain q k' where q: "sendBytes lib s bs k = (q, k')" by (metis surj_pair)
      from poco_lawsD(6) [OF L q] have "\<exists>bs'. V k' = sent_to s bs' (V k) \<and> (sends_all lib \<longrightarrow> bs' = bs)"
      proof (cases q)
        case None
        then have "\<not> sends_all lib" using q unfolding sends_all_def by (metis fst_conv option.distinct(1))
        with None poco_lawsD(6) [OF L q] show ?thesis by (intro exI [of _ "[]"]) (simp add: send_law_def)
      next
        case (Some m)
        then have "sends_all lib \<Longrightarrow> m = int (length bs)" using q unfolding sends_all_def by (metis fst_conv option.inject)
        with Some poco_lawsD(6) [OF L q] show ?thesis by (intro exI [of _ "take (nat m) bs"]) (auto simp: send_law_def)
      qed
      then obtain bs' where "V k' = sent_to s bs' (V k)" "sends_all lib \<longrightarrow> bs' = bs" by blast
      with True r law Some x q show thesis using echoed [of bs' bs] by (simp add: echo_socketReadable_def)
    next
      case False
      with r law Some x show thesis using closed poco_lawsD(4) [OF L] by (simp add: echo_socketReadable_def delete_this_def)
    qed
  qed
qed

text \<open>A \<open>DataHandler\<close> writes all that it has received to its position.\<close>

definition data_written :: "('k \<Rightarrow> poco_view) \<Rightarrow> nat \<Rightarrow> nat \<Rightarrow> nat \<Rightarrow> 'k poco_app \<Rightarrow> chars \<Rightarrow> 'k poco_app \<Rightarrow> bool" where
  "data_written V this s at a bs a' \<longleftrightarrow> V (net a') = read_from s bs (V (net a)) \<and>
     poco_objects a' = (poco_objects a)[this := Some (DataHandler s (at + length bs))] \<and>
     reactorOutput a' = (if bs = [] then reactorOutput a else file_write at bs (reactorOutput a))"

lemma data_written_append:
  assumes "data_written V this s (at + length bs) (data_append this s at bs (a\<lparr>net := k\<rparr>)) bs' a'"
    and "V k = read_from s bs (V (net a))" and "bs \<noteq> []"
  shows "data_written V this s at a (bs @ bs') a'"
  using assms by (simp add: data_written_def data_append_def read_from_twice file_write_twice add.assoc)

lemma data_effect:
  assumes L: "poco_laws lib V" and r: "data_socketReadable lib this s at a = Some a'"
  shows "poco_objects a ! this = Some (DataHandler s at) \<Longrightarrow> this < length (poco_objects a) \<Longrightarrow> \<exists>bs. data_written V this s at a bs a'"
proof (rule data_socketReadable.raw_induct
    [where P = "\<lambda>lib' this s at a a'. lib' = lib \<longrightarrow> this < length (poco_objects a) \<longrightarrow>
       poco_objects a ! this = Some (DataHandler s at) \<longrightarrow> (\<exists>bs. data_written V this s at a bs a')", OF _ r, THEN mp, OF _ refl, THEN mp, THEN mp];
    (intro impI)?)
  fix f and lib' :: "'a poco" and this s at and a a' :: "'a poco_app"
  assume IH: "\<And>lib' this s at a a'. f lib' this s at a = Some a' \<Longrightarrow>
      lib' = lib \<longrightarrow> this < length (poco_objects a) \<longrightarrow> poco_objects a ! this = Some (DataHandler s at) \<longrightarrow> (\<exists>bs. data_written V this s at a bs a')"
    and st: "(case receiveBytes lib' s data_buffer (net a) of
        (None, k) \<Rightarrow> Some (a\<lparr>net := k\<rparr>)
      | (Some (n, bs), k) \<Rightarrow>
          if n > 0 then f lib' this s (at + length bs) (data_append this s at bs (a\<lparr>net := k\<rparr>))
          else Some (a\<lparr>net := k\<rparr>)) = Some a'"
    and lib: "lib' = lib" and ob: "this < length (poco_objects a)" "poco_objects a ! this = Some (DataHandler s at)"
  have idle: "data_written V this s at a [] (a\<lparr>net := k\<rparr>)" if "V k = V (net a)" for k
    using that by (simp add: data_written_def flip: ob(2))
  obtain r k where r: "receiveBytes lib s data_buffer (net a) = (r, k)" by (metis surj_pair)
  note law = poco_lawsD(5) [OF L r, unfolded receive_law_def]
  show "\<exists>bs. data_written V this s at a bs a'"
  proof (cases "\<exists>n bs. r = Some (n, bs) \<and> n > 0")
    case True
    then obtain n bs where x: "r = Some (n, bs)" "n > 0" by blast
    let ?a = "data_append this s at bs (a\<lparr>net := k\<rparr>)"
    from st r lib x have "f lib this s (at + length bs) ?a = Some a'" by simp
    moreover have "this < length (poco_objects ?a)" "poco_objects ?a ! this = Some (DataHandler s (at + length bs))"
      using ob by (simp_all add: data_append_def)
    ultimately obtain bs' where w: "data_written V this s (at + length bs) ?a bs' a'" using IH by blast
    have "length bs = nat n" "V k = read_from s bs (V (net a))" using law x(1) by simp_all
    with x(2) have "V k = read_from s bs (V (net a))" "bs \<noteq> []" by auto
    from data_written_append [OF w this] show ?thesis by blast
  next
    case False
    then have "a' = a\<lparr>net := k\<rparr>" "V k = V (net a)" using st r lib law by (auto split: option.splits)
    from this(1) idle [OF this(2)] show ?thesis by blast
  qed
qed

text \<open>It ends when the peer stops sending.\<close>

lemma data_returns:
  assumes "reads_end lib M"
  shows "data_socketReadable lib this s at a \<noteq> None"
proof (induction "M s (net a)" arbitrary: at a rule: less_induct)
  case less
  obtain r k where r: "receiveBytes lib s data_buffer (net a) = (r, k)" by (metis surj_pair)
  show ?case
  proof (cases "\<exists>n bs. r = Some (n, bs) \<and> n > 0")
    case True
    then obtain n bs where x: "r = Some (n, bs)" "n > 0" by blast
    have "M s k < M s (net a)" using assms r x unfolding reads_end_def by (auto dest!: spec [of _ s] spec [of _ "net a"])
    then have "data_socketReadable lib this s (at + length bs) (data_append this s at bs (a\<lparr>net := k\<rparr>)) \<noteq> None"
      by (intro less) (simp add: data_append_def)
    with r x show ?thesis by (subst data_socketReadable.simps) simp
  next
    case False
    with r show ?thesis by (subst data_socketReadable.simps) (auto split: option.splits)
  qed
qed

section \<open>What the server keeps\<close>

fun handler_of :: "nat \<Rightarrow> observer \<Rightarrow> poco_handler \<Rightarrow> bool" where
  "handler_of s (EchoReadable p) h = (h = EchoHandler s)"
| "handler_of s (DataReadable p) h = (\<exists>at. h = DataHandler s at)"
| "handler_of s (DataShutdown p) h = (\<exists>at. h = DataHandler s at)"

text \<open>An observer that is registered has a live handler of its class, with the socket it is registered for.\<close>

definition observers_live :: "poco_view \<Rightarrow> poco_handler option list \<Rightarrow> bool" where
  "observers_live v obs \<longleftrightarrow>
     (\<forall>s ob. (s, ob) \<in> registered v \<longrightarrow> observed ob < length obs \<and> (\<exists>h. obs ! observed ob = Some h \<and> handler_of s ob h))"

definition conns_ok :: "poco_view \<Rightarrow> poco_handler option list \<Rightarrow> bool" where
  "conns_ok v obs \<longleftrightarrow>
     (\<forall>p < length obs. \<forall>s. obs ! p = Some (EchoHandler s) \<longrightarrow> s \<in> set (echo_conns v)) \<and>
     (\<forall>p < length obs. \<forall>s at. obs ! p = Some (DataHandler s at) \<longrightarrow> s \<in> set (data_conns v)) \<and>
     (\<forall>p < length obs. \<forall>q < length obs. \<forall>s at at'. obs ! p = Some (DataHandler s at) \<longrightarrow> obs ! q = Some (DataHandler s at') \<longrightarrow> p = q) \<and>
     set (echo_conns v) \<inter> set (data_conns v) = {} \<and> (\<forall>s. new_conn s v \<longrightarrow> received v s = [] \<and> sent v s = [])"

definition echo_ok :: "poco_view \<Rightarrow> bool" where
  "echo_ok v \<longleftrightarrow> (\<forall>s \<in> set (echo_conns v). sent v s = received v s)"

definition data_ok :: "poco_view \<Rightarrow> poco_handler option list \<Rightarrow> chars \<Rightarrow> bool" where
  "data_ok v obs out \<longleftrightarrow> (\<forall>s. data_conns v = [s] \<longrightarrow>
     out = received v s \<and> (\<forall>p < length obs. \<forall>at. obs ! p = Some (DataHandler s at) \<longrightarrow> at = length out))"

definition server_ok :: "bool \<Rightarrow> poco_view \<Rightarrow> poco_handler option list \<Rightarrow> chars \<Rightarrow> bool" where
  "server_ok all v obs out \<longleftrightarrow> observers_live v obs \<and> conns_ok v obs \<and> (all \<longrightarrow> echo_ok v) \<and> data_ok v obs out"

lemma server_ok_init: "server_ok all no_connections [] []"
  by (simp add: server_ok_def no_connections_def observers_live_def conns_ok_def echo_ok_def data_ok_def)

lemma view_read_simps [simp]:
  "registered (read_from s bs v) = registered v" "echo_conns (read_from s bs v) = echo_conns v"
  "data_conns (read_from s bs v) = data_conns v" "sent (read_from s bs v) = sent v"
  "received (read_from s bs v) s' = (if s' = s then received v s @ bs else received v s')"
  "registered (sent_to s bs v) = registered v" "echo_conns (sent_to s bs v) = echo_conns v"
  "data_conns (sent_to s bs v) = data_conns v" "received (sent_to s bs v) = received v"
  "sent (sent_to s bs v) s' = (if s' = s then sent v s @ bs else sent v s')"
  by (simp_all add: read_from_def sent_to_def)

lemma server_accepts_echo:
  assumes "server_ok all v obs out" and "new_conn s v"
  shows "server_ok all (v\<lparr>echo_conns := echo_conns v @ [s], registered := insert (s, EchoReadable (length obs)) (registered v)\<rparr>)
    (obs @ [Some (EchoHandler s)]) out"
proof -
  let ?v = "v\<lparr>echo_conns := echo_conns v @ [s], registered := insert (s, EchoReadable (length obs)) (registered v)\<rparr>"
  let ?obs = "obs @ [Some (EchoHandler s)]"
  from assms have I: "observers_live v obs" "conns_ok v obs" "all \<longrightarrow> echo_ok v" "data_ok v obs out" by (simp_all add: server_ok_def)
  have "observers_live ?v ?obs" using I(1) by (auto simp: observers_live_def nth_append intro: less_SucI)
  moreover have "conns_ok ?v ?obs"
    using I(2) assms(2) by (auto simp: conns_ok_def new_conn_def nth_append less_Suc_eq)
  moreover have "all \<longrightarrow> echo_ok ?v" using I(2,3) assms(2) by (auto simp: echo_ok_def conns_ok_def)
  moreover have "data_ok ?v ?obs out" using I(4) by (auto simp: data_ok_def nth_append less_Suc_eq)
  ultimately show ?thesis by (simp add: server_ok_def)
qed

lemma server_accepts_data:
  assumes "server_ok all v obs out" and "new_conn s v"
  shows "server_ok all (v\<lparr>data_conns := data_conns v @ [s],
      registered := insert (s, DataShutdown (length obs)) (insert (s, DataReadable (length obs)) (registered v))\<rparr>)
    (obs @ [Some (DataHandler s 0)]) []"
proof -
  let ?v = "v\<lparr>data_conns := data_conns v @ [s],
      registered := insert (s, DataShutdown (length obs)) (insert (s, DataReadable (length obs)) (registered v))\<rparr>"
  let ?obs = "obs @ [Some (DataHandler s 0)]"
  from assms have I: "observers_live v obs" "conns_ok v obs" "all \<longrightarrow> echo_ok v" by (simp_all add: server_ok_def)
  have "observers_live ?v ?obs" using I(1) by (auto simp: observers_live_def nth_append intro: less_SucI)
  moreover have "conns_ok ?v ?obs"
    using I(2) assms(2) by (auto simp: conns_ok_def new_conn_def nth_append less_Suc_eq)
  moreover have "all \<longrightarrow> echo_ok ?v" using I(3) by (simp add: echo_ok_def)
  moreover have "data_ok ?v ?obs []"
    using I(2) assms(2) by (auto simp: data_ok_def conns_ok_def new_conn_def nth_append less_Suc_eq)
  ultimately show ?thesis by (simp add: server_ok_def)
qed

text \<open>Only the position of a \<open>DataHandler\<close> changes, and handlers may be deleted.\<close>

lemma conns_ok_mono:
  assumes I: "conns_ok v obs" and len: "length obs' = length obs" and v: "echo_conns v' = echo_conns v" "data_conns v' = data_conns v"
    and e: "\<And>q s. q < length obs \<Longrightarrow> obs' ! q = Some (EchoHandler s) \<Longrightarrow> obs ! q = Some (EchoHandler s)"
    and d: "\<And>q s at. q < length obs \<Longrightarrow> obs' ! q = Some (DataHandler s at) \<Longrightarrow> \<exists>at'. obs ! q = Some (DataHandler s at')"
    and new: "\<And>s. new_conn s v \<Longrightarrow> received v' s = received v s \<and> sent v' s = sent v s"
  shows "conns_ok v' obs'"
proof -
  note I' = I [unfolded conns_ok_def]
  have n: "new_conn s v' = new_conn s v" for s by (simp add: new_conn_def v)
  show ?thesis unfolding conns_ok_def len v n
  proof (intro conjI allI impI)
    fix p q s at at' assume "p < length obs" "q < length obs" "obs' ! p = Some (DataHandler s at)" "obs' ! q = Some (DataHandler s at')"
    with d obtain b b' where "obs ! p = Some (DataHandler s b)" "obs ! q = Some (DataHandler s b')" by meson
    with \<open>p < length obs\<close> \<open>q < length obs\<close> I' show "p = q" by blast
  next
    fix p s assume "p < length obs" "obs' ! p = Some (EchoHandler s)"
    with e I' show "s \<in> set (echo_conns v)" by blast
  next
    fix p s at assume "p < length obs" "obs' ! p = Some (DataHandler s at)"
    with d obtain b where "obs ! p = Some (DataHandler s b)" by meson
    with \<open>p < length obs\<close> I' show "s \<in> set (data_conns v)" by blast
  next
    show "set (echo_conns v) \<inter> set (data_conns v) = {}" using I' by blast
  next
    fix s assume "new_conn s v"
    with new I' show "received v' s = []" "sent v' s = []" by simp_all
  qed
qed

lemma server_echoes:
  assumes "server_ok all v obs out" and "p < length obs" "obs ! p = Some (EchoHandler s)" and "all \<longrightarrow> bs' = bs"
  shows "server_ok all (sent_to s bs' (read_from s bs v)) obs out"
proof -
  from assms have I: "observers_live v obs" "conns_ok v obs" "all \<longrightarrow> echo_ok v" "data_ok v obs out" by (simp_all add: server_ok_def)
  have s: "s \<in> set (echo_conns v)" using I(2) assms(2,3) unfolding conns_ok_def by blast
  then have s': "s \<notin> set (data_conns v)" using I(2) unfolding conns_ok_def by blast
  have "observers_live (sent_to s bs' (read_from s bs v)) obs" using I(1) by (simp add: observers_live_def)
  moreover have "conns_ok (sent_to s bs' (read_from s bs v)) obs"
    by (rule conns_ok_mono [OF I(2)]) (use s in \<open>auto simp: new_conn_def\<close>)
  moreover have "all \<longrightarrow> echo_ok (sent_to s bs' (read_from s bs v))" using I(3) assms(4) by (simp add: echo_ok_def)
  moreover have "data_ok (sent_to s bs' (read_from s bs v)) obs out" using I(4) s' by (auto simp: data_ok_def)
  ultimately show ?thesis by (simp add: server_ok_def)
qed

lemma server_deletes:
  assumes "server_ok all v obs out" and R: "R \<subseteq> registered v" "\<forall>s ob. (s, ob) \<in> R \<longrightarrow> observed ob \<noteq> p"
  shows "server_ok all (v\<lparr>registered := R\<rparr>) (obs[p := None]) out"
proof -
  let ?v = "v\<lparr>registered := R\<rparr>"
  from assms(1) have I: "observers_live v obs" "conns_ok v obs" "all \<longrightarrow> echo_ok v" "data_ok v obs out" by (simp_all add: server_ok_def)
  have keep: "obs[p := None] ! q = Some h \<Longrightarrow> obs ! q = Some h" if "q < length obs" for q h
    using that by (cases "q = p") simp_all
  have "observers_live ?v (obs[p := None])" using I(1) R unfolding observers_live_def
    by (simp add: subset_iff) (metis nth_list_update_neq)
  moreover have "conns_ok ?v (obs[p := None])"
    by (rule conns_ok_mono [OF I(2)]) (use keep in \<open>auto simp: new_conn_def\<close>)
  moreover have "all \<longrightarrow> echo_ok ?v" using I(3) by (simp add: echo_ok_def)
  moreover have "data_ok ?v (obs[p := None]) out" using I(4) keep by (auto simp: data_ok_def)
  ultimately show ?thesis by (simp add: server_ok_def)
qed

lemma server_stores:
  assumes "server_ok all v obs out" and p: "p < length obs" "obs ! p = Some (DataHandler s at)"
  shows "server_ok all (read_from s bs v) (obs[p := Some (DataHandler s (at + length bs))])
    (if bs = [] then out else file_write at bs out)"
proof -
  let ?v = "read_from s bs v" let ?obs = "obs[p := Some (DataHandler s (at + length bs))]"
  from assms have I: "observers_live v obs" "conns_ok v obs" "all \<longrightarrow> echo_ok v" "data_ok v obs out" by (simp_all add: server_ok_def)
  have d: "s \<in> set (data_conns v)" using I(2) p unfolding conns_ok_def by blast
  then have s: "s \<in> set (data_conns v)" "s \<notin> set (echo_conns v)" using I(2) unfolding conns_ok_def by blast+
  have "observers_live ?v ?obs"
    unfolding observers_live_def
  proof (intro allI impI)
    fix s' ob assume "(s', ob) \<in> registered ?v"
    with I(1) obtain h where ob: "observed ob < length obs" "obs ! observed ob = Some h" "handler_of s' ob h"
      by (auto simp: observers_live_def)
    with p show "observed ob < length ?obs \<and> (\<exists>h. ?obs ! observed ob = Some h \<and> handler_of s' ob h)"
      by (cases "observed ob = p"; cases ob) auto
  qed
  moreover have "conns_ok ?v ?obs"
  proof -
    have old: "?obs ! q = Some (DataHandler s' at') \<Longrightarrow> \<exists>at''. obs ! q = Some (DataHandler s' at'')" if "q < length obs" for q s' at'
      using that p by (cases "q = p") auto
    have echo: "?obs ! q = Some (EchoHandler s') \<Longrightarrow> obs ! q = Some (EchoHandler s')" if "q < length obs" for q s'
      using that by (cases "q = p") auto
    show ?thesis
      by (rule conns_ok_mono [OF I(2)]) (use s old echo in \<open>auto simp: new_conn_def\<close>)
  qed
  moreover have "all \<longrightarrow> echo_ok ?v" using I(3) s by (auto simp: echo_ok_def)
  moreover have "data_ok ?v ?obs (if bs = [] then out else file_write at bs out)"
    unfolding data_ok_def
  proof (intro allI impI)
    fix s' assume "data_conns ?v = [s']"
    with s have d: "data_conns v = [s]" "s' = s" by auto
    with I(4) p have out: "out = received v s" "at = length out" by (auto simp: data_ok_def)
    have "q = p" if "q < length obs" "obs ! q = Some (DataHandler s at')" for q at'
      using I(2) p that unfolding conns_ok_def by blast
    note only = this
    show "(if bs = [] then out else file_write at bs out) = received ?v s' \<and>
        (\<forall>q < length ?obs. \<forall>at'. ?obs ! q = Some (DataHandler s' at') \<longrightarrow>
          at' = length (if bs = [] then out else file_write at bs out))"
    proof (intro conjI allI impI)
      show "(if bs = [] then out else file_write at bs out) = received ?v s'" using out d by (simp add: file_write_append)
    next
      fix q at' assume "q < length ?obs" "?obs ! q = Some (DataHandler s' at')"
      with only d have "q = p" by (cases "q = p") auto
      with \<open>?obs ! q = Some (DataHandler s' at')\<close> p out
      show "at' = length (if bs = [] then out else file_write at bs out)" by (auto simp: file_write_append)
    qed
  qed
  ultimately show ?thesis by (simp add: server_ok_def)
qed

definition app_ok :: "'k poco \<Rightarrow> ('k \<Rightarrow> poco_view) \<Rightarrow> 'k poco_app \<Rightarrow> bool" where
  "app_ok lib V a \<longleftrightarrow> server_ok (sends_all lib) (V (net a)) (poco_objects a) (reactorOutput a)"

lemma app_ok_live:
  assumes "app_ok lib V a" and "(s, ob) \<in> registered (V (net a))"
  obtains h where "observed ob < length (poco_objects a)" "poco_objects a ! observed ob = Some h" "handler_of s ob h"
  using assms unfolding app_ok_def server_ok_def observers_live_def by blast

lemma echo_readable_keeps:
  assumes L: "poco_laws lib V" and I: "app_ok lib V a" and p: "p < length (poco_objects a)" "poco_objects a ! p = Some (EchoHandler s)"
  shows "app_ok lib V (echo_socketReadable lib p s a)"
proof -
  let ?a = "echo_socketReadable lib p s a"
  have out: "reactorOutput ?a = reactorOutput a" by (simp add: echo_socketReadable_def delete_this_def split: prod.split option.split)
  show ?thesis
  proof (rule echo_effect [OF L, of p s a])
    fix bs bs'
    assume "poco_objects ?a = poco_objects a" "V (net ?a) = sent_to s bs' (read_from s bs (V (net a)))" "sends_all lib \<longrightarrow> bs' = bs"
    then show ?thesis using server_echoes [OF I [unfolded app_ok_def] p] by (simp add: app_ok_def out)
  next
    assume d: "poco_objects ?a = (poco_objects a)[p := None]"
      "V (net ?a) = (V (net a))\<lparr>registered := registered (V (net a)) - {(s, EchoReadable p)}\<rparr>"
    have "\<forall>s' ob. (s', ob) \<in> registered (V (net a)) - {(s, EchoReadable p)} \<longrightarrow> observed ob \<noteq> p"
    proof (intro allI impI notI)
      fix s' ob assume ob: "(s', ob) \<in> registered (V (net a)) - {(s, EchoReadable p)}" "observed ob = p"
      with app_ok_live [OF I, of s' ob] p have "handler_of s' ob (EchoHandler s)" by auto
      with ob show False by (cases ob) auto
    qed
    from server_deletes [OF I [unfolded app_ok_def] Diff_subset this] d show ?thesis by (simp add: app_ok_def out)
  qed
qed

lemma data_shutdown_keeps:
  assumes L: "poco_laws lib V" and I: "app_ok lib V a" and p: "p < length (poco_objects a)" "poco_objects a ! p = Some (DataHandler s at)"
  shows "app_ok lib V (data_socketShutdown lib p s a)"
proof -
  let ?R = "registered (V (net a)) - {(s, DataReadable p)} - {(s, DataShutdown p)}"
  have "\<forall>s' ob. (s', ob) \<in> ?R \<longrightarrow> observed ob \<noteq> p"
  proof (intro allI impI notI)
    fix s' ob assume ob: "(s', ob) \<in> ?R" "observed ob = p"
    with app_ok_live [OF I, of s' ob] p have "handler_of s' ob (DataHandler s at)" by auto
    with ob show False by (cases ob) auto
  qed
  moreover have "?R \<subseteq> registered (V (net a))" by blast
  ultimately show ?thesis using server_deletes [OF I [unfolded app_ok_def], of ?R p]
    by (simp add: app_ok_def data_socketShutdown_def delete_this_def destroy_DataHandler_def poco_lawsD(4) [OF L])
qed

text \<open>A notification reaches a live handler of the right class.\<close>

lemma notified_keeps:
  assumes L: "poco_laws lib V" and I: "app_ok lib V a" and r: "(s, ob) \<in> registered (V (net a))"
    and n: "notify_observer lib ob a = Some x"
  obtains a' where "x = Inr a'" "app_ok lib V a'"
proof -
  let ?p = "observed ob"
  from I r obtain h where h: "?p < length (poco_objects a)" "poco_objects a ! ?p = Some h" "handler_of s ob h"
    by (rule app_ok_live)
  have data: "app_ok lib V a'" if "data_socketReadable lib ?p s at a = Some a'" "h = DataHandler s at" for a' at
  proof -
    from data_effect [OF L that(1)] h that(2) obtain bs where "data_written V ?p s at a bs a'" by auto
    with server_stores [OF I [unfolded app_ok_def] h(1), of s at bs] h(2) that(2) show ?thesis
      by (simp add: app_ok_def data_written_def)
  qed
  show thesis
  proof (cases ob)
    case (EchoReadable p)
    with h n have "x = Inr (echo_socketReadable lib p s a)" "app_ok lib V (echo_socketReadable lib p s a)"
      using echo_readable_keeps [OF L I, of p s] by (simp_all add: notify_observer_def)
    with that show thesis by blast
  next
    case (DataReadable p)
    then obtain at where at: "h = DataHandler s at" using h(3) by auto
    with DataReadable h n obtain a' where "data_socketReadable lib ?p s at a = Some a'" "x = Inr a'"
      by (auto simp: notify_observer_def)
    with data at show thesis using that by blast
  next
    case (DataShutdown p)
    then obtain at where at: "h = DataHandler s at" using h(3) by auto
    with DataShutdown h n have "x = Inr (data_socketShutdown lib p s a)" "app_ok lib V (data_socketShutdown lib p s a)"
      using data_shutdown_keeps [OF L I, of p s at] by (simp_all add: notify_observer_def)
    with that show thesis by blast
  qed
qed

lemma poco_thread_keeps:
  assumes L: "poco_laws lib V"
  shows "app_ok lib V a \<Longrightarrow> poco_thread lib n a = Some x \<Longrightarrow> \<exists>e a'. x = Inr (e, a') \<and> app_ok lib V a'"
proof (induction n arbitrary: a)
  case 0
  then show ?case by auto
next
  case (Suc n)
  obtain e k where e: "next_event lib (net a) = (e, k)" by (metis surj_pair)
  note law = poco_lawsD(7) [OF L e, unfolded event_law_def]
  note I = Suc.prems(1) [unfolded app_ok_def]
  show ?case
  proof (cases e)
    case (AcceptEcho s)
    with law have new: "new_conn s (V (net a))" and v: "V k = (V (net a))\<lparr>echo_conns := echo_conns (V (net a)) @ [s]\<rparr>" by simp_all
    from server_accepts_echo [OF I new] have "app_ok lib V (new_EchoHandler lib s (a\<lparr>net := k\<rparr>))"
      by (simp add: app_ok_def new_EchoHandler_def poco_new_def poco_lawsD(3) [OF L] v Let_def)
    from Suc.IH [OF this] Suc.prems(2) e AcceptEcho show ?thesis by simp
  next
    case (AcceptData s)
    with law have new: "new_conn s (V (net a))" and v: "V k = (V (net a))\<lparr>data_conns := data_conns (V (net a)) @ [s]\<rparr>" by simp_all
    from server_accepts_data [OF I new] have "app_ok lib V (new_DataHandler lib s (a\<lparr>net := k\<rparr>))"
      by (simp add: app_ok_def new_DataHandler_def poco_new_def poco_lawsD(2,3) [OF L] v Let_def)
    from Suc.IH [OF this] Suc.prems(2) e AcceptData show ?thesis by simp
  next
    case (Notified s ob)
    with law have r: "(s, ob) \<in> registered (V (net a))" "V k = V (net a)" by simp_all
    with Suc.prems(1) have I': "app_ok lib V (a\<lparr>net := k\<rparr>)" "(s, ob) \<in> registered (V (net (a\<lparr>net := k\<rparr>)))"
      by (simp_all add: app_ok_def)
    from Suc.prems(2) e Notified obtain y where y: "notify_observer lib ob (a\<lparr>net := k\<rparr>) = Some y"
      by (cases "notify_observer lib ob (a\<lparr>net := k\<rparr>)") auto
    from notified_keeps [OF L I' y] obtain a' where a': "y = Inr a'" "app_ok lib V a'" .
    from Suc.IH [OF a'(2)] Suc.prems(2) e Notified y a'(1) show ?thesis by simp
  next
    case ReactorEnds
    with law Suc.prems e show ?thesis by (auto simp: app_ok_def)
  qed
qed

lemma notify_returns: "reads_end lib M \<Longrightarrow> notify_observer lib ob a \<noteq> None"
  using data_returns [of lib M] by (simp add: notify_observer_def split: option.split poco_handler.split observer.split)

lemma poco_thread_returns:
  assumes "reads_end lib M"
  shows "poco_thread lib n a \<noteq> None"
proof (induction n arbitrary: a)
  case (Suc n)
  from notify_returns [OF assms] Suc show ?case
    by (auto split: prod.split poco_event.split option.split sum.split simp del: not_None_eq simp: all_conj_distrib)
qed simp

lemma poco_start_ok:
  assumes L: "poco_laws lib V" and "V k0 = no_connections" and "poco_start lib k0 = Some a"
  shows "app_ok lib V a"
proof -
  obtain b1 k1 b2 k2 where k: "listen_on lib echo_port k0 = (b1, k1)" "listen_on lib data_port k1 = (b2, k2)" by (metis surj_pair)
  have "V k2 = no_connections" using assms(2) poco_lawsD(1) [OF L] k by (metis snd_conv)
  with assms(3) k server_ok_init show ?thesis by (auto simp: poco_start_def app_ok_def split: bool.splits)
qed

text \<open>Peers that have closed: the observers of a \<open>DataHandler\<close> stay, and the reactor can notify it again at once.\<close>

lemma data_not_removed:
  assumes "poco_laws lib V" and "receiveBytes lib s data_buffer (net a) = (Some (0, []), k)"
  shows "\<exists>a'. data_socketReadable lib this s at a = Some a' \<and> poco_objects a' = poco_objects a \<and> V (net a') = V (net a)"
  using poco_lawsD(5) [OF assms] assms(2) by (subst data_socketReadable.simps) (simp add: receive_law_def)

section \<open>A library that follows a script\<close>

text \<open>Used for examples: events are those of a list, as far as the laws allow them, and connections have their input.\<close>

record script =
  sc_view :: poco_view
  sc_events :: "poco_event list"
  sc_input :: "nat \<Rightarrow> chars"

definition script_next :: "script \<Rightarrow> poco_event \<times> script" where
  "script_next k =
     (case sc_events k of
        [] \<Rightarrow> (ReactorEnds, k)
      | e # es \<Rightarrow>
          (let v = sc_view k; k' = k\<lparr>sc_events := es\<rparr>
           in case e of
                AcceptEcho s \<Rightarrow>
                  if new_conn s v then (e, k'\<lparr>sc_view := v\<lparr>echo_conns := echo_conns v @ [s]\<rparr>\<rparr>) else (ReactorEnds, k')
              | AcceptData s \<Rightarrow>
                  if new_conn s v then (e, k'\<lparr>sc_view := v\<lparr>data_conns := data_conns v @ [s]\<rparr>\<rparr>) else (ReactorEnds, k')
              | Notified s ob \<Rightarrow> if (s, ob) \<in> registered v then (e, k') else (ReactorEnds, k')
              | ReactorEnds \<Rightarrow> (ReactorEnds, k')))"

definition script_lib :: "script poco" where
  "script_lib =
     \<lparr>listen_on = \<lambda>p k. (True, k), next_event = script_next,
      addEventHandler = \<lambda>s ob k. k\<lparr>sc_view := (sc_view k)\<lparr>registered := insert (s, ob) (registered (sc_view k))\<rparr>\<rparr>,
      removeEventHandler = \<lambda>s ob k. k\<lparr>sc_view := (sc_view k)\<lparr>registered := registered (sc_view k) - {(s, ob)}\<rparr>\<rparr>,
      setBlocking = \<lambda>s b k. k,
      receiveBytes = \<lambda>s m k.
        (let bs = take m (sc_input k s)
         in (Some (int (length bs), bs),
             k\<lparr>sc_input := (sc_input k)(s := drop m (sc_input k s)), sc_view := read_from s bs (sc_view k)\<rparr>)),
      sendBytes = \<lambda>s bs k. (Some (int (length bs)), k\<lparr>sc_view := sent_to s bs (sc_view k)\<rparr>)\<rparr>"

definition script_start :: "poco_event list \<Rightarrow> (nat \<Rightarrow> chars) \<Rightarrow> script" where
  "script_start es inp = \<lparr>sc_view = no_connections, sc_events = es, sc_input = inp\<rparr>"

lemma script_laws: "poco_laws script_lib sc_view"
proof -
  have "event_law (sc_view k) (fst (script_next k)) (sc_view (snd (script_next k)))" for k
    by (cases k) (simp add: script_next_def event_law_def Let_def split: list.split poco_event.split)
  then have "case script_next k of (e, k') \<Rightarrow> event_law (sc_view k) e (sc_view k')" for k by (simp add: case_prod_unfold)
  then show ?thesis
    by (simp add: poco_laws_def script_lib_def receive_law_def send_law_def Let_def)
qed

lemma script_sends_all: "sends_all script_lib"
  by (simp add: sends_all_def script_lib_def)

lemma script_reads_end: "reads_end script_lib (\<lambda>s k. length (sc_input k s))"
  by (auto simp: reads_end_def script_lib_def Let_def data_buffer_def)

definition hello :: chars where "hello = [72, 101, 108, 108, 111, 44, 32, 80, 111, 99, 111, 33]"

text \<open>One echo connection that sends and closes, and one data connection.\<close>

definition one_of_each :: script where
  "one_of_each = script_start [AcceptEcho 1, AcceptData 2, Notified 1 (EchoReadable 0), Notified 2 (DataReadable 1),
     Notified 1 (EchoReadable 0), Notified 1 (EchoReadable 0), Notified 2 (DataShutdown 1)] (\<lambda>s. if s = 1 \<or> s = 2 then hello else [])"

definition two_data :: script where
  "two_data = script_start [AcceptData 1, Notified 1 (DataReadable 0), AcceptData 2, Notified 2 (DataReadable 1)]
     (\<lambda>s. if s = 1 then hello else if s = 2 then [33] else [])"

definition observe_run :: "(poco_fault + bool \<times> script poco_app) option option \<Rightarrow> (bool \<times> chars \<times> chars \<times> chars) option" where
  "observe_run r =
     (case r of Some (Some (Inr (e, a))) \<Rightarrow>
        Some (e, received (sc_view (net a)) 1, sent (sc_view (net a)) 1, reactorOutput a) | _ \<Rightarrow> None)"

lemma poco_thread_numeral:
  "poco_thread lib (numeral n) a =
     (case next_event lib (net a) of
        (ReactorEnds, k) \<Rightarrow> Some (Inr (True, a\<lparr>net := k\<rparr>))
      | (AcceptEcho socket, k) \<Rightarrow> poco_thread lib (pred_numeral n) (new_EchoHandler lib socket (a\<lparr>net := k\<rparr>))
      | (AcceptData socket, k) \<Rightarrow> poco_thread lib (pred_numeral n) (new_DataHandler lib socket (a\<lparr>net := k\<rparr>))
      | (Notified socket ob, k) \<Rightarrow>
          (case notify_observer lib ob (a\<lparr>net := k\<rparr>) of
             None \<Rightarrow> None
           | Some (Inl x) \<Rightarrow> Some (Inl x)
           | Some (Inr a') \<Rightarrow> poco_thread lib (pred_numeral n) a'))"
  by (simp add: numeral_eq_Suc)

lemmas script_run = poco_main_def poco_start_def poco_thread_numeral script_lib_def script_start_def script_next_def
  new_EchoHandler_def new_DataHandler_def poco_new_def notify_observer_def echo_socketReadable_def data_socketReadable.simps
  data_append_def data_socketShutdown_def destroy_DataHandler_def delete_this_def echo_buffer_def data_buffer_def file_write_def
  no_connections_def new_conn_def read_from_def sent_to_def observe_run_def hello_def Let_def

lemma one_of_each_run: "observe_run (poco_main script_lib 8 one_of_each) = Some (True, hello, hello, hello)"
  by (simp add: script_run one_of_each_def)

text \<open>The second \<open>DataHandler\<close> empties the file that the first one has written.\<close>

lemma data_handlers_overwrite: "observe_run (poco_main script_lib 5 two_data) = Some (True, hello, [], [33])"
  by (simp add: script_run two_data_def)

section \<open>What the server promises\<close>

text \<open>
  Claim C20. No notification reaches a deleted handler, or a handler of the wrong class: in any number of events the
  thread of the reactor has no fault, and whatever is registered has a live handler with its socket. The thread does not get stuck
  in the loop of a \<open>DataHandler\<close> when peers do not send for ever.
\<close>

theorem poco_server_safe:
  assumes "poco_laws lib V" and "reads_end lib M" and "V k0 = no_connections" and "poco_main lib n k0 = Some r"
  shows "\<exists>e a. r = Some (Inr (e, a)) \<and> (\<forall>s ob. (s, ob) \<in> registered (V (net a)) \<longrightarrow>
    observed ob < length (poco_objects a) \<and> (\<exists>h. poco_objects a ! observed ob = Some h \<and> handler_of s ob h))"
proof -
  from assms(4) obtain a0 where a0: "poco_start lib k0 = Some a0" "r = poco_thread lib n a0" by (auto simp: poco_main_def)
  with poco_thread_returns [OF assms(2)] obtain x where x: "r = Some x" by (metis not_None_eq)
  from poco_thread_keeps [OF assms(1) poco_start_ok [OF assms(1,3) a0(1)]] a0(2) x
  obtain e a where "x = Inr (e, a)" "app_ok lib V a" by metis
  with x show ?thesis by (auto simp: app_ok_def server_ok_def observers_live_def)
qed

theorem poco_server_safe_witness:
  "\<exists>e a. poco_main script_lib 7 one_of_each = Some (Some (Inr (e, a))) \<and>
     (\<forall>s ob. (s, ob) \<in> registered (sc_view (net a)) \<longrightarrow>
       observed ob < length (poco_objects a) \<and> (\<exists>h. poco_objects a ! observed ob = Some h \<and> handler_of s ob h))"
proof -
  have "sc_view one_of_each = no_connections" by (simp add: one_of_each_def script_start_def)
  moreover obtain r where r: "poco_main script_lib 7 one_of_each = Some r"
    by (simp add: poco_main_def poco_start_def script_lib_def)
  ultimately show ?thesis using poco_server_safe [OF script_laws script_reads_end _ r] by simp
qed

text \<open>
  Claim C21. If every send takes all bytes, each echo connection has got back what was received of it, in order; and while there has been
  only one data connection, the file holds exactly what was received of it.
\<close>

theorem poco_server_transfers:
  assumes "poco_laws lib V" and "V k0 = no_connections" and "poco_main lib n k0 = Some (Some (Inr (e, a)))"
  shows "(sends_all lib \<longrightarrow> (\<forall>s \<in> set (echo_conns (V (net a))). sent (V (net a)) s = received (V (net a)) s)) \<and>
    (\<forall>s. data_conns (V (net a)) = [s] \<longrightarrow> reactorOutput a = received (V (net a)) s)"
proof -
  from assms(3) obtain a0 where a0: "poco_start lib k0 = Some a0" "poco_thread lib n a0 = Some (Inr (e, a))"
    by (auto simp: poco_main_def)
  from poco_thread_keeps [OF assms(1) poco_start_ok [OF assms(1,2) a0(1)] a0(2)] have "app_ok lib V a" by auto
  then show ?thesis by (simp add: app_ok_def server_ok_def echo_ok_def data_ok_def)
qed

theorem poco_server_transfers_witness:
  "\<exists>a. poco_main script_lib 8 one_of_each = Some (Some (Inr (True, a))) \<and> received (sc_view (net a)) 1 = hello \<and>
     (\<forall>s \<in> set (echo_conns (sc_view (net a))). sent (sc_view (net a)) s = received (sc_view (net a)) s)"
proof -
  from one_of_each_run obtain a where a: "poco_main script_lib 8 one_of_each = Some (Some (Inr (True, a)))"
    "received (sc_view (net a)) 1 = hello"
    by (auto simp: observe_run_def split: option.splits sum.splits)
  have "sc_view one_of_each = no_connections" by (simp add: one_of_each_def script_start_def)
  from poco_server_transfers [OF script_laws this a(1)] script_sends_all a show ?thesis by blast
qed

end
