(* ===== verification/Spec2Isabelle.thy ===== *)
theory Spec2Isabelle
  imports Spinlocks Spsc_Queue Counters Lockfree_Stack Readers_First Readers_Second
    Readers_Second_C Readers_Third Single_Buffers Seqlock_Counters Seqlock_Locks Mpsc_Tests
    Mpsc_Stress Buffer_Monitor Buffer_Semaphores Simplest_Readers_Writers Event_Loop_Programs
    Ring_Buffer_Signals Ring_Arrays Light_Semaphore Monitor_Object Hazard_Linearizable Selector
    Histogram Task_Tree Reactor_Pointer Active_Object Lock_Guards Safe_Interface Thread_Programs
    Msd_Ends Epoll_Reactor Spin_Benchmark Mpsc_Single Poco_Reactor
begin

text \<open>
  The programs of this repository are small multi-threaded C++ programs that show a pattern each: locks,
  lock-free containers, sequence locks, producer-consumer problems, channels, event loops, reactors, active
  objects, guards, OpenMP loops and tasks. They share no code. What they have in common is the way they are
  modelled here.

  \<^bold>\<open>Model.\<close> The shared variables of a program (globals, or the members of a shared object) are a
  record. A thread is a datatype of places (a program counter with the local variables that are still needed)
  and a function that lists the outcomes of its next atomic action; no outcome means that it is blocked or has
  returned. \<open>istep\<close> (theory Conc_Prelude) lets any thread take any of its outcomes, \<open>reach\<close> is
  its closure and \<open>sched\<close> an executable schedule. An action is one access to shared memory or one call
  of a lock, semaphore or condition variable; what a thread does with its own variables between two accesses
  is part of the action. Memory is sequentially consistent. Weak exchanges may fail for no reason; timed waits
  may time out when the code's condition allows it; sleeping is an arbitrary delay. Standard output is left
  out, except where it is written under the lock and records the order of the operations.

  \<^bold>\<open>Methods.\<close> Conc_Prelude has three locales: \<open>thread_inv\<close> (an inductive invariant),
  \<open>thread_sim\<close> (a forward simulation of an abstract step relation) and \<open>thread_term\<close> (work that
  every step consumes: no infinite run, every run can reach a stuck state). Each component interprets them on its
  own threads. Mutual exclusion is counted: \<open>cnt P ls\<close> threads are at a place with \<open>P\<close>.

  \<^bold>\<open>Theories and sources\<close> (paths under src/):

    \<^item> Conc_Prelude: interleaving, counting, rings, the locales above. Fifo_Interface: the contract of a
      bounded queue (locale \<open>bounded_fifo\<close>) and what its single-threaded clients may rely on. Fifo_Clients: any programs of one
      producer and one consumer, the specification \<open>queue_spec\<close> of their calls and results, and the locale \<open>one_producer_queue\<close> that proves it.
      Condition_Variables: waiting lists, notifications, the gap between the test and the wait.
    \<^item> Spinlocks: Spinlock/*. Five spin locks with their programs; locale for a program that increments a counter
      under a lock. Spin_Benchmark: Spinlock/benchmarks, whose iterations are counted in the same locale.
    \<^item> Counters: LockFree/Benchmark. Lockfree_Stack: LockFree/{SimpleStack, CompleteStack, AtomicSmartPointerStack,
      AtomicSharedPointerStack}; the heap of nodes is explicit, push and pop simulate an abstract stack.
    \<^item> Spsc_Queue: LockFree/SPSCQueue: linearizability for any clients and any size, and the demos. Mpsc_Queue, Mpsc_Tests, Mpsc_Stress, Mpsc_Single: ProducerConsumer/mpsc_queue_test,
      the queue, its tests, and its linearizability with a single producer.
    \<^item> Light_Switch, Readers_First, Readers_Second, Readers_Second_C, Readers_Third,
      Simplest_Readers_Writers: the readers-writers programs of ProducerConsumer.
    \<^item> Single_Buffers, Buffer_Monitor, Buffer_Semaphores: the bounded buffers of ProducerConsumer.
    \<^item> Seqlock_Client, Seqlock_Register, Seqlock_Counters, Seqlock_Locks: SeqLock/*. The two client programs, and any program of one
      writer and any readers (Seqlock_Register), are proved once in the locale \<open>seqlock\<close>; the six classes are its interpretations.
    \<^item> Event_Loop, Event_Loop_Ends, Event_Loop_Programs: EventLoop/*. The class is proved once for any callables
      (locales \<open>event_sum\<close>, every callable runs exactly once, and \<open>event_order\<close>, those of one
      thread in its order; Event_Loop_Ends, no lost notification and termination).
    \<^item> Ring_Buffer: ProducerConsumer/spsc_daugaard/v1, the byte buffer with messages at aligned offsets, stored and
      loaded byte by byte. Ring_Arrays: arrays of any type on an idle ring. Ring_Buffer_Signals: v2 and v2_std_semaphore, which add the two semaphores, as a
      refinement of v1 that also ends. Light_Semaphore: v2/sema.h, the counting semaphore with spinning, whose count is a 32-bit
      word: it counts within the range of an \<open>int\<close>, and not beyond.
    \<^item> Hazard_Stack, Hazard_Safety, Hazard_Linearizable: LockFree/HazardPointerStack: the steps of push, pop, retire and
      the deletion of retired nodes; no access to a deleted node, no double deletion; simulation of an abstract stack.
    \<^item> Monitor_Object: MonitorObject/{Cpp11, Cpp20}, a mutex and a condition variable that are reached separately.
    \<^item> Channel, Selector: ProducerConsumer/producer_consumer_channel (channel.tpp with its program; the selector with
      its callbacks). Msd_Channel, Msd_Ends: producer_consumer_channel_2 and the termination of its program. The queues that threads share are interpretations of
      the locale \<open>fifo_threads\<close> of Fifo_Interface.
    \<^item> Open_MP: the loops, reductions and critical sections of OpenMP/*: a team of threads with its share of the
      iterations, whose collected quantity is conserved (locale \<open>team_sum\<close> of Conc_Prelude). Histogram: OpenMP/Historgram.
      Task_Tree: OpenMP/Task, with an explicit heap for the tree.
    \<^item> Reactor_Messages: the messages of Reactor/Cpp11 and Cpp11queue (types, bytes, dispatch). Reactor_Queue,
      Reactor_Pointer: the two reactors, with a queue and with one pointer; the pointer races, and its messages are on a heap whose addresses are used again. Epoll_Reactor: Reactor/Cpp98 on a record
      of system calls, which is a parameter; \<open>epoll_laws\<close>, \<open>read_law\<close> say what is relied on. Poco_Reactor: Reactor/Poco in the same way on
      a record of the calls of the Poco library, with the documented behaviour \<open>poco_laws\<close>.
    \<^item> Active_Object: ActiveObject. Lock_Guards: ScopedLocking and both variants of StrategizedLocking, blocks with
      guards and exceptions. Safe_Interface: ThreadSafeInterface. Thread_Programs: ThreadSpecificStorage, CopiedValue,
      GuardedSuspension, Future.

  \<^bold>\<open>What the lemmas show.\<close> Safety: mutual exclusion, readers against writers, first in first out, no torn
  read, order of ring indices, no call of a deleted handler, no cell of a container lost or handed out twice, no access to freed memory, typed handlers.
  Refinement: stacks and queues against their abstract counterparts, the signalled ring buffer against the plain one,
  parallel loops and tasks against sequential ones. Progress: programs that end (by a
  measure) and states where they cannot (a reachable stuck configuration). Where the code does not do what
  it means to, a theorem gives a schedule that shows it: an unwritten cell popped from the MPSC queue, lost
  notifications of the monitor and of a channel, a selector that sleeps while data is there, an element taken from an
  empty list, a message of a reactor that is deleted twice or while it is read, consumers that leave or over-release a semaphore, readers that are
  never told of the end, a balance that is printed too early.

  \<^bold>\<open>Bounds.\<close> Numbers that are shared between threads and can wrap are words (sequence counters, ring indices, 64
  or 32 bits); where a theorem needs that they have not wrapped the bound is a hypothesis or follows from the
  number of operations of the program. Fuel is in \<open>drain\<close>, whose lemma shows that one call more than
  there are elements is enough, and in the number of rounds of the endless loop of Epoll_Reactor (\<open>serve\<close>) and in
  the number of events of Poco_Reactor (\<open>poco_thread\<close>), where theorems hold for every number.

  \<^bold>\<open>Not modelled.\<close> Weak memory orders, time, thread creation and its failures, printing in general, the code of the libraries
  (Poco, Google Benchmark, POSIX), which are parameters. The main functions of the benchmarks measure time and are left out, as are the parts of the test programs that only
  print.
\<close>

end
